(* ===== verification/Prelude.thy ===== *)
theory Prelude
  imports Main "HOL-Library.Word"
begin

text \<open>
  Shared vocabulary of the development: the C integer types as words, the collections of
  rewrite rules that the component theories extend, and the generic facts about masks,
  shifts and byte packing on which the component proofs rest.
\<close>

unbundle bit_operations_syntax

type_synonym u8 = "8 word"
type_synonym u16 = "16 word"
type_synonym u32 = "32 word"
type_synonym u64 = "64 word"

named_theorems bits_arith \<open>masks, shifts and disjoint unions of bits as arithmetic\<close>
named_theorems code_defs \<open>the definitions that translate the source\<close>

text \<open>The kernel error codes, \<^verbatim>\<open>src/common/include/kernel/error.h\<close>.\<close>

datatype dancy_error =
    DE_SUCCESS | DE_FAILURE | DE_UNEXPECTED | DE_MEMORY | DE_ACCESS
  | DE_CHECKSUM | DE_ARGUMENT | DE_RETRY | DE_EMPTY | DE_NOT_EMPTY
  | DE_PIPE | DE_UNINITIALIZED | DE_UNSUPPORTED | DE_PLACEHOLDER | DE_SEARCH
  | DE_INTERRUPT | DE_BUFFER | DE_NAME | DE_PATH | DE_OVERFLOW
  | DE_SEQUENCE | DE_DIRECTORY | DE_FILE | DE_BLOCK_READ | DE_BLOCK_WRITE
  | DE_READ | DE_WRITE | DE_SEEK | DE_FULL | DE_READ_ONLY
  | DE_BUSY | DE_TYPE | DE_NULL | DE_ADDRESS | DE_ALIGNMENT
  | DE_MEDIA_CHANGED | DE_ADDRESS_MARK | DE_OVERRUN | DE_COFF_SIGNATURE | DE_COFF_SIZE
  | DE_COFF_HEADER | DE_COFF_SECTION | DE_COFF_FLAG | DE_COFF_SYMBOL | DE_COFF_EXTERNAL
  | DE_COFF_RELOCATION | DE_COFF_START | DE_COFF_FORMAT | DE_USB_STALL

subsection \<open>Masks and shifts as arithmetic\<close>

lemma and_mask_int_eq: "m = 2 ^ n - 1 \<Longrightarrow> k = 2 ^ n \<Longrightarrow> x AND m = x mod k" for x :: int
proof -
  assume "m = 2 ^ n - 1" "k = 2 ^ n"
  moreover have "x AND mask n = x mod 2 ^ n"
    by (simp only: take_bit_eq_mod flip: take_bit_eq_mask)
  ultimately show ?thesis by (simp only: mask_eq_exp_minus_1)
qed

lemma and_mask_nat_eq: "m = 2 ^ n - 1 \<Longrightarrow> k = 2 ^ n \<Longrightarrow> x AND m = x mod k" for x :: nat
proof -
  assume "m = 2 ^ n - 1" "k = 2 ^ n"
  moreover have "x AND mask n = x mod 2 ^ n"
    by (simp only: take_bit_eq_mod flip: take_bit_eq_mask)
  ultimately show ?thesis by (simp only: mask_eq_exp_minus_1)
qed

lemma and_mask_int [bits_arith]:
  fixes x :: int
  shows "x AND 3 = x mod 4"
    "x AND 7 = x mod 8"
    "x AND 15 = x mod 16"
    "x AND 31 = x mod 32"
    "x AND 63 = x mod 64"
    "x AND 127 = x mod 128"
    "x AND 255 = x mod 256"
    "x AND 4095 = x mod 4096"
    "x AND 65535 = x mod 65536"
proof -
  show "x AND 3 = x mod 4" by (rule and_mask_int_eq [of _ 2]) simp_all
  show "x AND 7 = x mod 8" by (rule and_mask_int_eq [of _ 3]) simp_all
  show "x AND 15 = x mod 16" by (rule and_mask_int_eq [of _ 4]) simp_all
  show "x AND 31 = x mod 32" by (rule and_mask_int_eq [of _ 5]) simp_all
  show "x AND 63 = x mod 64" by (rule and_mask_int_eq [of _ 6]) simp_all
  show "x AND 127 = x mod 128" by (rule and_mask_int_eq [of _ 7]) simp_all
  show "x AND 255 = x mod 256" by (rule and_mask_int_eq [of _ 8]) simp_all
  show "x AND 4095 = x mod 4096" by (rule and_mask_int_eq [of _ 12]) simp_all
  show "x AND 65535 = x mod 65536" by (rule and_mask_int_eq [of _ 16]) simp_all
qed

lemma and_mask_nat [bits_arith]:
  fixes x :: nat
  shows "x AND 3 = x mod 4"
    "x AND 7 = x mod 8"
    "x AND 15 = x mod 16"
    "x AND 31 = x mod 32"
    "x AND 63 = x mod 64"
    "x AND 127 = x mod 128"
    "x AND 255 = x mod 256"
    "x AND 4095 = x mod 4096"
    "x AND 65535 = x mod 65536"
proof -
  show "x AND 3 = x mod 4" by (rule and_mask_nat_eq [of _ 2]) simp_all
  show "x AND 7 = x mod 8" by (rule and_mask_nat_eq [of _ 3]) simp_all
  show "x AND 15 = x mod 16" by (rule and_mask_nat_eq [of _ 4]) simp_all
  show "x AND 31 = x mod 32" by (rule and_mask_nat_eq [of _ 5]) simp_all
  show "x AND 63 = x mod 64" by (rule and_mask_nat_eq [of _ 6]) simp_all
  show "x AND 127 = x mod 128" by (rule and_mask_nat_eq [of _ 7]) simp_all
  show "x AND 255 = x mod 256" by (rule and_mask_nat_eq [of _ 8]) simp_all
  show "x AND 4095 = x mod 4096" by (rule and_mask_nat_eq [of _ 12]) simp_all
  show "x AND 65535 = x mod 65536" by (rule and_mask_nat_eq [of _ 16]) simp_all
qed

lemma or_disjoint_add:
  fixes x y :: int
  assumes "0 \<le> y" "y < 2 ^ n"
  shows "push_bit n x OR y = x * 2 ^ n + y"
proof -
  have "bit y k \<Longrightarrow> k < n" for k
    using assms by (metis bit_take_bit_iff take_bit_int_eq_self)
  then have "push_bit n x AND y = 0"
    by (fastforce simp: bit_eq_iff bit_and_iff bit_push_bit_iff)
  then have "push_bit n x OR y = push_bit n x + y"
    by (rule disjunctive_add_eq_or [symmetric])
  then show ?thesis by (simp only: push_bit_eq_mult)
qed

lemma and_push_bit: "x AND push_bit n m = push_bit n (drop_bit n x AND m)" for x m :: int
  by (rule bit_eqI) (auto simp: bit_simps)

lemma uint_drop_bit_div: "uint (drop_bit n w) = uint w div 2 ^ n" for w :: "'a::len word"
  by (simp only: unsigned_drop_bit_eq bintr_uint [OF order_refl]) (rule drop_bit_eq_div)

lemma unat_drop_bit_div: "unat (drop_bit n w) = unat w div 2 ^ n" for w :: "'a::len word"
  by (subst unat_drop_bit_eq) (rule drop_bit_eq_div)

lemma or_push_bit: "r < 2 ^ n \<Longrightarrow> r OR push_bit n x = r + 2 ^ n * x" for r x :: nat
proof -
  assume r: "r < 2 ^ n"
  have "r AND push_bit n x = 0"
  proof (rule bit_eqI)
    fix k
    have "bit r k \<Longrightarrow> k < n" using r by (metis bit_take_bit_iff take_bit_nat_eq_self)
    then show "bit (r AND push_bit n x) k = bit 0 k" by (auto simp: bit_simps)
  qed
  then have "r OR push_bit n x = r + push_bit n x" by (rule disjunctive_add_eq_or [symmetric])
  then show ?thesis by (simp add: push_bit_eq_mult mult.commute)
qed

end
