(* ===== verification/Utf8.thy ===== *)
theory Utf8
  imports Prelude
begin

text \<open>
  The UTF-8 coder of \<^verbatim>\<open>src/common/utf8.c\<close>: the incremental decoder
  \<^verbatim>\<open>utf8_decode\<close>, whose whole state is one C \<open>int\<close> that the caller keeps, and
  the encoder \<^verbatim>\<open>utf8_encode\<close>.
\<close>

definition UTF8_WAITING_NEXT :: int where
  "UTF8_WAITING_NEXT = -1"

definition UTF8_ERROR_CONSUME :: int where
  "UTF8_ERROR_CONSUME = -2"

definition UTF8_ERROR_RETRY :: int where
  "UTF8_ERROR_RETRY = -3"

definition utf8_table :: "int list" where
  "utf8_table =
    [0, 0, 0, 0, 0, 0, 0, 0, 0, 0, 0, 0, 0, 0, 0, 0,
     1, 1, 1, 1, 1, 1, 1, 1, 2, 2, 2, 2, 3, 3, 4, -1]"

definition utf8_mask_table :: "int list" where
  "utf8_mask_table = [0x00, 0x1F, 0x0F, 0x07]"

definition utf8_overlong_table :: "int list" where
  "utf8_overlong_table = [0x00, 0x80, 0x800, 0x10000]"

text \<open>The result is the returned value and the new content of \<^verbatim>\<open>*state\<close>.\<close>

definition utf8_decode :: "int \<Rightarrow> u8 \<Rightarrow> int \<times> int" where
  "utf8_decode state c =
    (if state = 0 then
       (if c < 0x80 then (uint c, state)
        else
          let offset = utf8_table ! unat (drop_bit 3 c) in
          if offset \<le> 1 then (UTF8_ERROR_CONSUME, state)
          else
            let offset = offset - 1;
                val = uint c AND (utf8_mask_table ! nat offset)
            in (UTF8_WAITING_NEXT, push_bit 4 val OR push_bit 2 offset OR offset))
     else
       let offset = utf8_table ! unat (drop_bit 3 c) in
       if offset \<noteq> 1 then (UTF8_ERROR_RETRY, 0)
       else
         let offset = state AND 0x0F;
             val = push_bit 2 (state AND 0x7FFF0) OR (uint c AND 0x3F)
         in
           if offset AND 0x03 > 1 then (UTF8_WAITING_NEXT, push_bit 4 val OR (offset - 1))
           else if val < utf8_overlong_table ! nat (drop_bit 2 offset)
             then (UTF8_ERROR_CONSUME, 0)
           else if (0xD800 \<le> val \<and> val \<le> 0xDFFF) \<or> val > 0x10FFFF
             then (UTF8_ERROR_CONSUME, 0)
           else (val, 0))"

text \<open>
  The encoder stores its bytes in \<^verbatim>\<open>out\<close> from index 0 and returns how many it
  stored; the model returns the count together with the stored bytes.
\<close>

definition utf8_encode :: "u32 \<Rightarrow> int \<times> u8 list" where
  "utf8_encode unicode =
    (if unicode \<le> 0x7F then (1, [ucast unicode])
     else if unicode \<le> 0x07FF then
       (2, [ucast (0xC0 + drop_bit 6 unicode), ucast (0x80 + (unicode AND 0x3F))])
     else if 0xD800 \<le> unicode \<and> unicode \<le> 0xDFFF then (0, [])
     else if unicode \<le> 0xFFFF then
       (3, [ucast (0xE0 + drop_bit 12 unicode), ucast (0x80 + (drop_bit 6 unicode AND 0x3F)),
            ucast (0x80 + (unicode AND 0x3F))])
     else if unicode \<le> 0x10FFFF then
       (4, [ucast (0xF0 + drop_bit 18 unicode), ucast (0x80 + (drop_bit 12 unicode AND 0x3F)),
            ucast (0x80 + (drop_bit 6 unicode AND 0x3F)), ucast (0x80 + (unicode AND 0x3F))])
     else (0, []))"

text \<open>Feeding a byte sequence to the decoder: the values returned and the last state.\<close>

fun utf8_feed :: "int \<Rightarrow> u8 list \<Rightarrow> int list \<times> int" where
  "utf8_feed state [] = ([], state)"
| "utf8_feed state (c # cs) =
    (let (r, state') = utf8_decode state c; (rs, state'') = utf8_feed state' cs
     in (r # rs, state''))"

text \<open>Unicode scalar values, the specification of what can be encoded.\<close>

definition scalar_value :: "int \<Rightarrow> bool" where
  "scalar_value u \<longleftrightarrow> 0 \<le> u \<and> u \<le> 0x10FFFF \<and> \<not> (0xD800 \<le> u \<and> u \<le> 0xDFFF)"

subsection \<open>The decoder as arithmetic\<close>

lemma utf8_table_nth:
  "n < 32 \<Longrightarrow> utf8_table ! n =
    (if n < 16 then 0 else if n < 24 then 1 else if n < 28 then 2 else if n < 30 then 3
     else if n < 31 then 4 else -1)"
  by (simp add: utf8_table_def nth_Cons')

lemma byte_class:
  "utf8_table ! unat (drop_bit 3 c) =
    (if uint c < 0x80 then 0 else if uint c < 0xC0 then 1 else if uint c < 0xE0 then 2
     else if uint c < 0xF0 then 3 else if uint c < 0xF8 then 4 else -1)"
  for c :: u8
proof -
  define n where "n = unat c"
  have n: "uint c = int n" by (simp add: n_def)
  have "n < 256"
    using unsigned_less [of c, where 'a = nat] by (simp add: n_def)
  moreover have "unat (drop_bit 3 c) = n div 8"
    by (simp only: unat_drop_bit_div n_def) simp
  ultimately show ?thesis
    by (auto simp: n utf8_table_nth)
qed

lemma decode_start:
  "utf8_decode 0 c =
    (if uint c < 0x80 then (uint c, 0)
     else if uint c < 0xC0 \<or> 0xF8 \<le> uint c then (UTF8_ERROR_CONSUME, 0)
     else if uint c < 0xE0 then (UTF8_WAITING_NEXT, 16 * (uint c mod 32) + 5)
     else if uint c < 0xF0 then (UTF8_WAITING_NEXT, 16 * (uint c mod 16) + 10)
     else (UTF8_WAITING_NEXT, 16 * (uint c mod 8) + 15))"
proof -
  have small: "c < 0x80 \<longleftrightarrow> uint c < 0x80"
    by (simp add: word_less_def)
  have pack: "push_bit 4 x OR y = 16 * x + y" if "0 \<le> y" "y < 16" for x y :: int
    using or_disjoint_add [of y 4 x] that by simp
  show ?thesis
    unfolding utf8_decode_def byte_class small
    by (simp add: Let_def utf8_mask_table_def bits_arith pack del: push_bit_and)
qed

lemma decode_cont:
  assumes "0 \<le> v" "v < 2 ^ 15" "1 \<le> k" "k \<le> 3" "1 \<le> r" "r \<le> 3"
  shows "utf8_decode (16 * v + 4 * k + r) c =
    (if \<not> (0x80 \<le> uint c \<and> uint c < 0xC0) then (UTF8_ERROR_RETRY, 0)
     else
       let w = 64 * v + uint c mod 64 in
       if 1 < r then (UTF8_WAITING_NEXT, 16 * w + 4 * k + (r - 1))
       else if w < utf8_overlong_table ! nat k \<or> \<not> scalar_value w
         then (UTF8_ERROR_CONSUME, 0)
       else (w, 0))"
proof -
  let ?s = "16 * v + 4 * k + r"
  have s0: "?s \<noteq> 0" using assms by linarith
  have low: "?s AND 15 = 4 * k + r"
    unfolding bits_arith using assms by (simp add: add.assoc)
  have low3: "(4 * k + r) AND 3 = r"
    unfolding bits_arith using assms by simp
  have k: "drop_bit 2 (4 * k + r) = k"
    using assms by (simp add: drop_bit_eq_div)
  have "?s AND 0x7FFF0 = push_bit 4 (drop_bit 4 ?s AND 0x7FFF)"
    using and_push_bit [of ?s 4 "0x7FFF"] by simp
  also have "drop_bit 4 ?s = v"
    using assms by (simp add: drop_bit_eq_div)
  also have "v AND 0x7FFF = v"
    using assms and_mask_int_eq [of "0x7FFF" 15 "2 ^ 15" v] by simp
  finally have high: "push_bit 2 (?s AND 0x7FFF0) = push_bit 6 v"
    by (simp add: push_bit_eq_mult)
  have w: "push_bit 2 (?s AND 0x7FFF0) OR (uint c AND 63) = 64 * v + uint c mod 64"
    unfolding high using or_disjoint_add [of "uint c mod 64" 6 v] by (simp add: bits_arith)
  have pack: "push_bit 4 x OR (4 * k + r - 1) = 16 * x + 4 * k + (r - 1)" for x :: int
    using or_disjoint_add [of "4 * k + r - 1" 4 x] assms by simp
  have "0 \<le> 64 * v + uint c mod 64" using assms by simp
  then show ?thesis
    unfolding utf8_decode_def byte_class low w Let_def low3 k pack
    using s0 by (auto simp: scalar_value_def)
qed

subsection \<open>The reachable decoder states\<close>

text \<open>
  Between calls the state is zero or packs the bits collected so far, the number of
  continuation bytes of the sequence and the number still expected.
\<close>

definition utf8_state :: "int \<Rightarrow> bool" where
  "utf8_state s \<longleftrightarrow> s = 0 \<or>
    (\<exists>v k r. s = 16 * v + 4 * k + r \<and> 0 \<le> v \<and> 1 \<le> r \<and> r \<le> k \<and> k \<le> 3 \<and>
      v < 2 ^ nat (6 * (k - r) + (if k = 1 then 5 else if k = 2 then 4 else 3)))"

lemma three_cases: "1 \<le> k \<Longrightarrow> k \<le> 3 \<Longrightarrow> k = 1 \<or> k = 2 \<or> k = (3::int)"
  by linarith

lemma utf8_stateE:
  assumes "utf8_state s" "s \<noteq> 0"
  obtains v k r where "s = 16 * v + 4 * k + r" "0 \<le> v" "v < 2 ^ 15" "1 \<le> k" "k \<le> 3"
    "1 \<le> r" "r \<le> k"
    "1 < r \<Longrightarrow> 64 * v + 63 < 2 ^ nat (6 * (k - (r - 1)) + (if k = 1 then 5 else if k = 2 then 4 else 3))"
proof -
  from assms obtain v k r where *: "s = 16 * v + 4 * k + r" "0 \<le> v" "1 \<le> r" "r \<le> k" "k \<le> 3"
      "v < 2 ^ nat (6 * (k - r) + (if k = 1 then 5 else if k = 2 then 4 else 3))"
    unfolding utf8_state_def by blast
  have k: "k = 1 \<or> k = 2 \<or> k = 3" using * by (intro three_cases) auto
  have r: "r = 1 \<or> r = 2 \<or> r = 3" using * by (intro three_cases) auto
  show ?thesis
    by (rule that [of v k r]) (use * k r in auto)
qed

lemma utf8_state_step: "utf8_state s \<Longrightarrow> utf8_state (snd (utf8_decode s c))"
proof (cases "s = 0")
  case True
  have "utf8_state (16 * v + 5)" if "0 \<le> v" "v < 32" for v
    unfolding utf8_state_def using that
    by (intro disjI2 exI [of _ v] exI [of _ 1]) simp
  moreover have "utf8_state (16 * v + 10)" if "0 \<le> v" "v < 16" for v
    unfolding utf8_state_def using that
    by (intro disjI2 exI [of _ v] exI [of _ 2]) simp
  moreover have "utf8_state (16 * v + 15)" if "0 \<le> v" "v < 8" for v
    unfolding utf8_state_def using that
    by (intro disjI2 exI [of _ v] exI [of _ 3]) simp
  moreover have "utf8_state 0" by (simp add: utf8_state_def)
  ultimately show ?thesis by (simp add: True decode_start)
next
  case False
  assume "utf8_state s"
  from this False obtain v k r where *: "s = 16 * v + 4 * k + r" "0 \<le> v" "v < 2 ^ 15" "1 \<le> k"
      "k \<le> 3" "1 \<le> r" "r \<le> k"
      "1 < r \<Longrightarrow> 64 * v + 63 < 2 ^ nat (6 * (k - (r - 1)) + (if k = 1 then 5 else if k = 2 then 4 else 3))"
    by (erule utf8_stateE)
  define w where "w = 64 * v + uint c mod 64"
  have "utf8_state (16 * w + 4 * k + (r - 1))" if "1 < r"
    unfolding utf8_state_def
  proof (intro disjI2 exI conjI)
    show "w < 2 ^ nat (6 * (k - (r - 1)) + (if k = 1 then 5 else if k = 2 then 4 else 3))"
      using * (8) [OF that] pos_mod_bound [of 64 "uint c"] unfolding w_def by linarith
  qed (use * that in \<open>auto simp: w_def\<close>)
  moreover have "utf8_state 0" by (simp add: utf8_state_def)
  ultimately show ?thesis
    using * unfolding * (1) by (subst decode_cont) (auto simp: Let_def w_def)
qed

subsection \<open>Encoding, then decoding\<close>

lemma uint_byte_add:
  fixes x :: u32
  assumes "0 \<le> a" "a + uint x < 256"
  shows "uint (ucast (word_of_int a + x) :: u8) = a + uint x"
proof -
  have "0 \<le> uint x" by simp
  with assms have "a < 256" by linarith
  with assms have "uint (word_of_int a + x) = a + uint x"
    by (simp add: uint_word_ariths uint_word_of_int)
  then show ?thesis
    using assms by (simp add: unsigned_ucast_eq take_bit_eq_mod)
qed

lemma uint_and_3F: "uint (x AND 0x3F) = uint x mod 64" for x :: u32
  by (simp add: uint_and bits_arith)

lemma encode_bytes:
  fixes w :: u32
  defines "u \<equiv> uint w"
  assumes "scalar_value u"
  shows "map uint (snd (utf8_encode w)) =
    (if u \<le> 0x7F then [u]
     else if u \<le> 0x7FF then [0xC0 + u div 64, 0x80 + u mod 64]
     else if u \<le> 0xFFFF then [0xE0 + u div 4096, 0x80 + u div 64 mod 64, 0x80 + u mod 64]
     else [0xF0 + u div 262144, 0x80 + u div 4096 mod 64, 0x80 + u div 64 mod 64, 0x80 + u mod 64])"
proof -
  note add = uint_byte_add [of "0xC0", simplified] uint_byte_add [of "0x80", simplified]
    uint_byte_add [of "0xE0", simplified] uint_byte_add [of "0xF0", simplified]
  have le: "w \<le> 0x7F \<longleftrightarrow> u \<le> 0x7F" "w \<le> 0x7FF \<longleftrightarrow> u \<le> 0x7FF" "w \<le> 0xFFFF \<longleftrightarrow> u \<le> 0xFFFF"
    "w \<le> 0x10FFFF \<longleftrightarrow> u \<le> 0x10FFFF" "0xD800 \<le> w \<longleftrightarrow> 0xD800 \<le> u" "w \<le> 0xDFFF \<longleftrightarrow> u \<le> 0xDFFF"
    by (simp_all add: word_le_def u_def)
  have one: "uint (ucast w :: u8) = u" if "u \<le> 0x7F"
    using that by (simp add: u_def unsigned_ucast_eq take_bit_eq_mod)
  have m: "uint (x AND 0x3F) < 64" for x :: u32
    by (simp add: uint_and_3F)
  show ?thesis
    unfolding utf8_encode_def le using assms(2)
    by (auto simp: scalar_value_def add one m uint_and_3F uint_drop_bit_div u_def [symmetric])
qed

text \<open>Continuation bytes carry six bits each.\<close>

lemma decode_cont_state:
  assumes "0 \<le> v" "v < 2 ^ 15"
  shows "utf8_decode (16 * v + 5) c =
      (if \<not> (0x80 \<le> uint c \<and> uint c < 0xC0) then (UTF8_ERROR_RETRY, 0)
       else let w = 64 * v + uint c mod 64 in
         if w < 0x80 \<or> \<not> scalar_value w then (UTF8_ERROR_CONSUME, 0) else (w, 0))"
    and "utf8_decode (16 * v + 9) c =
      (if \<not> (0x80 \<le> uint c \<and> uint c < 0xC0) then (UTF8_ERROR_RETRY, 0)
       else let w = 64 * v + uint c mod 64 in
         if w < 0x800 \<or> \<not> scalar_value w then (UTF8_ERROR_CONSUME, 0) else (w, 0))"
    and "utf8_decode (16 * v + 13) c =
      (if \<not> (0x80 \<le> uint c \<and> uint c < 0xC0) then (UTF8_ERROR_RETRY, 0)
       else let w = 64 * v + uint c mod 64 in
         if w < 0x10000 \<or> \<not> scalar_value w then (UTF8_ERROR_CONSUME, 0) else (w, 0))"
    and "utf8_decode (16 * v + 10) c =
      (if \<not> (0x80 \<le> uint c \<and> uint c < 0xC0) then (UTF8_ERROR_RETRY, 0)
       else (UTF8_WAITING_NEXT, 16 * (64 * v + uint c mod 64) + 9))"
    and "utf8_decode (16 * v + 14) c =
      (if \<not> (0x80 \<le> uint c \<and> uint c < 0xC0) then (UTF8_ERROR_RETRY, 0)
       else (UTF8_WAITING_NEXT, 16 * (64 * v + uint c mod 64) + 13))"
    and "utf8_decode (16 * v + 15) c =
      (if \<not> (0x80 \<le> uint c \<and> uint c < 0xC0) then (UTF8_ERROR_RETRY, 0)
       else (UTF8_WAITING_NEXT, 16 * (64 * v + uint c mod 64) + 14))"
proof -
  have e: "16 * v + 5 = 16 * v + 4 * 1 + 1" "16 * v + 9 = 16 * v + 4 * 2 + 1"
    "16 * v + 13 = 16 * v + 4 * 3 + 1" "16 * v + 10 = 16 * v + 4 * 2 + 2"
    "16 * v + 14 = 16 * v + 4 * 3 + 2" "16 * v + 15 = 16 * v + 4 * 3 + 3"
    by simp_all
  show "utf8_decode (16 * v + 5) c =
      (if \<not> (0x80 \<le> uint c \<and> uint c < 0xC0) then (UTF8_ERROR_RETRY, 0)
       else let w = 64 * v + uint c mod 64 in
         if w < 0x80 \<or> \<not> scalar_value w then (UTF8_ERROR_CONSUME, 0) else (w, 0))"
    unfolding e(1) by (subst decode_cont) (use assms in \<open>simp_all add: Let_def utf8_overlong_table_def\<close>)
  show "utf8_decode (16 * v + 9) c =
      (if \<not> (0x80 \<le> uint c \<and> uint c < 0xC0) then (UTF8_ERROR_RETRY, 0)
       else let w = 64 * v + uint c mod 64 in
         if w < 0x800 \<or> \<not> scalar_value w then (UTF8_ERROR_CONSUME, 0) else (w, 0))"
    unfolding e(2) by (subst decode_cont) (use assms in \<open>simp_all add: Let_def utf8_overlong_table_def\<close>)
  show "utf8_decode (16 * v + 13) c =
      (if \<not> (0x80 \<le> uint c \<and> uint c < 0xC0) then (UTF8_ERROR_RETRY, 0)
       else let w = 64 * v + uint c mod 64 in
         if w < 0x10000 \<or> \<not> scalar_value w then (UTF8_ERROR_CONSUME, 0) else (w, 0))"
    unfolding e(3) by (subst decode_cont) (use assms in \<open>simp_all add: Let_def utf8_overlong_table_def\<close>)
  show "utf8_decode (16 * v + 10) c =
      (if \<not> (0x80 \<le> uint c \<and> uint c < 0xC0) then (UTF8_ERROR_RETRY, 0)
       else (UTF8_WAITING_NEXT, 16 * (64 * v + uint c mod 64) + 9))"
    unfolding e(4) by (subst decode_cont) (use assms in \<open>simp_all add: Let_def utf8_overlong_table_def\<close>)
  show "utf8_decode (16 * v + 14) c =
      (if \<not> (0x80 \<le> uint c \<and> uint c < 0xC0) then (UTF8_ERROR_RETRY, 0)
       else (UTF8_WAITING_NEXT, 16 * (64 * v + uint c mod 64) + 13))"
    unfolding e(5) by (subst decode_cont) (use assms in \<open>simp_all add: Let_def utf8_overlong_table_def\<close>)
  show "utf8_decode (16 * v + 15) c =
      (if \<not> (0x80 \<le> uint c \<and> uint c < 0xC0) then (UTF8_ERROR_RETRY, 0)
       else (UTF8_WAITING_NEXT, 16 * (64 * v + uint c mod 64) + 14))"
    unfolding e(6) by (subst decode_cont) (use assms in \<open>simp_all add: Let_def utf8_overlong_table_def\<close>)
qed

lemma decode_lead:
  "uint c = 0xC0 + v \<Longrightarrow> 0 \<le> v \<Longrightarrow> v < 32 \<Longrightarrow> utf8_decode 0 c = (UTF8_WAITING_NEXT, 16 * v + 5)"
  "uint c = 0xE0 + v \<Longrightarrow> 0 \<le> v \<Longrightarrow> v < 16 \<Longrightarrow> utf8_decode 0 c = (UTF8_WAITING_NEXT, 16 * v + 10)"
  "uint c = 0xF0 + v \<Longrightarrow> 0 \<le> v \<Longrightarrow> v < 8 \<Longrightarrow> utf8_decode 0 c = (UTF8_WAITING_NEXT, 16 * v + 15)"
proof -
  have "0 \<le> v \<Longrightarrow> v < 32 \<Longrightarrow> (0xC0 + v) mod 32 = v" "0 \<le> v \<Longrightarrow> v < 16 \<Longrightarrow> (0xE0 + v) mod 16 = v"
    "0 \<le> v \<Longrightarrow> v < 8 \<Longrightarrow> (0xF0 + v) mod 8 = v"
    by presburger+
  then show "uint c = 0xC0 + v \<Longrightarrow> 0 \<le> v \<Longrightarrow> v < 32 \<Longrightarrow> utf8_decode 0 c = (UTF8_WAITING_NEXT, 16 * v + 5)"
    "uint c = 0xE0 + v \<Longrightarrow> 0 \<le> v \<Longrightarrow> v < 16 \<Longrightarrow> utf8_decode 0 c = (UTF8_WAITING_NEXT, 16 * v + 10)"
    "uint c = 0xF0 + v \<Longrightarrow> 0 \<le> v \<Longrightarrow> v < 8 \<Longrightarrow> utf8_decode 0 c = (UTF8_WAITING_NEXT, 16 * v + 15)"
    by (simp_all add: decode_start)
qed

lemma decode_tail:
  assumes "v = w div 64" "0 \<le> w" "w < 2 ^ 21" "uint c = 0x80 + w mod 64"
  shows "0x80 \<le> w \<Longrightarrow> scalar_value w \<Longrightarrow> utf8_decode (16 * v + 5) c = (w, 0)"
    and "0x800 \<le> w \<Longrightarrow> scalar_value w \<Longrightarrow> utf8_decode (16 * v + 9) c = (w, 0)"
    and "0x10000 \<le> w \<Longrightarrow> scalar_value w \<Longrightarrow> utf8_decode (16 * v + 13) c = (w, 0)"
    and "utf8_decode (16 * v + 10) c = (UTF8_WAITING_NEXT, 16 * w + 9)"
    and "utf8_decode (16 * v + 14) c = (UTF8_WAITING_NEXT, 16 * w + 13)"
    and "utf8_decode (16 * v + 15) c = (UTF8_WAITING_NEXT, 16 * w + 14)"
proof -
  have v: "0 \<le> v" "v < 2 ^ 15" using assms(1-3) by simp_all
  have "(0x80 + w mod 64) mod 64 = w mod 64"
    using mod_mult_self3 [of 2 "64::int" "w mod 64"] by simp
  then have "64 * v + uint c mod 64 = w" "0x80 \<le> uint c" "uint c < 0xC0"
    unfolding assms(1,4) by simp_all
  then show "0x80 \<le> w \<Longrightarrow> scalar_value w \<Longrightarrow> utf8_decode (16 * v + 5) c = (w, 0)"
    "0x800 \<le> w \<Longrightarrow> scalar_value w \<Longrightarrow> utf8_decode (16 * v + 9) c = (w, 0)"
    "0x10000 \<le> w \<Longrightarrow> scalar_value w \<Longrightarrow> utf8_decode (16 * v + 13) c = (w, 0)"
    "utf8_decode (16 * v + 10) c = (UTF8_WAITING_NEXT, 16 * w + 9)"
    "utf8_decode (16 * v + 14) c = (UTF8_WAITING_NEXT, 16 * w + 13)"
    "utf8_decode (16 * v + 15) c = (UTF8_WAITING_NEXT, 16 * w + 14)"
    by (simp_all add: decode_cont_state [OF v] Let_def)
qed

lemma feed2: "utf8_feed 0 [c1, c2] = ([UTF8_WAITING_NEXT, u], 0)"
  if q: "q = u div 64"
    and c: "uint c1 = 0xC0 + q" "uint c2 = 0x80 + u mod 64"
    and u: "0x80 \<le> u" "u < 0x800" "scalar_value u"
proof -
  have "utf8_decode 0 c1 = (UTF8_WAITING_NEXT, 16 * q + 5)"
    by (rule decode_lead) (use c u q in auto)
  moreover have "utf8_decode (16 * q + 5) c2 = (u, 0)"
    by (rule decode_tail [OF q]) (use c u in auto)
  ultimately show ?thesis by simp
qed

lemma feed3: "utf8_feed 0 [c1, c2, c3] = ([UTF8_WAITING_NEXT, UTF8_WAITING_NEXT, u], 0)"
  if q: "q = u div 64" "p = q div 64"
    and c: "uint c1 = 0xE0 + p" "uint c2 = 0x80 + q mod 64" "uint c3 = 0x80 + u mod 64"
    and u: "0x800 \<le> u" "u < 0x10000" "scalar_value u"
proof -
  have b: "0 \<le> q" "q < 1024" using q(1) u by auto
  have "utf8_decode 0 c1 = (UTF8_WAITING_NEXT, 16 * p + 10)"
    by (rule decode_lead) (use c(1) b q(2) in auto)
  moreover have "utf8_decode (16 * p + 10) c2 = (UTF8_WAITING_NEXT, 16 * q + 9)"
    by (rule decode_tail [OF q(2)]) (use c(2) b in auto)
  moreover have "utf8_decode (16 * q + 9) c3 = (u, 0)"
    by (rule decode_tail [OF q(1)]) (use c(3) u in auto)
  ultimately show ?thesis by simp
qed

lemma feed4: "utf8_feed 0 [c1, c2, c3, c4] =
    ([UTF8_WAITING_NEXT, UTF8_WAITING_NEXT, UTF8_WAITING_NEXT, u], 0)"
  if q: "q = u div 64" "p = q div 64" "r = p div 64"
    and c: "uint c1 = 0xF0 + r" "uint c2 = 0x80 + p mod 64" "uint c3 = 0x80 + q mod 64"
      "uint c4 = 0x80 + u mod 64"
    and u: "0x10000 \<le> u" "scalar_value u"
proof -
  have m: "u \<le> 0x10FFFF" using u by (simp add: scalar_value_def)
  have b: "0 \<le> q" "q < 0x4400" using q(1) u m by auto
  have b2: "0 \<le> p" "p < 0x110" using q(2) b by auto
  have "utf8_decode 0 c1 = (UTF8_WAITING_NEXT, 16 * r + 15)"
    by (rule decode_lead) (use c(1) b2 q(3) in auto)
  moreover have "utf8_decode (16 * r + 15) c2 = (UTF8_WAITING_NEXT, 16 * p + 14)"
    by (rule decode_tail [OF q(3)]) (use c(2) b2 in auto)
  moreover have "utf8_decode (16 * p + 14) c3 = (UTF8_WAITING_NEXT, 16 * q + 13)"
    by (rule decode_tail [OF q(2)]) (use c(3) b in auto)
  moreover have "utf8_decode (16 * q + 13) c4 = (u, 0)"
    by (rule decode_tail [OF q(1)]) (use c(4) u m in auto)
  ultimately show ?thesis by simp
qed

text \<open>
  C9. Every Unicode scalar value survives encoding and decoding: the encoder reports as many
  bytes as it stores, and feeding them to the decoder from the initial state gives
  \<^const>\<open>UTF8_WAITING_NEXT\<close> for all but the last byte, then the value, and leaves the
  initial state behind.
\<close>

theorem utf8_roundtrip:
  assumes "scalar_value (uint u)"
  shows "fst (utf8_encode u) = int (length (snd (utf8_encode u))) \<and>
    utf8_feed 0 (snd (utf8_encode u)) =
      (replicate (length (snd (utf8_encode u)) - 1) UTF8_WAITING_NEXT @ [uint u], 0)"
proof -
  have 1: "fst (utf8_encode u) = int (length (snd (utf8_encode u)))"
    by (simp add: utf8_encode_def)
  note b = encode_bytes [OF assms]
  obtain q p r where q: "q = uint u div 64" "p = q div 64" "r = p div 64" by blast
  have qe: "uint u div 4096 = p" "uint u div 262144 = r"
    unfolding q by (simp_all flip: zdiv_zmult2_eq)
  consider "uint u \<le> 0x7F" | "0x7F < uint u" "uint u \<le> 0x7FF" | "0x7FF < uint u" "uint u \<le> 0xFFFF"
    | "0xFFFF < uint u" by linarith
  then have "utf8_feed 0 (snd (utf8_encode u)) =
      (replicate (length (snd (utf8_encode u)) - 1) UTF8_WAITING_NEXT @ [uint u], 0)"
  proof cases
    case 1
    with b show ?thesis by (auto simp: map_eq_Cons_conv decode_start)
  next
    case 2
    with b obtain c1 c2 where e: "snd (utf8_encode u) = [c1, c2]"
        and c: "uint c1 = 0xC0 + q" "uint c2 = 0x80 + uint u mod 64"
      unfolding q(1) by (auto simp: map_eq_Cons_conv)
    have "utf8_feed 0 [c1, c2] = ([UTF8_WAITING_NEXT, uint u], 0)"
      by (rule feed2 [OF q(1) c]) (use 2 assms in auto)
    then show ?thesis by (simp add: e)
  next
    case 3
    with b obtain c1 c2 c3 where e: "snd (utf8_encode u) = [c1, c2, c3]"
        and c: "uint c1 = 0xE0 + p" "uint c2 = 0x80 + q mod 64" "uint c3 = 0x80 + uint u mod 64"
      unfolding qe(1) q(1) [symmetric] by (auto simp: map_eq_Cons_conv)
    have "utf8_feed 0 [c1, c2, c3] = ([UTF8_WAITING_NEXT, UTF8_WAITING_NEXT, uint u], 0)"
      by (rule feed3 [OF q(1,2) c]) (use 3 assms in auto)
    then show ?thesis by (simp add: e)
  next
    case 4
    with b obtain c1 c2 c3 c4 where e: "snd (utf8_encode u) = [c1, c2, c3, c4]"
        and c: "uint c1 = 0xF0 + r" "uint c2 = 0x80 + p mod 64" "uint c3 = 0x80 + q mod 64"
          "uint c4 = 0x80 + uint u mod 64"
      unfolding qe q(1) [symmetric] by (auto simp: map_eq_Cons_conv)
    have "utf8_feed 0 [c1, c2, c3, c4] =
        ([UTF8_WAITING_NEXT, UTF8_WAITING_NEXT, UTF8_WAITING_NEXT, uint u], 0)"
      by (rule feed4 [OF q c]) (use 4 assms in auto)
    then show ?thesis by (simp add: e)
  qed
  with 1 show ?thesis by blast
qed

theorem utf8_roundtrip_witness:
  "scalar_value 0x20AC \<and> utf8_feed 0 [0xE2, 0x82, 0xAC] = ([-1, -1, 0x20AC], 0)"
  using utf8_roundtrip [of "0x20AC"]
  by (simp add: scalar_value_def utf8_encode_def UTF8_WAITING_NEXT_def)

subsection \<open>Only encodings are decoded\<close>

lemma utf8_feedE:
  assumes "utf8_feed s cs = (replicate m UTF8_WAITING_NEXT @ [u], t)" "0 \<le> u"
  obtains (wait) c cs' m' s' where "cs = c # cs'" "m = Suc m'"
      "utf8_decode s c = (UTF8_WAITING_NEXT, s')"
      "utf8_feed s' cs' = (replicate m' UTF8_WAITING_NEXT @ [u], t)"
    | (last) c where "cs = [c]" "m = 0" "utf8_decode s c = (u, t)"
proof (cases cs)
  case Nil
  with assms show ?thesis by simp
next
  case (Cons c cs')
  obtain r s' where d: "utf8_decode s c = (r, s')" by fastforce
  obtain rs t' where f: "utf8_feed s' cs' = (rs, t')" by fastforce
  from assms Cons d f have e: "r # rs = replicate m UTF8_WAITING_NEXT @ [u]" "t' = t" by auto
  show ?thesis
  proof (cases m)
    case 0
    with e f have "cs' = []" by (cases cs') (auto split: prod.splits)
    with 0 e d f Cons show ?thesis by (intro last) auto
  next
    case (Suc m')
    with e d f Cons show ?thesis by (intro wait [of c cs' m' s']) auto
  qed
qed

lemma wait_ret: "UTF8_WAITING_NEXT < 0" "UTF8_ERROR_CONSUME < 0" "UTF8_ERROR_RETRY < 0"
  "UTF8_ERROR_CONSUME \<noteq> UTF8_WAITING_NEXT" "UTF8_ERROR_RETRY \<noteq> UTF8_WAITING_NEXT"
  by (simp_all add: UTF8_WAITING_NEXT_def UTF8_ERROR_CONSUME_def UTF8_ERROR_RETRY_def)

lemma cont_byte: "0x80 \<le> uint c \<Longrightarrow> uint c < 0xC0 \<Longrightarrow> uint c = 0x80 + uint c mod 64" for c :: u8
  using minus_mod_eq_mult_div [of "uint c" 64] by (simp add: div_pos_geq)

text \<open>The last byte of a sequence: the value is what the collected bits say.\<close>

lemma feed_last:
  assumes "utf8_feed (16 * v + s) cs = (replicate m UTF8_WAITING_NEXT @ [u], t)" "0 \<le> u"
    and v: "0 \<le> v" "v < 2 ^ 15" and s: "s = 5 \<or> s = 9 \<or> s = 13"
  shows "\<exists>c. cs = [c] \<and> uint c = 0x80 + u mod 64 \<and> u div 64 = v \<and> scalar_value u \<and>
    (if s = 5 then 0x80 else if s = 9 then 0x800 else 0x10000) \<le> u"
  using assms(1,2)
proof (cases rule: utf8_feedE)
  case (wait c cs' m' s')
  define w where "w = 64 * v + uint c mod 64"
  have "w \<noteq> UTF8_WAITING_NEXT" using v by (simp add: w_def UTF8_WAITING_NEXT_def)
  with s have "fst (utf8_decode (16 * v + s) c) \<noteq> UTF8_WAITING_NEXT"
    using wait_ret by (auto simp: decode_cont_state [OF v] Let_def w_def [symmetric] split: if_splits)
  with wait show ?thesis by simp
next
  case (last c)
  have c: "0x80 \<le> uint c" "uint c < 0xC0"
    using last s assms(2) wait_ret by (auto simp: decode_cont_state [OF v] split: if_splits)
  from last s c assms(2) wait_ret have u: "u = 64 * v + uint c mod 64" "scalar_value u"
      "(if s = 5 then 0x80 else if s = 9 then 0x800 else 0x10000) \<le> u"
    by (auto simp: decode_cont_state [OF v] Let_def split: if_splits)
  from u(1) have "u mod 64 = uint c mod 64" "u div 64 = v" by simp_all
  with last u(2,3) cont_byte [OF c] show ?thesis by simp
qed

lemma feed_more:
  assumes "utf8_feed (16 * v + s) cs = (replicate m UTF8_WAITING_NEXT @ [u], t)" "0 \<le> u"
    and v: "0 \<le> v" "v < 2 ^ 15" and s: "s = 10 \<or> s = 14 \<or> s = 15"
  shows "\<exists>c cs' m' w. cs = c # cs' \<and> uint c = 0x80 + w mod 64 \<and> w div 64 = v \<and>
    utf8_feed (16 * w + (s - 1)) cs' = (replicate m' UTF8_WAITING_NEXT @ [u], t)"
  using assms(1,2)
proof (cases rule: utf8_feedE)
  case (wait c cs' m' s')
  have c: "0x80 \<le> uint c" "uint c < 0xC0"
    using wait s wait_ret by (auto simp: decode_cont_state [OF v] split: if_splits)
  define w where "w = 64 * v + uint c mod 64"
  have "w mod 64 = uint c mod 64" "w div 64 = v" by (simp_all add: w_def)
  moreover have "s' = 16 * w + (s - 1)"
    using wait s c by (auto simp: decode_cont_state [OF v] w_def)
  ultimately show ?thesis
    using wait cont_byte [OF c] by (intro exI [of _ c] exI [of _ cs'] exI [of _ m'] exI [of _ w]) simp
next
  case (last c)
  with s assms(2) wait_ret show ?thesis
    by (auto simp: decode_cont_state [OF v] split: if_splits)
qed

lemma lead_byte:
  "0xC0 \<le> uint c \<Longrightarrow> uint c < 0xE0 \<Longrightarrow> uint c = 0xC0 + uint c mod 32"
  "0xE0 \<le> uint c \<Longrightarrow> uint c < 0xF0 \<Longrightarrow> uint c = 0xE0 + uint c mod 16"
  "0xF0 \<le> uint c \<Longrightarrow> uint c < 0xF8 \<Longrightarrow> uint c = 0xF0 + uint c mod 8"
  for c :: u8
  using minus_mod_eq_mult_div [of "uint c" 32] minus_mod_eq_mult_div [of "uint c" 16]
    minus_mod_eq_mult_div [of "uint c" 8]
  by (simp_all add: div_pos_geq)

lemma map_uint_inject: "map uint xs = map uint ys \<Longrightarrow> xs = (ys :: u8 list)"
  by (metis injI inj_map_eq_map word_uint_eqI)

lemma scalar_word: "scalar_value u \<Longrightarrow> uint (word_of_int u :: u32) = u"
  by (simp add: scalar_value_def uint_word_of_int)

lemma div_bound: "u div 64 = v \<Longrightarrow> 0 \<le> v \<Longrightarrow> v < k \<Longrightarrow> 0 \<le> u \<and> u < 64 * k" for u :: int
  using div_mult_mod_eq [of u 64] pos_mod_bound [of 64 u] pos_mod_sign [of 64 u] by linarith

lemma feed_bytes:
  assumes "utf8_feed 0 bs = (replicate n UTF8_WAITING_NEXT @ [u], t)" "0 \<le> u"
  shows "scalar_value u \<and> map uint bs =
    (if u \<le> 0x7F then [u]
     else if u \<le> 0x7FF then [0xC0 + u div 64, 0x80 + u mod 64]
     else if u \<le> 0xFFFF then [0xE0 + u div 4096, 0x80 + u div 64 mod 64, 0x80 + u mod 64]
     else [0xF0 + u div 262144, 0x80 + u div 4096 mod 64, 0x80 + u div 64 mod 64, 0x80 + u mod 64])"
  using assms
proof (cases rule: utf8_feedE)
  case (last c)
  with assms(2) wait_ret have "u = uint c" "uint c < 0x80"
    by (auto simp: decode_start split: if_splits)
  with last show ?thesis by (simp add: scalar_value_def)
next
  case (wait c cs m' s')
  have dd: "u div 64 div 64 = u div 4096" "u div 64 div 64 div 64 = u div 262144"
    by (simp_all flip: zdiv_zmult2_eq)
  from wait wait_ret consider (2) "0xC0 \<le> uint c" "uint c < 0xE0" "s' = 16 * (uint c mod 32) + 5"
    | (3) "0xE0 \<le> uint c" "uint c < 0xF0" "s' = 16 * (uint c mod 16) + 10"
    | (4) "0xF0 \<le> uint c" "uint c < 0xF8" "s' = 16 * (uint c mod 8) + 15"
    by (auto simp: decode_start split: if_splits)
      (metis uint_nonnegative int_one_le_iff_zero_less not_less UTF8_WAITING_NEXT_def)
  then show ?thesis
  proof cases
    case 2
    define v where "v = uint c mod 32"
    have v: "0 \<le> v" "v < 32" by (simp_all add: v_def)
    from wait(4) 2(3) have f: "utf8_feed (16 * v + 5) cs = (replicate m' UTF8_WAITING_NEXT @ [u], t)"
      by (simp add: v_def)
    from feed_last [OF f assms(2) v(1)] v obtain c2 where
      "cs = [c2]" "uint c2 = 0x80 + u mod 64" "u div 64 = v" "scalar_value u" "0x80 \<le> u"
      by auto
    with wait(1) lead_byte(1) [OF 2(1,2)] div_bound [of u v 32] v show ?thesis
      by (simp add: v_def)
  next
    case 3
    define v where "v = uint c mod 16"
    have v: "0 \<le> v" "v < 16" by (simp_all add: v_def)
    from wait(4) 3(3) have f: "utf8_feed (16 * v + 10) cs = (replicate m' UTF8_WAITING_NEXT @ [u], t)"
      by (simp add: v_def)
    from feed_more [OF f assms(2) v(1)] v obtain c2 cs2 m2 w where
      c2: "cs = c2 # cs2" "uint c2 = 0x80 + w mod 64" "w div 64 = v"
      "utf8_feed (16 * w + 9) cs2 = (replicate m2 UTF8_WAITING_NEXT @ [u], t)"
      by auto
    from div_bound [OF c2(3), of 16] v have w: "0 \<le> w" "w < 1024" by auto
    from feed_last [OF c2(4) assms(2) w(1)] w obtain c3 where
      c3: "cs2 = [c3]" "uint c3 = 0x80 + u mod 64" "u div 64 = w" "scalar_value u" "0x800 \<le> u"
      by auto
    have "u div 4096 = v" using dd(1) unfolding c3(3) c2(3) by (rule sym)
    with wait(1) lead_byte(2) [OF 3(1,2)] div_bound [of u w 1024] w c2(1,2) c3 show ?thesis
      by (simp add: v_def)
  next
    case 4
    define v where "v = uint c mod 8"
    have v: "0 \<le> v" "v < 8" by (simp_all add: v_def)
    from wait(4) 4(3) have f: "utf8_feed (16 * v + 15) cs = (replicate m' UTF8_WAITING_NEXT @ [u], t)"
      by (simp add: v_def)
    from feed_more [OF f assms(2) v(1)] v obtain c2 cs2 m2 w where
      c2: "cs = c2 # cs2" "uint c2 = 0x80 + w mod 64" "w div 64 = v"
      "utf8_feed (16 * w + 14) cs2 = (replicate m2 UTF8_WAITING_NEXT @ [u], t)"
      by auto
    from div_bound [OF c2(3), of 8] v have w: "0 \<le> w" "w < 512" by auto
    from feed_more [OF c2(4) assms(2) w(1)] w obtain c3 cs3 m3 x where
      c3: "cs2 = c3 # cs3" "uint c3 = 0x80 + x mod 64" "x div 64 = w"
      "utf8_feed (16 * x + 13) cs3 = (replicate m3 UTF8_WAITING_NEXT @ [u], t)"
      by auto
    from div_bound [OF c3(3), of 512] w have x: "0 \<le> x" "x < 32768" by auto
    from feed_last [OF c3(4) assms(2) x(1)] x obtain c4 where
      c4: "cs3 = [c4]" "uint c4 = 0x80 + u mod 64" "u div 64 = x" "scalar_value u" "0x10000 \<le> u"
      by auto
    have d: "u div 4096 = w" "u div 262144 = v"
      using dd unfolding c4(3) c3(3) c2(3) by auto
    have "map uint bs = [0xF0 + v, 0x80 + w mod 64, 0x80 + x mod 64, 0x80 + u mod 64]"
      unfolding wait(1) c2(1) c3(1) c4(1) list.map c2(2) c3(2) c4(2) v_def
      using lead_byte(3) [OF 4(1,2)] by simp
    with c4(4,5) show ?thesis by (simp only: d c4(3)) auto
  qed
qed

text \<open>
  C14. The decoder accepts nothing but the encoder's output: whenever bytes fed from the
  initial state end in a decoded value, after waiting results only, the value is a Unicode
  scalar value and the bytes are exactly its encoding. Overlong forms, surrogates and values
  above \<open>0x10FFFF\<close> are never returned.
\<close>

theorem utf8_decode_unique:
  assumes "utf8_feed 0 bs = (replicate n UTF8_WAITING_NEXT @ [u], t)" "0 \<le> u"
  shows "scalar_value u \<and> bs = snd (utf8_encode (word_of_int u))"
proof -
  note main = feed_bytes [OF assms]
  from main have s: "scalar_value u" by blast
  from s main encode_bytes [of "word_of_int u"] have "map uint bs = map uint (snd (utf8_encode (word_of_int u)))"
    by (simp add: scalar_word)
  with s map_uint_inject show ?thesis by blast
qed

theorem utf8_decode_unique_witness:
  "utf8_feed 0 [0xE2, 0x82, 0xAC] = ([-1, -1, 0x20AC], 0) \<and>
   [0xE2, 0x82, 0xAC] = snd (utf8_encode 0x20AC)"
proof -
  have e: "utf8_feed 0 [0xE2, 0x82, 0xAC] = (replicate 2 UTF8_WAITING_NEXT @ [0x20AC], 0)"
    by code_simp
  show ?thesis using utf8_decode_unique [OF e] e
    by (simp add: UTF8_WAITING_NEXT_def numeral_2_eq_2)
qed

lemma utf8_state_bound: "utf8_state s \<Longrightarrow> 0 \<le> s \<and> s < 2 ^ 20"
proof (cases "s = 0")
  case False
  assume "utf8_state s"
  from this False obtain v k r where "s = 16 * v + 4 * k + r" "0 \<le> v" "v < 2 ^ 15" "1 \<le> k"
      "k \<le> 3" "1 \<le> r" "r \<le> k"
    by (blast elim: utf8_stateE)
  then show ?thesis by auto
qed simp

lemma decode_result:
  assumes "utf8_state s"
  shows "scalar_value (fst (utf8_decode s c)) \<and> snd (utf8_decode s c) = 0 \<or>
    fst (utf8_decode s c) \<in> {UTF8_ERROR_CONSUME, UTF8_ERROR_RETRY} \<and> snd (utf8_decode s c) = 0 \<or>
    fst (utf8_decode s c) = UTF8_WAITING_NEXT \<and> snd (utf8_decode s c) \<noteq> 0"
proof (cases "s = 0")
  case True
  have "16 * m + 5 \<noteq> 0" "16 * m + 10 \<noteq> 0" "16 * m + 15 \<noteq> (0::int)" for m by presburger+
  then show ?thesis by (simp add: True decode_start scalar_value_def)
next
  case False
  with assms obtain v k r where *: "s = 16 * v + 4 * k + r" "0 \<le> v" "v < 2 ^ 15" "1 \<le> k"
      "k \<le> 3" "1 \<le> r" "r \<le> k"
    by (blast elim: utf8_stateE)
  define w where "w = 64 * v + uint c mod 64"
  have "0 \<le> w" using * (2) by (simp add: w_def)
  with * (4,6) have nz: "16 * w + 4 * k + (r - 1) \<noteq> 0" by linarith
  have "r \<le> 3" using * (5,7) by linarith
  note d = decode_cont [OF * (2-6) this, of c, folded * (1), unfolded Let_def, folded w_def]
  show ?thesis unfolding d using nz by simp
qed

text \<open>
  The incremental decoder keeps its packed state well formed and inside a C \<open>int\<close> for
  every byte, and each call either returns a scalar value, returns one of the two errors, or
  waits; only waiting leaves a state other than the initial one.
\<close>

theorem utf8_decode_safe:
  assumes "utf8_state s"
  shows "utf8_state (snd (utf8_decode s c)) \<and> 0 \<le> snd (utf8_decode s c) \<and>
    snd (utf8_decode s c) < 2 ^ 31 \<and>
    (scalar_value (fst (utf8_decode s c)) \<and> snd (utf8_decode s c) = 0 \<or>
     fst (utf8_decode s c) \<in> {UTF8_ERROR_CONSUME, UTF8_ERROR_RETRY} \<and> snd (utf8_decode s c) = 0 \<or>
     fst (utf8_decode s c) = UTF8_WAITING_NEXT \<and> snd (utf8_decode s c) \<noteq> 0)"
  using utf8_state_step [OF assms, of c] utf8_state_bound [OF utf8_state_step [OF assms, of c]]
    decode_result [OF assms, of c]
  by auto

theorem utf8_decode_safe_witness: "utf8_state 0 \<and> utf8_state (snd (utf8_decode 0 0xE2))"
  using utf8_decode_safe [of 0 "0xE2"] by (simp add: utf8_state_def)

end
