(* ===== verification/Region_Map.thy ===== *)
theory Region_Map
  imports Prelude
begin

text \<open>
  The address map that both allocators of the repository keep: a sorted array of region
  start addresses whose lowest bit says whether the region is in use, closed by the end of
  the managed range. \<^verbatim>\<open>src/kernel/base/heap.c\<close> keeps 32-bit entries,
  \<^verbatim>\<open>src/arctic/libc/stdlib/alloc.c\<close> keeps \<^verbatim>\<open>size_t\<close> entries; the loops over
  the map are the same text in both files and are modelled here once. The list holds the
  live entries only, so its length is \<^verbatim>\<open>heap_map_entries\<close> respectively
  \<^verbatim>\<open>alloc_map_count\<close>.
\<close>

subsection \<open>The loops of the allocators\<close>

text \<open>\<^verbatim>\<open>x & (~used_bit)\<close>, \<^verbatim>\<open>x | used_bit\<close> and \<^verbatim>\<open>(x & used_bit) != 0\<close>.\<close>

definition clear_used :: "nat \<Rightarrow> nat" where
  "clear_used x = x - x mod 2"

definition set_used :: "nat \<Rightarrow> nat" where
  "set_used x = (if even x then x + 1 else x)"

definition is_used :: "nat \<Rightarrow> bool" where
  "is_used x \<longleftrightarrow> odd x"

datatype find_result = Find_abort | Find_none | Find_at nat nat

text \<open>
  The downward search \<^verbatim>\<open>for (i = entries - 1; i > 0; i--)\<close>: the last argument is the
  loop variable. \<^const>\<open>Find_abort\<close> is the \<^verbatim>\<open>return NULL\<close> inside the loop,
  \<^term>\<open>Find_at i addr\<close> the \<^verbatim>\<open>break\<close> with both variables set.
\<close>

fun region_find :: "nat list \<Rightarrow> nat \<Rightarrow> nat \<Rightarrow> nat \<Rightarrow> find_result" where
  "region_find m alignment sz 0 = Find_none"
| "region_find m alignment sz (Suc j) =
    (let b = m ! j in
     if \<not> is_used b then
       let e = clear_used (m ! Suc j) in
       if b \<ge> e then Find_abort
       else if sz > e - b then region_find m alignment sz j
       else
         let remainder = (e - sz) mod alignment in
         if sz + remainder \<le> e - b then Find_at (Suc j) (e - sz - remainder)
         else region_find m alignment sz j
     else region_find m alignment sz j)"

text \<open>
  The tail of the allocation: a new entry when \<^verbatim>\<open>map_insert\<close> is set, that is when the
  block does not start its region (\<^verbatim>\<open>memmove\<close> by one entry), else the region's own
  entry is marked.
\<close>

definition region_mark :: "bool \<Rightarrow> nat list \<Rightarrow> nat \<Rightarrow> nat \<Rightarrow> nat list" where
  "region_mark map_insert m i addr =
    (if map_insert then take i m @ set_used addr # drop i m
     else m[i - 1 := set_used addr])"

text \<open>The first loop of the release: clear the used bit of the first matching entry.\<close>

fun region_release :: "nat \<Rightarrow> nat list \<Rightarrow> nat list" where
  "region_release a (x # y # m) =
    (if a = x then clear_used x # y # m else x # region_release a (y # m))"
| "region_release a m = m"

text \<open>The second loop: drop entry \<open>i\<close> when it and its predecessor are both unused.\<close>

function region_merge :: "nat \<Rightarrow> nat list \<Rightarrow> nat list" where
  "region_merge i m =
    (if i < length m - 1 then
       (if is_used (m ! (i - 1)) \<or> is_used (m ! i) then region_merge (i + 1) m
        else region_merge i (take i m @ drop (Suc i) m))
     else m)"
  by pat_completeness auto
termination
  by (relation "measure (\<lambda>(i, m). length m - i)") auto

declare region_merge.simps [simp del]

text \<open>The sums of \<^verbatim>\<open>heap_usage\<close>: bytes in used and in unused regions.\<close>

fun region_usage :: "nat list \<Rightarrow> nat \<Rightarrow> nat \<times> nat \<Rightarrow> nat \<times> nat" where
  "region_usage m 0 acc = acc"
| "region_usage m (Suc j) (allocated, unallocated) =
    (let b = m ! j; e = clear_used (m ! Suc j) in
     if is_used b then
       (let b = clear_used b in
        region_usage m j (if b < e then allocated + (e - b) else allocated, unallocated))
     else region_usage m j (allocated, if b < e then unallocated + (e - b) else unallocated))"

subsection \<open>Regions and blocks\<close>

fun regions :: "nat list \<Rightarrow> (nat \<times> nat \<times> bool) list" where
  "regions (x # y # m) = (clear_used x, clear_used y, is_used x) # regions (y # m)"
| "regions m = []"

definition blocks :: "nat list \<Rightarrow> (nat \<times> nat) set" where
  "blocks m = {(b, e). (b, e, True) \<in> set (regions m)}"

definition region_wf :: "nat list \<Rightarrow> bool" where
  "region_wf m \<longleftrightarrow> 2 \<le> length m \<and> \<not> is_used (last m) \<and>
    sorted_wrt (<) (map clear_used m) \<and> (\<forall>x \<in> set m. clear_used x mod 16 = 0)"

subsection \<open>Basic facts\<close>

lemma clear_used_even [simp]: "\<not> is_used x \<Longrightarrow> clear_used x = x"
  by (simp add: clear_used_def is_used_def even_iff_mod_2_eq_zero)

lemma clear_set_used [simp]: "clear_used (set_used x) = clear_used x"
  by (auto simp: clear_used_def set_used_def mod_Suc even_iff_mod_2_eq_zero)

lemma clear_clear_used [simp]: "clear_used (clear_used x) = clear_used x"
  by (simp add: clear_used_def)

lemma is_used_set [simp]: "is_used (set_used x)"
  by (simp add: is_used_def set_used_def)

lemma is_used_clear [simp]: "\<not> is_used (clear_used x)"
  by (simp add: is_used_def clear_used_def)

lemma set_used_used: "is_used x \<Longrightarrow> set_used (clear_used x) = x"
  by (auto simp: is_used_def set_used_def clear_used_def odd_iff_mod_2_eq_one)

lemma mult16_not_used: "x mod 16 = 0 \<Longrightarrow> \<not> is_used x"
  unfolding is_used_def by presburger

lemma regions_append: "regions (xs @ x # ys) = regions (xs @ [x]) @ regions (x # ys)"
  by (induction xs rule: regions.induct) auto

lemma length_regions: "length (regions m) = length m - 1"
  by (induction m rule: regions.induct) auto

lemma regions_set_last: "clear_used x = clear_used y \<Longrightarrow> regions (xs @ [x]) = regions (xs @ [y])"
  by (induction xs rule: regions.induct) auto

lemma region_wf_append:
  "region_wf (xs @ b # e # ys) \<longleftrightarrow>
    \<not> is_used (last (e # ys)) \<and> clear_used b < clear_used e \<and>
    (\<forall>x \<in> set xs. clear_used x < clear_used b) \<and> (\<forall>y \<in> set ys. clear_used e < clear_used y) \<and>
    sorted_wrt (<) (map clear_used xs) \<and> sorted_wrt (<) (map clear_used ys) \<and>
    (\<forall>x \<in> set (xs @ b # e # ys). clear_used x mod 16 = 0)"
  by (auto simp: region_wf_def sorted_wrt_append intro: order.strict_trans)
    (meson order.strict_trans)+

subsection \<open>The search\<close>

lemma round_down:
  fixes x :: nat
  assumes "0 < al" "r = x mod al"
  shows "(x - r) mod al = 0" and "a \<le> x \<Longrightarrow> a mod al = 0 \<Longrightarrow> a \<le> x - r"
proof -
  show "(x - r) mod al = 0" using assms by (simp add: minus_mod_eq_mult_div)
  assume "a \<le> x" "a mod al = 0"
  then have "a = al * (a div al)" "a div al \<le> x div al" by (auto simp: div_le_mono)
  then have "a \<le> al * (x div al)" by (metis mult_le_mono2)
  then show "a \<le> x - r" by (simp add: assms minus_mod_eq_mult_div)
qed

lemma region_find_Suc:
  assumes "e = clear_used (m ! Suc j)" "r = (e - sz) mod al"
  shows "region_find m al sz (Suc j) =
    (if is_used (m ! j) then region_find m al sz j
     else if e \<le> m ! j then Find_abort
     else if sz + r \<le> e - m ! j then Find_at (Suc j) (e - sz - r)
     else region_find m al sz j)"
  unfolding assms by (simp add: Let_def)

lemma region_find_at:
  assumes "region_find m al sz k = Find_at i addr" "0 < al"
  shows "\<exists>j < k. i = Suc j \<and> \<not> is_used (m ! j) \<and> m ! j \<le> addr \<and> addr + sz \<le> clear_used (m ! i) \<and>
    addr mod al = 0 \<and> m ! j < clear_used (m ! i)"
  using assms(1)
proof (induction k)
  case (Suc j)
  obtain e r where e: "e = clear_used (m ! Suc j)" and r: "r = (e - sz) mod al" by blast
  show ?case
  proof (cases "region_find m al sz j = Find_at i addr")
    case True
    from Suc.IH [OF this] obtain j' where j': "j' < j" "i = Suc j'" "\<not> is_used (m ! j')" "m ! j' \<le> addr"
        "addr + sz \<le> clear_used (m ! i)" "addr mod al = 0" "m ! j' < clear_used (m ! i)"
      by (elim exE conjE)
    show ?thesis by (rule exI [of _ j']) (use j' in simp)
  next
    case False
    with Suc.prems have *: "i = Suc j" "\<not> is_used (m ! j)" "m ! j < e" "sz + r \<le> e - m ! j"
        "addr = e - sz - r"
      unfolding region_find_Suc [OF e r] by (auto split: if_splits)
    moreover have "addr mod al = 0"
      unfolding * (5) by (rule round_down(1) [OF assms(2) r])
    ultimately show ?thesis unfolding e by (intro exI [of _ j]) auto
  qed
qed simp

lemma region_find_none:
  assumes "region_find m al sz k = Find_none" "0 < al" "j < k" "\<not> is_used (m ! j)"
    "m ! j \<le> a" "a + sz \<le> clear_used (m ! Suc j)"
  shows "a mod al \<noteq> 0"
  using assms(1,3)
proof (induction k)
  case (Suc k)
  obtain e r where e: "e = clear_used (m ! Suc k)" and r: "r = (e - sz) mod al" by blast
  note none = Suc.prems(1) [unfolded region_find_Suc [OF e r]]
  show ?case
  proof (cases "j = k")
    case True
    with none assms(4) have "\<not> sz + r \<le> e - m ! j" by (auto split: if_splits)
    moreover have "r \<le> e - sz" by (simp add: r)
    ultimately have "e - sz - r < a"
      using assms(5,6) unfolding True e [symmetric] by linarith
    with round_down(2) [OF assms(2) r, of a] assms(6) show ?thesis
      unfolding True e [symmetric] by linarith
  next
    case False
    with none Suc show ?thesis by (auto split: if_splits)
  qed
qed simp

lemma region_find_no_abort:
  assumes "region_wf m" "k < length m"
  shows "region_find m al sz k \<noteq> Find_abort"
  using assms(2)
proof (induction k)
  case (Suc j)
  have "clear_used (m ! j) < clear_used (m ! Suc j)"
    using assms(1) Suc.prems by (auto simp: region_wf_def sorted_wrt_iff_nth_less)
  with Suc show ?case
    by (cases "is_used (m ! j)") (auto simp: region_find_Suc [OF refl refl] simp del: region_find.simps)
qed simp

subsection \<open>Marking a block\<close>

lemma blocks_append: "blocks (xs @ x # ys) = blocks (xs @ [x]) \<union> blocks (x # ys)"
  by (auto simp: blocks_def regions_append [of xs x ys])

lemma blocks_Cons: "blocks (x # y # m) =
    (if is_used x then {(clear_used x, clear_used y)} else {}) \<union> blocks (y # m)"
  by (auto simp: blocks_def)

lemma blocks_single [simp]: "blocks [x] = {}" "blocks [] = {}"
  by (simp_all add: blocks_def)

lemma blocks_set_last: "clear_used x = clear_used y \<Longrightarrow> blocks (xs @ [x]) = blocks (xs @ [y])"
  unfolding blocks_def by (simp only: regions_set_last [of x y])

lemma split_at:
  assumes "Suc j < length m"
  obtains xs b e ys where "m = xs @ b # e # ys" "length xs = j" "m ! j = b" "m ! Suc j = e"
proof
  have "drop j m = m ! j # m ! Suc j # drop (Suc (Suc j)) m"
    using assms by (simp add: Cons_nth_drop_Suc)
  then show "m = take j m @ m ! j # m ! Suc j # drop (Suc (Suc j)) m"
    using append_take_drop_id [of j m] by simp
qed (use assms in auto)

lemma region_mark_split:
  "region_mark (addr \<noteq> b) (xs @ b # e # ys) (Suc (length xs)) addr =
    (if addr \<noteq> b then xs @ b # set_used addr # e # ys else xs @ set_used b # e # ys)"
  by (simp add: region_mark_def)

lemma region_mark_wf:
  assumes "region_wf (xs @ b # e # ys)" "\<not> is_used b" "b \<le> addr" "addr < clear_used e" "addr mod 16 = 0"
  shows "region_wf (region_mark (addr \<noteq> b) (xs @ b # e # ys) (Suc (length xs)) addr)"
proof -
  have a: "clear_used addr = addr" using mult16_not_used [OF assms(5)] by simp
  have "region_wf (xs @ b # set_used addr # e # ys)" if "addr \<noteq> b"
    using assms a that unfolding region_wf_append [of xs b e ys] region_wf_append [of xs b "set_used addr" "e # ys"]
    by auto
  moreover have "region_wf (xs @ set_used b # e # ys)"
    using assms(1) unfolding region_wf_append by simp
  ultimately show ?thesis unfolding region_mark_split by simp
qed

lemma region_mark_blocks:
  assumes "\<not> is_used b" "addr mod 16 = 0"
  shows "blocks (region_mark (addr \<noteq> b) (xs @ b # e # ys) (Suc (length xs)) addr) =
    insert (addr, clear_used e) (blocks (xs @ b # e # ys))"
proof -
  have a: "clear_used addr = addr" using mult16_not_used [OF assms(2)] by simp
  have s: "blocks (xs @ [set_used b]) = blocks (xs @ [b])" by (rule blocks_set_last) simp
  show ?thesis
    unfolding region_mark_split
    using assms(1) a
    by (simp add: blocks_append [of xs b "e # ys"] blocks_append [of xs b "set_used addr # e # ys"]
        blocks_append [of xs "set_used b" "e # ys"] blocks_Cons s)
qed

lemma region_mark_correct:
  assumes wf: "region_wf m" and j: "Suc j < length m" and b: "\<not> is_used (m ! j)"
    and addr: "m ! j \<le> addr" "addr < clear_used (m ! Suc j)" "addr mod 16 = 0"
  shows "region_wf (region_mark (addr \<noteq> m ! j) m (Suc j) addr)"
    and "blocks (region_mark (addr \<noteq> m ! j) m (Suc j) addr) = insert (addr, clear_used (m ! Suc j)) (blocks m)"
    and "clear_used (region_mark (addr \<noteq> m ! j) m (Suc j) addr ! 0) = clear_used (m ! 0)"
    and "last (region_mark (addr \<noteq> m ! j) m (Suc j) addr) = last m"
    and "length (region_mark (addr \<noteq> m ! j) m (Suc j) addr) \<le> Suc (length m)"
proof -
  from j obtain xs b' e ys where m: "m = xs @ b' # e # ys" and xs: "length xs = j"
    and n: "m ! j = b'" "m ! Suc j = e" by (rule split_at)
  note mk = region_mark_split [of addr b' xs e ys, folded m, unfolded xs, folded n(1)]
  show "region_wf (region_mark (addr \<noteq> m ! j) m (Suc j) addr)"
    using region_mark_wf [of xs b' e ys addr, folded m, unfolded xs] assms unfolding n by blast
  show "blocks (region_mark (addr \<noteq> m ! j) m (Suc j) addr) = insert (addr, clear_used (m ! Suc j)) (blocks m)"
    using region_mark_blocks [of b' addr xs e ys, folded m, unfolded xs] assms unfolding n by blast
  show "clear_used (region_mark (addr \<noteq> m ! j) m (Suc j) addr ! 0) = clear_used (m ! 0)"
    unfolding mk using xs by (cases xs) (auto simp: m)
  show "last (region_mark (addr \<noteq> m ! j) m (Suc j) addr) = last m"
    unfolding mk by (simp add: m)
  show "length (region_mark (addr \<noteq> m ! j) m (Suc j) addr) \<le> Suc (length m)"
    unfolding mk by (simp add: m)
qed

subsection \<open>Releasing and merging\<close>

lemma region_release_shape:
  "length (region_release a m) = length m" "map clear_used (region_release a m) = map clear_used m"
  "m \<noteq> [] \<Longrightarrow> last (region_release a m) = last m"
  by (induction a m rule: region_release.induct) auto

lemma region_release_wf: "region_wf m \<Longrightarrow> region_wf (region_release a m)"
  unfolding region_wf_def
proof (intro conjI ballI)
  assume wf: "2 \<le> length m \<and> \<not> is_used (last m) \<and> sorted_wrt (<) (map clear_used m) \<and>
    (\<forall>x\<in>set m. clear_used x mod 16 = 0)"
  show "2 \<le> length (region_release a m)" "sorted_wrt (<) (map clear_used (region_release a m))"
    using wf by (simp_all add: region_release_shape)
  show "\<not> is_used (last (region_release a m))"
    using wf by (subst region_release_shape(3)) auto
  fix x assume "x \<in> set (region_release a m)"
  then have "clear_used x \<in> set (map clear_used m)"
    by (metis image_eqI list.set_map region_release_shape(2))
  with wf show "clear_used x mod 16 = 0" by auto
qed

lemma regions_first: "(b, e, u) \<in> set (regions m) \<Longrightarrow> b \<in> set (map clear_used m)"
  by (induction m rule: regions.induct) auto

lemma region_release_blocks:
  assumes "sorted_wrt (<) (map clear_used m)" "is_used a"
  shows "blocks (region_release a m) = {p \<in> blocks m. fst p \<noteq> clear_used a}"
  using assms
proof (induction a m rule: region_release.induct)
  case (1 a x y m)
  have hd: "clear_used (hd (region_release a (y # m))) = clear_used y"
    using region_release_shape(2) [of a "y # m"] by (cases "region_release a (y # m)") auto
  have ne: "region_release a (y # m) \<noteq> []"
    using region_release_shape(1) [of a "y # m"] by auto
  have lt: "\<forall>p \<in> blocks (y # m). clear_used x < fst p"
    using 1(2) by (fastforce simp: blocks_def dest: regions_first)
  show ?case
  proof (cases "a = x")
    case True
    with 1(3) lt show ?thesis by (auto simp: blocks_Cons)
  next
    case False
    have "clear_used a \<noteq> clear_used x \<or> \<not> is_used x"
      using False 1(3) by (metis set_used_used)
    with False 1 hd ne show ?thesis
      by (cases "region_release a (y # m)") (auto simp: blocks_Cons)
  qed
qed (simp_all add: blocks_def)

definition no_adjacent_free :: "nat list \<Rightarrow> bool" where
  "no_adjacent_free m \<longleftrightarrow> (\<forall>j. Suc (Suc j) < length m \<longrightarrow> is_used (m ! j) \<or> is_used (m ! Suc j))"

lemma region_drop:
  assumes "region_wf (xs @ b # c # d # ys)" "\<not> is_used b" "\<not> is_used c"
  shows "region_wf (xs @ b # d # ys)" "blocks (xs @ b # d # ys) = blocks (xs @ b # c # d # ys)"
proof -
  show "region_wf (xs @ b # d # ys)"
    using assms(1) unfolding region_wf_append by auto
  show "blocks (xs @ b # d # ys) = blocks (xs @ b # c # d # ys)"
    using assms(2,3)
    by (simp add: blocks_append [of xs b "d # ys"] blocks_append [of xs b "c # d # ys"] blocks_Cons)
qed

lemma region_drop_nth:
  assumes "region_wf m" "1 \<le> i" "i < length m - 1" "\<not> is_used (m ! (i - 1))" "\<not> is_used (m ! i)"
  defines "m' \<equiv> take i m @ drop (Suc i) m"
  shows "region_wf m'" "blocks m' = blocks m" "m' ! 0 = m ! 0" "last m' = last m"
    "length m' = length m - 1"
proof -
  have "Suc (i - 1) < length m" using assms(2,3) by simp
  then obtain xs b c ys where m: "m = xs @ b # c # ys" and xs: "length xs = i - 1"
    and n: "m ! (i - 1) = b" "m ! Suc (i - 1) = c" by (rule split_at)
  from assms(2,3) m xs obtain d zs where ys: "ys = d # zs" by (cases ys) auto
  have m': "m' = xs @ b # d # zs" using assms(2) m xs ys by (simp add: m'_def)
  show "region_wf m'" "blocks m' = blocks m"
    using region_drop [of xs b c d zs] assms(1,2,4,5) n by (simp_all add: m' m ys)
  show "m' ! 0 = m ! 0" by (cases xs) (simp_all add: m' m ys)
  show "last m' = last m" by (simp add: m' m ys)
  show "length m' = length m - 1" by (simp add: m' m ys)
qed

lemma region_merge_correct:
  assumes "region_wf m" "1 \<le> i"
  shows "region_wf (region_merge i m) \<and> blocks (region_merge i m) = blocks m \<and>
    region_merge i m ! 0 = m ! 0 \<and> last (region_merge i m) = last m \<and>
    length (region_merge i m) \<le> length m"
  using assms
proof (induction i m rule: region_merge.induct)
  case (1 i m)
  consider (stop) "\<not> i < length m - 1" | (skip) "i < length m - 1" "is_used (m ! (i - 1)) \<or> is_used (m ! i)"
    | (drop) "i < length m - 1" "\<not> is_used (m ! (i - 1))" "\<not> is_used (m ! i)" by blast
  then show ?case
  proof cases
    case stop
    with "1.prems" show ?thesis by (simp add: region_merge.simps [of i m])
  next
    case skip
    with "1.IH"(1) "1.prems" show ?thesis by (simp add: region_merge.simps [of i m])
  next
    case drop
    note d = region_drop_nth [OF "1.prems" drop]
    have "region_merge i m = region_merge i (take i m @ drop (Suc i) m)"
      using drop by (simp add: region_merge.simps [of i m])
    with "1.IH"(2) [OF drop(1) _ d(1) "1.prems"(2)] drop d show ?thesis by auto
  qed
qed

lemma region_merge_no_adjacent:
  assumes "1 \<le> i" "\<forall>j. Suc j < i \<longrightarrow> is_used (m ! j) \<or> is_used (m ! Suc j)"
  shows "no_adjacent_free (region_merge i m)"
  using assms
proof (induction i m rule: region_merge.induct)
  case (1 i m)
  consider (stop) "\<not> i < length m - 1" | (skip) "i < length m - 1" "is_used (m ! (i - 1)) \<or> is_used (m ! i)"
    | (drop) "i < length m - 1" "\<not> is_used (m ! (i - 1))" "\<not> is_used (m ! i)" by blast
  then show ?case
  proof cases
    case stop
    with "1.prems" show ?thesis by (simp add: region_merge.simps [of i m] no_adjacent_free_def)
  next
    case skip
    have "\<forall>j. Suc j < i + 1 \<longrightarrow> is_used (m ! j) \<or> is_used (m ! Suc j)"
      using skip(2) "1.prems" by (metis Suc_eq_plus1 diff_Suc_1 less_Suc_eq)
    with skip "1.IH"(1) "1.prems" show ?thesis by (simp add: region_merge.simps [of i m])
  next
    case drop
    have "\<forall>j. Suc j < i \<longrightarrow> is_used ((take i m @ drop (Suc i) m) ! j) \<or> is_used ((take i m @ drop (Suc i) m) ! Suc j)"
      using "1.prems" drop(1) by (simp add: nth_append)
    with drop "1.IH"(2) "1.prems" show ?thesis by (simp add: region_merge.simps [of i m])
  qed
qed

definition used_len :: "nat list \<Rightarrow> nat \<Rightarrow> nat" where
  "used_len m j = (if is_used (m ! j) then clear_used (m ! Suc j) - clear_used (m ! j) else 0)"

definition free_len :: "nat list \<Rightarrow> nat \<Rightarrow> nat" where
  "free_len m j = (if is_used (m ! j) then 0 else clear_used (m ! Suc j) - clear_used (m ! j))"

lemma region_wf_mono:
  "region_wf m \<Longrightarrow> j < k \<Longrightarrow> k < length m \<Longrightarrow> clear_used (m ! j) < clear_used (m ! k)"
  by (simp add: region_wf_def sorted_wrt_iff_nth_less)

lemma region_usage_sum:
  assumes "region_wf m" "k < length m"
  shows "region_usage m k (a, u) = (a + sum (used_len m) {..<k}, u + sum (free_len m) {..<k})"
  using assms(2)
proof (induction k arbitrary: a u)
  case (Suc k)
  have "clear_used (m ! k) < clear_used (m ! Suc k)"
    using region_wf_mono [OF assms(1)] Suc.prems by simp
  with Suc show ?case
    by (cases "is_used (m ! k)") (simp_all add: Let_def used_len_def [of m k] free_len_def [of m k])
qed simp

lemma region_usage_total:
  assumes "region_wf m" "k < length m"
  shows "sum (used_len m) {..<k} + sum (free_len m) {..<k} = clear_used (m ! k) - clear_used (m ! 0)"
  using assms(2)
proof (induction k)
  case (Suc k)
  have "clear_used (m ! k) < clear_used (m ! Suc k)"
    using region_wf_mono [OF assms(1)] Suc.prems by simp
  then have "used_len m k + free_len m k = clear_used (m ! Suc k) - clear_used (m ! k)"
    by (simp add: used_len_def free_len_def)
  moreover have "clear_used (m ! 0) \<le> clear_used (m ! k)"
    using region_wf_mono [OF assms(1), of 0 k] Suc.prems by (cases k) auto
  ultimately show ?case using Suc \<open>clear_used (m ! k) < clear_used (m ! Suc k)\<close> by simp
qed simp

lemma nth_regions: "Suc j < length m \<Longrightarrow>
    regions m ! j = (clear_used (m ! j), clear_used (m ! Suc j), is_used (m ! j))"
  by (induction m arbitrary: j rule: regions.induct) (auto simp: nth_Cons split: nat.splits)

lemma blocks_iff: "(b, e) \<in> blocks m \<longleftrightarrow>
    (\<exists>j. Suc j < length m \<and> is_used (m ! j) \<and> b = clear_used (m ! j) \<and> e = clear_used (m ! Suc j))"
proof -
  have "(b, e) \<in> blocks m \<longleftrightarrow> (\<exists>j. Suc j < length m \<and> regions m ! j = (b, e, True))"
    by (simp add: blocks_def in_set_conv_nth length_regions less_diff_conv)
  also have "\<dots> \<longleftrightarrow> (\<exists>j. Suc j < length m \<and> is_used (m ! j) \<and> b = clear_used (m ! j) \<and>
      e = clear_used (m ! Suc j))"
    by (rule ex_cong1) (auto simp: nth_regions)
  finally show ?thesis .
qed

lemma blocks_disjoint:
  assumes "region_wf m" "(b, e) \<in> blocks m" "(b', e') \<in> blocks m"
  shows "(b, e) = (b', e') \<or> e \<le> b' \<or> e' \<le> b"
proof -
  note mono = region_wf_mono [OF assms(1)]
  from assms(2,3) obtain j k where jk: "Suc j < length m" "Suc k < length m" "b = clear_used (m ! j)"
      "e = clear_used (m ! Suc j)" "b' = clear_used (m ! k)" "e' = clear_used (m ! Suc k)"
    by (auto simp: blocks_iff)
  consider "j = k" | "j < k" | "k < j" by linarith
  then show ?thesis
  proof cases
    case 2
    with mono [of "Suc j" k] jk show ?thesis by (cases "Suc j = k") auto
  next
    case 3
    with mono [of "Suc k" j] jk show ?thesis by (cases "Suc k = j") auto
  qed (use jk in auto)
qed

lemma blocks_bounds:
  assumes "region_wf m" "(b, e) \<in> blocks m"
  shows "clear_used (m ! 0) \<le> b" "b < e" "e \<le> last m" "b mod 16 = 0"
proof -
  note mono = region_wf_mono [OF assms(1)]
  from assms(2) obtain j where j: "Suc j < length m" "b = clear_used (m ! j)"
      "e = clear_used (m ! Suc j)"
    by (auto simp: blocks_iff)
  have "m \<noteq> []" using assms(1) by (auto simp: region_wf_def)
  with assms(1) have l: "last m = clear_used (m ! (length m - 1))"
    by (simp add: region_wf_def last_conv_nth)
  show "clear_used (m ! 0) \<le> b" using mono [of 0 j] j by (cases j) auto
  show "b < e" using mono [of j "Suc j"] j by simp
  have "Suc j = length m - 1 \<or> Suc j < length m - 1 \<and> length m - 1 < length m" using j(1) by auto
  then show "e \<le> last m" unfolding l j(3) using mono [of "Suc j" "length m - 1"]
    by (auto intro: less_imp_le)
  show "b mod 16 = 0" using assms(1) j by (auto simp: region_wf_def)
qed

lemma usage_blocks:
  assumes "region_wf m"
  shows "sum (used_len m) {..<length m - 1} = (\<Sum>(b, e) \<in> blocks m. e - b)"
proof -
  let ?J = "{j. Suc j < length m \<and> is_used (m ! j)}"
  let ?f = "\<lambda>j. (clear_used (m ! j), clear_used (m ! Suc j))"
  have "inj_on ?f ?J"
  proof (rule inj_onI)
    fix j k assume "j \<in> ?J" "k \<in> ?J" "?f j = ?f k"
    moreover from calculation have "j < length m" "k < length m" by auto
    ultimately show "j = k"
      using region_wf_mono [OF assms, of j k] region_wf_mono [OF assms, of k j]
      by (cases j k rule: linorder_cases) auto
  qed
  moreover have "blocks m = ?f ` ?J"
    by (auto simp: blocks_iff image_iff)
  ultimately have "(\<Sum>(b, e) \<in> blocks m. e - b) = (\<Sum>j\<in>?J. clear_used (m ! Suc j) - clear_used (m ! j))"
    by (simp add: sum.reindex)
  also have "\<dots> = sum (used_len m) ?J" by (rule sum.cong) (auto simp: used_len_def)
  also have "\<dots> = sum (used_len m) {..<length m - 1}"
    by (rule sum.mono_neutral_left) (auto simp: used_len_def)
  finally show ?thesis by simp
qed

end
