(* ===== verification/Allocator.thy ===== *)
theory Allocator
  imports Prelude
begin

text \<open>
  What a client may rely on in a memory allocator: blocks in use never overlap, an
  allocation adds one block of at least the requested size and touches no other, a failed
  allocation leaves the blocks as they are, a release removes exactly the block that starts at the address.
  The kernel heap and the allocator of the C library are both instances. \<open>room\<close> is the
  side condition under which an allocation is sound; both allocators need it when their
  own map has to grow.
\<close>

locale block_allocator =
  fixes inv :: "'s \<Rightarrow> bool"
    and blks :: "'s \<Rightarrow> (nat \<times> nat) set"
    and alloc :: "nat \<Rightarrow> 's \<Rightarrow> nat \<times> 's"
    and release :: "nat \<Rightarrow> 's \<Rightarrow> 's"
    and room :: "'s \<Rightarrow> nat \<Rightarrow> bool"
  assumes alloc_inv: "inv s \<Longrightarrow> alloc n s = (p, s') \<Longrightarrow> p \<noteq> 0 \<Longrightarrow> room s p \<Longrightarrow> inv s'"
    and alloc_block: "inv s \<Longrightarrow> alloc n s = (p, s') \<Longrightarrow> p \<noteq> 0 \<Longrightarrow> room s p \<Longrightarrow>
      \<exists>e. p + n \<le> e \<and> p < e \<and> blks s' = insert (p, e) (blks s) \<and> (\<forall>(b, c) \<in> blks s. e \<le> b \<or> c \<le> p)"
    and alloc_null: "inv s \<Longrightarrow> alloc n s = (0, s') \<Longrightarrow> inv s' \<and> blks s' = blks s"
    and release_inv: "inv s \<Longrightarrow> inv (release p s)"
    and release_blks: "inv s \<Longrightarrow> (p, e) \<in> blks s \<Longrightarrow> blks (release p s) = {q \<in> blks s. fst q \<noteq> p}"
    and blks_proper: "inv s \<Longrightarrow> (b, e) \<in> blks s \<Longrightarrow> b < e"
begin

text \<open>Allocating and releasing the block again leaves the blocks in use as they were.\<close>

lemma alloc_release:
  assumes "inv s" "alloc n s = (p, s')" "p \<noteq> 0" "room s p"
  shows "blks (release p s') = blks s"
proof -
  from alloc_block [OF assms] obtain e where
    e: "p < e" "blks s' = insert (p, e) (blks s)" "\<forall>(b, c) \<in> blks s. e \<le> b \<or> c \<le> p" by blast
  have "fst q \<noteq> p" if "q \<in> blks s" for q
  proof -
    from that e(3) have "e \<le> fst q \<or> snd q \<le> p" by (cases q) auto
    moreover have "fst q < snd q" using blks_proper [OF assms(1), of "fst q" "snd q"] that by simp
    ultimately show ?thesis using e(1) by auto
  qed
  moreover have "blks (release p s') = {q \<in> blks s'. fst q \<noteq> p}"
    using release_blks [OF alloc_inv [OF assms], of p e] e(2) by simp
  ultimately show ?thesis using e(2) by auto
qed

text \<open>Two blocks obtained one after the other are disjoint.\<close>

lemma alloc_alloc_disjoint:
  assumes "inv s" "alloc n s = (p, s')" "p \<noteq> 0" "room s p"
    and "alloc k s' = (q, s'')" "q \<noteq> 0" "room s' q"
  shows "p + n \<le> q \<or> q + k \<le> p"
proof -
  from alloc_block [OF assms(1-4)] obtain e where "p + n \<le> e" "(p, e) \<in> blks s'" by blast
  moreover from alloc_block [OF alloc_inv [OF assms(1-4)] assms(5-7)] obtain f where
    "q + k \<le> f" "\<forall>(b, c) \<in> blks s'. f \<le> b \<or> c \<le> q" by blast
  ultimately show ?thesis by fastforce
qed

end

end
