(* ===== verification/Heap.thy ===== *)
theory Heap
  imports Region_Map Allocator
begin

text \<open>
  The kernel heap of \<^verbatim>\<open>src/kernel/base/heap.c\<close>. The state is the heap map (its
  address, its size in bytes and its live entries, see theory Region\_Map), the one-shot flag of
  \<^verbatim>\<open>heap_init\<close>, and the bytes of the heap, which the zeroing and copying operations
  write. The outcome of \<^verbatim>\<open>mtx_lock\<close> is an argument: it fails when interrupts are
  disabled. Addresses and sizes are naturals; where the code narrows to
  \<^verbatim>\<open>uint32_t\<close> or can wrap, the modulus is written out.
\<close>

record heap_state =
  heap_run_once :: bool
  heap_map_addr :: nat
  heap_map_size :: nat
  heap_map :: "nat list"
  heap_mem :: "nat \<Rightarrow> u8"

definition heap_init :: "nat \<Rightarrow> nat \<Rightarrow> bool \<Rightarrow> heap_state \<Rightarrow> dancy_error \<times> heap_state" where
  "heap_init heap_addr stack_array_addr mtx_init_ok s =
    (if heap_run_once s then (DE_UNEXPECTED, s)
     else
       let s = s\<lparr>heap_run_once := True\<rparr>;
           heap_size = (stack_array_addr + 2 ^ 64 - heap_addr) mod 2 ^ 64
       in
       if heap_size < 0x100000 then (DE_MEMORY, s)
       else if heap_size > 0x10000000 then (DE_UNEXPECTED, s)
       else if heap_size AND 0xFFF \<noteq> 0 \<or> heap_addr AND 0xFFF \<noteq> 0 then (DE_UNEXPECTED, s)
       else
         let s = s\<lparr>heap_map_addr := heap_addr, heap_map_size := 0x1000,
                   heap_map := [(heap_addr + 0x1000) mod 2 ^ 32, stack_array_addr mod 2 ^ 32]\<rparr>
         in if \<not> mtx_init_ok then (DE_UNEXPECTED, s) else (DE_SUCCESS, s))"

definition heap_usage :: "bool \<Rightarrow> heap_state \<Rightarrow> nat \<times> nat" where
  "heap_usage lock_ok s =
    (if \<not> lock_ok then (0, 0)
     else region_usage (heap_map s) (length (heap_map s) - 1) (0, 0))"

text \<open>
  The map grows by a page, taken from the front of the first region, when it is full.
  \<^const>\<open>None\<close> stands for the three \<^verbatim>\<open>return NULL\<close> of that part.
\<close>

definition heap_grow_map :: "heap_state \<Rightarrow> heap_state option" where
  "heap_grow_map s =
    (let map_used = 4 * length (heap_map s) in
     if map_used \<ge> heap_map_size s then
       if map_used > heap_map_size s then None
       else if is_used (heap_map s ! 0) then None
       else if (heap_map s ! 1 + 2 ^ 32 - heap_map s ! 0) mod 2 ^ 32 < 0x2000 then None
       else
         let new_size = heap_map_size s + 0x1000 in
         Some (s\<lparr>heap_map_size := new_size,
                 heap_map := (heap_map s)[0 := (heap_map_addr s + new_size) mod 2 ^ 32]\<rparr>)
     else Some s)"

definition heap_aligned_alloc :: "nat \<Rightarrow> nat \<Rightarrow> heap_state \<Rightarrow> nat \<times> heap_state" where
  "heap_aligned_alloc alignment sz s =
    (if alignment = 0 \<or> alignment > 0x2000 then (0, s)
     else if alignment AND (alignment - 1) \<noteq> 0 then (0, s)
     else
       let alignment = (if alignment < 0x10 then 0x10 else alignment) in
       if sz = 0 \<or> sz > 0x10000000 then (0, s)
       else
         case region_find (heap_map s) alignment sz (length (heap_map s) - 1) of
           Find_abort \<Rightarrow> (0, s)
         | Find_none \<Rightarrow> (0, s)
         | Find_at i addr \<Rightarrow>
             let map_insert = (addr \<noteq> heap_map s ! (i - 1)) in
             if addr = 0 then (0, s)
             else
               case heap_grow_map s of
                 None \<Rightarrow> (0, s)
               | Some s \<Rightarrow>
                   (addr, s\<lparr>heap_map := region_mark map_insert (heap_map s) i (addr mod 2 ^ 32)\<rparr>))"

definition heap_free :: "nat \<Rightarrow> heap_state \<Rightarrow> heap_state" where
  "heap_free ptr s =
    (let a = set_used (ptr mod 2 ^ 32)
     in s\<lparr>heap_map := region_merge 1 (region_release a (heap_map s))\<rparr>)"

definition mem_fill :: "nat \<Rightarrow> nat \<Rightarrow> u8 \<Rightarrow> (nat \<Rightarrow> u8) \<Rightarrow> (nat \<Rightarrow> u8)" where
  "mem_fill p n v mem = (\<lambda>a. if p \<le> a \<and> a < p + n then v else mem a)"

definition mem_store :: "nat \<Rightarrow> u8 list \<Rightarrow> (nat \<Rightarrow> u8) \<Rightarrow> (nat \<Rightarrow> u8)" where
  "mem_store p bs mem = (\<lambda>a. if p \<le> a \<and> a < p + length bs then bs ! (a - p) else mem a)"

definition heap_alloc_static_page :: "bool \<Rightarrow> heap_state \<Rightarrow> nat \<times> heap_state" where
  "heap_alloc_static_page lock_ok s =
    (if \<not> lock_ok then (0, s)
     else if is_used (heap_map s ! 0) then (0, s)
     else if (heap_map s ! 1 + 2 ^ 32 - heap_map s ! 0) mod 2 ^ 32 < 0x2000 then (0, s)
     else
       let ptr = heap_map_addr s;
           addr = ptr + 0x1000
       in (ptr, s\<lparr>heap_map_addr := addr,
                  heap_map := (heap_map s)[0 := (addr + heap_map_size s) mod 2 ^ 32],
                  heap_mem := mem_fill ptr 0x1000 0 (heap_mem s)\<rparr>))"

definition aligned_alloc :: "bool \<Rightarrow> nat \<Rightarrow> nat \<Rightarrow> heap_state \<Rightarrow> nat \<times> heap_state" where
  "aligned_alloc lock_ok alignment sz s =
    (if \<not> lock_ok then (0, s) else heap_aligned_alloc alignment sz s)"

definition calloc :: "bool \<Rightarrow> nat \<Rightarrow> nat \<Rightarrow> heap_state \<Rightarrow> nat \<times> heap_state" where
  "calloc lock_ok nmemb sz s =
    (let mem_size = nmemb * sz mod 2 ^ 64 in
     if mem_size = 0 \<or> mem_size div nmemb \<noteq> sz then (0, s)
     else if \<not> lock_ok then (0, s)
     else
       let (ptr, s) = heap_aligned_alloc 16 mem_size s in
       if ptr \<noteq> 0 then (ptr, s\<lparr>heap_mem := mem_fill ptr mem_size 0 (heap_mem s)\<rparr>) else (ptr, s))"

definition malloc :: "bool \<Rightarrow> nat \<Rightarrow> heap_state \<Rightarrow> nat \<times> heap_state" where
  "malloc lock_ok sz s = (if \<not> lock_ok then (0, s) else heap_aligned_alloc 16 sz s)"

definition free :: "bool \<Rightarrow> nat \<Rightarrow> heap_state \<Rightarrow> heap_state" where
  "free lock_ok ptr s = (if ptr = 0 then s else if \<not> lock_ok then s else heap_free ptr s)"

text \<open>The argument is the string without its terminating zero, \<^const>\<open>None\<close> for a null pointer.\<close>

definition strdup :: "bool \<Rightarrow> u8 list option \<Rightarrow> heap_state \<Rightarrow> nat \<times> heap_state" where
  "strdup lock_ok str s =
    (case str of
       None \<Rightarrow> (0, s)
     | Some cs \<Rightarrow>
         if \<not> lock_ok then (0, s)
         else
           let (ptr, s) = heap_aligned_alloc 16 (length cs + 1) s in
           if ptr \<noteq> 0 then (ptr, s\<lparr>heap_mem := mem_store ptr (cs @ [0]) (heap_mem s)\<rparr>) else (ptr, s))"

subsection \<open>The heap invariant\<close>

definition heap_inv :: "heap_state \<Rightarrow> bool" where
  "heap_inv s \<longleftrightarrow> region_wf (heap_map s) \<and>
    clear_used (heap_map s ! 0) = heap_map_addr s + heap_map_size s \<and>
    4 * length (heap_map s) \<le> heap_map_size s \<and> last (heap_map s) < 2 ^ 32 \<and>
    0 < heap_map_addr s \<and> heap_map_size s mod 0x1000 = 0 \<and> heap_map_addr s mod 0x1000 = 0"

text \<open>The blocks in use, as pairs of first and past-the-end address.\<close>

definition heap_blocks :: "heap_state \<Rightarrow> (nat \<times> nat) set" where
  "heap_blocks s = blocks (heap_map s)"

text \<open>
  The alignment the allocator works with, and the argument checks at its start.
\<close>

definition heap_args_ok :: "nat \<Rightarrow> nat \<Rightarrow> bool" where
  "heap_args_ok alignment sz \<longleftrightarrow> 0 < alignment \<and> alignment \<le> 0x2000 \<and>
    alignment AND (alignment - 1) = 0 \<and> 0 < sz \<and> sz \<le> 0x10000000"

subsection \<open>Alignment and map growth\<close>

lemma pow2_mult16: "a AND (a - 1) = 0 \<Longrightarrow> 16 \<le> a \<Longrightarrow> a mod 16 = 0" for a :: nat
proof (rule ccontr)
  assume a: "a AND (a - 1) = 0" "16 \<le> a" and "a mod 16 \<noteq> 0"
  then have "0 < a mod 16" "a = 16 * (a div 16) + a mod 16" "a mod 16 < 16" by simp_all
  then have "16 * (a div 16) \<le> a - 1 \<and> a - 1 < 16 * (a div 16) + 16" using a(2) by linarith
  then have "(a - 1) div 16 = a div 16" by (intro div_nat_eqI) auto
  then have "drop_bit 4 (a AND (a - 1)) = a div 16"
    by (simp only: drop_bit_and) (simp add: drop_bit_eq_div)
  with a show False by simp
qed

lemma alloc_alignment:
  assumes "heap_args_ok alignment sz"
  shows "(max 16 alignment) mod 16 = 0" "0 < max 16 alignment"
  using assms pow2_mult16 [of alignment] by (auto simp: heap_args_ok_def max_def)

lemma region_raise:
  assumes "region_wf m" "\<not> is_used (m ! 0)" "m ! 0 \<le> b" "b < clear_used (m ! 1)" "b mod 16 = 0"
  shows "region_wf (m[0 := b])" "blocks (m[0 := b]) = blocks m"
proof -
  from assms(1) obtain x y ys where m: "m = x # y # ys"
    by (cases m; cases "tl m") (auto simp: region_wf_def)
  have b: "\<not> is_used b" "clear_used b = b" using mult16_not_used [OF assms(5)] by simp_all
  show "region_wf (m[0 := b])"
    using assms b region_wf_append [of "[]" x y ys] region_wf_append [of "[]" b y ys] by (auto simp: m)
  show "blocks (m[0 := b]) = blocks m"
    using assms(2) b by (simp add: m blocks_Cons)
qed

lemma heap_inv_nth:
  assumes "heap_inv s" "i < length (heap_map s)"
  shows "clear_used (heap_map s ! i) < 2 ^ 32" "clear_used (heap_map s ! i) mod 16 = 0"
    "heap_map s ! i < 2 ^ 32"
proof -
  have wf: "region_wf (heap_map s)" and last: "last (heap_map s) < 2 ^ 32"
    using assms(1) by (auto simp: heap_inv_def)
  have ne: "heap_map s \<noteq> []" using assms(2) by auto
  with wf have l: "last (heap_map s) = clear_used (heap_map s ! (length (heap_map s) - 1))"
    by (simp add: region_wf_def last_conv_nth)
  have "clear_used (heap_map s ! i) \<le> last (heap_map s)"
    unfolding l using region_wf_mono [OF wf, of i "length (heap_map s) - 1"] assms(2)
    by (cases "i = length (heap_map s) - 1") (auto intro: less_imp_le)
  with last show c: "clear_used (heap_map s ! i) < 2 ^ 32" by simp
  show d: "clear_used (heap_map s ! i) mod 16 = 0"
    using wf assms(2) by (simp add: region_wf_def)
  have "heap_map s ! i \<le> clear_used (heap_map s ! i) + 1"
    by (simp add: clear_used_def)
  moreover have "clear_used (heap_map s ! i) \<noteq> 2 ^ 32 - 1" using d by auto
  ultimately show "heap_map s ! i < 2 ^ 32" using c by simp
qed

lemma heap_gap:
  assumes inv: "heap_inv s" and u: "\<not> is_used (heap_map s ! 0)"
    and d: "\<not> (heap_map s ! 1 + 2 ^ 32 - heap_map s ! 0) mod 2 ^ 32 < 0x2000"
  shows "heap_map s ! 0 + 0x2000 \<le> clear_used (heap_map s ! 1)"
    and "(heap_map s ! 0 + 0x1000) mod 2 ^ 32 = heap_map s ! 0 + 0x1000"
    and "heap_map s ! 0 = heap_map_addr s + heap_map_size s"
proof -
  have wf: "region_wf (heap_map s)" using inv by (simp add: heap_inv_def)
  then have l: "2 \<le> length (heap_map s)" by (simp add: region_wf_def)
  let ?a = "heap_map s ! 0" and ?b = "heap_map s ! 1"
  show "?a = heap_map_addr s + heap_map_size s" using inv u by (simp add: heap_inv_def)
  have lt: "?a < clear_used ?b" using region_wf_mono [OF wf, of 0 1] l u by simp
  have b: "?b < 2 ^ 32" "clear_used ?b \<le> ?b" "?b \<le> clear_used ?b + 1" "clear_used ?b mod 16 = 0"
    using heap_inv_nth [OF inv, of 1] l by (auto simp: clear_used_def)
  have a16: "?a mod 16 = 0" using heap_inv_nth(2) [OF inv, of 0] l u by fastforce
  have "(?b + 2 ^ 32 - ?a) mod 2 ^ 32 = ?b - ?a"
    using lt b by (simp add: mod_if)
  with d have "0x2000 \<le> ?b - ?a" by simp
  moreover obtain k n where "clear_used ?b = 16 * k" "?a = 16 * n"
    using b(4) a16 by (metis mod_0_imp_dvd dvdE)
  ultimately show gap: "?a + 0x2000 \<le> clear_used ?b" using b(3) lt by arith
  show "(?a + 0x1000) mod 2 ^ 32 = ?a + 0x1000"
    using gap b by (simp add: mod_if)
qed

lemma heap_grow_cases:
  assumes inv: "heap_inv s" and g: "heap_grow_map s = Some s'"
  obtains (same) "4 * length (heap_map s) < heap_map_size s" "s' = s"
    | (grown) "4 * length (heap_map s) = heap_map_size s" "\<not> is_used (heap_map s ! 0)"
      "heap_map s ! 0 + 0x2000 \<le> clear_used (heap_map s ! 1)"
      "s' = s\<lparr>heap_map_size := heap_map_size s + 0x1000,
              heap_map := (heap_map s)[0 := heap_map s ! 0 + 0x1000]\<rparr>"
proof (cases "4 * length (heap_map s) < heap_map_size s")
  case True
  with g show ?thesis by (intro same) (auto simp: heap_grow_map_def)
next
  case False
  from False inv have e: "4 * length (heap_map s) = heap_map_size s" by (simp add: heap_inv_def)
  from False g e have u: "\<not> is_used (heap_map s ! 0)"
    and d: "\<not> (heap_map s ! 1 + 2 ^ 32 - heap_map s ! 0) mod 2 ^ 32 < 0x2000"
    by (auto simp: heap_grow_map_def Let_def split: if_splits)
  note gap = heap_gap [OF inv u d]
  show ?thesis
  proof (rule grown [OF e u gap(1)])
    show "s' = s\<lparr>heap_map_size := heap_map_size s + 0x1000,
        heap_map := (heap_map s)[0 := heap_map s ! 0 + 0x1000]\<rparr>"
      using g False e u d gap(2) unfolding gap(3)
      by (simp add: heap_grow_map_def Let_def add.assoc split: if_splits)
  qed
qed

text \<open>
  When the map is full, an allocation that lands in the first region must leave room for
  the page by which the map grows.
\<close>

definition heap_grow_safe :: "heap_state \<Rightarrow> nat \<Rightarrow> bool" where
  "heap_grow_safe s addr \<longleftrightarrow> 4 * length (heap_map s) < heap_map_size s \<or>
    heap_map_addr s + heap_map_size s + 0x1000 < addr"

lemma heap_alloc_cases:
  assumes "heap_aligned_alloc alignment sz s = (p, s')" "p \<noteq> 0"
  obtains i g where "heap_args_ok alignment sz"
    "region_find (heap_map s) (max 16 alignment) sz (length (heap_map s) - 1) = Find_at i p"
    "heap_grow_map s = Some g"
    "s' = g\<lparr>heap_map := region_mark (p \<noteq> heap_map s ! (i - 1)) (heap_map g) i (p mod 2 ^ 32)\<rparr>"
proof -
  have "heap_args_ok alignment sz"
    using assms by (auto simp: heap_aligned_alloc_def heap_args_ok_def split: if_splits)
  moreover have "(if alignment < 0x10 then 0x10 else alignment) = max 16 alignment" by simp
  ultimately show ?thesis
    using assms
    by (auto simp: heap_aligned_alloc_def heap_args_ok_def Let_def
        split: if_splits find_result.splits option.splits intro!: that)
qed

lemma small_pow2: "0 < a \<Longrightarrow> a < 16 \<Longrightarrow> a AND (a - 1) = 0 \<Longrightarrow> a dvd 16" for a :: nat
proof -
  assume "0 < a" "a < 16" "a AND (a - 1) = 0"
  moreover have "\<forall>a \<in> {1..<16::nat}. a AND (a - 1) = 0 \<longrightarrow> a dvd 16" by code_simp
  ultimately show ?thesis by simp
qed

lemma aligned_result:
  assumes "heap_args_ok alignment sz" "p mod max 16 alignment = 0"
  shows "p mod 16 = 0" "p mod alignment = 0"
proof -
  have d: "max 16 alignment dvd p" "16 dvd max 16 alignment"
    using assms(2) alloc_alignment(1) [OF assms(1)] by (auto intro: mod_0_imp_dvd)
  then show "p mod 16 = 0" by (meson dvd_imp_mod_0 dvd_trans)
  have "alignment dvd max 16 alignment"
    using assms(1) small_pow2 [of alignment] by (cases "alignment < 16") (auto simp: heap_args_ok_def max_def)
  with d(1) show "p mod alignment = 0" by (meson dvd_imp_mod_0 dvd_trans)
qed

lemma fresh_region:
  assumes wf: "region_wf m" and j: "Suc j < length m" "\<not> is_used (m ! j)"
    and new: "region_wf m'" "blocks m' = insert (p, clear_used (m ! Suc j)) (blocks m)"
  shows "\<forall>(b, c) \<in> blocks m. clear_used (m ! Suc j) \<le> b \<or> c \<le> p"
proof (intro ballI, unfold split_paired_all prod.case)
  fix b c assume bc: "(b, c) \<in> blocks m"
  have "(b, c) \<noteq> (p, clear_used (m ! Suc j))"
  proof
    assume "(b, c) = (p, clear_used (m ! Suc j))"
    with bc obtain k where k: "Suc k < length m" "is_used (m ! k)"
        "clear_used (m ! Suc k) = clear_used (m ! Suc j)"
      by (auto simp: blocks_iff)
    have "k = j"
      using k j region_wf_mono [OF wf, of "Suc k" "Suc j"] region_wf_mono [OF wf, of "Suc j" "Suc k"]
      by (cases k j rule: linorder_cases) auto
    with k j show False by simp
  qed
  with blocks_disjoint [OF new(1), of b c p "clear_used (m ! Suc j)"] bc new(2)
  show "clear_used (m ! Suc j) \<le> b \<or> c \<le> p" by auto
qed

lemma heap_mark_step:
  assumes inv: "heap_inv s" and room: "4 * length (heap_map s) < heap_map_size s"
    and j: "Suc j < length (heap_map s)" "\<not> is_used (heap_map s ! j)"
    and p: "heap_map s ! j \<le> p" "p < clear_used (heap_map s ! Suc j)" "p mod 16 = 0"
  defines "s' \<equiv> s\<lparr>heap_map := region_mark (p \<noteq> heap_map s ! j) (heap_map s) (Suc j) p\<rparr>"
  shows "heap_inv s'"
    and "heap_blocks s' = insert (p, clear_used (heap_map s ! Suc j)) (heap_blocks s)"
    and "\<forall>(b, c) \<in> heap_blocks s. clear_used (heap_map s ! Suc j) \<le> b \<or> c \<le> p"
proof -
  have wf: "region_wf (heap_map s)" using inv by (simp add: heap_inv_def)
  note mk = region_mark_correct [OF wf j p]
  have "heap_map_size s mod 0x1000 = 0" using inv by (simp add: heap_inv_def)
  then obtain k where "heap_map_size s = 0x1000 * k" by (metis dvdE mod_0_imp_dvd)
  moreover from this room have "length (heap_map s) < 1024 * k" by simp
  ultimately have "4 * Suc (length (heap_map s)) \<le> heap_map_size s" by simp
  with inv mk show "heap_inv s'" by (auto simp: heap_inv_def s'_def)
  show "heap_blocks s' = insert (p, clear_used (heap_map s ! Suc j)) (heap_blocks s)"
    using mk(2) by (simp add: heap_blocks_def s'_def)
  show "\<forall>(b, c) \<in> heap_blocks s. clear_used (heap_map s ! Suc j) \<le> b \<or> c \<le> p"
    unfolding heap_blocks_def by (rule fresh_region [OF wf j mk(1,2)])
qed

lemma heap_grown_inv:
  assumes inv: "heap_inv s" and u: "\<not> is_used (heap_map s ! 0)"
    and gap: "heap_map s ! 0 + 0x2000 \<le> clear_used (heap_map s ! 1)"
  defines "g \<equiv> s\<lparr>heap_map_size := heap_map_size s + 0x1000,
                  heap_map := (heap_map s)[0 := heap_map s ! 0 + 0x1000]\<rparr>"
  shows "heap_inv g" "heap_blocks g = heap_blocks s" "4 * length (heap_map g) < heap_map_size g"
proof -
  have wf: "region_wf (heap_map s)" using inv by (simp add: heap_inv_def)
  then have l: "2 \<le> length (heap_map s)" "0 < length (heap_map s)" by (auto simp: region_wf_def)
  have m16: "heap_map s ! 0 mod 16 = 0" using heap_inv_nth(2) [OF inv, of 0] l u by fastforce
  have c: "(heap_map s ! 0 + 0x1000) mod 16 = 0" using m16 by (simp add: mod_add_eq [symmetric])
  note r = region_raise [OF wf u, of "heap_map s ! 0 + 0x1000", OF _ _ c]
  have "clear_used (heap_map s ! 0 + 0x1000) = heap_map s ! 0 + 0x1000"
    using mult16_not_used [OF c] by simp
  moreover have "last ((heap_map s)[0 := heap_map s ! 0 + 0x1000]) = last (heap_map s)"
    using l by (subst last_list_update) auto
  ultimately show "heap_inv g"
    using inv r gap l u by (auto simp: heap_inv_def g_def mod_add_eq [symmetric])
  show "heap_blocks g = heap_blocks s" using r gap by (simp add: heap_blocks_def g_def)
  show "4 * length (heap_map g) < heap_map_size g" using inv by (simp add: heap_inv_def g_def)
qed

lemma heap_alloc_main:
  assumes inv: "heap_inv s" and a: "heap_aligned_alloc alignment sz s = (p, s')" "p \<noteq> 0"
    and safe: "heap_grow_safe s p"
  shows "heap_inv s'" and "p mod alignment = 0" and
    "\<exists>e. p + sz \<le> e \<and> heap_blocks s' = insert (p, e) (heap_blocks s) \<and>
      (\<forall>(b, c) \<in> heap_blocks s. e \<le> b \<or> c \<le> p)"
proof -
  from a obtain i g where args: "heap_args_ok alignment sz"
    and f: "region_find (heap_map s) (max 16 alignment) sz (length (heap_map s) - 1) = Find_at i p"
    and g: "heap_grow_map s = Some g"
    and s': "s' = g\<lparr>heap_map := region_mark (p \<noteq> heap_map s ! (i - 1)) (heap_map g) i (p mod 2 ^ 32)\<rparr>"
    by (rule heap_alloc_cases)
  let ?m = "heap_map s"
  from region_find_at [OF f] alloc_alignment(2) [OF args] obtain j where
    j: "j < length ?m - 1" "i = Suc j" "\<not> is_used (?m ! j)" "?m ! j \<le> p"
      "p + sz \<le> clear_used (?m ! Suc j)" "p mod max 16 alignment = 0"
    by auto
  have jl: "Suc j < length ?m" using j(1) by simp
  note al = aligned_result [OF args j(6)]
  show "p mod alignment = 0" by (rule al)
  have lt: "p < clear_used (?m ! Suc j)" using j(5) args by (simp add: heap_args_ok_def)
  with heap_inv_nth(1) [OF inv jl] have p32: "p mod 2 ^ 32 = p" by simp
  from inv g have "heap_inv s' \<and> heap_blocks s' = insert (p, clear_used (?m ! Suc j)) (heap_blocks s) \<and>
      (\<forall>(b, c) \<in> heap_blocks s. clear_used (?m ! Suc j) \<le> b \<or> c \<le> p)"
  proof (cases rule: heap_grow_cases)
    case same
    have "s' = s\<lparr>heap_map := region_mark (p \<noteq> ?m ! j) ?m (Suc j) p\<rparr>"
      unfolding s' same(2) j(2) p32 by simp
    with heap_mark_step [OF inv same(1) jl j(3,4) lt al(1)] show ?thesis by simp
  next
    case grown
    have h0: "?m ! 0 = heap_map_addr s + heap_map_size s"
      using inv grown(2) by (simp add: heap_inv_def)
    note gi = heap_grown_inv [OF inv grown(2,3), folded grown(4)]
    have safe': "?m ! 0 + 0x1000 < p" using safe grown(1) h0 by (simp add: heap_grow_safe_def)
    have gm: "heap_map g = ?m[0 := ?m ! 0 + 0x1000]" by (simp add: grown(4))
    have nth: "Suc j < length (heap_map g)" "heap_map g ! Suc j = ?m ! Suc j"
      "\<not> is_used (heap_map g ! j)" "heap_map g ! j \<le> p" "(p \<noteq> ?m ! j) = (p \<noteq> heap_map g ! j)"
    proof -
      have "\<not> is_used (?m ! 0 + 0x1000)" using grown(2) by (simp add: is_used_def)
      moreover have "0 < length ?m" using jl by linarith
      then have "heap_map g ! j = (if j = 0 then ?m ! 0 + 0x1000 else ?m ! j)"
        "heap_map g ! Suc j = ?m ! Suc j" "length (heap_map g) = length ?m"
        by (simp_all add: gm nth_list_update)
      ultimately show "Suc j < length (heap_map g)" "heap_map g ! Suc j = ?m ! Suc j"
        "\<not> is_used (heap_map g ! j)" "heap_map g ! j \<le> p" "(p \<noteq> ?m ! j) = (p \<noteq> heap_map g ! j)"
        using jl j(3,4) safe' by (auto split: if_splits)
    qed
    have "s' = g\<lparr>heap_map := region_mark (p \<noteq> heap_map g ! j) (heap_map g) (Suc j) p\<rparr>"
      unfolding s' j(2) p32 using nth(5) by simp
    with heap_mark_step [OF gi(1,3) nth(1,3,4) _ al(1)] lt gi(2) nth(2) show ?thesis by simp
  qed
  then show "heap_inv s'"
    "\<exists>e. p + sz \<le> e \<and> heap_blocks s' = insert (p, e) (heap_blocks s) \<and>
      (\<forall>(b, c) \<in> heap_blocks s. e \<le> b \<or> c \<le> p)"
    using j(5) by blast+
qed

text \<open>
  C5. A successful kernel heap allocation returns an address with the requested alignment
  that starts a block of at least the requested size; the block joins the blocks in use, which
  all stay where they were and do not overlap it, and the heap invariant is kept. The one
  premise is that a map grown for the new entry does not run into the block.
\<close>

theorem heap_aligned_alloc_correct:
  assumes "heap_inv s" "heap_aligned_alloc alignment sz s = (p, s')" "p \<noteq> 0" "heap_grow_safe s p"
  shows "heap_inv s' \<and> p mod alignment = 0 \<and>
    (\<exists>e. p + sz \<le> e \<and> heap_blocks s' = insert (p, e) (heap_blocks s) \<and>
      (\<forall>(b, c) \<in> heap_blocks s. e \<le> b \<or> c \<le> p))"
  using heap_alloc_main [OF assms] by blast

definition heap_example :: heap_state where
  "heap_example = snd (heap_init 0x100000 0x300000 True
    \<lparr>heap_run_once = False, heap_map_addr = 0, heap_map_size = 0, heap_map = [], heap_mem = (\<lambda>_. 0)\<rparr>)"

lemma heap_example_eq:
  "heap_example = \<lparr>heap_run_once = True, heap_map_addr = 0x100000, heap_map_size = 0x1000,
    heap_map = [0x101000, 0x300000], heap_mem = (\<lambda>_. 0)\<rparr>"
  by (simp add: heap_example_def heap_init_def Let_def bits_arith)

lemma heap_example_inv: "heap_inv heap_example"
  by (simp add: heap_example_eq heap_inv_def region_wf_def is_used_def clear_used_def)

theorem heap_aligned_alloc_correct_witness:
  "heap_inv heap_example \<and> fst (heap_aligned_alloc 0x1000 100 heap_example) = 0x2FF000 \<and>
   heap_inv (snd (heap_aligned_alloc 0x1000 100 heap_example))"
proof -
  have e: "fst (heap_aligned_alloc 0x1000 100 heap_example) = 0x2FF000"
    by (simp add: heap_example_eq heap_aligned_alloc_def heap_grow_map_def Let_def is_used_def clear_used_def)
  have g: "heap_grow_safe heap_example 0x2FF000"
    by (simp add: heap_example_eq heap_grow_safe_def)
  show ?thesis
    using heap_aligned_alloc_correct [OF heap_example_inv, of "0x1000" 100 "0x2FF000"] e g heap_example_inv
    by (metis prod.collapse zero_neq_numeral)
qed

text \<open>
  The allocator fails only for a reason: when it returns a null pointer the state is
  unchanged, and with valid arguments and a map that is not full no unused region holds an
  aligned block of the requested size.
\<close>

theorem heap_aligned_alloc_complete:
  assumes "heap_inv s" "heap_aligned_alloc alignment sz s = (0, s')"
  shows "s' = s \<and> (heap_args_ok alignment sz \<longrightarrow> 4 * length (heap_map s) < heap_map_size s \<longrightarrow>
    (\<forall>j a. Suc j < length (heap_map s) \<longrightarrow> \<not> is_used (heap_map s ! j) \<longrightarrow> heap_map s ! j \<le> a \<longrightarrow>
      a + sz \<le> clear_used (heap_map s ! Suc j) \<longrightarrow> a mod max 16 alignment \<noteq> 0))"
proof (intro conjI impI allI)
  show "s' = s"
    using assms(2) by (auto simp: heap_aligned_alloc_def Let_def split: if_splits find_result.splits option.splits)
  fix j a
  assume args: "heap_args_ok alignment sz" and room: "4 * length (heap_map s) < heap_map_size s"
    and j: "Suc j < length (heap_map s)" "\<not> is_used (heap_map s ! j)" "heap_map s ! j \<le> a"
      "a + sz \<le> clear_used (heap_map s ! Suc j)"
  let ?al = "max 16 alignment"
  let ?k = "length (heap_map s) - 1"
  have wf: "region_wf (heap_map s)" using assms(1) by (simp add: heap_inv_def)
  have al: "(if alignment < 0x10 then 0x10 else alignment) = ?al" by simp
  have g: "heap_grow_map s = Some s" using room by (simp add: heap_grow_map_def)
  have "region_find (heap_map s) ?al sz ?k = Find_none"
  proof (cases "region_find (heap_map s) ?al sz ?k")
    case Find_abort
    with region_find_no_abort [OF wf, of ?k] j(1) show ?thesis by force
  next
    case (Find_at i addr)
    from region_find_at [OF this alloc_alignment(2) [OF args]] obtain k where
      k: "k < ?k" "heap_map s ! k \<le> addr" "\<not> is_used (heap_map s ! k)" by blast
    have "k < length (heap_map s)" using k(1) by simp
    have "0 < clear_used (heap_map s ! 0)" using assms(1) by (simp add: heap_inv_def)
    moreover have "clear_used (heap_map s ! 0) \<le> clear_used (heap_map s ! k)"
      using region_wf_mono [OF wf, of 0 k] \<open>k < length (heap_map s)\<close> by (cases "k = 0") (auto simp: less_imp_le)
    ultimately have "addr \<noteq> 0" using k by auto
    with assms(2) args Find_at g al have False
      by (simp add: heap_aligned_alloc_def heap_args_ok_def Let_def)
    then show ?thesis ..
  qed
  from region_find_none [OF this alloc_alignment(2) [OF args] _ j(2-4)] j(1)
  show "a mod ?al \<noteq> 0" by simp
qed

theorem heap_aligned_alloc_complete_witness:
  "heap_aligned_alloc 16 0x1FF001 heap_example = (0, heap_example) \<and>
   \<not> (\<exists>a::nat. 0x101000 \<le> a \<and> a + 0x1FF001 \<le> 0x300000 \<and> a mod 16 = 0)"
proof -
  have e: "heap_aligned_alloc 16 0x1FF001 heap_example = (0, heap_example)"
    by (simp add: heap_example_eq heap_aligned_alloc_def Let_def is_used_def clear_used_def)
  have "\<forall>j a. Suc j < 2 \<longrightarrow> \<not> is_used ([0x101000, 0x300000] ! j) \<longrightarrow> [0x101000, 0x300000] ! j \<le> a \<longrightarrow>
      a + 0x1FF001 \<le> clear_used ([0x101000, 0x300000] ! Suc j) \<longrightarrow> a mod 16 \<noteq> 0"
    using heap_aligned_alloc_complete [OF heap_example_inv e]
    by (simp add: heap_example_eq heap_args_ok_def)
  from this [rule_format, of 0] e show ?thesis by (auto simp: is_used_def clear_used_def)
qed

subsection \<open>Releasing\<close>

lemma heap_free_main:
  assumes inv: "heap_inv s"
  shows "heap_inv (heap_free p s)"
    "heap_blocks (heap_free p s) = {q \<in> heap_blocks s. fst q \<noteq> clear_used (p mod 2 ^ 32)}"
    "no_adjacent_free (heap_map (heap_free p s))"
proof -
  let ?a = "set_used (p mod 2 ^ 32)"
  let ?r = "region_release ?a (heap_map s)"
  have wf: "region_wf (heap_map s)" using inv by (simp add: heap_inv_def)
  have ne: "heap_map s \<noteq> []" "?r \<noteq> []"
    using wf region_release_shape(1) [of ?a "heap_map s"] by (auto simp: region_wf_def)
  note m = region_merge_correct [OF region_release_wf [OF wf, of ?a] order_refl]
  have "clear_used (?r ! 0) = clear_used (heap_map s ! 0)"
    using region_release_shape(2) [of ?a "heap_map s"] ne
    by (metis length_greater_0_conv nth_map region_release_shape(1))
  moreover have "length (heap_map (heap_free p s)) \<le> length (heap_map s)"
    using m region_release_shape(1) [of ?a "heap_map s"] by (simp add: heap_free_def Let_def)
  ultimately show "heap_inv (heap_free p s)"
    using inv m region_release_shape(3) [OF ne(1), of ?a]
    by (auto simp: heap_inv_def heap_free_def Let_def)
  have "blocks ?r = {q \<in> blocks (heap_map s). fst q \<noteq> clear_used (p mod 2 ^ 32)}"
    using region_release_blocks [of "heap_map s" ?a] wf by (simp add: region_wf_def)
  then show "heap_blocks (heap_free p s) = {q \<in> heap_blocks s. fst q \<noteq> clear_used (p mod 2 ^ 32)}"
    using m by (simp add: heap_free_def heap_blocks_def Let_def)
  show "no_adjacent_free (heap_map (heap_free p s))"
    using region_merge_no_adjacent [of 1 ?r] by (simp add: heap_free_def Let_def)
qed

lemma heap_block_addr:
  assumes "heap_inv s" "(p, e) \<in> heap_blocks s"
  shows "clear_used (p mod 2 ^ 32) = p" "0 < p" "p < e" "e < 2 ^ 32"
    "heap_map_addr s + heap_map_size s \<le> p"
proof -
  have wf: "region_wf (heap_map s)" using assms(1) by (simp add: heap_inv_def)
  note b = blocks_bounds [OF wf assms(2) [unfolded heap_blocks_def]]
  show "p < e" "e < 2 ^ 32" "0 < p" "heap_map_addr s + heap_map_size s \<le> p"
    using b assms(1) by (auto simp: heap_inv_def)
  then show "clear_used (p mod 2 ^ 32) = p"
    using mult16_not_used [OF b(4)] by simp
qed

text \<open>
  C15. Freeing the start address of a block in use removes exactly that block, keeps the heap
  invariant, and merges neighbours: afterwards no two adjacent regions are both unused.
\<close>

theorem heap_free_correct:
  assumes "heap_inv s" "(p, e) \<in> heap_blocks s"
  shows "heap_inv (heap_free p s) \<and> heap_blocks (heap_free p s) = heap_blocks s - {(p, e)} \<and>
    no_adjacent_free (heap_map (heap_free p s))"
proof -
  have wf: "region_wf (heap_map s)" using assms(1) by (simp add: heap_inv_def)
  have uniq: "c = e" if "(p, c) \<in> heap_blocks s" for c
  proof -
    have "p < c" "p < e" using heap_block_addr(3) [OF assms(1)] that assms(2) by blast+
    with blocks_disjoint [OF wf that [unfolded heap_blocks_def] assms(2) [unfolded heap_blocks_def]]
    show ?thesis by simp
  qed
  have "q \<in> {q \<in> heap_blocks s. fst q \<noteq> p} \<longleftrightarrow> q \<in> heap_blocks s - {(p, e)}" for q
    using uniq [of "snd q"] by (cases q) auto
  then have "{q \<in> heap_blocks s. fst q \<noteq> p} = heap_blocks s - {(p, e)}" by (rule set_eqI)
  with heap_free_main [OF assms(1), of p] show ?thesis
    unfolding heap_block_addr(1) [OF assms] by simp
qed

theorem heap_free_correct_witness:
  "(0x2FF000, 0x300000) \<in> heap_blocks (snd (heap_aligned_alloc 0x1000 100 heap_example)) \<and>
   heap_blocks (heap_free 0x2FF000 (snd (heap_aligned_alloc 0x1000 100 heap_example))) = {}"
proof -
  let ?s = "snd (heap_aligned_alloc 0x1000 100 heap_example)"
  have m: "heap_map ?s = [0x101000, 0x2FF001, 0x300000]" "heap_map_addr ?s = 0x100000"
    "heap_map_size ?s = 0x1000"
    by (simp_all add: heap_example_eq heap_aligned_alloc_def heap_grow_map_def Let_def is_used_def
        clear_used_def set_used_def region_mark_def)
  have b: "heap_blocks ?s = {(0x2FF000, 0x300000)}"
    by (simp add: heap_blocks_def m blocks_def is_used_def clear_used_def)
  have i: "heap_inv ?s"
    by (simp add: heap_inv_def m region_wf_def is_used_def clear_used_def)
  show ?thesis using heap_free_correct [OF i, of "0x2FF000" "0x300000"] b by simp
qed

interpretation kernel_heap: block_allocator heap_inv heap_blocks "heap_aligned_alloc 16" heap_free heap_grow_safe
proof
  fix s n p s'
  assume a: "heap_inv s" "heap_aligned_alloc 16 n s = (p, s')" "p \<noteq> 0" "heap_grow_safe s p"
  show "heap_inv s'" by (rule heap_alloc_main(1) [OF a])
  from a(2,3) have "0 < n" by (auto elim!: heap_alloc_cases simp: heap_args_ok_def)
  with heap_alloc_main(3) [OF a]
  show "\<exists>e. p + n \<le> e \<and> p < e \<and> heap_blocks s' = insert (p, e) (heap_blocks s) \<and>
      (\<forall>(b, c) \<in> heap_blocks s. e \<le> b \<or> c \<le> p)" by fastforce
next
  fix s n s'
  assume inv: "heap_inv s" and a: "heap_aligned_alloc 16 n s = (0, s')"
  from a have "s' = s"
    by (auto simp: heap_aligned_alloc_def Let_def split: if_splits find_result.splits option.splits)
  with inv show "heap_inv s' \<and> heap_blocks s' = heap_blocks s" by simp
next
  fix s p e
  assume a: "heap_inv s" "(p, e) \<in> heap_blocks s"
  show "heap_blocks (heap_free p s) = {q \<in> heap_blocks s. fst q \<noteq> p}"
    using heap_free_main(2) [OF a(1), of p] heap_block_addr(1) [OF a] by simp
  show "p < e" by (rule heap_block_addr(3) [OF a])
qed (rule heap_free_main(1))

text \<open>
  \<^verbatim>\<open>malloc\<close> followed by \<^verbatim>\<open>free\<close> of its result leaves the set of blocks
  in use exactly as it was.
\<close>

theorem malloc_free_roundtrip:
  assumes "heap_inv s" "malloc True n s = (p, s')" "p \<noteq> 0" "heap_grow_safe s p"
  shows "heap_blocks (free True p s') = heap_blocks s"
  using kernel_heap.alloc_release [OF assms(1), of n p s'] assms(2-4)
  by (simp add: malloc_def free_def)

theorem malloc_free_roundtrip_witness:
  "fst (malloc True 100 heap_example) = 0x2FFF90 \<and>
   heap_blocks (free True 0x2FFF90 (snd (malloc True 100 heap_example))) = heap_blocks heap_example"
proof -
  have e: "fst (malloc True 100 heap_example) = 0x2FFF90"
    by (simp add: malloc_def heap_example_eq heap_aligned_alloc_def heap_grow_map_def Let_def
        is_used_def clear_used_def)
  have g: "heap_grow_safe heap_example 0x2FFF90"
    by (simp add: heap_example_eq heap_grow_safe_def)
  show ?thesis
    using malloc_free_roundtrip [OF heap_example_inv, of 100 "0x2FFF90"] e g
    by (metis prod.collapse zero_neq_numeral)
qed

subsection \<open>Initialisation, static pages, sums\<close>

lemma mod_4096_16: "x mod 0x1000 = 0 \<Longrightarrow> x mod 16 = 0" for x :: nat
  using dvd_trans [of 16 "0x1000" x] by (simp add: mod_eq_0_iff_dvd)

text \<open>
  A successful \<^verbatim>\<open>heap_init\<close> over a range below 4 GiB establishes the heap
  invariant with no block in use, and it succeeds only once.
\<close>

theorem heap_init_correct:
  assumes "heap_init heap_addr stack_array_addr mtx_init_ok s = (DE_SUCCESS, s')"
    and "0 < heap_addr" "heap_addr \<le> stack_array_addr" "stack_array_addr < 2 ^ 32"
  shows "heap_inv s' \<and> heap_blocks s' = {} \<and>
    heap_init heap_addr stack_array_addr mtx_init_ok s' = (DE_UNEXPECTED, s')"
proof -
  have n: "(stack_array_addr + 2 ^ 64 - heap_addr) mod 2 ^ 64 = stack_array_addr - heap_addr"
    using assms(3,4) by (simp add: mod_if)
  from assms(1) have *: "0x100000 \<le> stack_array_addr - heap_addr"
      "(stack_array_addr - heap_addr) mod 0x1000 = 0" "heap_addr mod 0x1000 = 0"
      "s' = s\<lparr>heap_run_once := True, heap_map_addr := heap_addr, heap_map_size := 0x1000,
             heap_map := [(heap_addr + 0x1000) mod 2 ^ 32, stack_array_addr mod 2 ^ 32]\<rparr>"
    unfolding heap_init_def n by (auto simp: Let_def bits_arith split: if_splits)
  have m: "(heap_addr + 0x1000) mod 2 ^ 32 = heap_addr + 0x1000" "stack_array_addr mod 2 ^ 32 = stack_array_addr"
    using * (1) assms(4) by simp_all
  have d: "(heap_addr + 0x1000) mod 16 = 0" "stack_array_addr mod 16 = 0"
  proof -
    show "(heap_addr + 0x1000) mod 16 = 0"
      by (rule mod_4096_16) (use * (3) in simp)
    have "(heap_addr + (stack_array_addr - heap_addr)) mod 0x1000 = 0"
      using * (2,3) by (simp only: mod_eq_0_iff_dvd dvd_add)
    then show "stack_array_addr mod 16 = 0"
      using assms(3) by (intro mod_4096_16) simp
  qed
  have "heap_inv s'"
    using mult16_not_used [OF d(1)] mult16_not_used [OF d(2)] d * (1,3) assms(2,4)
    by (simp add: heap_inv_def region_wf_def * (4) m)
  moreover have "heap_blocks s' = {}"
    using mult16_not_used [OF d(1)] unfolding heap_blocks_def blocks_def * (4) m by simp
  ultimately show ?thesis by (simp add: heap_init_def * (4))
qed

theorem heap_init_correct_witness:
  "heap_init 0x100000 0x300000 True \<lparr>heap_run_once = False, heap_map_addr = 0, heap_map_size = 0,
     heap_map = [], heap_mem = (\<lambda>_. 0)\<rparr> = (DE_SUCCESS, heap_example) \<and> heap_blocks heap_example = {}"
proof -
  have e: "heap_init 0x100000 0x300000 True \<lparr>heap_run_once = False, heap_map_addr = 0, heap_map_size = 0,
     heap_map = [], heap_mem = (\<lambda>_. 0)\<rparr> = (DE_SUCCESS, heap_example)"
    by (simp add: heap_example_def heap_init_def Let_def bits_arith)
  show ?thesis using heap_init_correct [OF e] e by simp
qed

text \<open>
  The sums that \<^verbatim>\<open>heap_usage\<close> reports are the total length of the blocks in use
  and the rest of the managed range: together they account for every byte between the end
  of the map and the end of the heap.
\<close>

theorem heap_usage_correct:
  assumes "heap_inv s"
  shows "fst (heap_usage True s) = (\<Sum>(b, e) \<in> heap_blocks s. e - b) \<and>
    fst (heap_usage True s) + snd (heap_usage True s) =
      last (heap_map s) - (heap_map_addr s + heap_map_size s)"
proof -
  have wf: "region_wf (heap_map s)" using assms by (simp add: heap_inv_def)
  let ?k = "length (heap_map s) - 1"
  have ne: "heap_map s \<noteq> []" and k: "?k < length (heap_map s)" using wf by (auto simp: region_wf_def)
  have l: "clear_used (heap_map s ! ?k) = last (heap_map s)"
    using wf ne by (simp add: region_wf_def last_conv_nth)
  have "heap_usage True s = (sum (used_len (heap_map s)) {..<?k}, sum (free_len (heap_map s)) {..<?k})"
    using region_usage_sum [OF wf k, of 0 0] by (simp add: heap_usage_def)
  then show ?thesis
    using region_usage_total [OF wf k] usage_blocks [OF wf] l assms
    by (simp add: heap_blocks_def heap_inv_def)
qed

theorem heap_usage_correct_witness:
  "heap_inv heap_example \<and> fst (heap_usage True heap_example) + snd (heap_usage True heap_example) = 0x1FF000"
  using heap_usage_correct [OF heap_example_inv] heap_example_inv by (simp add: heap_example_eq)

text \<open>
  A static page is cut from below the heap: the call returns the old position of the
  map, zeroes exactly that page, moves the map up by one page and leaves the blocks in use
  and the invariant untouched.
\<close>

theorem heap_alloc_static_page_correct:
  assumes "heap_inv s" "heap_alloc_static_page lock_ok s = (p, s')" "p \<noteq> 0"
  shows "heap_inv s' \<and> heap_blocks s' = heap_blocks s \<and> p = heap_map_addr s \<and>
    heap_map_addr s' = p + 0x1000 \<and> heap_map_size s' = heap_map_size s \<and>
    (\<forall>a. heap_mem s' a = (if p \<le> a \<and> a < p + 0x1000 then 0 else heap_mem s a))"
proof -
  from assms(2,3) have u: "\<not> is_used (heap_map s ! 0)"
    and d: "\<not> (heap_map s ! 1 + 2 ^ 32 - heap_map s ! 0) mod 2 ^ 32 < 0x2000"
    by (auto simp: heap_alloc_static_page_def split: if_splits)
  note gap = heap_gap [OF assms(1) u d]
  have wf: "region_wf (heap_map s)" using assms(1) by (simp add: heap_inv_def)
  then have l: "2 \<le> length (heap_map s)" "0 < length (heap_map s)" by (auto simp: region_wf_def)
  have c: "(heap_map s ! 0 + 0x1000) mod 16 = 0"
    using heap_inv_nth(2) [OF assms(1), of 0] l u by (fastforce simp: mod_eq_0_iff_dvd dvd_add)
  have s': "p = heap_map_addr s" "s' = s\<lparr>heap_map_addr := p + 0x1000,
      heap_map := (heap_map s)[0 := heap_map s ! 0 + 0x1000], heap_mem := mem_fill p 0x1000 0 (heap_mem s)\<rparr>"
    using assms(2,3) u d gap(2) unfolding gap(3)
    by (auto simp: heap_alloc_static_page_def Let_def ac_simps split: if_splits)
  note r = region_raise [OF wf u, of "heap_map s ! 0 + 0x1000", OF _ _ c]
  have last: "last ((heap_map s)[0 := heap_map s ! 0 + 0x1000]) = last (heap_map s)"
    using l by (subst last_list_update) auto
  have "clear_used (heap_map s ! 0 + 0x1000) = heap_map s ! 0 + 0x1000"
    using mult16_not_used [OF c] by simp
  then have "heap_inv s'"
    using assms(1) r(1) gap(1,3) l last unfolding s'(2)
    by (auto simp: heap_inv_def s'(1) mod_eq_0_iff_dvd dvd_add)
  then show ?thesis
    using r(2) gap(1) s'(1) unfolding s'(2) by (simp add: heap_blocks_def mem_fill_def)
qed

theorem heap_alloc_static_page_correct_witness:
  "fst (heap_alloc_static_page True heap_example) = 0x100000 \<and>
   heap_inv (snd (heap_alloc_static_page True heap_example))"
proof -
  have e: "fst (heap_alloc_static_page True heap_example) = 0x100000"
    by (simp add: heap_alloc_static_page_def heap_example_eq is_used_def)
  show ?thesis
    using heap_alloc_static_page_correct [OF heap_example_inv, of True "0x100000"] e
    by (metis prod.collapse zero_neq_numeral)
qed

subsection \<open>Zeroed and copied memory\<close>

lemma heap_alloc_frame:
  assumes "heap_aligned_alloc alignment sz s = (p, s')"
  shows "heap_mem s' = heap_mem s"
  using assms
  by (auto simp: heap_aligned_alloc_def heap_grow_map_def Let_def
      split: if_splits find_result.splits option.splits)

lemma heap_inv_mem [simp]: "heap_inv (s\<lparr>heap_mem := f\<rparr>) = heap_inv s"
  "heap_blocks (s\<lparr>heap_mem := f\<rparr>) = heap_blocks s"
  by (simp_all add: heap_inv_def heap_blocks_def)

lemma mult_overflow_check:
  fixes nmemb sz :: nat
  assumes "nmemb * sz mod 2 ^ 64 \<noteq> 0" "nmemb * sz mod 2 ^ 64 div nmemb = sz"
  shows "nmemb * sz mod 2 ^ 64 = nmemb * sz"
proof -
  let ?m = "nmemb * sz mod 2 ^ 64"
  have "nmemb * sz = nmemb * (?m div nmemb)" using assms(2) by simp
  also have "\<dots> \<le> ?m" by simp
  finally have "nmemb * sz \<le> ?m" .
  moreover have "?m \<le> nmemb * sz" by simp
  ultimately show ?thesis by (rule antisym [rotated])
qed

text \<open>
  \<^verbatim>\<open>calloc\<close> is safe against overflow of its product: a non-null result is a block
  that really holds \<open>nmemb * size\<close> bytes, all of them zero, and memory outside those bytes
  is not written.
\<close>

theorem calloc_correct:
  assumes "heap_inv s" "calloc lock_ok nmemb sz s = (p, s')" "p \<noteq> 0" "heap_grow_safe s p"
  shows "heap_inv s' \<and>
    (\<exists>e. p + nmemb * sz \<le> e \<and> heap_blocks s' = insert (p, e) (heap_blocks s) \<and>
      (\<forall>(b, c) \<in> heap_blocks s. e \<le> b \<or> c \<le> p)) \<and>
    (\<forall>a. heap_mem s' a = (if p \<le> a \<and> a < p + nmemb * sz then 0 else heap_mem s a))"
proof -
  let ?m = "nmemb * sz mod 2 ^ 64"
  obtain g where g: "heap_aligned_alloc 16 ?m s = (p, g)" "?m \<noteq> 0" "?m div nmemb = sz"
      "s' = g\<lparr>heap_mem := mem_fill p ?m 0 (heap_mem g)\<rparr>"
    using assms(2,3) by (auto simp: calloc_def Let_def split: if_splits prod.splits)
  note m = mult_overflow_check [OF g(2,3)]
  note main = heap_alloc_main [OF assms(1) g(1) assms(3,4)]
  show ?thesis
    using main(1,3) unfolding g(4) m by (simp add: mem_fill_def heap_alloc_frame [OF g(1)])
qed

theorem calloc_correct_witness:
  "fst (calloc True 10 10 heap_example) = 0x2FFF90 \<and>
   heap_inv (snd (calloc True 10 10 heap_example)) \<and> calloc True (2 ^ 63) 4 heap_example = (0, heap_example)"
proof -
  have e: "fst (calloc True 10 10 heap_example) = 0x2FFF90"
    by (simp add: calloc_def heap_example_eq heap_aligned_alloc_def heap_grow_map_def Let_def
        is_used_def clear_used_def)
  have g: "heap_grow_safe heap_example 0x2FFF90"
    by (simp add: heap_example_eq heap_grow_safe_def)
  have n: "calloc True (2 ^ 63) 4 heap_example = (0, heap_example)" by (simp add: calloc_def)
  show ?thesis
    using calloc_correct [OF heap_example_inv, of True 10 10 "0x2FFF90"] e g n
    by (metis prod.collapse zero_neq_numeral)
qed

text \<open>
  \<^verbatim>\<open>strdup\<close> returns a fresh block that holds the string and its terminating zero;
  no byte of another block in use changes.
\<close>

theorem strdup_correct:
  assumes "heap_inv s" "strdup lock_ok (Some cs) s = (p, s')" "p \<noteq> 0" "heap_grow_safe s p"
  shows "heap_inv s' \<and> map (heap_mem s') [p..<p + length cs + 1] = cs @ [0] \<and>
    (\<forall>(b, c) \<in> heap_blocks s. \<forall>a \<in> {b..<c}. heap_mem s' a = heap_mem s a)"
proof -
  obtain g where g: "heap_aligned_alloc 16 (length cs + 1) s = (p, g)"
      "s' = g\<lparr>heap_mem := mem_store p (cs @ [0]) (heap_mem g)\<rparr>"
    using assms(2,3) by (auto simp: strdup_def Let_def split: if_splits prod.splits)
  note main = heap_alloc_main [OF assms(1) g(1) assms(3,4)]
  have "heap_mem s' = mem_store p (cs @ [0]) (heap_mem s)"
    by (simp add: g(2) heap_alloc_frame [OF g(1)])
  moreover have "map (mem_store p (cs @ [0]) f) [p..<p + length cs + 1] = cs @ [0]" for f
    by (rule nth_equalityI) (auto simp: mem_store_def simp del: upt_Suc)
  moreover from main(3) obtain e where "p + (length cs + 1) \<le> e" "\<forall>(b, c) \<in> heap_blocks s. e \<le> b \<or> c \<le> p"
    by blast
  then have "\<forall>(b, c) \<in> heap_blocks s. \<forall>a \<in> {b..<c}. mem_store p (cs @ [0]) (heap_mem s) a = heap_mem s a"
    by (fastforce simp: mem_store_def)
  ultimately show ?thesis using main(1) by (simp add: g(2))
qed

theorem strdup_correct_witness:
  "fst (strdup True (Some [72, 105]) heap_example) = 0x2FFFF0 \<and>
   heap_mem (snd (strdup True (Some [72, 105]) heap_example)) 0x2FFFF1 = 105"
proof -
  have e: "fst (strdup True (Some [72, 105]) heap_example) = 0x2FFFF0"
    by (simp add: strdup_def heap_example_eq heap_aligned_alloc_def heap_grow_map_def Let_def
        is_used_def clear_used_def)
  have g: "heap_grow_safe heap_example 0x2FFFF0"
    by (simp add: heap_example_eq heap_grow_safe_def)
  obtain s' where s': "strdup True (Some [72, 105]) heap_example = (0x2FFFF0, s')"
    using e by (cases "strdup True (Some [72, 105]) heap_example") simp
  have "map (heap_mem s') [0x2FFFF0..<0x2FFFF3] = [72, 105, 0]"
    using strdup_correct [OF heap_example_inv s' _ g] by simp
  then have "map (heap_mem s') [0x2FFFF0..<0x2FFFF3] ! 1 = 105" by simp
  then have "heap_mem s' 0x2FFFF1 = 105" by (subst (asm) nth_map) simp_all
  then show ?thesis by (simp add: s')
qed

subsection \<open>The full map\<close>

lemma region_find_skip_used:
  assumes "\<forall>j. 1 \<le> j \<and> j < k \<longrightarrow> is_used (m ! j)" "1 \<le> k"
  shows "region_find m al sz k = region_find m al sz 1"
  using assms
proof (induction k)
  case (Suc k)
  show ?case
  proof (cases "k = 0")
    case False
    with Suc have "is_used (m ! k)" "region_find m al sz k = region_find m al sz 1" by auto
    then show ?thesis by (simp add: region_find_Suc [OF refl refl] del: region_find.simps)
  qed simp
qed simp

definition full_map :: "nat list" where
  "full_map = 0x101000 # map (\<lambda>k. 0x103000 + 16 * k + 1) [0..<1022] @ [0x103000 + 16 * 1022]"

definition heap_full :: heap_state where
  "heap_full = \<lparr>heap_run_once = True, heap_map_addr = 0x100000, heap_map_size = 0x1000,
    heap_map = full_map, heap_mem = (\<lambda>_. 0)\<rparr>"

lemma full_map_facts:
  "length full_map = 1024" "full_map ! 0 = 0x101000" "full_map ! 1 = 0x103001"
  "\<forall>j. 1 \<le> j \<and> j < 1023 \<longrightarrow> is_used (full_map ! j)" "last full_map = 0x103000 + 16 * 1022"
proof -
  show "length full_map = 1024" "full_map ! 0 = 0x101000" "last full_map = 0x103000 + 16 * 1022"
    by (simp_all add: full_map_def)
  have n: "full_map ! Suc k = 0x103000 + 16 * k + 1" if "k < 1022" for k
    using that by (simp add: full_map_def nth_append)
  from n [of 0] show "full_map ! 1 = 0x103001" by simp
  show "\<forall>j. 1 \<le> j \<and> j < 1023 \<longrightarrow> is_used (full_map ! j)"
  proof (intro allI impI)
    fix j :: nat assume "1 \<le> j \<and> j < 1023"
    then obtain k where "j = Suc k" "k < 1022" by (cases j) auto
    with n [of k] show "is_used (full_map ! j)" by (simp add: is_used_def)
  qed
qed

lemma full_map_clear:
  "map clear_used full_map = 0x101000 # map (\<lambda>k. 0x103000 + 16 * k) [0..<1023]"
proof -
  have c: "clear_used (0x103000 + 16 * k + 1) = 0x103000 + 16 * k" for k
  proof -
    have "clear_used (2 * x + 1) = 2 * x" for x by (simp add: clear_used_def)
    from this [of "0x81800 + 8 * k"] show ?thesis by simp
  qed
  have "[0..<1023] = [0..<1022] @ [1022::nat]"
    using upt_Suc_append [of 0 1022] by simp
  then show ?thesis
    by (simp only: full_map_def list.map map_append map_map comp_def c) (simp add: clear_used_def)
qed

lemma heap_full_inv: "heap_inv heap_full"
proof -
  have "sorted_wrt (<) (map (\<lambda>k. 0x103000 + 16 * k :: nat) [0..<1023])"
    by (simp add: sorted_wrt_iff_nth_less)
  then have "sorted_wrt (<) (map clear_used full_map)"
    unfolding full_map_clear by simp
  moreover have "\<forall>x \<in> set (map clear_used full_map). x mod 16 = 0"
    unfolding full_map_clear by (auto simp: mod_eq_0_iff_dvd)
  ultimately have "region_wf full_map"
    using full_map_facts(1,5) by (auto simp: region_wf_def is_used_def)
  then show ?thesis
    using full_map_facts by (simp add: heap_inv_def heap_full_def clear_used_def)
qed

text \<open>
  C16. The growth of a full map can run into the block being allocated: there is a heap state
  that satisfies the invariant in which an allocation of \<open>0x1800\<close> bytes returns an address
  below the new end of the map, so that map and block overlap and the map is no longer
  sorted. The check in \<^verbatim>\<open>heap_aligned_alloc\<close> that the first region has two pages left
  is made before the block is cut from that same region.
\<close>

theorem heap_map_growth_overlap:
  "\<exists>s. heap_inv s \<and> (\<exists>p s'. heap_aligned_alloc 16 0x1800 s = (p, s') \<and> p \<noteq> 0 \<and>
    heap_map_addr s' \<le> p \<and> p < heap_map_addr s' + heap_map_size s' \<and> \<not> region_wf (heap_map s'))"
proof (intro exI [of _ heap_full] conjI heap_full_inv)
  have f: "region_find full_map 16 0x1800 (length full_map - 1) = Find_at 1 0x101800"
    using region_find_skip_used [of 1023 full_map 16 "0x1800"] full_map_facts
    by (simp add: Let_def is_used_def clear_used_def)
  have g: "heap_grow_map heap_full = Some (heap_full\<lparr>heap_map_size := 0x2000, heap_map := full_map[0 := 0x102000]\<rparr>)"
    using full_map_facts by (simp add: heap_grow_map_def heap_full_def is_used_def)
  have "heap_aligned_alloc 16 0x1800 heap_full = (0x101800, heap_full\<lparr>heap_map_size := 0x2000,
      heap_map := region_mark True (full_map[0 := 0x102000]) 1 0x101800\<rparr>)"
    using f g full_map_facts
    by (simp add: heap_aligned_alloc_def heap_full_def Let_def)
  moreover have "\<not> region_wf (region_mark True (full_map[0 := 0x102000]) 1 0x101800)"
    by (simp add: full_map_def region_mark_def region_wf_def clear_used_def set_used_def)
  ultimately show "\<exists>p s'. heap_aligned_alloc 16 0x1800 heap_full = (p, s') \<and> p \<noteq> 0 \<and>
    heap_map_addr s' \<le> p \<and> p < heap_map_addr s' + heap_map_size s' \<and> \<not> region_wf (heap_map s')"
    by (intro exI conjI) (auto simp: heap_full_def)
qed

end
