(* ===== verification/Frame_Allocator.thy ===== *)
theory Frame_Allocator
  imports Prelude
begin

text \<open>
  The contract of a page frame allocator, and what a client that only frees what it was given
  may conclude from it for any sequence of calls: what it owns never overlaps, never is handed out
  twice, and together with the free frames is always the initial set of free frames.
\<close>

text \<open>
  A run of a client: the initial state, the current state and the blocks it owns, with the
  request by which each was obtained.
\<close>

inductive frame_client ::
    "('r \<Rightarrow> 's \<Rightarrow> nat \<times> 's) \<Rightarrow> (nat \<Rightarrow> 'r \<Rightarrow> 's \<Rightarrow> 's) \<Rightarrow> 's \<Rightarrow> 's \<Rightarrow> (nat \<times> 'r) list \<Rightarrow> bool"
  for alloc release where
  start: "frame_client alloc release s s []"
| taken: "frame_client alloc release s0 s own \<Longrightarrow> alloc r s = (p, s') \<Longrightarrow> p \<noteq> 0 \<Longrightarrow>
    frame_client alloc release s0 s' ((p, r) # own)"
| failed: "frame_client alloc release s0 s own \<Longrightarrow> alloc r s = (0, s') \<Longrightarrow>
    frame_client alloc release s0 s' own"
| given: "frame_client alloc release s0 s own \<Longrightarrow> (p, r) \<in> set own \<Longrightarrow>
    frame_client alloc release s0 (release p r s) (remove1 (p, r) own)"

locale frame_allocator =
  fixes inv :: "'s \<Rightarrow> bool"
    and frames :: "'s \<Rightarrow> nat set"
    and valid :: "'s \<Rightarrow> nat \<Rightarrow> 'r \<Rightarrow> bool"
    and block :: "nat \<Rightarrow> 'r \<Rightarrow> nat set"
    and alloc :: "'r \<Rightarrow> 's \<Rightarrow> nat \<times> 's"
    and release :: "nat \<Rightarrow> 'r \<Rightarrow> 's \<Rightarrow> 's"
  assumes alloc_inv: "inv s \<Longrightarrow> alloc r s = (p, s') \<Longrightarrow> inv s'"
    and alloc_valid: "inv s \<Longrightarrow> alloc r s = (p, s') \<Longrightarrow> valid s' = valid s"
    and alloc_some: "inv s \<Longrightarrow> alloc r s = (p, s') \<Longrightarrow> p \<noteq> 0 \<Longrightarrow>
      valid s p r \<and> block p r \<subseteq> frames s \<and> frames s' = frames s - block p r"
    and alloc_none: "inv s \<Longrightarrow> alloc r s = (0, s') \<Longrightarrow> frames s' = frames s"
    and release_inv: "inv s \<Longrightarrow> valid s p r \<Longrightarrow> inv (release p r s)"
    and release_valid: "inv s \<Longrightarrow> valid s p r \<Longrightarrow> valid (release p r s) = valid s"
    and release_frames: "inv s \<Longrightarrow> valid s p r \<Longrightarrow> frames (release p r s) = frames s \<union> block p r"
begin

lemma client_invariant:
  assumes "frame_client alloc release s0 s own" "inv s0"
  shows "inv s \<and> (\<forall>(p, r) \<in> set own. valid s p r \<and> block p r \<inter> frames s = {}) \<and>
    sorted_wrt (\<lambda>(p, r) (q, t). block p r \<inter> block q t = {}) own \<and>
    frames s \<union> (\<Union>(p, r) \<in> set own. block p r) = frames s0"
  using assms
proof (induction rule: frame_client.induct)
  case (taken s0 s own r p s')
  then have IH: "inv s" "\<forall>(p, r) \<in> set own. valid s p r \<and> block p r \<inter> frames s = {}"
      "sorted_wrt (\<lambda>(p, r) (q, t). block p r \<inter> block q t = {}) own"
      "frames s \<union> (\<Union>(p, r) \<in> set own. block p r) = frames s0" by auto
  note a = alloc_some [OF IH(1) taken.hyps(2,3)] alloc_inv [OF IH(1) taken.hyps(2)]
    alloc_valid [OF IH(1) taken.hyps(2)]
  have "block p r \<inter> block q t = {}" if "(q, t) \<in> set own" for q t
    using a(1) IH(2) that by blast
  moreover have "frames s' \<union> block p r = frames s" using a(1) by blast
  ultimately show ?case using a IH by auto
next
  case (failed s0 s own r s')
  then have "inv s" by blast
  note a = alloc_inv [OF this failed.hyps(2)] alloc_valid [OF this failed.hyps(2)]
    alloc_none [OF this failed.hyps(2)]
  show ?case using failed.IH [OF failed.prems] a(1) by (simp only: a(2,3)) blast
next
  case (given s0 s own p r)
  then have IH: "inv s" "\<forall>(p, r) \<in> set own. valid s p r \<and> block p r \<inter> frames s = {}"
      "sorted_wrt (\<lambda>(p, r) (q, t). block p r \<inter> block q t = {}) own"
      "frames s \<union> (\<Union>(p, r) \<in> set own. block p r) = frames s0" by auto
  from given.hyps(2) obtain as bs where own: "own = as @ (p, r) # bs" "(p, r) \<notin> set as"
    by (meson split_list_first)
  have v: "valid s p r" using IH(2) given.hyps(2) by blast
  note b = release_inv [OF IH(1) v] release_valid [OF IH(1) v] release_frames [OF IH(1) v]
  have d: "block p r \<inter> block q t = {}" if "(q, t) \<in> set (as @ bs)" for q t
    using IH(3) that unfolding own(1) sorted_wrt_append by fastforce
  have r: "remove1 (p, r) own = as @ bs" using own by (simp add: remove1_append)
  have "sorted_wrt (\<lambda>(p, r) (q, t). block p r \<inter> block q t = {}) (as @ bs)"
    using IH(3) unfolding own(1) by (simp add: sorted_wrt_append)
  moreover have "frames s \<union> block p r \<union> (\<Union>(p, r) \<in> set (as @ bs). block p r) = frames s0"
    using IH(4) unfolding own(1) by auto
  moreover have "valid s q t \<and> block q t \<inter> (frames s \<union> block p r) = {}" if "(q, t) \<in> set (as @ bs)" for q t
    using that d IH(2) own(1) by fastforce
  ultimately show ?case using b(1) unfolding r b(2,3) by blast
qed simp

end

end
