(* ===== verification/Mm.thy ===== *)
theory Mm
  imports Heap Frame_Allocator
begin

text \<open>
  The physical memory manager of \<^verbatim>\<open>src/kernel/base/mm.c\<close>: a bitmap with one bit per
  4096-byte page frame, a set bit meaning allocated, searched from the highest frame down. The
  state keeps the variables of the file; \<^verbatim>\<open>mm_bitmap_used\<close> is the code's
  bound on how many bytes at the top of the bitmap are full. Frames, counts and addresses are
  naturals (a bitmap of at most \<^verbatim>\<open>0x100000000\<close> bytes keeps every product below
  \<open>2 ^ 64\<close>); bitmap bytes are words. The outcome of \<^verbatim>\<open>mtx_lock\<close> is an argument.
\<close>

record mm_state =
  mm_run_once :: bool
  mm_ready :: bool
  mm_bitmap_size :: nat
  mm_bitmap_used :: nat
  mm_bitmap :: "u8 list"

definition mm_normal :: int where "mm_normal = 0"
definition mm_addr36 :: int where "mm_addr36 = 1"
definition mm_addr32 :: int where "mm_addr32 = 2"
definition mm_addr28 :: int where "mm_addr28 = 3"
definition mm_addr24 :: int where "mm_addr24 = 4"
definition mm_addr20 :: int where "mm_addr20 = 5"
definition mm_kernel :: int where "mm_kernel = 0x10"

lemmas mm_types = mm_normal_def mm_addr36_def mm_addr32_def mm_addr28_def mm_addr24_def
  mm_addr20_def mm_kernel_def

text \<open>The three loops over single bits; the arguments are the remaining count, \<open>b\<close> and \<open>i\<close>.\<close>

fun mm_clear_loop :: "nat \<Rightarrow> nat \<Rightarrow> nat \<Rightarrow> u8 list \<Rightarrow> u8 list" where
  "mm_clear_loop 0 b i bm = bm"
| "mm_clear_loop (Suc n) b i bm =
    (let val = (ucast (bm ! i) :: u32);
         bm = bm[i := ucast (val AND NOT (push_bit b 1))];
         b = (b + 1) AND 7;
         i = (if b = 0 then i + 1 else i)
     in mm_clear_loop n b i bm)"

definition mm_bitmap_clear :: "nat \<Rightarrow> nat \<Rightarrow> u8 list \<Rightarrow> u8 list" where
  "mm_bitmap_clear page_frame page_count bm =
    mm_clear_loop page_count (page_frame AND 7) (drop_bit 3 page_frame) bm"

fun mm_set_loop :: "nat \<Rightarrow> nat \<Rightarrow> nat \<Rightarrow> u8 list \<Rightarrow> u8 list" where
  "mm_set_loop 0 b i bm = bm"
| "mm_set_loop (Suc n) b i bm =
    (let val = (ucast (bm ! i) :: u32);
         bm = bm[i := ucast (val OR push_bit b 1)];
         b = (b + 1) AND 7;
         i = (if b = 0 then i + 1 else i)
     in mm_set_loop n b i bm)"

definition mm_bitmap_set :: "nat \<Rightarrow> nat \<Rightarrow> u8 list \<Rightarrow> u8 list" where
  "mm_bitmap_set page_frame page_count bm =
    mm_set_loop page_count (page_frame AND 7) (drop_bit 3 page_frame) bm"

fun mm_test_loop :: "nat \<Rightarrow> nat \<Rightarrow> nat \<Rightarrow> u8 list \<Rightarrow> bool" where
  "mm_test_loop 0 b i bm = False"
| "mm_test_loop (Suc n) b i bm =
    (let val = (ucast (bm ! i) :: u32) in
     if val AND push_bit b 1 \<noteq> 0 then True
     else
       let b = (b + 1) AND 7;
           i = (if b = 0 then i + 1 else i)
       in mm_test_loop n b i bm)"

definition mm_bitmap_test :: "nat \<Rightarrow> nat \<Rightarrow> u8 list \<Rightarrow> bool" where
  "mm_bitmap_test page_frame page_count bm =
    mm_test_loop page_count (page_frame AND 7) (drop_bit 3 page_frame) bm"

definition mm_get_count :: "int \<Rightarrow> nat" where
  "mm_get_count order =
    (if order \<ge> 0 \<and> order < 11
     then [0x0001, 0x0002, 0x0004, 0x0008, 0x0010, 0x0020, 0x0040, 0x0080, 0x0100, 0x0200, 0x0400] ! nat order
     else 0)"

text \<open>
  The frame limit of a memory type, the same chain of conditions in
  \<^verbatim>\<open>mm_available_pages\<close> and \<^verbatim>\<open>mm_alloc_pages\<close>; \<^const>\<open>None\<close> is the unknown type.
\<close>

definition mm_limit :: "int \<Rightarrow> nat \<Rightarrow> nat option" where
  "mm_limit type page_frame =
    (if type = mm_normal then Some page_frame
     else if type = mm_addr36 then Some (if page_frame > 0x1000000 then 0x1000000 else page_frame)
     else if type = mm_addr32 then Some (if page_frame > 0x100000 then 0x100000 else page_frame)
     else if type = mm_addr28 then Some (if page_frame > 0x10000 then 0x10000 else page_frame)
     else if type = mm_addr24 then Some (if page_frame > 0x1000 then 0x1000 else page_frame)
     else if type = mm_addr20 then Some (if page_frame > 0x100 then 0x100 else page_frame)
     else if type = mm_kernel then Some (if page_frame > 0x10000 then 0x10000 else page_frame)
     else None)"

function mm_count_bits :: "u32 \<Rightarrow> nat \<Rightarrow> nat \<Rightarrow> nat" where
  "mm_count_bits val b pages =
    (if b < 8
     then mm_count_bits val (b + 1) (if val AND push_bit b 1 = 0 then pages + 1 else pages)
     else pages)"
  by pat_completeness auto
termination by (relation "measure (\<lambda>(val, b, pages). 8 - b)") auto

declare mm_count_bits.simps [simp del]

text \<open>The outer loop, from \<open>i\<close> over the remaining bytes.\<close>

fun mm_count_loop :: "nat \<Rightarrow> nat \<Rightarrow> u8 list \<Rightarrow> nat \<Rightarrow> nat" where
  "mm_count_loop 0 i bm pages = pages"
| "mm_count_loop (Suc n) i bm pages = mm_count_loop n (i + 1) bm (mm_count_bits (ucast (bm ! i)) 0 pages)"

definition mm_available_pages :: "bool \<Rightarrow> int \<Rightarrow> mm_state \<Rightarrow> nat" where
  "mm_available_pages lock_ok type s =
    (let page_frame = mm_bitmap_size s * 8 in
     if \<not> mm_ready s then 0
     else
       case mm_limit type page_frame of
         None \<Rightarrow> 0
       | Some page_frame \<Rightarrow>
           if \<not> lock_ok then 0 else mm_count_loop (drop_bit 3 page_frame) 0 (mm_bitmap s) 0)"

text \<open>The loop that skips the full bytes at the top: new \<open>mm_bitmap_used\<close> and \<open>page_frame\<close>.\<close>

fun mm_skip_full :: "u8 list \<Rightarrow> nat \<Rightarrow> nat \<Rightarrow> nat \<Rightarrow> nat \<times> nat" where
  "mm_skip_full bm 0 used page_frame = (used, page_frame)"
| "mm_skip_full bm (Suc sz) used page_frame =
    (if bm ! sz = 0xFF then mm_skip_full bm sz (used + 1) (page_frame - 8) else (used, page_frame))"

fun mm_page_loop :: "nat \<Rightarrow> u8 list \<Rightarrow> nat \<times> u8 list" where
  "mm_page_loop page_frame bm =
    (if page_frame = 0 then (0, bm)
     else
       let b = page_frame AND 7;
           t = push_bit b (1 :: u32);
           i = drop_bit 3 page_frame;
           val = (ucast (bm ! i) :: u32)
       in if val AND t = 0 then (page_frame * 0x1000, bm[i := ucast (val OR t)])
          else mm_page_loop (page_frame - 1) bm)"

declare mm_page_loop.simps [simp del]

definition mm_alloc_page :: "bool \<Rightarrow> mm_state \<Rightarrow> nat \<times> mm_state" where
  "mm_alloc_page lock_ok s =
    (if \<not> mm_ready s then (0, s)
     else if \<not> lock_ok then (0, s)
     else
       let sz = mm_bitmap_size s - mm_bitmap_used s;
           page_frame = sz * 8;
           (used, page_frame) = mm_skip_full (mm_bitmap s) sz (mm_bitmap_used s) page_frame;
           page_frame = (if page_frame \<noteq> 0 then page_frame - 1 else page_frame);
           (page, bm) = mm_page_loop page_frame (mm_bitmap s)
       in (page, s\<lparr>mm_bitmap_used := used, mm_bitmap := bm\<rparr>))"

text \<open>
  The search of \<^verbatim>\<open>mm_alloc_pages\<close>. The count is not zero there, and the frame is a
  multiple of it, so the subtraction does not wrap.
\<close>

function mm_pages_loop :: "nat \<Rightarrow> nat \<Rightarrow> u8 list \<Rightarrow> nat \<times> u8 list" where
  "mm_pages_loop page_count page_frame bm =
    (if page_frame = 0 \<or> page_count = 0 then (0, bm)
     else if \<not> mm_bitmap_test page_frame page_count bm
     then (page_frame * 0x1000, mm_bitmap_set page_frame page_count bm)
     else mm_pages_loop page_count (page_frame - page_count) bm)"
  by pat_completeness auto
termination by (relation "measure (\<lambda>(c, f, bm). f)") auto

declare mm_pages_loop.simps [simp del]

definition mm_alloc_pages :: "bool \<Rightarrow> int \<Rightarrow> int \<Rightarrow> mm_state \<Rightarrow> nat \<times> mm_state" where
  "mm_alloc_pages lock_ok type order s =
    (let page_count = mm_get_count order in
     if \<not> mm_ready s \<or> page_count = 0 then (0, s)
     else if \<not> lock_ok then (0, s)
     else
       let sz = mm_bitmap_size s - mm_bitmap_used s;
           page_frame = sz * 8;
           (used, page_frame) = mm_skip_full (mm_bitmap s) sz (mm_bitmap_used s) page_frame;
           page_frame = (case mm_limit type page_frame of None \<Rightarrow> 0 | Some limit \<Rightarrow> limit);
           page_frame =
             (if page_frame \<noteq> 0
              then unat (word_of_nat (page_frame - 1) AND NOT (word_of_nat (page_count - 1)) :: u64)
              else page_frame);
           (page, bm) = mm_pages_loop page_count page_frame (mm_bitmap s)
       in (page, s\<lparr>mm_bitmap_used := used, mm_bitmap := bm\<rparr>))"

definition mm_free_page :: "bool \<Rightarrow> nat \<Rightarrow> mm_state \<Rightarrow> mm_state" where
  "mm_free_page lock_ok addr s =
    (let page_frame = drop_bit 12 addr in
     if \<not> mm_ready s \<or> page_frame = 0 then s
     else
       let i = page_frame div 8 in
       if i \<ge> mm_bitmap_size s then s
       else if \<not> lock_ok then s
       else
         let b = page_frame AND 7;
             bm = (mm_bitmap s)[i := ucast ((ucast (mm_bitmap s ! i) :: u32) AND NOT (push_bit b 1))];
             i = (mm_bitmap_size s - i) - 1
         in s\<lparr>mm_bitmap := bm,
              mm_bitmap_used := (if mm_bitmap_used s > i then i else mm_bitmap_used s)\<rparr>)"

definition mm_free_pages :: "bool \<Rightarrow> nat \<Rightarrow> int \<Rightarrow> mm_state \<Rightarrow> mm_state" where
  "mm_free_pages lock_ok addr order s =
    (let page_frame = drop_bit 12 addr;
         page_count = mm_get_count order
     in
     if \<not> mm_ready s \<or> page_count = 0 then s
     else if page_frame = 0 \<or> page_frame AND (page_count - 1) \<noteq> 0 then s
     else
       let i = (page_frame + (page_count - 1)) div 8 in
       if i \<ge> mm_bitmap_size s then s
       else if \<not> lock_ok then s
       else
         let bm = mm_bitmap_clear page_frame page_count (mm_bitmap s);
             i = (mm_bitmap_size s - i) - 1
         in s\<lparr>mm_bitmap := bm,
              mm_bitmap_used := (if mm_bitmap_used s > i then i else mm_bitmap_used s)\<rparr>)"

subsection \<open>Bits and frames\<close>

definition frame_used :: "u8 list \<Rightarrow> nat \<Rightarrow> bool" where
  "frame_used bm f = bit (bm ! (f div 8)) (f mod 8)"

definition frames_of :: "u8 list \<Rightarrow> nat set" where
  "frames_of bm = {f. f < 8 * length bm \<and> \<not> frame_used bm f}"

declare push_bit_of_1 [simp del]

lemma and_push_1: "(w AND push_bit b 1 \<noteq> 0) = bit w b" for w :: u32
proof
  assume "w AND push_bit b 1 \<noteq> 0"
  then obtain n where "bit (w AND push_bit b 1) n" by (metis bit_0_eq bot_apply bot_bool_def bit_eqI)
  then show "bit w b" by (auto simp: bit_simps)
next
  assume "bit w b"
  then have "bit (w AND push_bit b 1) b" by (auto simp: bit_simps dest: bit_imp_le_length)
  then show "w AND push_bit b 1 \<noteq> 0" by auto
qed

lemma bit_test: "b < 8 \<Longrightarrow> ((ucast (v :: u8) :: u32) AND push_bit b 1 \<noteq> 0) = bit v b"
  by (auto simp: and_push_1 bit_simps dest: bit_imp_le_length)

lemma bit_clear: "b < 8 \<Longrightarrow>
    bit (ucast ((ucast (v :: u8) :: u32) AND NOT (push_bit b 1)) :: u8) n = (bit v n \<and> n \<noteq> b)"
  by (auto simp: bit_simps dest: bit_imp_le_length)

lemma bit_set: "b < 8 \<Longrightarrow>
    bit (ucast ((ucast (v :: u8) :: u32) OR push_bit b 1) :: u8) n = (bit v n \<or> n = b)"
  by (auto simp: bit_simps dest: bit_imp_le_length)

lemma frame_step:
  "Suc (f mod 8) AND 7 = Suc f mod 8"
  "(if Suc f mod 8 = 0 then Suc (f div 8) else f div 8) = Suc f div 8"
  by (simp_all add: bits_arith mod_Suc_eq div_Suc)

lemma mm_loop_steps:
  "mm_clear_loop (Suc n) (f mod 8) (f div 8) bm = mm_clear_loop n (Suc f mod 8) (Suc f div 8)
    (bm[f div 8 := ucast ((ucast (bm ! (f div 8)) :: u32) AND NOT (push_bit (f mod 8) 1))])"
  "mm_set_loop (Suc n) (f mod 8) (f div 8) bm = mm_set_loop n (Suc f mod 8) (Suc f div 8)
    (bm[f div 8 := ucast ((ucast (bm ! (f div 8)) :: u32) OR push_bit (f mod 8) 1)])"
  "mm_test_loop (Suc n) (f mod 8) (f div 8) bm \<longleftrightarrow>
    frame_used bm f \<or> mm_test_loop n (Suc f mod 8) (Suc f div 8) bm"
  by (simp_all only: mm_clear_loop.simps mm_set_loop.simps mm_test_loop.simps Let_def
      Suc_eq_plus1 [symmetric] frame_step frame_used_def bit_test [of "f mod 8"] pos_mod_bound)
    (auto simp: bit_test)

lemma frame_used_update:
  assumes "f div 8 < length bm"
  shows "frame_used (bm[f div 8 := v]) g =
    (if g div 8 = f div 8 then bit v (g mod 8) else frame_used bm g)"
  using assms by (simp add: frame_used_def)

lemma frame_eq: "g div 8 = f div 8 \<Longrightarrow> (g mod 8 = f mod 8) = (g = f)" for f g :: nat
  by (metis div_mult_mod_eq)

lemma frame_clear:
  assumes "f < 8 * length bm"
  shows "frame_used (bm[f div 8 := ucast ((ucast (bm ! (f div 8)) :: u32) AND NOT (push_bit (f mod 8) 1))]) g =
    (frame_used bm g \<and> g \<noteq> f)"
  using assms frame_eq [of g f] by (subst frame_used_update) (auto simp: bit_clear frame_used_def)

lemma frame_set:
  assumes "f < 8 * length bm"
  shows "frame_used (bm[f div 8 := ucast ((ucast (bm ! (f div 8)) :: u32) OR push_bit (f mod 8) 1)]) g =
    (frame_used bm g \<or> g = f)"
  using assms frame_eq [of g f] by (subst frame_used_update) (auto simp: bit_set frame_used_def)

lemma mm_clear_loop_frames:
  assumes "f + n \<le> 8 * length bm"
  shows "frame_used (mm_clear_loop n (f mod 8) (f div 8) bm) g =
      (frame_used bm g \<and> \<not> (f \<le> g \<and> g < f + n)) \<and>
    length (mm_clear_loop n (f mod 8) (f div 8) bm) = length bm"
  using assms
proof (induction n arbitrary: f bm)
  case (Suc n)
  have "Suc f + n \<le> 8 * length (bm[f div 8 := v])" for v using Suc.prems by simp
  note IH = Suc.IH [OF this]
  show ?case
    using Suc.prems unfolding mm_loop_steps by (auto simp: IH frame_clear)
qed simp

lemma mm_set_loop_frames:
  assumes "f + n \<le> 8 * length bm"
  shows "frame_used (mm_set_loop n (f mod 8) (f div 8) bm) g =
      (frame_used bm g \<or> (f \<le> g \<and> g < f + n)) \<and>
    length (mm_set_loop n (f mod 8) (f div 8) bm) = length bm"
  using assms
proof (induction n arbitrary: f bm)
  case (Suc n)
  have "Suc f + n \<le> 8 * length (bm[f div 8 := v])" for v using Suc.prems by simp
  note IH = Suc.IH [OF this]
  show ?case
    using Suc.prems unfolding mm_loop_steps by (auto simp: IH frame_set)
qed auto

lemma mm_test_loop_frames:
  assumes "f + n \<le> 8 * length bm"
  shows "mm_test_loop n (f mod 8) (f div 8) bm \<longleftrightarrow> (\<exists>g. f \<le> g \<and> g < f + n \<and> frame_used bm g)"
  using assms
proof (induction n arbitrary: f bm)
  case (Suc n)
  have "mm_test_loop (Suc n) (f mod 8) (f div 8) bm \<longleftrightarrow>
      frame_used bm f \<or> (\<exists>g. Suc f \<le> g \<and> g < Suc f + n \<and> frame_used bm g)"
    using Suc.prems by (simp add: mm_loop_steps Suc.IH del: mm_test_loop.simps)
  moreover have "(f \<le> g \<and> g < f + Suc n) = (g = f \<or> (Suc f \<le> g \<and> g < Suc f + n))" for g by auto
  ultimately show ?case unfolding conj_assoc [symmetric] by (simp only: conj_disj_distribR ex_disj_distrib) simp
qed simp

lemmas loops_length = mm_clear_loop_frames [THEN conjunct2] mm_set_loop_frames [THEN conjunct2]

lemma mm_bitmap_frames:
  assumes "f + n \<le> 8 * length bm"
  shows "frames_of (mm_bitmap_clear f n bm) = frames_of bm \<union> {f..<f + n}"
    "length (mm_bitmap_clear f n bm) = length bm"
    "frames_of (mm_bitmap_set f n bm) = frames_of bm - {f..<f + n}"
    "length (mm_bitmap_set f n bm) = length bm"
    "mm_bitmap_test f n bm \<longleftrightarrow> \<not> {f..<f + n} \<subseteq> frames_of bm"
proof -
  have i: "f AND 7 = f mod 8" "drop_bit 3 f = f div 8"
    by (simp_all add: drop_bit_eq_div and_mask_nat)
  note loops = mm_clear_loop_frames [OF assms] mm_set_loop_frames [OF assms] mm_test_loop_frames [OF assms]
  show "frames_of (mm_bitmap_clear f n bm) = frames_of bm \<union> {f..<f + n}"
    unfolding mm_bitmap_clear_def i frames_of_def using assms by (auto simp: loops)
  show "frames_of (mm_bitmap_set f n bm) = frames_of bm - {f..<f + n}"
    unfolding mm_bitmap_set_def i frames_of_def using assms by (auto simp: loops)
  show "mm_bitmap_test f n bm \<longleftrightarrow> \<not> {f..<f + n} \<subseteq> frames_of bm"
    unfolding mm_bitmap_test_def i frames_of_def loops using assms by fastforce
qed (simp_all add: mm_bitmap_clear_def mm_bitmap_set_def drop_bit_eq_div and_mask_nat loops_length assms)

subsection \<open>The searches\<close>

text \<open>
  The bitmap covers whole pages, and no frame in its last \<open>mm_bitmap_used\<close> bytes is free.
\<close>

definition mm_inv :: "mm_state \<Rightarrow> bool" where
  "mm_inv s \<longleftrightarrow> length (mm_bitmap s) = mm_bitmap_size s \<and> mm_bitmap_used s \<le> mm_bitmap_size s \<and>
    mm_bitmap_size s mod 0x1000 = 0 \<and> mm_bitmap_size s \<le> 2 ^ 32 \<and>
    (\<forall>f \<in> frames_of (mm_bitmap s). f < 8 * (mm_bitmap_size s - mm_bitmap_used s))"

abbreviation mm_free_frames :: "mm_state \<Rightarrow> nat set" where
  "mm_free_frames s \<equiv> frames_of (mm_bitmap s)"

lemma full_byte: "bm ! (f div 8) = 0xFF \<Longrightarrow> f \<notin> frames_of bm"
proof -
  have "bit (0xFF :: u8) b" if "b < 8" for b
  proof -
    have "(0xFF :: u8) = mask 8" by (simp add: mask_eq_exp_minus_1)
    then show ?thesis using that by (simp only: bit_mask_iff) simp
  qed
  then show "bm ! (f div 8) = 0xFF \<Longrightarrow> f \<notin> frames_of bm"
    by (simp add: frames_of_def frame_used_def)
qed

lemma mm_skip_full_correct:
  assumes "mm_skip_full bm n used (8 * n) = (used', pf)" "\<forall>f \<in> frames_of bm. f < 8 * n"
  shows "\<exists>n'. n' \<le> n \<and> used' = used + (n - n') \<and> pf = 8 * n' \<and> (\<forall>f \<in> frames_of bm. f < 8 * n')"
  using assms
proof (induction n arbitrary: used)
  case (Suc n)
  show ?case
  proof (cases "bm ! n = 0xFF")
    case True
    have "f < 8 * n" if "f \<in> frames_of bm" for f
    proof (rule ccontr)
      assume "\<not> f < 8 * n"
      with Suc.prems(2) that have "f div 8 = n" by (intro div_nat_eqI) auto
      with full_byte True that show False by blast
    qed
    with Suc.IH [of "used + 1"] Suc.prems(1) True obtain n' where
      "n' \<le> n" "used' = used + 1 + (n - n')" "pf = 8 * n'" "\<forall>f \<in> frames_of bm. f < 8 * n'" by auto
    then show ?thesis by (intro exI [of _ n']) auto
  next
    case False
    with Suc.prems show ?thesis by (intro exI [of _ "Suc n"]) auto
  qed
qed auto

lemma mm_page_loop_correct:
  assumes "mm_page_loop f bm = (p, bm')" "f < 8 * length bm \<or> f = 0"
  shows "if p = 0 then bm' = bm \<and> (\<forall>g \<in> frames_of bm. g = 0 \<or> f < g)
    else \<exists>g. p = g * 0x1000 \<and> 0 < g \<and> g \<le> f \<and> g \<in> frames_of bm \<and> frames_of bm' = frames_of bm - {g} \<and>
      length bm' = length bm \<and> (\<forall>h \<in> frames_of bm. h \<le> g \<or> f < h)"
  using assms
proof (induction f arbitrary: p bm')
  case 0
  then show ?case by (auto simp: mm_page_loop.simps [of 0])
next
  case (Suc f)
  let ?F = "Suc f" and ?v = "bm ! (Suc f div 8)"
  have i: "?F AND 7 = ?F mod 8" "drop_bit 3 ?F = ?F div 8"
    by (simp_all add: drop_bit_eq_div and_mask_nat)
  have lt: "?F < 8 * length bm" using Suc.prems by simp
  have t: "((ucast ?v :: u32) AND push_bit (?F mod 8) 1 = 0) = (?F \<in> frames_of bm)"
    using bit_test [of "?F mod 8" ?v] lt by (auto simp: frames_of_def frame_used_def)
  show ?case
  proof (cases "?F \<in> frames_of bm")
    case True
    then have "p = ?F * 0x1000"
      and bm': "bm' = bm[?F div 8 := ucast ((ucast ?v :: u32) OR push_bit (?F mod 8) 1)]"
      using Suc.prems(1) unfolding mm_page_loop.simps [of ?F] i by (simp_all only: t Let_def) auto
    moreover have "frames_of bm' = frames_of bm - {?F}"
      unfolding frames_of_def bm' using lt by (auto simp: frame_set)
    moreover have "length bm' = length bm" unfolding bm' by simp
    moreover have "\<forall>h \<in> frames_of bm. h \<le> ?F \<or> ?F < h" by auto
    ultimately show ?thesis using True by (auto simp del: mult_Suc intro!: exI [of _ ?F])
  next
    case False
    then have "mm_page_loop f bm = (p, bm')"
      using Suc.prems(1) unfolding mm_page_loop.simps [of ?F] i by (simp only: t Let_def) simp
    from Suc.IH [OF this] lt have IH: "if p = 0 then bm' = bm \<and> (\<forall>g \<in> frames_of bm. g = 0 \<or> f < g)
      else \<exists>g. p = g * 0x1000 \<and> 0 < g \<and> g \<le> f \<and> g \<in> frames_of bm \<and> frames_of bm' = frames_of bm - {g} \<and>
        length bm' = length bm \<and> (\<forall>h \<in> frames_of bm. h \<le> g \<or> f < h)" by simp
    have up: "f < g \<longleftrightarrow> Suc f < g" if "g \<in> frames_of bm" for g
      using that False by (metis Suc_lessI Suc_lessD)
    show ?thesis
    proof (cases "p = 0")
      case True
      with IH up show ?thesis by auto
    next
      case False
      with IH obtain g where "p = g * 0x1000" "0 < g" "g \<le> f" "g \<in> frames_of bm"
        "frames_of bm' = frames_of bm - {g}" "length bm' = length bm" "\<forall>h \<in> frames_of bm. h \<le> g \<or> f < h" by auto
      with False up show ?thesis by (auto intro!: exI [of _ g])
    qed
  qed
qed

lemma mm_pages_loop_correct:
  assumes "mm_pages_loop c f bm = (p, bm')" "0 < c" "c dvd f" "f + c \<le> 8 * length bm \<or> f = 0"
  shows "if p = 0 then bm' = bm \<and> (\<forall>g. 0 < g \<longrightarrow> g \<le> f \<longrightarrow> c dvd g \<longrightarrow> \<not> {g..<g + c} \<subseteq> frames_of bm)
    else \<exists>g. p = g * 0x1000 \<and> 0 < g \<and> g \<le> f \<and> c dvd g \<and> {g..<g + c} \<subseteq> frames_of bm \<and>
      frames_of bm' = frames_of bm - {g..<g + c} \<and> length bm' = length bm \<and>
      (\<forall>h. g < h \<longrightarrow> h \<le> f \<longrightarrow> c dvd h \<longrightarrow> \<not> {h..<h + c} \<subseteq> frames_of bm)"
  using assms
proof (induction c f bm arbitrary: p bm' rule: mm_pages_loop.induct)
  case (1 c f bm)
  show ?case
  proof (cases "f = 0")
    case True
    with "1.prems" show ?thesis by (auto simp: mm_pages_loop.simps [of c 0])
  next
    case f: False
    with "1.prems" have le: "f + c \<le> 8 * length bm" by simp
    note bits = mm_bitmap_frames [OF le]
    show ?thesis
    proof (cases "mm_bitmap_test f c bm")
      case False
      with f "1.prems"(1,2) have "p = f * 0x1000" "bm' = mm_bitmap_set f c bm"
        by (simp_all add: mm_pages_loop.simps [of c f])
      with f False "1.prems"(3) show ?thesis by (auto simp: bits intro!: exI [of _ f])
    next
      case True
      have r: "mm_pages_loop c (f - c) bm = (p, bm')"
        using True f "1.prems"(1,2) by (simp add: mm_pages_loop.simps [of c f])
      have "c dvd f - c" using "1.prems"(3) by simp
      note IH = "1.IH" [OF _ _ r "1.prems"(2) this]
      have cf: "c \<le> f" using f "1.prems"(3) by (simp add: dvd_imp_le)
      have up: "h \<le> f - c" if "h \<le> f" "c dvd h" "h \<noteq> f" for h
      proof -
        from that(2) obtain a where a: "h = c * a" by (rule dvdE)
        from "1.prems"(3) obtain b where b: "f = c * b" by (rule dvdE)
        have "c * a < c * b" using that a b by simp
        then have "a + 1 \<le> b" by simp
        then have "c * (a + 1) \<le> c * b" by (rule mult_le_mono2)
        then show ?thesis unfolding a b by (simp add: distrib_left)
      qed
      have nf: "\<not> {f..<f + c} \<subseteq> frames_of bm" using True bits by simp
      have "f - c + c \<le> 8 * length bm \<or> f - c = 0" using cf le by simp
      from IH [OF _ _ this] f True "1.prems"(2) have IH: "if p = 0 then bm' = bm \<and>
            (\<forall>g. 0 < g \<longrightarrow> g \<le> f - c \<longrightarrow> c dvd g \<longrightarrow> \<not> {g..<g + c} \<subseteq> frames_of bm)
          else \<exists>g. p = g * 0x1000 \<and> 0 < g \<and> g \<le> f - c \<and> c dvd g \<and> {g..<g + c} \<subseteq> frames_of bm \<and>
            frames_of bm' = frames_of bm - {g..<g + c} \<and> length bm' = length bm \<and>
            (\<forall>h. g < h \<longrightarrow> h \<le> f - c \<longrightarrow> c dvd h \<longrightarrow> \<not> {h..<h + c} \<subseteq> frames_of bm)" by simp
      show ?thesis
      proof (cases "p = 0")
        case True
        with IH up nf show ?thesis by (auto simp del: atLeastLessThan_iff ivl_subset)
      next
        case False
        with IH obtain g where "p = g * 0x1000" "0 < g" "g \<le> f - c" "c dvd g"
          "{g..<g + c} \<subseteq> frames_of bm" "frames_of bm' = frames_of bm - {g..<g + c}" "length bm' = length bm"
          and h: "\<And>h. g < h \<Longrightarrow> h \<le> f - c \<Longrightarrow> c dvd h \<Longrightarrow> \<not> {h..<h + c} \<subseteq> frames_of bm" by auto
        moreover have "\<not> {h..<h + c} \<subseteq> frames_of bm" if "g < h" "h \<le> f" "c dvd h" for h
          using h [of h] nf up [OF that(2,3)] that by (cases "h = f") auto
        ultimately show ?thesis using False by (auto intro!: exI [of _ g])
      qed
    qed
  qed
qed

subsection \<open>Counts, limits and alignment\<close>

lemma mm_get_count_cases:
  assumes "mm_get_count order \<noteq> 0"
  obtains k where "k \<le> 10" "mm_get_count order = 2 ^ k"
proof -
  from assms have o: "0 \<le> order" "order < 11" by (auto simp: mm_get_count_def split: if_splits)
  then have "nat order < 11" by simp
  then have "nat order \<in> {0, 1, 2, 3, 4, 5, 6, 7, 8, 9, 10}" 
    by (simp add: less_Suc_eq numeral_eq_Suc)
  with o have "mm_get_count order = 2 ^ nat order" by (auto simp: mm_get_count_def)
  with \<open>nat order < 11\<close> show ?thesis by (intro that [of "nat order"]) simp_all
qed

lemma and_not_pow2:
  assumes "x < 2 ^ 64" "k < 64"
  shows "unat (word_of_nat x AND NOT (word_of_nat (2 ^ k - 1)) :: u64) = x div 2 ^ k * 2 ^ k"
proof -
  have m: "(word_of_nat (2 ^ k - 1) :: u64) = mask k"
    by (simp add: mask_eq_exp_minus_1 of_nat_diff)
  have "(word_of_nat x AND NOT (mask k) :: u64) = push_bit k (drop_bit k (word_of_nat x))"
    by (rule bit_word_eqI) (auto simp: bit_simps)
  then have "unat (word_of_nat x AND NOT (mask k) :: u64) = take_bit 64 (push_bit k (drop_bit k x))"
    using assms(1) by (simp add: unsigned_push_bit_eq unat_drop_bit_eq unat_of_nat take_bit_eq_mod)
  also have "\<dots> = x div 2 ^ k * 2 ^ k"
    using assms(1) by (simp add: push_bit_eq_mult drop_bit_eq_div take_bit_eq_mod)
      (meson div_times_less_eq_dividend le_less_trans mod_less)
  finally show ?thesis by (simp only: m)
qed

lemma mm_limit_cases:
  obtains (none) "\<And>n. mm_limit t n = None" | (all) "\<And>n. mm_limit t n = Some n"
    | (low) k where "k \<in> {8, 12, 16, 20, 24}" "\<And>n. mm_limit t n = Some (min (2 ^ k) n)"
proof -
  consider "t = mm_normal" | "t = mm_addr36" | "t = mm_addr32" | "t = mm_addr28" | "t = mm_addr24"
    | "t = mm_addr20" | "t = mm_kernel"
    | "t \<notin> {mm_normal, mm_addr36, mm_addr32, mm_addr28, mm_addr24, mm_addr20, mm_kernel}" by auto
  then show ?thesis
  proof cases
    case 1 then show ?thesis by (intro all) (simp add: mm_limit_def)
  next
    case 2 then show ?thesis by (intro low [of 24]) (simp_all add: mm_limit_def mm_types min_def)
  next
    case 3 then show ?thesis by (intro low [of 20]) (simp_all add: mm_limit_def mm_types min_def)
  next
    case 4 then show ?thesis by (intro low [of 16]) (simp_all add: mm_limit_def mm_types min_def)
  next
    case 5 then show ?thesis by (intro low [of 12]) (simp_all add: mm_limit_def mm_types min_def)
  next
    case 6 then show ?thesis by (intro low [of 8]) (simp_all add: mm_limit_def mm_types min_def)
  next
    case 7 then show ?thesis by (intro low [of 16]) (simp_all add: mm_limit_def mm_types min_def)
  next
    case 8 then show ?thesis by (intro none) (simp add: mm_limit_def)
  qed
qed

text \<open>A block that starts below the limit ends below it.\<close>

lemma mm_limit_block:
  assumes "mm_limit t (8 * sz) = Some l" "sz mod 0x1000 = 0" "mm_get_count order = c" "c \<noteq> 0"
    and "c dvd g" "0 < g" "g < l"
  shows "g + c \<le> l"
proof -
  from assms(3,4) obtain j where j: "j \<le> 10" "c = 2 ^ j" using mm_get_count_cases by blast
  have up: "g + c \<le> m" if "c dvd m" "g < m" for m
  proof -
    from assms(5) that(1) obtain a b where ab: "g = c * a" "m = c * b" by (auto elim!: dvdE)
    with that(2) have "a + 1 \<le> b" by simp
    then have "c * (a + 1) \<le> c * b" by (rule mult_le_mono2)
    then show ?thesis unfolding ab by (simp add: distrib_left)
  qed
  have "(2::nat) ^ j dvd 2 ^ 15" by (rule le_imp_power_dvd) (use j in simp)
  moreover have "(2::nat) ^ 15 dvd 8 * sz" using assms(2) by (auto elim!: dvdE simp: mod_eq_0_iff_dvd)
  ultimately have sz: "c dvd 8 * sz" unfolding j by (rule dvd_trans)
  show ?thesis
  proof (cases t rule: mm_limit_cases)
    case none then show ?thesis using assms(1) by simp
  next
    case all then show ?thesis using assms(1,7) up [OF sz] by simp
  next
    case (low k)
    with assms(1,7) have l: "l = min (2 ^ k) (8 * sz)" "g < 2 ^ k" "g < 8 * sz" by simp_all
    have "g + c \<le> 2 ^ k"
    proof (cases "j \<le> k")
      case True then show ?thesis using up [of "2 ^ k"] l(2) j le_imp_power_dvd by blast
    next
      case False
      then have "(2::nat) ^ k < 2 ^ j" by simp
      moreover have "2 ^ j \<le> g" using assms(5,6) j(2) by (simp add: dvd_imp_le)
      ultimately show ?thesis using l(2) by linarith
    qed
    with up [OF sz l(3)] l(1) show ?thesis by simp
  qed
qed

subsection \<open>Correctness of the operations\<close>

lemma mm_alloc_page_main:
  assumes "mm_inv s" "mm_alloc_page lock_ok s = (p, s')"
  shows "mm_inv s'" "mm_bitmap_size s' = mm_bitmap_size s" "mm_ready s' = mm_ready s"
    "p = 0 \<Longrightarrow> mm_free_frames s' = mm_free_frames s \<and> (mm_ready s \<longrightarrow> lock_ok \<longrightarrow> mm_free_frames s \<subseteq> {0})"
    "p \<noteq> 0 \<Longrightarrow> \<exists>f. p = f * 0x1000 \<and> 0 < f \<and> f \<in> mm_free_frames s \<and> mm_free_frames s' = mm_free_frames s - {f} \<and>
      (\<forall>g \<in> mm_free_frames s. g \<le> f) \<and> mm_ready s"
proof -
  let ?n = "mm_bitmap_size s - mm_bitmap_used s"
  show "mm_bitmap_size s' = mm_bitmap_size s" "mm_ready s' = mm_ready s"
    using assms(2) by (auto simp: mm_alloc_page_def Let_def split: if_splits prod.splits)
  have "mm_inv s' \<and> (p = 0 \<longrightarrow> mm_free_frames s' = mm_free_frames s \<and> (mm_ready s \<longrightarrow> lock_ok \<longrightarrow> mm_free_frames s \<subseteq> {0})) \<and>
    (p \<noteq> 0 \<longrightarrow> (\<exists>f. p = f * 0x1000 \<and> 0 < f \<and> f \<in> mm_free_frames s \<and> mm_free_frames s' = mm_free_frames s - {f} \<and>
      (\<forall>g \<in> mm_free_frames s. g \<le> f) \<and> mm_ready s))"
  proof (cases "mm_ready s \<and> lock_ok")
    case False
    then have "p = 0" "s' = s" using assms(2) by (auto simp: mm_alloc_page_def split: if_splits)
    with False assms(1) show ?thesis by auto
  next
    case True
    obtain used pf where sk: "mm_skip_full (mm_bitmap s) ?n (mm_bitmap_used s) (8 * ?n) = (used, pf)" by fastforce
    with mm_skip_full_correct [OF this] assms(1) obtain n where
      n: "n \<le> ?n" "used = mm_bitmap_used s + (?n - n)" "pf = 8 * n" "\<forall>f \<in> mm_free_frames s. f < 8 * n"
      by (auto simp: mm_inv_def)
    obtain bm where lp: "mm_page_loop (8 * n - 1) (mm_bitmap s) = (p, bm)"
      and s': "s' = s\<lparr>mm_bitmap_used := used, mm_bitmap := bm\<rparr>"
      using assms(2) True sk n(3) by (auto simp: mm_alloc_page_def mult.commute split: prod.splits if_splits)
    have len: "length (mm_bitmap s) = mm_bitmap_size s" "mm_bitmap_used s \<le> mm_bitmap_size s"
      using assms(1) by (auto simp: mm_inv_def)
    have "8 * n - 1 < 8 * length (mm_bitmap s) \<or> 8 * n - 1 = 0" using n(1) len by auto
    note lc = mm_page_loop_correct [OF lp this]
    have "length bm = length (mm_bitmap s) \<and> frames_of bm \<subseteq> mm_free_frames s"
      using lc by (cases "p = 0") auto
    then have "mm_inv s'" using assms(1) n len unfolding s' mm_inv_def by auto
    moreover have "p = 0 \<Longrightarrow> frames_of bm = mm_free_frames s \<and> mm_free_frames s \<subseteq> {0}"
      using lc n(4) by fastforce
    moreover have "\<exists>f. p = f * 0x1000 \<and> 0 < f \<and> f \<in> mm_free_frames s \<and> frames_of bm = mm_free_frames s - {f} \<and>
      (\<forall>g \<in> mm_free_frames s. g \<le> f)" if p: "p \<noteq> 0"
    proof -
      from lc p obtain f where f: "p = f * 0x1000" "0 < f" "f \<in> mm_free_frames s"
        "frames_of bm = mm_free_frames s - {f}" "\<forall>h \<in> mm_free_frames s. h \<le> f \<or> 8 * n - 1 < h" by auto
      moreover have "g \<le> f" if "g \<in> mm_free_frames s" for g using f(5) n(4) that by fastforce
      ultimately show ?thesis by blast
    qed
    ultimately show ?thesis using True unfolding s' by simp
  qed
  then show "mm_inv s'"
    "p = 0 \<Longrightarrow> mm_free_frames s' = mm_free_frames s \<and> (mm_ready s \<longrightarrow> lock_ok \<longrightarrow> mm_free_frames s \<subseteq> {0})"
    "p \<noteq> 0 \<Longrightarrow> \<exists>f. p = f * 0x1000 \<and> 0 < f \<and> f \<in> mm_free_frames s \<and> mm_free_frames s' = mm_free_frames s - {f} \<and>
      (\<forall>g \<in> mm_free_frames s. g \<le> f) \<and> mm_ready s"
    by blast+
qed

text \<open>An aligned run of free frames below the limit of a memory type.\<close>

definition mm_fits :: "mm_state \<Rightarrow> int \<Rightarrow> nat \<Rightarrow> nat \<Rightarrow> bool" where
  "mm_fits s type c f \<longleftrightarrow> 0 < f \<and> c dvd f \<and> {f..<f + c} \<subseteq> mm_free_frames s \<and>
    (\<exists>l. mm_limit type (8 * mm_bitmap_size s) = Some l \<and> f + c \<le> l)"

lemma mm_limit_mono:
  assumes "n \<le> m" "mm_limit t n = Some l"
  obtains l' where "mm_limit t m = Some l'" "l = min l' n"
  using assms by (cases t rule: mm_limit_cases) auto

lemma mm_alloc_pages_cases:
  assumes "mm_inv s" "mm_alloc_pages lock_ok type order s = (p, s')"
    "mm_ready s" "lock_ok" "mm_get_count order = c" "c \<noteq> 0"
  obtains n f bm where "n \<le> mm_bitmap_size s - mm_bitmap_used s" "\<forall>f \<in> mm_free_frames s. f < 8 * n"
    "s' = s\<lparr>mm_bitmap_used := mm_bitmap_size s - n, mm_bitmap := bm\<rparr>"
    "mm_pages_loop c f (mm_bitmap s) = (p, bm)"
    "case mm_limit type (8 * n) of None \<Rightarrow> f = 0 | Some l \<Rightarrow> f = (l - 1) div c * c"
proof -
  let ?n = "mm_bitmap_size s - mm_bitmap_used s"
  from assms(5,6) obtain k where k: "k \<le> 10" "c = 2 ^ k" using mm_get_count_cases by blast
  obtain used pf where sk: "mm_skip_full (mm_bitmap s) ?n (mm_bitmap_used s) (8 * ?n) = (used, pf)" by fastforce
  with mm_skip_full_correct [OF this] assms(1) obtain n where
    n: "n \<le> ?n" "used = mm_bitmap_used s + (?n - n)" "pf = 8 * n" "\<forall>f \<in> mm_free_frames s. f < 8 * n"
    by (auto simp: mm_inv_def)
  have used: "used = mm_bitmap_size s - n" using n assms(1) by (auto simp: mm_inv_def)
  define l where "l = (case mm_limit type (8 * n) of None \<Rightarrow> 0 | Some limit \<Rightarrow> limit)"
  have "l \<le> 8 * n" unfolding l_def by (cases type rule: mm_limit_cases) auto
  also have "\<dots> < 2 ^ 64" using n(1) assms(1) by (auto simp: mm_inv_def)
  finally have l64: "l - 1 < 2 ^ 64" by simp
  define f where "f = (l - 1) div c * c"
  have f: "(if l \<noteq> 0 then unat (word_of_nat (l - 1) AND NOT (word_of_nat (c - 1)) :: u64) else l) = f"
  proof (cases "l = 0")
    case False
    then show ?thesis unfolding f_def k using and_not_pow2 [OF l64, of k] k by (simp only: if_True) simp
  qed (simp add: f_def)
  obtain bm where bm: "mm_pages_loop c f (mm_bitmap s) = (p, bm)"
    "s' = s\<lparr>mm_bitmap_used := used, mm_bitmap := bm\<rparr>"
    using assms(2-4,6) unfolding mm_alloc_pages_def assms(5) Let_def mult.commute [of _ 8] sk prod.case n(3)
      l_def [symmetric] f
    by (auto split: prod.splits if_splits)
  have "case mm_limit type (8 * n) of None \<Rightarrow> f = 0 | Some l \<Rightarrow> f = (l - 1) div c * c"
    unfolding f_def l_def by (simp split: option.splits)
  with that [OF n(1,4)] bm show ?thesis unfolding used by blast
qed

lemma mm_alloc_pages_main:
  assumes "mm_inv s" "mm_alloc_pages lock_ok type order s = (p, s')"
  defines "c \<equiv> mm_get_count order"
  shows "mm_inv s' \<and> mm_bitmap_size s' = mm_bitmap_size s \<and> mm_ready s' = mm_ready s \<and>
    (if p = 0 then mm_free_frames s' = mm_free_frames s \<and>
       (mm_ready s \<longrightarrow> lock_ok \<longrightarrow> c \<noteq> 0 \<longrightarrow> (\<forall>f. \<not> mm_fits s type c f))
     else \<exists>f. p = f * 0x1000 \<and> mm_fits s type c f \<and> c \<noteq> 0 \<and> mm_ready s \<and>
       mm_free_frames s' = mm_free_frames s - {f..<f + c} \<and> (\<forall>g. mm_fits s type c g \<longrightarrow> g \<le> f))"
proof (cases "mm_ready s \<and> lock_ok \<and> c \<noteq> 0")
  case False
  then have "p = 0" "s' = s" using assms(2) unfolding c_def by (auto simp: mm_alloc_pages_def Let_def split: if_splits)
  with False assms(1) show ?thesis by auto
next
  case True
  from assms(1) have len: "length (mm_bitmap s) = mm_bitmap_size s" "mm_bitmap_used s \<le> mm_bitmap_size s"
    and sz: "mm_bitmap_size s mod 0x1000 = 0" by (auto simp: mm_inv_def)
  obtain n f bm where n: "n \<le> mm_bitmap_size s - mm_bitmap_used s" "\<forall>f \<in> mm_free_frames s. f < 8 * n"
    and s': "s' = s\<lparr>mm_bitmap_used := mm_bitmap_size s - n, mm_bitmap := bm\<rparr>"
    and lp: "mm_pages_loop c f (mm_bitmap s) = (p, bm)"
    and f: "case mm_limit type (8 * n) of None \<Rightarrow> f = 0 | Some l \<Rightarrow> f = (l - 1) div c * c"
    using mm_alloc_pages_cases [OF assms(1,2), of c] True c_def by metis
  have cf: "c dvd f" using f by (auto split: option.splits)
  text \<open>The start of the search is below the limit, and no fitting block lies above it.\<close>
  have below: "\<exists>l. mm_limit type (8 * mm_bitmap_size s) = Some l \<and> g + c \<le> l"
    if g: "0 < g" "g \<le> f" "c dvd g" for g
  proof -
    obtain l where l: "mm_limit type (8 * n) = Some l" "f = (l - 1) div c * c"
      using f g by (cases "mm_limit type (8 * n)") auto
    obtain l' where l': "mm_limit type (8 * mm_bitmap_size s) = Some l'" "l = min l' (8 * n)"
    proof (rule mm_limit_mono [OF _ l(1)])
      show "8 * n \<le> 8 * mm_bitmap_size s" using n(1) by simp
    qed
    have "f \<le> l - 1" unfolding l(2) by (rule div_times_less_eq_dividend)
    then have "g < l'" using that l' by (cases "l = 0") auto
    with mm_limit_block [OF l'(1) sz c_def [symmetric, THEN meta_eq_to_obj_eq]] True that l'(1) show ?thesis by auto
  qed
  have above: "g \<le> f" if g: "mm_fits s type c g" for g
  proof -
    from g obtain l' where l': "mm_limit type (8 * mm_bitmap_size s) = Some l'" "g + c \<le> l'"
      and fr: "{g..<g + c} \<subseteq> mm_free_frames s" "c dvd g" by (auto simp: mm_fits_def)
    have "g < 8 * n" using n(2) fr(1) True by (auto simp: subset_iff)
    moreover obtain l where l: "mm_limit type (8 * n) = Some l" "l = min l' (8 * n)"
      using l'(1) by (cases type rule: mm_limit_cases) (use n(1) in auto)
    ultimately have "g \<le> l - 1" using l'(2) True by auto
    then have "g div c \<le> (l - 1) div c" by (rule div_le_mono)
    then have "g div c * c \<le> (l - 1) div c * c" by (rule mult_le_mono1)
    moreover have "g div c * c = g" using fr(2) by simp
    ultimately show ?thesis using f l(1) by simp
  qed
  have "f + c \<le> 8 * length (mm_bitmap s) \<or> f = 0"
  proof (cases "f = 0")
    case False
    with below [of f] cf obtain l where "mm_limit type (8 * mm_bitmap_size s) = Some l" "f + c \<le> l" by auto
    moreover from this have "l \<le> 8 * mm_bitmap_size s" by (cases type rule: mm_limit_cases) auto
    ultimately show ?thesis using len by simp
  qed simp
  note lc = mm_pages_loop_correct [OF lp _ cf this]
  show ?thesis
  proof (cases "p = 0")
    case p: True
    with lc True have "bm = mm_bitmap s" "\<And>g. 0 < g \<Longrightarrow> g \<le> f \<Longrightarrow> c dvd g \<Longrightarrow> \<not> {g..<g + c} \<subseteq> mm_free_frames s" by auto
    moreover have "\<not> mm_fits s type c g" for g
      using above [of g] calculation(2) [of g] by (auto simp: mm_fits_def)
    ultimately show ?thesis using p n len assms(1) unfolding s' by (auto simp: mm_inv_def)
  next
    case p: False
    with lc True obtain g where g: "p = g * 0x1000" "0 < g" "g \<le> f" "c dvd g" "{g..<g + c} \<subseteq> mm_free_frames s"
      "frames_of bm = mm_free_frames s - {g..<g + c}" "length bm = length (mm_bitmap s)"
      and top: "\<And>h. g < h \<Longrightarrow> h \<le> f \<Longrightarrow> c dvd h \<Longrightarrow> \<not> {h..<h + c} \<subseteq> mm_free_frames s" by auto
    have "mm_fits s type c g" using g(2,4,5) below [OF g(2-4)] by (simp add: mm_fits_def)
    moreover have "h \<le> g" if "mm_fits s type c h" for h
      using above [OF that] top [of h] that by (fastforce simp: mm_fits_def)
    moreover have "mm_inv s'" using g(6,7) n len assms(1) unfolding s' mm_inv_def by auto
    ultimately show ?thesis using p g True unfolding s' by auto
  qed
qed

lemma mm_free_page_main:
  assumes "mm_inv s"
  shows "mm_inv (mm_free_page lock_ok addr s)"
    and "mm_bitmap_size (mm_free_page lock_ok addr s) = mm_bitmap_size s \<and>
      mm_ready (mm_free_page lock_ok addr s) = mm_ready s"
    and "mm_free_frames (mm_free_page lock_ok addr s) =
      (let f = addr div 0x1000 in
       if mm_ready s \<and> lock_ok \<and> 0 < f \<and> f < 8 * mm_bitmap_size s
       then insert f (mm_free_frames s) else mm_free_frames s)"
proof -
  define f where "f = addr div 0x1000"
  have a: "drop_bit 12 addr = f" unfolding f_def by (simp add: drop_bit_eq_div)
  let ?ok = "mm_ready s \<and> lock_ok \<and> 0 < f \<and> f < 8 * mm_bitmap_size s"
  show "mm_bitmap_size (mm_free_page lock_ok addr s) = mm_bitmap_size s \<and>
      mm_ready (mm_free_page lock_ok addr s) = mm_ready s"
    by (simp add: mm_free_page_def Let_def)
  have "mm_inv (mm_free_page lock_ok addr s) \<and> mm_free_frames (mm_free_page lock_ok addr s) =
    (if ?ok then insert f (mm_free_frames s) else mm_free_frames s)"
  proof (cases ?ok)
    case False
    then have "mm_free_page lock_ok addr s = s" by (auto simp: mm_free_page_def a Let_def)
    with False assms show ?thesis by auto
  next
    case True
    let ?bm = "(mm_bitmap s)[f div 8 := ucast ((ucast (mm_bitmap s ! (f div 8)) :: u32) AND NOT (push_bit (f mod 8) 1))]"
    let ?u = "min (mm_bitmap_used s) (mm_bitmap_size s - f div 8 - 1)"
    have i: "f div 8 < mm_bitmap_size s" using True by auto
    have e: "mm_free_page lock_ok addr s = s\<lparr>mm_bitmap := ?bm, mm_bitmap_used := ?u\<rparr>"
      using True i by (simp add: mm_free_page_def a Let_def and_mask_nat min_def)
    have len: "length (mm_bitmap s) = mm_bitmap_size s" using assms by (simp add: mm_inv_def)
    have fr: "frames_of ?bm = insert f (mm_free_frames s)"
      unfolding frames_of_def using True len by (auto simp: frame_clear)
    have "f < 8 * (mm_bitmap_size s - ?u)"
    proof -
      have "f < 8 * (f div 8 + 1)" by simp
      also have "\<dots> \<le> 8 * (mm_bitmap_size s - ?u)" using i by (intro mult_le_mono2) auto
      finally show ?thesis .
    qed
    moreover have "g < 8 * (mm_bitmap_size s - ?u)" if "g \<in> mm_free_frames s" for g
    proof -
      have "g < 8 * (mm_bitmap_size s - mm_bitmap_used s)" using that assms by (simp add: mm_inv_def)
      also have "\<dots> \<le> 8 * (mm_bitmap_size s - ?u)" by (intro mult_le_mono2 diff_le_mono2) simp
      finally show ?thesis .
    qed
    ultimately have "mm_inv (mm_free_page lock_ok addr s)"
      unfolding e using assms len fr by (auto simp: mm_inv_def)
    then show ?thesis using fr True unfolding e by simp
  qed
  then show "mm_inv (mm_free_page lock_ok addr s)"
    "mm_free_frames (mm_free_page lock_ok addr s) =
      (let f = addr div 0x1000 in
       if mm_ready s \<and> lock_ok \<and> 0 < f \<and> f < 8 * mm_bitmap_size s
       then insert f (mm_free_frames s) else mm_free_frames s)"
    unfolding f_def Let_def by blast+
qed

lemma mm_free_pages_main:
  fixes order :: int and addr :: nat
  assumes "mm_inv s"
  defines "c \<equiv> mm_get_count order" and "f \<equiv> addr div 0x1000"
  shows "mm_inv (mm_free_pages lock_ok addr order s) \<and>
    mm_bitmap_size (mm_free_pages lock_ok addr order s) = mm_bitmap_size s \<and>
    mm_ready (mm_free_pages lock_ok addr order s) = mm_ready s \<and>
    mm_free_frames (mm_free_pages lock_ok addr order s) =
      (if mm_ready s \<and> lock_ok \<and> c \<noteq> 0 \<and> 0 < f \<and> c dvd f \<and> f + c \<le> 8 * mm_bitmap_size s
       then mm_free_frames s \<union> {f..<f + c} else mm_free_frames s)"
proof -
  have a: "drop_bit 12 addr = f" unfolding f_def by (simp add: drop_bit_eq_div)
  have al: "(f AND (c - 1) = 0) = (c dvd f)" if "c \<noteq> 0"
  proof -
    from that obtain k where "c = 2 ^ k" unfolding c_def using mm_get_count_cases by blast
    then show ?thesis using and_mask_nat_eq [of "c - 1" k c f] by auto
  qed
  have lim: "(f + (c - 1)) div 8 < mm_bitmap_size s \<longleftrightarrow> f + c \<le> 8 * mm_bitmap_size s" if "c \<noteq> 0"
    using that by (simp add: div_less_iff_less_mult mult.commute) linarith
  let ?ok = "mm_ready s \<and> lock_ok \<and> c \<noteq> 0 \<and> 0 < f \<and> c dvd f \<and> f + c \<le> 8 * mm_bitmap_size s"
  have len: "length (mm_bitmap s) = mm_bitmap_size s" using assms by (simp add: mm_inv_def)
  show ?thesis
  proof (cases ?ok)
    case False
    then have "mm_free_pages lock_ok addr order s = s"
      using al lim by (auto simp: mm_free_pages_def a Let_def c_def [symmetric] not_le)
    with False assms(1) show ?thesis by (auto simp: not_le)
  next
    case True
    let ?i = "(f + (c - 1)) div 8" and ?bm = "mm_bitmap_clear f c (mm_bitmap s)"
    let ?u = "min (mm_bitmap_used s) (mm_bitmap_size s - ?i - 1)"
    have i: "?i < mm_bitmap_size s" using True lim by simp
    have e: "mm_free_pages lock_ok addr order s = s\<lparr>mm_bitmap := ?bm, mm_bitmap_used := ?u\<rparr>"
      using True i al by (simp add: mm_free_pages_def a Let_def c_def [symmetric] min_def)
    have fr: "frames_of ?bm = mm_free_frames s \<union> {f..<f + c}" "length ?bm = length (mm_bitmap s)"
      using mm_bitmap_frames(1,2) [of f c "mm_bitmap s"] True len by auto
    have "g < 8 * (mm_bitmap_size s - ?u)" if "g < f + c" for g
    proof -
      have "g \<le> f + (c - 1)" using that True by simp
      also have "\<dots> < 8 * (?i + 1)" by simp
      also have "\<dots> \<le> 8 * (mm_bitmap_size s - ?u)" using i by (intro mult_le_mono2) auto
      finally show ?thesis .
    qed
    moreover have "g < 8 * (mm_bitmap_size s - ?u)" if "g \<in> mm_free_frames s" for g
    proof -
      have "g < 8 * (mm_bitmap_size s - mm_bitmap_used s)" using that assms by (simp add: mm_inv_def)
      also have "\<dots> \<le> 8 * (mm_bitmap_size s - ?u)" by (intro mult_le_mono2 diff_le_mono2) simp
      finally show ?thesis .
    qed
    ultimately have "mm_inv (mm_free_pages lock_ok addr order s)"
      unfolding e using assms(1) len fr by (auto simp: mm_inv_def)
    then show ?thesis using fr True unfolding e by simp
  qed
qed

subsection \<open>The frame allocator contract\<close>

text \<open>The two kinds of requests a client can make, with the matching calls.\<close>

datatype mm_request = Mm_page | Mm_pages int int

fun mm_request_count :: "mm_request \<Rightarrow> nat" where
  "mm_request_count Mm_page = 1"
| "mm_request_count (Mm_pages type order) = mm_get_count order"

fun mm_request_alloc :: "mm_request \<Rightarrow> mm_state \<Rightarrow> nat \<times> mm_state" where
  "mm_request_alloc Mm_page s = mm_alloc_page True s"
| "mm_request_alloc (Mm_pages type order) s = mm_alloc_pages True type order s"

fun mm_request_free :: "nat \<Rightarrow> mm_request \<Rightarrow> mm_state \<Rightarrow> mm_state" where
  "mm_request_free p Mm_page s = mm_free_page True p s"
| "mm_request_free p (Mm_pages type order) s = mm_free_pages True p order s"

definition mm_request_valid :: "mm_state \<Rightarrow> nat \<Rightarrow> mm_request \<Rightarrow> bool" where
  "mm_request_valid s p r \<longleftrightarrow> mm_ready s \<and> 0 < p div 0x1000 \<and> mm_request_count r \<noteq> 0 \<and>
    mm_request_count r dvd p div 0x1000 \<and> p div 0x1000 + mm_request_count r \<le> 8 * mm_bitmap_size s"

definition mm_block :: "nat \<Rightarrow> mm_request \<Rightarrow> nat set" where
  "mm_block p r = {p div 0x1000..<p div 0x1000 + mm_request_count r}"

lemma frames_of_bound: "mm_inv s \<Longrightarrow> f \<in> mm_free_frames s \<Longrightarrow> f < 8 * mm_bitmap_size s"
  by (auto simp: mm_inv_def frames_of_def)

interpretation mm_frames: frame_allocator mm_inv mm_free_frames mm_request_valid mm_block
  mm_request_alloc mm_request_free
proof
  fix s r p s'
  assume inv: "mm_inv s" and al: "mm_request_alloc r s = (p, s')"
  show "mm_inv s'"
    using al mm_alloc_page_main(1) [OF inv] mm_alloc_pages_main [OF inv] by (cases r) auto
  show "mm_request_valid s' = mm_request_valid s"
    using al mm_alloc_page_main(2,3) [OF inv] mm_alloc_pages_main [OF inv]
    by (cases r) (auto simp: mm_request_valid_def fun_eq_iff)
  assume p: "p \<noteq> 0"
  show "mm_request_valid s p r \<and> mm_block p r \<subseteq> mm_free_frames s \<and>
    mm_free_frames s' = mm_free_frames s - mm_block p r"
  proof (cases r)
    case Mm_page
    with al mm_alloc_page_main(5) [OF inv _ p] frames_of_bound [OF inv] show ?thesis
      by (fastforce simp: mm_request_valid_def mm_block_def)
  next
    case (Mm_pages t order)
    with al p mm_alloc_pages_main [OF inv, of True t order p s'] obtain f where
      f: "p = f * 0x1000" "mm_fits s t (mm_get_count order) f" "mm_get_count order \<noteq> 0" "mm_ready s"
        "mm_free_frames s' = mm_free_frames s - {f..<f + mm_get_count order}" by auto
    moreover from f(2,3) frames_of_bound [OF inv, of "f + mm_get_count order - 1"]
    have "f + mm_get_count order \<le> 8 * mm_bitmap_size s" by (auto simp: mm_fits_def subset_iff)
    ultimately show ?thesis using Mm_pages by (auto simp: mm_request_valid_def mm_block_def mm_fits_def)
  qed
next
  fix s r s'
  assume inv: "mm_inv s" and al: "mm_request_alloc r s = (0, s')"
  then show "mm_free_frames s' = mm_free_frames s"
    using mm_alloc_page_main(4) [OF inv] mm_alloc_pages_main [OF inv] by (cases r) auto
next
  fix s p r
  assume inv: "mm_inv s" and v: "mm_request_valid s p r"
  show "mm_inv (mm_request_free p r s)"
    using mm_free_page_main(1) [OF inv] mm_free_pages_main [OF inv] by (cases r) auto
  show "mm_request_valid (mm_request_free p r s) = mm_request_valid s"
    using mm_free_page_main(2) [OF inv] mm_free_pages_main [OF inv]
    by (cases r) (auto simp: mm_request_valid_def fun_eq_iff)
  show "mm_free_frames (mm_request_free p r s) = mm_free_frames s \<union> mm_block p r"
    using mm_free_page_main(3) [OF inv] mm_free_pages_main [OF inv] v
    by (cases r) (auto simp: mm_request_valid_def mm_block_def Let_def)
qed

subsection \<open>Counting free frames\<close>

lemma mm_count_bits_card:
  "b \<le> 8 \<Longrightarrow> mm_count_bits (ucast (v :: u8)) b pages = pages + card {j. b \<le> j \<and> j < 8 \<and> \<not> bit v j}"
proof (induction "8 - b" arbitrary: b pages)
  case 0
  then have b: "b = 8" by simp
  show ?case unfolding b mm_count_bits.simps [of _ 8] by auto
next
  case (Suc n)
  then have b: "b < 8" by simp
  have "{j. b \<le> j \<and> j < 8 \<and> \<not> bit v j} =
      (if bit v b then {} else {b}) \<union> {j. b + 1 \<le> j \<and> j < 8 \<and> \<not> bit v j}"
    using b by (auto simp: Suc_le_eq order_less_le)
  then have "card {j. b \<le> j \<and> j < 8 \<and> \<not> bit v j} =
      (if bit v b then 0 else 1) + card {j. b + 1 \<le> j \<and> j < 8 \<and> \<not> bit v j}"
    by (simp only:) (subst card_Un_disjoint, auto)
  with Suc.hyps(1) [of "b + 1"] Suc.hyps(2) b bit_test [OF b, of v] show ?case
    by (simp add: mm_count_bits.simps [of _ b])
qed

lemma mm_count_loop_card:
  "mm_count_loop n i bm pages = pages + card {f. 8 * i \<le> f \<and> f < 8 * (i + n) \<and> \<not> frame_used bm f}"
proof (induction n arbitrary: i pages)
  case (Suc n)
  let ?A = "{f. 8 * i \<le> f \<and> f < 8 * i + 8 \<and> \<not> frame_used bm f}"
  let ?B = "{f. 8 * (i + 1) \<le> f \<and> f < 8 * (i + 1 + n) \<and> \<not> frame_used bm f}"
  have "?A = (\<lambda>j. 8 * i + j) ` {j. j < 8 \<and> \<not> bit (bm ! i) j}"
  proof (intro set_eqI iffI)
    fix f assume "f \<in> ?A"
    moreover from this have "f = 8 * i + (f - 8 * i)" "f div 8 = i" "f - 8 * i < 8"
      by (auto intro!: div_nat_eqI)
    moreover from this have "f mod 8 = f - 8 * i" by (simp add: minus_mult_div_eq_mod [symmetric])
    ultimately show "f \<in> (\<lambda>j. 8 * i + j) ` {j. j < 8 \<and> \<not> bit (bm ! i) j}"
      by (intro image_eqI [of _ _ "f - 8 * i"]) (auto simp: frame_used_def)
  qed (auto simp: frame_used_def)
  then have A: "card ?A = card {j. 0 \<le> j \<and> j < 8 \<and> \<not> bit (bm ! i) j}"
    by (simp add: card_image)
  have "{f. 8 * i \<le> f \<and> f < 8 * (i + Suc n) \<and> \<not> frame_used bm f} = ?A \<union> ?B" by auto
  moreover have "card (?A \<union> ?B) = card ?A + card ?B" by (rule card_Un_disjoint) auto
  ultimately show ?case unfolding mm_count_loop.simps Suc.IH mm_count_bits_card [OF le0] by (simp add: A)
qed simp

lemma mm_limit_dvd8:
  assumes "mm_limit t (8 * sz) = Some l"
  shows "8 dvd l" "l \<le> 8 * sz"
  using assms by (cases t rule: mm_limit_cases; auto simp: min_def split: if_splits)+

subsection \<open>Properties of the operations\<close>

text \<open>A small state for the witnesses: frames 0x40 to 0x7F are free.\<close>

definition mm_example :: mm_state where
  "mm_example = \<lparr>mm_run_once = True, mm_ready = True, mm_bitmap_size = 0x1000, mm_bitmap_used = 0,
    mm_bitmap = mm_bitmap_clear 0x40 0x40 (replicate 0x1000 0xFF)\<rparr>"

lemma frames_of_full: "frames_of (replicate n 0xFF) = {}"
proof -
  have "f \<notin> frames_of (replicate n 0xFF)" for f
  proof (cases "f div 8 < n")
    case True then show ?thesis by (intro full_byte) simp
  next
    case False then show ?thesis by (auto simp: frames_of_def)
  qed
  then show ?thesis by blast
qed

lemma mm_example_facts:
  "mm_inv mm_example" "mm_free_frames mm_example = {0x40..<0x80}" "mm_ready mm_example"
  "mm_bitmap_size mm_example = 0x1000"
proof -
  have "frames_of (mm_bitmap_clear 0x40 0x40 (replicate 0x1000 0xFF)) = {0x40..<0x80}"
    "length (mm_bitmap_clear 0x40 0x40 (replicate 0x1000 0xFF)) = 0x1000"
    using mm_bitmap_frames(1,2) [of "0x40" "0x40" "replicate 0x1000 0xFF"]
    unfolding frames_of_full length_replicate by simp_all
  then show "mm_inv mm_example" "mm_free_frames mm_example = {0x40..<0x80}" "mm_ready mm_example"
    "mm_bitmap_size mm_example = 0x1000"
    unfolding mm_inv_def mm_example_def by simp_all
qed

lemma mm_example_fits: "mm_fits mm_example mm_normal 4 0x40"
  unfolding mm_fits_def mm_example_facts by (simp add: mm_limit_def)

lemma mm_get_count_2: "mm_get_count 2 = 4"
  by (simp add: mm_get_count_def)

lemma mm_example_alloc:
  assumes "mm_alloc_pages True mm_normal 2 mm_example = (page, s')"
  shows "page \<noteq> 0" "mm_ready s'"
proof -
  note main = mm_alloc_pages_main [OF mm_example_facts(1) assms, unfolded mm_get_count_2]
  from main mm_example_facts(3) show "mm_ready s'" by blast
  from main mm_example_facts(3) mm_example_fits show "page \<noteq> 0" by (cases "page = 0") auto
qed

text \<open>
  C1. A physical block returned by \<^verbatim>\<open>mm_alloc_pages\<close> is the highest run of free frames that is
  aligned to its own size and lies below the limit of the requested memory type; exactly these
  frames become allocated and the invariant is kept.
\<close>

theorem mm_alloc_pages_correct:
  assumes "mm_inv s" "mm_alloc_pages lock_ok type order s = (page, s')" "page \<noteq> 0"
  shows "mm_inv s' \<and> (\<exists>f. page = f * 0x1000 \<and> mm_fits s type (mm_get_count order) f \<and>
    (\<forall>g. mm_fits s type (mm_get_count order) g \<longrightarrow> g \<le> f) \<and>
    mm_free_frames s' = mm_free_frames s - {f..<f + mm_get_count order})"
  using mm_alloc_pages_main [OF assms(1,2)] assms(3) by auto

theorem mm_alloc_pages_correct_witness:
  "\<exists>page s'. mm_alloc_pages True mm_normal 2 mm_example = (page, s') \<and> page \<noteq> 0 \<and> mm_inv s' \<and>
    (\<exists>f. page = f * 0x1000 \<and> mm_free_frames s' = {0x40..<0x80} - {f..<f + 4})"
proof -
  obtain page s' where a: "mm_alloc_pages True mm_normal 2 mm_example = (page, s')" by fastforce
  moreover have p: "page \<noteq> 0" by (rule mm_example_alloc [OF a])
  ultimately show ?thesis using mm_alloc_pages_correct [OF mm_example_facts(1) a p]
    unfolding mm_get_count_2 mm_example_facts by blast
qed

text \<open>
  C17. \<^verbatim>\<open>mm_alloc_pages\<close> returns 0 on a ready manager with a valid order only when no
  aligned run of free frames below the limit of the type exists, and then allocates nothing.
\<close>

theorem mm_alloc_pages_complete:
  assumes "mm_inv s" "mm_alloc_pages lock_ok type order s = (0, s')"
  shows "mm_inv s' \<and> mm_free_frames s' = mm_free_frames s \<and>
    (mm_ready s \<longrightarrow> lock_ok \<longrightarrow> mm_get_count order \<noteq> 0 \<longrightarrow> (\<forall>f. \<not> mm_fits s type (mm_get_count order) f))"
  using mm_alloc_pages_main [OF assms] by auto

theorem mm_alloc_pages_complete_witness:
  "\<exists>s'. mm_alloc_pages True mm_normal 10 mm_example = (0, s') \<and> mm_free_frames s' = {0x40..<0x80}"
proof -
  have c: "mm_get_count 10 = 0x400" by (simp add: mm_get_count_def)
  have "\<not> mm_fits mm_example mm_normal 0x400 f" for f
    unfolding mm_fits_def mm_example_facts by auto
  then have "fst (mm_alloc_pages True mm_normal 10 mm_example) = 0"
    using mm_alloc_pages_main [OF mm_example_facts(1) prod.collapse [symmetric], of True mm_normal 10]
    unfolding c by (auto split: if_splits)
  then have "mm_alloc_pages True mm_normal 10 mm_example = (0, snd (mm_alloc_pages True mm_normal 10 mm_example))"
    by (metis prod.collapse)
  from mm_alloc_pages_complete [OF mm_example_facts(1) this] this show ?thesis
    unfolding mm_example_facts by blast
qed

text \<open>
  \<^verbatim>\<open>mm_alloc_page\<close> hands out the highest free frame and makes exactly it allocated; on
  a ready manager it fails only when no frame but frame 0 is free.
\<close>

theorem mm_alloc_page_correct:
  assumes "mm_inv s" "mm_ready s" "mm_alloc_page True s = (page, s')"
  shows "mm_inv s' \<and>
    (if mm_free_frames s \<subseteq> {0} then page = 0 \<and> mm_free_frames s' = mm_free_frames s
     else page = Max (mm_free_frames s) * 0x1000 \<and>
       mm_free_frames s' = mm_free_frames s - {Max (mm_free_frames s)})"
proof -
  note main = mm_alloc_page_main [OF assms(1,3)]
  have fin: "finite (mm_free_frames s)" by (simp add: frames_of_def)
  show ?thesis
  proof (cases "page = 0")
    case True
    with main(1,4) assms(2) show ?thesis by simp
  next
    case False
    with main(5) obtain f where f: "page = f * 0x1000" "0 < f" "f \<in> mm_free_frames s"
      "mm_free_frames s' = mm_free_frames s - {f}" "\<forall>g \<in> mm_free_frames s. g \<le> f" by blast
    then have "Max (mm_free_frames s) = f" using fin by (intro Max_eqI) auto
    with f main(1) show ?thesis by auto
  qed
qed

theorem mm_alloc_page_correct_witness:
  "\<exists>s'. mm_alloc_page True mm_example = (0x7F000, s') \<and> mm_free_frames s' = {0x40..<0x7F}"
proof -
  obtain page s' where a: "mm_alloc_page True mm_example = (page, s')" by fastforce
  have "Max {0x40..<0x80} = (0x7F :: nat)" by (rule Max_eqI) auto
  moreover have "{0x40..<0x80} - {0x7F} = {0x40..<0x7F :: nat}" by auto
  moreover have "0x40 \<in> {0x40..<0x80 :: nat}" by simp
  then have "({0x40..<0x80 :: nat} \<subseteq> {0}) = False" by (simp only: subset_iff singleton_iff) auto
  ultimately have "page = 0x7F000" "mm_free_frames s' = {0x40..<0x7F}"
    using mm_alloc_page_correct [OF mm_example_facts(1,3) a, unfolded mm_example_facts] by (simp_all only: if_False)
  with a show ?thesis by blast
qed

text \<open>
  C10. Whatever sequence of single-page and multi-page allocations and releases of owned blocks
  a client performs from a state that satisfies the invariant, its blocks are pairwise
  disjoint, disjoint from the free frames, and blocks and free frames together are exactly the frames
  that were free at the start: nothing is handed out twice and nothing leaks.
\<close>

theorem mm_no_double_allocation:
  assumes "mm_inv s0" "frame_client mm_request_alloc mm_request_free s0 s own"
  shows "mm_inv s \<and> sorted_wrt (\<lambda>(p, r) (q, t). mm_block p r \<inter> mm_block q t = {}) own \<and>
    (\<forall>(p, r) \<in> set own. mm_block p r \<inter> mm_free_frames s = {}) \<and>
    mm_free_frames s \<union> (\<Union>(p, r) \<in> set own. mm_block p r) = mm_free_frames s0"
  using mm_frames.client_invariant [OF assms(2,1)] by auto

theorem mm_no_double_allocation_witness:
  "\<exists>s p q. frame_client mm_request_alloc mm_request_free mm_example s [(q, Mm_page), (p, Mm_pages mm_normal 2)] \<and>
    mm_block q Mm_page \<inter> mm_block p (Mm_pages mm_normal 2) = {}"
proof -
  let ?r = "Mm_pages mm_normal 2"
  obtain p s1 where a: "mm_request_alloc ?r mm_example = (p, s1)" by fastforce
  have p: "p \<noteq> 0" and ready: "mm_ready s1" using mm_example_alloc [of p s1] a by simp_all
  note s1 = mm_frames.alloc_inv [OF mm_example_facts(1) a]
    mm_frames.alloc_some [OF mm_example_facts(1) a p]
  have "card {0x40..<0x80 :: nat} - card (mm_block p ?r) \<le> card (mm_free_frames s1)"
    using s1(2) by (simp only: mm_example_facts) (intro diff_card_le_card_Diff, simp add: mm_block_def)
  then have "2 \<le> card (mm_free_frames s1)" by (simp add: mm_block_def mm_get_count_2)
  then have n: "\<not> mm_free_frames s1 \<subseteq> {0}" using card_mono [of "{0::nat}" "mm_free_frames s1"] by auto
  obtain q s2 where b: "mm_request_alloc Mm_page s1 = (q, s2)" by fastforce
  with ready have q: "q \<noteq> 0" using mm_alloc_page_main(4) [OF s1(1), of True q s2] b n by auto
  have c: "frame_client mm_request_alloc mm_request_free mm_example s2 [(q, Mm_page), (p, ?r)]"
    by (rule frame_client.taken, rule frame_client.taken, rule frame_client.start) (fact a p b q)+
  then show ?thesis using mm_no_double_allocation [OF mm_example_facts(1) c] by auto
qed

text \<open>
  \<^verbatim>\<open>mm_free_pages\<close> releases exactly the frames of the block: a block obtained from
  \<^verbatim>\<open>mm_alloc_pages\<close> and freed with the same order restores the set of free frames.
\<close>

theorem mm_alloc_free_pages:
  assumes "mm_inv s" "mm_alloc_pages True type order s = (page, s')" "page \<noteq> 0"
  shows "mm_inv (mm_free_pages True page order s') \<and>
    mm_free_frames (mm_free_pages True page order s') = mm_free_frames s"
proof -
  have a: "mm_request_alloc (Mm_pages type order) s = (page, s')" using assms(2) by simp
  note s = mm_frames.alloc_inv [OF assms(1) a] mm_frames.alloc_some [OF assms(1) a assms(3)]
    mm_frames.alloc_valid [OF assms(1) a]
  then have v: "mm_request_valid s' page (Mm_pages type order)" by simp
  show ?thesis
    using mm_frames.release_inv [OF s(1) v] mm_frames.release_frames [OF s(1) v] s(2) by auto
qed

theorem mm_alloc_free_pages_witness:
  "let (page, s') = mm_alloc_pages True mm_normal 2 mm_example in
    page \<noteq> 0 \<and> mm_free_frames (mm_free_pages True page 2 s') = {0x40..<0x80}"
proof -
  obtain page s' where a: "mm_alloc_pages True mm_normal 2 mm_example = (page, s')" by fastforce
  have "page \<noteq> 0" by (rule mm_example_alloc [OF a])
  with mm_alloc_free_pages [OF mm_example_facts(1) a] a show ?thesis
    unfolding mm_example_facts by simp
qed

text \<open>
  \<^verbatim>\<open>mm_available_pages\<close> is the number of free frames below the limit of the memory
  type.
\<close>

theorem mm_available_pages_correct:
  assumes "mm_inv s" "mm_ready s" "mm_limit type (8 * mm_bitmap_size s) = Some l"
  shows "mm_available_pages True type s = card {f \<in> mm_free_frames s. f < l}"
proof -
  from mm_limit_dvd8 [OF assms(3)] obtain k where k: "l = 8 * k" "k \<le> mm_bitmap_size s" by auto
  have "mm_available_pages True type s = mm_count_loop k 0 (mm_bitmap s) 0"
    using assms(2,3) k by (simp add: mm_available_pages_def mult.commute drop_bit_eq_div)
  also have "\<dots> = card {f. f < l \<and> \<not> frame_used (mm_bitmap s) f}"
    by (simp add: mm_count_loop_card k)
  also have "{f. f < l \<and> \<not> frame_used (mm_bitmap s) f} = {f \<in> mm_free_frames s. f < l}"
    using assms(1) k by (auto simp: frames_of_def mm_inv_def)
  finally show ?thesis .
qed

theorem mm_available_pages_correct_witness: "mm_available_pages True mm_addr28 mm_example = 64"
proof -
  have "mm_available_pages True mm_addr28 mm_example = card {f \<in> mm_free_frames mm_example. f < 0x8000}"
    by (rule mm_available_pages_correct) (simp_all add: mm_example_facts mm_limit_def mm_types)
  also have "{f \<in> mm_free_frames mm_example. f < 0x8000} = {0x40..<0x80}"
    unfolding mm_example_facts by auto
  finally show ?thesis by simp
qed

subsection \<open>Initialisation\<close>

text \<open>
  The memory map handed over by the loader is a list of base addresses and types; an entry ends
  where the next begins. \<^verbatim>\<open>d32\<close> is set for the 32-bit build
  (\<^verbatim>\<open>DANCY_32\<close>). A usable region is a first page frame and a page count.
\<close>

definition mm_region :: "bool \<Rightarrow> nat \<Rightarrow> nat \<Rightarrow> (nat \<times> nat) option" where
  "mm_region d32 base next =
    (let base = (if base < 0x10000 then 0x10000 else base);
         base = (base + 0xFFF) mod 2 ^ 64 div 0x1000 * 0x1000;
         next = next div 0x1000 * 0x1000;
         next = (if d32 then (if next > 0x100000000 then 0x100000000 else next)
                 else (if next > 0x800000000000 then 0x800000000000 else next))
     in if base \<ge> next then None
        else if next - base < 0x2000 then None
        else Some (base div 0x1000, (next - base) div 0x1000))"

fun mm_collect :: "bool \<Rightarrow> (nat \<times> nat) list \<Rightarrow> (nat \<times> nat) list option" where
  "mm_collect d32 ((base, type) # (next, type') # es) =
    (if type \<noteq> 0xE000FFFF then mm_collect d32 ((next, type') # es)
     else if next \<noteq> 0 \<and> base > next then None
     else
       case mm_collect d32 ((next, type') # es) of
         None \<Rightarrow> None
       | Some regs \<Rightarrow> Some (case mm_region d32 base next of None \<Rightarrow> regs | Some r \<Rightarrow> r # regs))"
| "mm_collect d32 es = Some []"

fun mm_bitmap_bytes :: "nat \<Rightarrow> (nat \<times> nat) list \<Rightarrow> nat" where
  "mm_bitmap_bytes bitmap_size [] = bitmap_size"
| "mm_bitmap_bytes bitmap_size ((page_frame, page_count) # regs) =
    (let sz = page_frame + page_count;
         sz = (sz + 7) div 8 * 8 div 8;
         sz = (sz + 0xFFF) div 0x1000 * 0x1000
     in mm_bitmap_bytes (if bitmap_size < sz then sz else bitmap_size) regs)"

text \<open>
  The 64-bit build takes the bitmap's own storage from the front of the last region that is
  larger and low enough; the loop index runs from the end.
\<close>

fun mm_place :: "nat \<Rightarrow> nat \<Rightarrow> (nat \<times> nat) list \<Rightarrow> nat option \<times> (nat \<times> nat) list" where
  "mm_place bitmap_size 0 regs = (None, regs)"
| "mm_place bitmap_size (Suc i) regs =
    (let bitmap_page_count = bitmap_size div 0x1000;
         (page_frame, page_count) = regs ! i
     in if page_count \<le> bitmap_page_count then mm_place bitmap_size i regs
        else
          let addr = page_frame * 0x1000 in
          if addr > 0x7800000000 then mm_place bitmap_size i regs
          else (Some addr, regs[i := (page_frame + bitmap_page_count, page_count - bitmap_page_count)]))"

fun mm_clear_regions :: "(nat \<times> nat) list \<Rightarrow> u8 list \<Rightarrow> u8 list" where
  "mm_clear_regions [] bm = bm"
| "mm_clear_regions ((page_frame, page_count) # regs) bm =
    mm_clear_regions regs (mm_bitmap_clear page_frame page_count bm)"

text \<open>
  The loop that takes 4 MiB blocks from the heap until it has none left. \<^const>\<open>None\<close> is
  running out of fuel; each round takes 4 MiB of a heap of at most 256 MiB, so 65 rounds suffice.
\<close>

fun mm_take_heap :: "nat \<Rightarrow> bool \<Rightarrow> heap_state \<Rightarrow> u8 list \<Rightarrow> nat \<Rightarrow> (heap_state \<times> u8 list \<times> nat) option" where
  "mm_take_heap 0 lock_ok h bm heap_reserved = None"
| "mm_take_heap (Suc fuel) lock_ok h bm heap_reserved =
    (let (ptr, h) = aligned_alloc lock_ok 0x1000 0x400000 h in
     if ptr = 0 then Some (h, bm, heap_reserved)
     else mm_take_heap fuel lock_ok h (mm_bitmap_clear (ptr div 0x1000) 0x400 bm) ptr)"

text \<open>
  \<^verbatim>\<open>mm_init\<close> in three parts, with its collaborators as arguments: whether
  \<^verbatim>\<open>mtx_init\<close> and the heap's lock succeed, \<^verbatim>\<open>pg_map\<close> for
  \<^verbatim>\<open>pg_map_kernel\<close> (address, size and type to a pointer, 0 when it fails), and
  \<^verbatim>\<open>ram\<close>, what reading the filled bitmap back yields. The result is \<^const>\<open>None\<close>
  when the kernel panics or the fuel runs out. The last loop reads the region array after it was
  freed; the model gives it the values it had.
\<close>

definition pg_normal :: nat where
  "pg_normal = 0x00"

definition pg_extended :: nat where
  "pg_extended = 0x02"

definition mm_alloc_bitmap ::
    "bool \<Rightarrow> bool \<Rightarrow> (nat \<Rightarrow> nat \<Rightarrow> nat \<Rightarrow> nat) \<Rightarrow> nat \<Rightarrow> (nat \<times> nat) list \<Rightarrow> heap_state \<Rightarrow>
      nat \<times> (nat \<times> nat) list \<times> heap_state" where
  "mm_alloc_bitmap d32 lock_ok pg_map bitmap_size regs h =
    (if d32 then
       (case aligned_alloc lock_ok 0x1000 bitmap_size h of (p, h) \<Rightarrow> (p, regs, h))
     else
       (case mm_place bitmap_size (length regs) regs of
          (None, regs) \<Rightarrow> (0, regs, h)
        | (Some addr, regs) \<Rightarrow> (pg_map addr bitmap_size pg_extended, regs, h)))"

definition mm_fill ::
    "bool \<Rightarrow> bool \<Rightarrow> (nat \<Rightarrow> nat \<Rightarrow> nat \<Rightarrow> nat) \<Rightarrow> (u8 list \<Rightarrow> u8 list) \<Rightarrow> nat \<Rightarrow> (nat \<times> nat) list \<Rightarrow>
      mm_state \<Rightarrow> heap_state \<Rightarrow> (dancy_error \<times> mm_state \<times> heap_state) option" where
  "mm_fill d32 lock_ok pg_map ram mm_array regs s h =
    (let bm = ram (replicate (mm_bitmap_size s) 0xFF) in
     if \<not> list_all (\<lambda>v. v = 0xFF) bm then None
     else
       let bm = mm_clear_regions regs bm;
           h = free lock_ok mm_array h
       in
       case mm_take_heap 65 lock_ok h bm 0 of
         None \<Rightarrow> None
       | Some (h, bm, heap_reserved) \<Rightarrow>
           let (bm, h) =
             (if heap_reserved \<noteq> 0
              then (mm_bitmap_set (heap_reserved div 0x1000) 0x400 bm, free lock_ok heap_reserved h)
              else (bm, h));
               s = s\<lparr>mm_bitmap := bm, mm_ready := True\<rparr>
           in
           if \<not> d32 \<and> list_ex (\<lambda>(page_frame, page_count). page_frame * 0x1000 \<ge> 0x100000000 \<and>
                pg_map (page_frame * 0x1000) (page_count * 0x1000) pg_normal = 0) regs
           then Some (DE_MEMORY, s, h)
           else Some (DE_SUCCESS, s, h))"

definition mm_init ::
    "bool \<Rightarrow> (nat \<times> nat) list \<Rightarrow> bool \<Rightarrow> bool \<Rightarrow> (nat \<Rightarrow> nat \<Rightarrow> nat \<Rightarrow> nat) \<Rightarrow> (u8 list \<Rightarrow> u8 list) \<Rightarrow>
      mm_state \<Rightarrow> heap_state \<Rightarrow> (dancy_error \<times> mm_state \<times> heap_state) option" where
  "mm_init d32 memory_map mtx_ok lock_ok pg_map ram s h =
    (if mm_run_once s then Some (DE_UNEXPECTED, s, h)
     else
       let s = s\<lparr>mm_run_once := True\<rparr> in
       if \<not> mtx_ok then Some (DE_UNEXPECTED, s, h)
       else
         let (mm_array, h) = calloc lock_ok (length memory_map) (if d32 then 8 else 16) h in
         if mm_array = 0 then Some (DE_MEMORY, s, h)
         else
           case mm_collect d32 memory_map of
             None \<Rightarrow> Some (DE_UNEXPECTED, s, free lock_ok mm_array h)
           | Some regs \<Rightarrow>
               let s = s\<lparr>mm_bitmap_size := mm_bitmap_bytes 0x2000 regs\<rparr>;
                   (bitmap, regs, h) = mm_alloc_bitmap d32 lock_ok pg_map (mm_bitmap_size s) regs h
               in
               if bitmap = 0 then Some (DE_MEMORY, s, free lock_ok mm_array h)
               else mm_fill d32 lock_ok pg_map ram mm_array regs s h)"

text \<open>Room for \<open>k\<close> more map entries in a heap that lies below 256 MiB.\<close>

definition heap_room :: "nat \<Rightarrow> heap_state \<Rightarrow> bool" where
  "heap_room k h \<longleftrightarrow> heap_inv h \<and> 4 * (length (heap_map h) + k) < heap_map_size h \<and>
    last (heap_map h) \<le> 0x10000000"

lemma region_mark_size:
  assumes "region_find m a sz (length m - 1) = Find_at i p"
  shows "length (region_mark f m i x) \<le> Suc (length m)" "last (region_mark f m i x) = last m"
proof -
  have "region_find m a sz n = Find_at i p \<Longrightarrow> 0 < i \<and> i \<le> n" for n
    by (induction n) (auto simp: Let_def split: if_splits)
  from this [OF assms] have i: "0 < i" "i < length m" by auto
  show "length (region_mark f m i x) \<le> Suc (length m)" using i by (simp add: region_mark_def)
  show "last (region_mark f m i x) = last m"
  proof (cases f)
    case False
    have "last (m[i - 1 := set_used x]) = m[i - 1 := set_used x] ! (length m - 1)"
      using i by (subst last_conv_nth) auto
    also have "\<dots> = last m" using i by (subst last_conv_nth) (auto simp: nth_list_update)
    finally show ?thesis using False by (simp add: region_mark_def)
  qed (use i in \<open>simp add: region_mark_def\<close>)
qed

lemma heap_room_alloc:
  assumes "heap_room (Suc k) h" "heap_aligned_alloc a sz h = (p, h')"
  shows "heap_room k h'"
    "p \<noteq> 0 \<Longrightarrow> p mod a = 0 \<and> (\<exists>e. p + sz \<le> e \<and> e \<le> 0x10000000 \<and> heap_blocks h' = insert (p, e) (heap_blocks h) \<and>
      (\<forall>(b, c) \<in> heap_blocks h. e \<le> b \<or> c \<le> p))"
    "p = 0 \<Longrightarrow> h' = h"
proof -
  have r: "heap_inv h" "4 * length (heap_map h) < heap_map_size h" using assms(1) by (auto simp: heap_room_def)
  then have safe: "heap_grow_safe h p" by (simp add: heap_grow_safe_def)
  show z: "p = 0 \<Longrightarrow> h' = h"
    using assms(2) r(2) by (auto simp: heap_aligned_alloc_def heap_grow_map_def Let_def
        split: if_splits find_result.splits option.splits)
  show room: "heap_room k h'"
  proof (cases "p = 0")
    case True with z assms(1) show ?thesis by (simp add: heap_room_def)
  next
    case False
    from assms(2) False obtain i g where
      f: "region_find (heap_map h) (max 16 a) sz (length (heap_map h) - 1) = Find_at i p"
      and g: "heap_grow_map h = Some g"
      and h': "h' = g\<lparr>heap_map := region_mark (p \<noteq> heap_map h ! (i - 1)) (heap_map g) i (p mod 2 ^ 32)\<rparr>"
      by (rule heap_alloc_cases)
    have "g = h" using g r(2) by (simp add: heap_grow_map_def Let_def)
    then have "length (heap_map h') \<le> Suc (length (heap_map h))" "last (heap_map h') = last (heap_map h)"
      "heap_map_size h' = heap_map_size h" using h' region_mark_size [OF f] by simp_all
    with heap_alloc_main(1) [OF r(1) assms(2) False safe] assms(1)
    show ?thesis unfolding heap_room_def by auto
  qed
  assume p: "p \<noteq> 0"
  note main = heap_alloc_main [OF r(1) assms(2) p safe]
  from main(3) obtain e where e: "p + sz \<le> e" "heap_blocks h' = insert (p, e) (heap_blocks h)"
    "\<forall>(b, c) \<in> heap_blocks h. e \<le> b \<or> c \<le> p" by (elim exE conjE)
  have "e \<le> last (heap_map h')"
    using e(2) room by (intro blocks_bounds(3) [of _ p]) (simp_all add: heap_room_def heap_inv_def heap_blocks_def)
  then have "e \<le> 0x10000000" using room unfolding heap_room_def by linarith
  with e main(2) show "p mod a = 0 \<and> (\<exists>e. p + sz \<le> e \<and> e \<le> 0x10000000 \<and> heap_blocks h' = insert (p, e) (heap_blocks h) \<and>
      (\<forall>(b, c) \<in> heap_blocks h. e \<le> b \<or> c \<le> p))"
    by (intro conjI exI [of _ e])
qed

lemma region_release_size: "length (region_release a m) = length m \<and>
    (m \<noteq> [] \<longrightarrow> last (region_release a m) = last m)"
  by (induction a m rule: region_release.induct) auto

lemma region_merge_size: "2 \<le> length m \<Longrightarrow> 0 < i \<Longrightarrow> length (region_merge i m) \<le> length m \<and>
    last (region_merge i m) = last m"
proof (induction i m rule: region_merge.induct)
  case (1 i m)
  show ?case
  proof (cases "i < length m - 1")
    case True
    then have "last (take i m @ drop (Suc i) m) = last m" "2 \<le> length (take i m @ drop (Suc i) m)"
      using "1.prems" by (auto simp: min_def)
    with True "1" show ?thesis by (subst (1 2) region_merge.simps) (force split: if_splits)
  qed (simp add: region_merge.simps [of i])
qed

lemma heap_room_free: "heap_room k h \<Longrightarrow> heap_room k (heap_free p h)"
proof -
  assume r: "heap_room k h"
  then have l: "2 \<le> length (heap_map h)" by (auto simp: heap_room_def heap_inv_def region_wf_def)
  let ?m = "region_release (set_used (p mod 2 ^ 32)) (heap_map h)"
  have "length (region_merge 1 ?m) \<le> length (heap_map h)" "last (region_merge 1 ?m) = last (heap_map h)"
    using region_merge_size [of ?m 1] region_release_size [of "set_used (p mod 2 ^ 32)" "heap_map h"] l by auto
  then have "4 * (length (heap_map (heap_free p h)) + k) \<le> 4 * (length (heap_map h) + k)"
    "last (heap_map (heap_free p h)) = last (heap_map h)" "heap_map_size (heap_free p h) = heap_map_size h"
    by (simp_all add: heap_free_def Let_def)
  then show ?thesis using r heap_free_main(1) [of h p] unfolding heap_room_def by auto
qed

definition heap_taken :: "heap_state \<Rightarrow> nat" where
  "heap_taken h = (\<Sum>(b, e) \<in> heap_blocks h. e - b)"

lemma heap_taken_bound:
  assumes "heap_room k h"
  shows "heap_taken h \<le> 0x10000000" "finite (heap_blocks h)"
proof -
  have wf: "region_wf (heap_map h)" "heap_map h \<noteq> []" and top: "last (heap_map h) \<le> 0x10000000"
    using assms by (auto simp: heap_room_def heap_inv_def region_wf_def)
  have l: "last (heap_map h) = clear_used (heap_map h ! (length (heap_map h) - 1))"
    using wf by (simp add: region_wf_def last_conv_nth)
  have "sum (used_len (heap_map h)) {..<length (heap_map h) - 1} \<le> last (heap_map h)"
    using region_usage_total [OF wf(1), of "length (heap_map h) - 1"] wf(2) unfolding l
    by (metis (no_types) diff_le_self le_add1 le_trans length_greater_0_conv diff_less zero_less_one)
  with top show "heap_taken h \<le> 0x10000000"
    unfolding heap_taken_def heap_blocks_def usage_blocks [OF wf(1), symmetric] by simp
  have "heap_blocks h \<subseteq> (\<lambda>(b, e, u). (b, e)) ` set (regions (heap_map h))"
    unfolding heap_blocks_def blocks_def by force
  then show "finite (heap_blocks h)" by (rule finite_subset) simp
qed

lemma mm_take_heap_main:
  assumes "heap_room n h" "0x10000000 < heap_taken h + n * 0x400000" "0x2000 \<le> length bm"
  shows "\<exists>h' bm' r'. mm_take_heap n True h bm r = Some (h', bm', r') \<and> heap_room 0 h' \<and>
    heap_blocks h \<subseteq> heap_blocks h' \<and> length bm' = length bm \<and>
    (\<forall>f \<in> frames_of bm'. f \<in> frames_of bm \<or> (\<exists>p e. (p, e) \<in> heap_blocks h' \<and>
      p \<le> f * 0x1000 \<and> f * 0x1000 < p + 0x400000 \<and> p + 0x400000 \<le> e \<and> p mod 0x1000 = 0)) \<and>
    (r' = r \<or> (\<exists>e. (r', e) \<in> heap_blocks h' \<and> r' mod 0x1000 = 0 \<and> r' + 0x400000 \<le> 0x10000000))"
  using assms
proof (induction n arbitrary: h bm r)
  case 0
  then show ?case using heap_taken_bound(1) [of 0 h] by simp
next
  case (Suc n)
  obtain p h1 where a: "heap_aligned_alloc 0x1000 0x400000 h = (p, h1)" by fastforce
  note room = heap_room_alloc [OF Suc.prems(1) a]
  show ?case
  proof (cases "p = 0")
    case True
    with room a show ?thesis by (auto simp: aligned_alloc_def heap_room_def)
  next
    case False
    from room(2) [OF False] obtain e where e: "p mod 0x1000 = 0" "p + 0x400000 \<le> e" "e \<le> 0x10000000"
      "heap_blocks h1 = insert (p, e) (heap_blocks h)" "\<forall>(b, c) \<in> heap_blocks h. e \<le> b \<or> c \<le> p"
      by (elim exE conjE)
    have inv: "heap_inv h" using Suc.prems(1) by (simp add: heap_room_def)
    have "(p, e) \<notin> heap_blocks h" using e(2,5) by auto
    then have "heap_taken h1 = (e - p) + heap_taken h"
      unfolding heap_taken_def e(4) using heap_taken_bound(2) [OF Suc.prems(1)] by simp
    with Suc.prems(2) e(2) have t: "0x10000000 < heap_taken h1 + n * 0x400000" by simp
    let ?f = "p div 0x1000" and ?bm = "mm_bitmap_clear (p div 0x1000) 0x400 bm"
    have pf: "p = ?f * 0x1000" using e(1) by auto
    have fit: "?f + 0x400 \<le> 8 * length bm" using pf e(2,3) Suc.prems(3) by linarith
    note bits = mm_bitmap_frames(1,2) [OF fit]
    have len: "0x2000 \<le> length ?bm" using bits(2) Suc.prems(3) by simp
    from Suc.IH [OF room(1) t len, of p] obtain h' bm' r' where
      IH: "mm_take_heap n True h1 ?bm p = Some (h', bm', r')" "heap_room 0 h'" "heap_blocks h1 \<subseteq> heap_blocks h'"
        "length bm' = length ?bm" "\<forall>f \<in> frames_of bm'. f \<in> frames_of ?bm \<or> (\<exists>p e. (p, e) \<in> heap_blocks h' \<and>
          p \<le> f * 0x1000 \<and> f * 0x1000 < p + 0x400000 \<and> p + 0x400000 \<le> e \<and> p mod 0x1000 = 0)"
        "r' = p \<or> (\<exists>e. (r', e) \<in> heap_blocks h' \<and> r' mod 0x1000 = 0 \<and> r' + 0x400000 \<le> 0x10000000)"
      by (elim exE conjE)
    have pe: "(p, e) \<in> heap_blocks h'" using IH(3) e(4) by blast
    have new: "\<exists>p e. (p, e) \<in> heap_blocks h' \<and> p \<le> f * 0x1000 \<and> f * 0x1000 < p + 0x400000 \<and> p + 0x400000 \<le> e \<and> p mod 0x1000 = 0"
      if "f \<in> {?f..<?f + 0x400}" for f
    proof (intro exI conjI)
      show "p \<le> f * 0x1000" using that pf by auto
      have "f * 0x1000 < (?f + 0x400) * 0x1000" using that by simp
      also have "\<dots> = p + 0x400000" using pf by (simp add: distrib_right)
      finally show "f * 0x1000 < p + 0x400000" .
    qed (use pe e in auto)
    have step: "mm_take_heap (Suc n) True h bm r = mm_take_heap n True h1 ?bm p"
      using a False by (simp add: aligned_alloc_def)
    have "\<forall>f \<in> frames_of bm'. f \<in> frames_of bm \<or> (\<exists>p e. (p, e) \<in> heap_blocks h' \<and>
          p \<le> f * 0x1000 \<and> f * 0x1000 < p + 0x400000 \<and> p + 0x400000 \<le> e \<and> p mod 0x1000 = 0)"
    proof
      fix f assume "f \<in> frames_of bm'"
      with IH(5) have "f \<in> frames_of ?bm \<or> (\<exists>p e. (p, e) \<in> heap_blocks h' \<and>
          p \<le> f * 0x1000 \<and> f * 0x1000 < p + 0x400000 \<and> p + 0x400000 \<le> e \<and> p mod 0x1000 = 0)" by (rule bspec)
      then show "f \<in> frames_of bm \<or> (\<exists>p e. (p, e) \<in> heap_blocks h' \<and>
          p \<le> f * 0x1000 \<and> f * 0x1000 < p + 0x400000 \<and> p + 0x400000 \<le> e \<and> p mod 0x1000 = 0)"
        unfolding bits(1) Un_iff using new [of f] by (elim disjE) (simp_all only: simp_thms)
    qed
    moreover have "p + 0x400000 \<le> 0x10000000" using e by simp
    with pe e(1) have "\<exists>e. (p, e) \<in> heap_blocks h' \<and> p mod 0x1000 = 0 \<and> p + 0x400000 \<le> 0x10000000"
      by (intro exI conjI)
    with IH(6) have "\<exists>e. (r', e) \<in> heap_blocks h' \<and> r' mod 0x1000 = 0 \<and> r' + 0x400000 \<le> 0x10000000"
      by (elim disjE) simp_all
    moreover have "heap_blocks h \<subseteq> heap_blocks h'" using IH(3) e(4) by blast
    moreover have "length bm' = length bm" using IH(4) bits(2) by simp
    ultimately have "mm_take_heap (Suc n) True h bm r = Some (h', bm', r') \<and> heap_room 0 h' \<and>
      heap_blocks h \<subseteq> heap_blocks h' \<and> length bm' = length bm \<and>
      (\<forall>f \<in> frames_of bm'. f \<in> frames_of bm \<or> (\<exists>p e. (p, e) \<in> heap_blocks h' \<and>
        p \<le> f * 0x1000 \<and> f * 0x1000 < p + 0x400000 \<and> p + 0x400000 \<le> e \<and> p mod 0x1000 = 0)) \<and>
      (r' = r \<or> (\<exists>e. (r', e) \<in> heap_blocks h' \<and> r' mod 0x1000 = 0 \<and> r' + 0x400000 \<le> 0x10000000))"
      using IH(2) unfolding step IH(1) by (simp only: simp_thms)
    then show ?thesis by (intro exI)
  qed
qed

subsection \<open>The regions and the bitmap\<close>

definition region_frames :: "(nat \<times> nat) list \<Rightarrow> nat set" where
  "region_frames regs = (\<Union>(pf, pc) \<in> set regs. {pf..<pf + pc})"

lemma region_frames_Cons [simp]: "region_frames [] = {}"
  "region_frames ((pf, pc) # regs) = {pf..<pf + pc} \<union> region_frames regs"
  by (simp_all add: region_frames_def)

lemma mm_region_bound:
  assumes "mm_region d32 base next = Some (pf, pc)"
  shows "pf + pc \<le> 2 ^ 35"
proof -
  define b where "b = ((if base < 0x10000 then 0x10000 else base) + 0xFFF) mod 2 ^ 64 div 0x1000"
  define l :: nat where "l = (if d32 then 0x100000 else 0x800000000)"
  define e where "e = min (next div 0x1000) l"
  have "mm_region d32 base next = (if b \<ge> e then None else if e - b < 2 then None else Some (b, e - b))"
  proof -
    have "(if d32 then (if next div 0x1000 * 0x1000 > 0x100000000 then 0x100000000 else next div 0x1000 * 0x1000)
        else (if next div 0x1000 * 0x1000 > 0x800000000000 then 0x800000000000 else next div 0x1000 * 0x1000)) = e * 0x1000"
      unfolding e_def l_def min_def by auto
    then show ?thesis unfolding mm_region_def Let_def b_def [symmetric]
      by (simp add: diff_mult_distrib [symmetric])
  qed
  with assms have "pf + pc = e" by (auto split: if_splits)
  also have "\<dots> \<le> 2 ^ 35" unfolding e_def l_def by auto
  finally show ?thesis .
qed

lemma mm_collect_bound:
  "mm_collect d32 es = Some regs \<Longrightarrow> (pf, pc) \<in> set regs \<Longrightarrow> pf + pc \<le> 2 ^ 35"
  by (induction d32 es arbitrary: regs rule: mm_collect.induct)
    (auto dest: mm_region_bound [simplified] split: if_splits option.splits)

lemma mm_bitmap_bytes_main:
  assumes "\<forall>(pf, pc) \<in> set regs. pf + pc \<le> 2 ^ 35" "n mod 0x1000 = 0" "n \<le> 2 ^ 32"
  shows "n \<le> mm_bitmap_bytes n regs \<and> mm_bitmap_bytes n regs mod 0x1000 = 0 \<and> mm_bitmap_bytes n regs \<le> 2 ^ 32 \<and>
    (\<forall>(pf, pc) \<in> set regs. pf + pc \<le> 8 * mm_bitmap_bytes n regs)"
  using assms
proof (induction regs arbitrary: n)
  case (Cons r regs)
  obtain pf pc where r: "r = (pf, pc)" by fastforce
  define k where "k = (pf + pc + 7) div 8"
  define m where "m = (k + 0xFFF) div 0x1000"
  have k: "pf + pc \<le> 8 * k" "k \<le> 0x100000000"
    unfolding k_def using Cons.prems(1) r by (simp_all add: r) linarith+
  have m: "k \<le> m * 0x1000" "m \<le> 0x100000" unfolding m_def using k(2) by linarith+
  define n' where "n' = (if n < m * 0x1000 then m * 0x1000 else n)"
  have "mm_bitmap_bytes n (r # regs) = mm_bitmap_bytes n' regs"
    unfolding r mm_bitmap_bytes.simps Let_def n'_def m_def k_def by simp
  moreover have "n' mod 0x1000 = 0" "n' \<le> 2 ^ 32" "n \<le> n'" "pf + pc \<le> 8 * n'"
    unfolding n'_def using Cons.prems(2,3) m k(1) by auto
  ultimately show ?case using Cons.IH [of n'] Cons.prems(1) unfolding r by auto
qed simp

lemma mm_place_sub:
  "mm_place bs i regs = (a, regs') \<Longrightarrow> i \<le> length regs \<Longrightarrow> region_frames regs' \<subseteq> region_frames regs \<and>
    (\<forall>(pf, pc) \<in> set regs'. \<exists>(pf', pc') \<in> set regs. pf + pc = pf' + pc')"
proof (induction i)
  case (Suc i)
  obtain pf pc where r: "regs ! i = (pf, pc)" by fastforce
  show ?case
  proof (cases "pc \<le> bs div 0x1000 \<or> pf * 0x1000 > 0x7800000000")
    case True
    then have "mm_place bs i regs = (a, regs')" using Suc.prems(1) r by (auto simp: Let_def split: if_splits)
    with Suc.IH Suc.prems(2) show ?thesis by simp
  next
    case False
    let ?r = "(pf + bs div 0x1000, pc - bs div 0x1000)"
    from False Suc.prems(1) r have e: "regs' = regs[i := ?r]" by (simp add: Let_def)
    have m: "(pf, pc) \<in> set regs" using nth_mem [of i regs] r Suc.prems(2) by simp
    have s: "set regs' \<subseteq> insert ?r (set regs)" unfolding e by (rule set_update_subset_insert)
    have "region_frames regs' \<subseteq> {pf + bs div 0x1000..<pf + pc} \<union> region_frames regs"
      unfolding region_frames_def using s False by auto
    moreover have "{pf..<pf + pc} \<subseteq> region_frames regs" unfolding region_frames_def using m by blast
    moreover have "{pf + bs div 0x1000..<pf + pc} \<subseteq> {pf..<pf + pc}" by auto
    ultimately have "region_frames regs' \<subseteq> region_frames regs" by blast
    moreover have "\<exists>(pf', pc') \<in> set regs. fst q + snd q = pf' + pc'" if "q \<in> set regs'" for q
      using s that m False by (intro bexI [of _ "if q = ?r then (pf, pc) else q"]) (auto split: prod.splits)
    ultimately show ?thesis by auto
  qed
qed (auto)

lemma mm_clear_regions_main:
  "\<forall>(pf, pc) \<in> set regs. pf + pc \<le> 8 * length bm \<Longrightarrow>
    frames_of (mm_clear_regions regs bm) = frames_of bm \<union> region_frames regs \<and>
    length (mm_clear_regions regs bm) = length bm"
  by (induction regs bm rule: mm_clear_regions.induct) (auto simp: mm_bitmap_frames)

lemma heap_room_mono: "heap_room k h \<Longrightarrow> j \<le> k \<Longrightarrow> heap_room j h"
  by (auto simp: heap_room_def)

lemma heap_room_calloc:
  assumes "heap_room (Suc k) h" "calloc lock_ok n sz h = (p, h')"
  shows "heap_room k h'"
proof -
  have m: "heap_room k (h\<lparr>heap_mem := f\<rparr>) = heap_room k h" for h f by (simp add: heap_room_def)
  obtain q h1 where a: "heap_aligned_alloc 16 (n * sz mod 2 ^ 64) h = (q, h1)" by fastforce
  have "h' = h \<or> h' = h1 \<or> (\<exists>f. h' = h1\<lparr>heap_mem := f\<rparr>)"
    using assms(2) a by (auto simp: calloc_def Let_def split: if_splits)
  with heap_room_alloc(1) [OF assms(1) a] heap_room_mono [OF assms(1)] m show ?thesis by auto
qed

lemma heap_room_aligned_alloc:
  assumes "heap_room (Suc k) h" "aligned_alloc lock_ok a sz h = (p, h')"
  shows "heap_room k h'"
  using assms heap_room_alloc(1) [OF assms(1)] heap_room_mono [OF assms(1)]
  by (auto simp: aligned_alloc_def split: if_splits)

lemma heap_room_free_c: "heap_room k h \<Longrightarrow> heap_room k (free lock_ok p h)"
  by (simp add: free_def heap_room_free)

text \<open>
  The part of \<^verbatim>\<open>mm_init\<close> after the bitmap has been filled: what is free is part of a region
  or of a heap block that stays allocated.
\<close>

definition frame_in_blocks :: "nat \<Rightarrow> (nat \<times> nat) set \<Rightarrow> bool" where
  "frame_in_blocks f B \<longleftrightarrow> (\<exists>(b, e) \<in> B. b \<le> f * 0x1000 \<and> f * 0x1000 + 0x1000 \<le> e)"

lemma frame_in_block:
  fixes p f e :: nat
  assumes "p \<le> f * 0x1000" "f * 0x1000 < p + 0x400000" "p + 0x400000 \<le> e" "p mod 0x1000 = 0"
  shows "f * 0x1000 + 0x1000 \<le> e" "f \<in> {p div 0x1000..<p div 0x1000 + 0x400}"
proof -
  define k where "k = p div 0x1000"
  have k: "p = k * 0x1000" unfolding k_def using assms(4) by auto
  with assms(1,2) have "k \<le> f" "f < k + 0x400" by simp_all
  then show "f * 0x1000 + 0x1000 \<le> e" "f \<in> {p div 0x1000..<p div 0x1000 + 0x400}"
    using assms(3) k by simp_all
qed

lemma mm_init_heap_part:
  assumes "heap_room 65 h" "0x2000 \<le> length bm" "mm_take_heap 65 True h bm 0 = Some (h1, bm1, r)"
    and "(bm2, h2) = (if r \<noteq> 0 then (mm_bitmap_set (r div 0x1000) 0x400 bm1, free True r h1) else (bm1, h1))"
  shows "heap_inv h2 \<and> length bm2 = length bm \<and>
    (\<forall>f \<in> frames_of bm2. f \<in> frames_of bm \<or> frame_in_blocks f (heap_blocks h2))"
proof -
  have "0x10000000 < heap_taken h + 65 * 0x400000" by simp
  from mm_take_heap_main [OF assms(1) this assms(2), of 0] assms(3)
  have T: "heap_room 0 h1" "length bm1 = length bm"
    "\<forall>f \<in> frames_of bm1. f \<in> frames_of bm \<or> (\<exists>p e. (p, e) \<in> heap_blocks h1 \<and>
      p \<le> f * 0x1000 \<and> f * 0x1000 < p + 0x400000 \<and> p + 0x400000 \<le> e \<and> p mod 0x1000 = 0)"
    "r = 0 \<or> (\<exists>e. (r, e) \<in> heap_blocks h1 \<and> r mod 0x1000 = 0 \<and> r + 0x400000 \<le> 0x10000000)" by auto
  have inv: "heap_inv h1" using T(1) by (simp add: heap_room_def)
  show ?thesis
  proof (cases "r = 0")
    case True
    have "f \<in> frames_of bm \<or> frame_in_blocks f (heap_blocks h1)" if f: "f \<in> frames_of bm1" for f
    proof -
      from T(3) [THEN bspec, OF f] consider "f \<in> frames_of bm" | p e where "(p, e) \<in> heap_blocks h1" "p \<le> f * 0x1000"
        "f * 0x1000 < p + 0x400000" "p + 0x400000 \<le> e" "p mod 0x1000 = 0"
        by (elim disjE exE conjE)
      then show ?thesis
      proof cases
        case (2 p e)
        with frame_in_block(1) [OF 2(2-5)] show ?thesis
          unfolding frame_in_blocks_def by (intro disjI2 bexI [of _ "(p, e)"]) auto
      qed simp
    qed
    with True assms(4) inv T(2) show ?thesis by simp
  next
    case False
    from T(4) False obtain e where
      r: "(r, e) \<in> heap_blocks h1" "r mod 0x1000 = 0" "r + 0x400000 \<le> 0x10000000"
      by (elim disjE exE conjE) simp
    have h2: "h2 = heap_free r h1" and bm2: "bm2 = mm_bitmap_set (r div 0x1000) 0x400 bm1"
      using assms(4) False by (simp_all add: free_def)
    have "r div 0x1000 + 0x400 \<le> 8 * length bm1" using r(3) assms(2) T(2) by linarith
    note bits = mm_bitmap_frames(3,4) [OF this, folded bm2]
    have bl: "heap_blocks h2 = {q \<in> heap_blocks h1. fst q \<noteq> r}"
      unfolding h2 heap_free_main(2) [OF inv] heap_block_addr(1) [OF inv r(1)] ..
    have "f \<in> frames_of bm \<or> frame_in_blocks f (heap_blocks h2)" if "f \<in> frames_of bm2" for f
    proof -
      from that bits(1) have f: "f \<in> frames_of bm1" "f \<notin> {r div 0x1000..<r div 0x1000 + 0x400}" by auto
      from T(3) [THEN bspec, OF f(1)] consider "f \<in> frames_of bm" | p e where "(p, e) \<in> heap_blocks h1" "p \<le> f * 0x1000"
        "f * 0x1000 < p + 0x400000" "p + 0x400000 \<le> e" "p mod 0x1000 = 0"
        by (elim disjE exE conjE)
      then show ?thesis
      proof cases
        case (2 p e)
        note fb = frame_in_block [OF 2(2-5)]
        have "p \<noteq> r" using fb(2) f(2) by blast
        with 2(1,2) fb(1) bl show ?thesis unfolding frame_in_blocks_def by (intro disjI2 bexI [of _ "(p, e)"]) auto
      qed simp
    qed
    then show ?thesis using heap_free_main(1) [OF inv, of r] bits(2) T(2) unfolding h2 by simp
  qed
qed

text \<open>
  C18. From a heap with room in its map, \<^verbatim>\<open>mm_init\<close> returns, and when it succeeds the manager
  is ready, the invariant holds, the heap is intact, and every free frame lies in a usable region
  of the memory map or inside a block that stays allocated in the heap: the heap cannot hand out
  what the frame allocator owns.
\<close>

theorem mm_init_correct:
  assumes room: "heap_room 67 h" and "\<not> mm_run_once s" "mm_bitmap_used s = 0" "\<And>bm. ram bm = bm"
  shows "\<exists>err s' h'. mm_init d32 memory_map mtx_ok True pg_map ram s h = Some (err, s', h') \<and>
    heap_inv h' \<and> mm_run_once s' \<and>
    (err = DE_SUCCESS \<longrightarrow> mm_ready s' \<and> mm_inv s' \<and>
      (\<exists>regs. mm_collect d32 memory_map = Some regs \<and>
        (\<forall>f \<in> mm_free_frames s'. f \<in> region_frames regs \<or> frame_in_blocks f (heap_blocks h'))))"
proof -
  obtain a h1 where c: "calloc True (length memory_map) (if d32 then 8 else 16) h = (a, h1)" by fastforce
  have "heap_room (Suc 66) h" using room by simp
  from heap_room_calloc [OF this c] have room1: "heap_room 66 h1" .
  then have inv1: "heap_inv h1" "heap_inv (free True a h1)"
    using heap_room_free_c [of 66 h1 True a] by (simp_all add: heap_room_def)
  have inv: "heap_inv h" using room by (simp add: heap_room_def)
  consider "\<not> mtx_ok" | "mtx_ok" "a = 0" | "mtx_ok" "a \<noteq> 0" "mm_collect d32 memory_map = None"
    | regs where "mtx_ok" "a \<noteq> 0" "mm_collect d32 memory_map = Some regs"
    by (cases "mm_collect d32 memory_map") auto
  then show ?thesis
  proof cases
    case 1
    with assms(2) inv show ?thesis by (simp add: mm_init_def Let_def)
  next
    case 2
    with assms(2) c inv1 show ?thesis by (simp add: mm_init_def Let_def)
  next
    case 3
    with assms(2) c inv1 show ?thesis by (simp add: mm_init_def Let_def)
  next
    case (4 regs)
    define bs where "bs = mm_bitmap_bytes 0x2000 regs"
    have bnd: "\<forall>(pf, pc) \<in> set regs. pf + pc \<le> 2 ^ 35" using mm_collect_bound [OF 4(3)] by blast
    have bs: "0x2000 \<le> bs" "bs mod 0x1000 = 0" "bs \<le> 2 ^ 32" "\<forall>(pf, pc) \<in> set regs. pf + pc \<le> 8 * bs"
      using mm_bitmap_bytes_main [OF bnd, of "0x2000"] unfolding bs_def by auto
    obtain bitmap regs' h2 where st: "mm_alloc_bitmap d32 True pg_map bs regs h1 = (bitmap, regs', h2)"
      by (metis surj_pair)
    have st_ok: "heap_room 65 h2 \<and> region_frames regs' \<subseteq> region_frames regs \<and> (\<forall>(pf, pc) \<in> set regs'. pf + pc \<le> 8 * bs)"
    proof (cases d32)
      case True
      have "heap_room (Suc 65) h1" using room1 by simp
      from heap_room_aligned_alloc [OF this] True st bs(4) show ?thesis unfolding mm_alloc_bitmap_def by (auto split: prod.splits)
    next
      case False
      obtain ad regs2 where pl: "mm_place bs (length regs) regs = (ad, regs2)" by fastforce
      then have "regs' = regs2" "h2 = h1" using st False unfolding mm_alloc_bitmap_def by (auto split: option.splits)
      with mm_place_sub [OF pl] bs(4) heap_room_mono [OF room1, of 65] show ?thesis by fastforce
    qed
    then have room3: "heap_room 65 (free True a h2)" by (simp add: heap_room_free_c)
    show ?thesis
    proof (cases "bitmap = 0")
      case True
      have "mm_init d32 memory_map mtx_ok True pg_map ram s h = Some (DE_MEMORY, s\<lparr>mm_run_once := True, mm_bitmap_size := bs\<rparr>, free True a h2)"
        unfolding mm_init_def using 4 assms(2) True by (simp add: c Let_def bs_def [symmetric] st)
      with room3 show ?thesis by (simp add: heap_room_def)
    next
      case False
      define bm where "bm = mm_clear_regions regs' (replicate bs 0xFF)"
      have bm: "frames_of bm = region_frames regs'" "length bm = bs"
        using mm_clear_regions_main [of regs' "replicate bs 0xFF"] st_ok unfolding bm_def frames_of_full by simp_all
      have "0x10000000 < heap_taken (free True a h2) + 65 * 0x400000" by simp
      from mm_take_heap_main [OF room3 this, of bm 0] bm(2) bs(1) obtain h3 bm3 r where
        T: "mm_take_heap 65 True (free True a h2) bm 0 = Some (h3, bm3, r)" by auto
      obtain bm4 h4 where B: "(bm4, h4) = (if r \<noteq> 0 then (mm_bitmap_set (r div 0x1000) 0x400 bm3, free True r h3) else (bm3, h3))"
        by (metis surj_pair)
      have len: "0x2000 \<le> length bm" using bm(2) bs(1) by simp
      note H = mm_init_heap_part [OF room3 len T B]
      have full: "ram (replicate bs 0xFF) = replicate bs 0xFF" "list_all (\<lambda>v. v = 0xFF) (replicate bs (0xFF :: u8))"
        by (simp_all add: assms(4) list_all_iff)
      define s' where "s' = s\<lparr>mm_run_once := True, mm_bitmap_size := bs, mm_bitmap := bm4, mm_ready := True\<rparr>"
      obtain err where "mm_init d32 memory_map mtx_ok True pg_map ram s h = Some (err, s', h4)"
      proof -
        let ?s = "s\<lparr>mm_run_once := True, mm_bitmap_size := bs\<rparr>"
        have "mm_init d32 memory_map mtx_ok True pg_map ram s h = mm_fill d32 True pg_map ram a regs' ?s h2"
          unfolding mm_init_def using 4 assms(2) False by (simp add: c Let_def bs_def [symmetric] st)
        moreover have "\<exists>err. mm_fill d32 True pg_map ram a regs' ?s h2 = Some (err, s', h4)"
          unfolding mm_fill_def s'_def
          using B by (cases "r = 0") (simp_all add: full bm_def [symmetric] T Let_def)
        ultimately show ?thesis using that by metis
      qed
      moreover have "mm_inv s'" unfolding mm_inv_def s'_def using H bm(2) bs assms(3)
        by (auto simp: frames_of_def)
      moreover have "\<forall>f \<in> mm_free_frames s'. f \<in> region_frames regs \<or> frame_in_blocks f (heap_blocks h4)"
        using H st_ok unfolding s'_def bm(1) by auto
      ultimately show ?thesis using H 4(3) unfolding s'_def by auto
    qed
  qed
qed

lemma mm_fill_success:
  assumes "mm_fill d32 lock_ok pg_map ram a regs s h = Some (err, s', h')"
    and "\<forall>(page_frame, page_count) \<in> set regs. page_frame * 0x1000 < 0x100000000"
  shows "err = DE_SUCCESS"
proof -
  have "\<not> list_ex (\<lambda>(page_frame, page_count). page_frame * 0x1000 \<ge> 0x100000000 \<and>
      pg_map (page_frame * 0x1000) (page_count * 0x1000) pg_normal = 0) regs"
    using assms(2) by (auto simp: list_ex_iff)
  then show ?thesis using assms(1)
    by (auto simp: mm_fill_def Let_def split: if_splits option.splits prod.splits)
qed

definition mm_start :: mm_state where
  "mm_start = \<lparr>mm_run_once = False, mm_ready = False, mm_bitmap_size = 0, mm_bitmap_used = 0, mm_bitmap = []\<rparr>"

definition mm_example_map :: "(nat \<times> nat) list" where
  "mm_example_map = [(0, 1), (0x1000000, 0xE000FFFF), (0x2000000, 2), (0, 0)]"

theorem mm_init_correct_witness:
  "\<exists>s' h'. mm_init False mm_example_map True True (\<lambda>addr n t. addr) id mm_start heap_example = Some (DE_SUCCESS, s', h') \<and>
    mm_ready s' \<and> mm_inv s' \<and>
    (\<forall>f \<in> mm_free_frames s'. f \<in> region_frames [(0x1000, 0x1000)] \<or> frame_in_blocks f (heap_blocks h'))"
proof -
  have room: "heap_room 67 heap_example"
    using heap_example_inv by (simp add: heap_room_def heap_example_eq)
  have coll: "mm_collect False mm_example_map = Some [(0x1000, 0x1000)]"
    by (simp add: mm_example_map_def mm_region_def)
  obtain err s' h' where r: "mm_init False mm_example_map True True (\<lambda>addr n t. addr) id mm_start heap_example = Some (err, s', h')"
    "err = DE_SUCCESS \<longrightarrow> mm_ready s' \<and> mm_inv s' \<and>
      (\<exists>regs. mm_collect False mm_example_map = Some regs \<and>
        (\<forall>f \<in> mm_free_frames s'. f \<in> region_frames regs \<or> frame_in_blocks f (heap_blocks h')))"
    using mm_init_correct [OF room, of mm_start id False mm_example_map True "\<lambda>addr n t. addr"]
    by (simp add: mm_start_def) blast
  obtain a h1 where c: "calloc True 4 16 heap_example = (a, h1)" by fastforce
  have "fst (calloc True 4 16 heap_example) = 0x2FFFC0"
    by (simp add: calloc_def heap_example_eq heap_aligned_alloc_def heap_grow_map_def Let_def
        is_used_def clear_used_def)
  with c have a: "a \<noteq> 0" by simp
  have bs: "mm_bitmap_bytes 0x2000 [(0x1000, 0x1000)] = 0x2000" by simp
  have pl: "mm_alloc_bitmap False True (\<lambda>addr n t. addr) 0x2000 [(0x1000, 0x1000)] h1 = (0x1000000, [(0x1002, 0xFFE)], h1)"
    by (simp add: mm_alloc_bitmap_def)
  have "length mm_example_map = 4" by (simp add: mm_example_map_def)
  then have "\<exists>s1. mm_fill False True (\<lambda>addr n t. addr) id a [(0x1002, 0xFFE)] s1 h1 = Some (err, s', h')"
    using r(1) a unfolding mm_init_def by (simp add: mm_start_def c coll bs pl Let_def) blast
  then have "err = DE_SUCCESS" using mm_fill_success by fastforce
  with r coll show ?thesis by auto
qed

end
