(* ===== verification/Epoch.thy ===== *)
theory Epoch
  imports Prelude
begin

text \<open>
  The conversion between seconds since 1970 and ISO 8601 date strings,
  \<^verbatim>\<open>src/common/epoch.c\<close>. Strings are character lists indexed as in the code. The
  \<^verbatim>\<open>unsigned long long\<close> argument and the fields are naturals (all products stay far
  below the widths used); the result of \<^verbatim>\<open>epoch_seconds\<close> is an integer with
  \<^verbatim>\<open>LLONG_MIN\<close> for a malformed string.
\<close>

definition LLONG_MIN :: int where "LLONG_MIN = - (2 ^ 63)"

definition leap_year :: "nat \<Rightarrow> bool" where
  "leap_year year =
    (if year mod 4 \<noteq> 0 then False
     else if year mod 100 \<noteq> 0 then True
     else if year mod 400 \<noteq> 0 then False
     else True)"

definition days :: "nat \<Rightarrow> nat \<Rightarrow> nat" where
  "days year month =
    (if month = 1 then 31
     else if month = 2 then (if leap_year year then 29 else 28)
     else if month = 3 then 31
     else if month = 4 then 30
     else if month = 5 then 31
     else if month = 6 then 30
     else if month = 7 then 31
     else if month = 8 then 31
     else if month = 9 then 30
     else if month = 10 then 31
     else if month = 11 then 30
     else if month = 12 then 31
     else 0)"

text \<open>The loop over the remaining \<open>n\<close> characters from index \<open>i\<close>.\<close>

fun read_loop :: "string \<Rightarrow> nat \<Rightarrow> nat \<Rightarrow> int \<Rightarrow> int" where
  "read_loop str i 0 val = val"
| "read_loop str i (Suc n) val =
    (let c = (of_char (str ! i) :: int) in
     if c < of_char (CHR ''0'') \<or> c > of_char (CHR ''9'') then -1
     else read_loop str (i + 1) n (val * 10 + (c - of_char (CHR ''0''))))"

definition read_number :: "string \<Rightarrow> nat \<Rightarrow> nat \<Rightarrow> int" where
  "read_number str off len = read_loop str off len 0"

text \<open>The digit loop, with \<open>i = j\<close> until the \<^verbatim>\<open>break\<close>: the first argument counts the rounds left.\<close>

fun digit_loop :: "nat \<Rightarrow> nat \<Rightarrow> nat \<Rightarrow> string \<Rightarrow> string" where
  "digit_loop 0 j val buffer = buffer"
| "digit_loop (Suc n) j val buffer =
    (let r = val mod 10;
         val = val div 10
     in if val = 0 \<and> r = 0 then buffer
        else digit_loop n (j + 1) val (buffer[j := ''0123456789'' ! r]))"

text \<open>The copy loop: \<open>i\<close> counts up and \<open>j\<close>, the predecessor of the last argument but one, down.\<close>

fun copy_back :: "string \<Rightarrow> nat \<Rightarrow> nat \<Rightarrow> string \<Rightarrow> string" where
  "copy_back buffer i 0 str = str"
| "copy_back buffer i (Suc j) str = copy_back buffer (i + 1) j (str[i := buffer ! j])"

definition write_number :: "string \<Rightarrow> nat \<Rightarrow> nat \<Rightarrow> nat \<Rightarrow> string" where
  "write_number str off len val =
    (if len > 4 then str
     else copy_back (digit_loop len 0 val ''0000'') off len str)"

fun sum_years :: "nat \<Rightarrow> nat \<Rightarrow> int \<Rightarrow> int" where
  "sum_years n i secs =
    (case n of 0 \<Rightarrow> secs
     | Suc n \<Rightarrow> sum_years n (i + 1) (secs + (if leap_year i then 86400 * 366 else 86400 * 365)))"

fun sum_months :: "nat \<Rightarrow> nat \<Rightarrow> nat \<Rightarrow> int \<Rightarrow> int" where
  "sum_months year n i secs =
    (case n of 0 \<Rightarrow> secs
     | Suc n \<Rightarrow> sum_months year n (i + 1) (secs + 86400 * int (days year i)))"

declare sum_years.simps [simp del] sum_months.simps [simp del]

definition epoch_seconds :: "string \<Rightarrow> int" where
  "epoch_seconds fmt =
    (if fmt ! 4 \<noteq> CHR ''-'' \<or> fmt ! 7 \<noteq> CHR ''-'' then LLONG_MIN
     else if fmt ! 10 \<noteq> CHR ''T'' then LLONG_MIN
     else if fmt ! 13 \<noteq> CHR '':'' \<or> fmt ! 16 \<noteq> CHR '':'' then LLONG_MIN
     else
       let year = read_number fmt 0 4;
           mon = read_number fmt 5 2;
           day = read_number fmt 8 2;
           hour = read_number fmt 11 2;
           minute = read_number fmt 14 2;
           sec = read_number fmt 17 2;
           err = \<not> (mon \<ge> 1 \<and> mon \<le> 12) \<or> \<not> (day \<ge> 1 \<and> day \<le> 31) \<or> \<not> (hour \<ge> 0 \<and> hour \<le> 23) \<or>
             \<not> (minute \<ge> 0 \<and> minute \<le> 59) \<or> \<not> (sec \<ge> 0 \<and> sec \<le> 59)
       in
       if err \<or> year < 1970 then LLONG_MIN
       else if day > int (days (nat year) (nat mon)) then LLONG_MIN
       else
         let secs = sum_years (nat (year - 1970)) 1970 0;
             secs = sum_months (nat year) (nat (mon - 1)) 1 secs
         in secs + 86400 * (day - 1) + 3600 * hour + 60 * minute + sec)"

function year_loop :: "nat \<Rightarrow> nat \<Rightarrow> nat \<times> nat" where
  "year_loop year seconds =
    (let s = (if leap_year year then 86400 * 366 else 86400 * 365) in
     if seconds < s then (year, seconds) else year_loop (year + 1) (seconds - s))"
  by pat_completeness auto
termination by (relation "measure snd") (auto split: if_splits)

declare year_loop.simps [simp del]

text \<open>
  The month loop has no bound: after month 12 it would subtract nothing for ever, which is the
  result \<^const>\<open>None\<close>.
\<close>

partial_function (option) month_loop :: "nat \<Rightarrow> nat \<Rightarrow> nat \<Rightarrow> (nat \<times> nat) option" where
  "month_loop year mon seconds =
    (let s = 86400 * days year mon in
     if seconds < s then Some (mon, seconds) else month_loop year (mon + 1) (seconds - s))"

text \<open>The separators and the six fields, written over the given buffer.\<close>

definition write_fields :: "string \<Rightarrow> nat \<Rightarrow> nat \<Rightarrow> nat \<Rightarrow> nat \<Rightarrow> nat \<Rightarrow> nat \<Rightarrow> string" where
  "write_fields fmt year mon day hour minute sec =
    (let fmt = fmt[4 := CHR ''-'', 7 := CHR ''-'', 10 := CHR ''T'', 13 := CHR '':'', 16 := CHR '':''];
         fmt = write_number fmt 0 4 year;
         fmt = write_number fmt 5 2 mon;
         fmt = write_number fmt 8 2 day;
         fmt = write_number fmt 11 2 hour;
         fmt = write_number fmt 14 2 minute
     in write_number fmt 17 2 sec)"

definition epoch_convert :: "nat \<Rightarrow> string \<Rightarrow> string option" where
  "epoch_convert seconds fmt =
    (if seconds < 253402300799 then
       (case year_loop 1970 seconds of (year, seconds) \<Rightarrow>
          case month_loop year 1 seconds of
            None \<Rightarrow> None
          | Some (mon, seconds) \<Rightarrow>
              let day = seconds div 86400 + 1;
                  seconds = seconds mod 86400;
                  hour = seconds div 3600;
                  seconds = seconds mod 3600;
                  minute = seconds div 60;
                  sec = seconds mod 60
              in Some (write_fields fmt year mon day hour minute sec))
     else Some (write_fields fmt 9999 12 31 23 59 59))"

subsection \<open>Digits\<close>

definition digit :: "nat \<Rightarrow> char" where
  "digit d = char_of (48 + d)"

lemma digit_eq: "d < 10 \<Longrightarrow> ''0123456789'' ! d = digit d"
proof -
  assume "d < 10"
  moreover have "\<forall>d \<in> {..<10}. ''0123456789'' ! d = digit d" by code_simp
  ultimately show ?thesis by simp
qed

lemma digit_0: "CHR ''0'' = digit 0"
  using digit_eq [of 0] by simp

lemma of_char_digit: "d < 10 \<Longrightarrow> (of_char (digit d) :: int) = 48 + int d"
proof -
  assume d: "d < 10"
  have "(of_char (digit d) :: nat) = 48 + d"
    unfolding digit_def using d by (simp only: of_char_of) simp
  then show ?thesis using of_nat_of_char [of "digit d", where ?'a = int] by simp
qed

lemma digit_loop_zero: "digit_loop n j 0 buffer = buffer"
  by (cases n) simp_all

lemma digit_loop_Suc:
  "digit_loop (Suc n) j v buffer =
    (if v = 0 then buffer else digit_loop n (j + 1) (v div 10) (buffer[j := digit (v mod 10)]))"
  by (cases "v = 0") (auto simp: Let_def digit_eq)

lemma write_number_2:
  "write_number str off 2 v = str[off := digit (v div 10 mod 10), off + 1 := digit (v mod 10)]"
proof -
  have "digit_loop (Suc (Suc 0)) 0 v ''0000'' = [digit (v mod 10), digit (v div 10 mod 10), digit 0, digit 0]"
    by (simp add: digit_loop_Suc digit_loop_zero digit_0 del: digit_loop.simps(2))
  then show ?thesis by (simp add: write_number_def numeral_2_eq_2 del: digit_loop.simps)
qed

lemma write_number_4:
  "write_number str off 4 v = str[off := digit (v div 1000 mod 10), off + 1 := digit (v div 100 mod 10),
    off + 2 := digit (v div 10 mod 10), off + 3 := digit (v mod 10)]"
proof -
  have d: "v div 100 = v div 10 div 10" "v div 1000 = v div 10 div 10 div 10"
    by (simp_all add: div_mult2_eq [symmetric])
  have four: "4 = Suc (Suc (Suc (Suc 0)))" by simp
  have "digit_loop (Suc (Suc (Suc (Suc 0)))) 0 v ''0000'' =
      [digit (v mod 10), digit (v div 10 mod 10), digit (v div 10 div 10 mod 10), digit (v div 10 div 10 div 10 mod 10)]"
    by (simp add: digit_loop_Suc digit_loop_zero digit_0 del: digit_loop.simps(2) div_mult2_eq)
  then show ?thesis unfolding d write_number_def four by (simp add: numeral_3_eq_3 del: digit_loop.simps)
qed


lemma read_char:
  fixes c :: char
  shows "\<not> ((of_char c :: int) < of_char (CHR ''0'') \<or> (of_char c :: int) > of_char (CHR ''9'')) \<longleftrightarrow>
    (\<exists>d < 10. c = digit d)"
proof
  assume r: "\<not> ((of_char c :: int) < of_char (CHR ''0'') \<or> (of_char c :: int) > of_char (CHR ''9''))"
  define d where "d = (of_char c :: nat) - 48"
  have i: "(of_char c :: int) = int (of_char c)" by (simp add: of_nat_of_char)
  have "(48::int) \<le> of_char c" "(of_char c :: int) \<le> 57" using r by simp_all
  then have n: "48 \<le> (of_char c :: nat)" "(of_char c :: nat) \<le> 57" unfolding i by linarith+
  then have "48 + d = of_char c" unfolding d_def by simp
  then have "digit d = c" unfolding digit_def by simp
  moreover have "d < 10" using n unfolding d_def by simp
  ultimately show "\<exists>d < 10. c = digit d" by blast
next
  assume "\<exists>d < 10. c = digit d"
  then obtain d where "d < 10" "c = digit d" by blast
  then show "\<not> ((of_char c :: int) < of_char (CHR ''0'') \<or> (of_char c :: int) > of_char (CHR ''9''))"
    by (simp add: of_char_digit)
qed

lemma read_loop_digit:
  "d < 10 \<Longrightarrow> str ! i = digit d \<Longrightarrow> read_loop str i (Suc n) val = read_loop str (i + 1) n (val * 10 + int d)"
  using of_char_digit [of d] by (simp add: Let_def)

lemma read_loop_error:
  "\<not> (\<exists>d < 10. str ! i = digit d) \<Longrightarrow> read_loop str i (Suc n) val = -1"
  unfolding read_loop.simps Let_def by (rule if_P) (use read_char [of "str ! i"] in blast)

lemma read_number_2:
  assumes "0 \<le> read_number str i 2"
  obtains a b where "a < 10" "b < 10" "str ! i = digit a" "str ! (i + 1) = digit b"
    "read_number str i 2 = int (10 * a + b)"
proof -
  have two: "2 = Suc (Suc 0)" by simp
  from assms obtain a where a: "a < 10" "str ! i = digit a"
    unfolding read_number_def two using read_loop_error [of str i] by fastforce
  with assms obtain b where b: "b < 10" "str ! (i + 1) = digit b"
    unfolding read_number_def two read_loop_digit [OF a] using read_loop_error [of str "i + 1"] by fastforce
  show ?thesis
    by (rule that [OF a(1) b(1) a(2) b(2)])
      (simp only: read_number_def two read_loop_digit [OF a] read_loop_digit [OF b] read_loop.simps(1), simp)
qed

lemma read_number_4:
  assumes "0 \<le> read_number str i 4"
  obtains a b c d where "a < 10" "b < 10" "c < 10" "d < 10" "str ! i = digit a" "str ! (i + 1) = digit b"
    "str ! (i + 1 + 1) = digit c" "str ! (i + 1 + 1 + 1) = digit d"
    "read_number str i 4 = int (1000 * a + 100 * b + 10 * c + d)"
proof -
  have four: "4 = Suc (Suc (Suc (Suc 0)))" by simp
  from assms obtain a where a: "a < 10" "str ! i = digit a"
    unfolding read_number_def four using read_loop_error [of str i] by fastforce
  with assms obtain b where b: "b < 10" "str ! (i + 1) = digit b"
    unfolding read_number_def four read_loop_digit [OF a] using read_loop_error [of str "i + 1"] by fastforce
  with assms obtain c where c: "c < 10" "str ! (i + 1 + 1) = digit c"
    unfolding read_number_def four read_loop_digit [OF a] read_loop_digit [OF b]
    using read_loop_error [of str "i + 1 + 1"] by fastforce
  with assms obtain d where d: "d < 10" "str ! (i + 1 + 1 + 1) = digit d"
    unfolding read_number_def four read_loop_digit [OF a] read_loop_digit [OF b] read_loop_digit [OF c]
    using read_loop_error [of str "i + 1 + 1 + 1"] by fastforce
  show ?thesis
    by (rule that [OF a(1) b(1) c(1) d(1) a(2) b(2) c(2) d(2)])
      (simp only: read_number_def four read_loop_digit [OF a] read_loop_digit [OF b] read_loop_digit [OF c]
        read_loop_digit [OF d] read_loop.simps(1), simp)
qed

lemma read_digits:
  "a < 10 \<Longrightarrow> b < 10 \<Longrightarrow> str ! i = digit a \<Longrightarrow> str ! (i + 1) = digit b \<Longrightarrow> read_number str i 2 = int (10 * a + b)"
  "a < 10 \<Longrightarrow> b < 10 \<Longrightarrow> c < 10 \<Longrightarrow> d < 10 \<Longrightarrow> str ! i = digit a \<Longrightarrow> str ! (i + 1) = digit b \<Longrightarrow>
    str ! (i + 2) = digit c \<Longrightarrow> str ! (i + 3) = digit d \<Longrightarrow>
    read_number str i 4 = int (1000 * a + 100 * b + 10 * c + d)"
  by (simp_all add: read_number_def numeral_eq_Suc [of "Num.Bit0 Num.One"] numeral_eq_Suc [of "Num.Bit0 (Num.Bit0 Num.One)"]
      numeral_3_eq_3 read_loop_digit del: read_loop.simps(2))


subsection \<open>The calendar\<close>

definition year_secs :: "nat \<Rightarrow> nat" where
  "year_secs y = (if leap_year y then 86400 * 366 else 86400 * 365)"

definition month_secs :: "nat \<Rightarrow> nat \<Rightarrow> nat" where
  "month_secs y m = 86400 * days y m"

lemma sum_years_eq: "sum_years n i secs = secs + int (\<Sum>k \<in> {i..<i + n}. year_secs k)"
proof (induction n arbitrary: i secs)
  case (Suc n)
  have "{i..<i + Suc n} = insert i {i + 1..<i + 1 + n}" by auto
  with Suc show ?case by (subst sum_years.simps) (simp add: year_secs_def)
qed (simp add: sum_years.simps)

lemma sum_months_eq: "sum_months y n i secs = secs + int (\<Sum>k \<in> {i..<i + n}. month_secs y k)"
proof (induction n arbitrary: i secs)
  case (Suc n)
  have "{i..<i + Suc n} = insert i {i + 1..<i + 1 + n}" by auto
  with Suc show ?case by (subst sum_months.simps) (simp add: month_secs_def)
qed (simp add: sum_months.simps)

lemma month_sum: "(\<Sum>k \<in> {1..<13}. month_secs y k) = year_secs y"
proof -
  have "{1..<13} = {1, 2, 3, 4, 5, 6, 7, 8, 9, 10, 11, 12 :: nat}" by code_simp
  then show ?thesis by (simp add: month_secs_def year_secs_def days_def)
qed

text \<open>The number of seconds before a year, by the Gregorian rule.\<close>

definition gregorian :: "nat \<Rightarrow> int" where
  "gregorian y = 86400 * (365 * int y + int ((y + 3) div 4) - int ((y + 99) div 100) + int ((y + 399) div 400))"

lemma year_sum: "int (\<Sum>k<y. year_secs k) = gregorian y"
proof (induction y)
  case (Suc y)
  have d: "(Suc y + 3) div 4 = (y + 3) div 4 + (if y mod 4 = 0 then 1 else 0)"
    "(Suc y + 99) div 100 = (y + 99) div 100 + (if y mod 100 = 0 then 1 else 0)"
    "(Suc y + 399) div 400 = (y + 399) div 400 + (if y mod 400 = 0 then 1 else 0)"
    using div_Suc [of "y + 3" 4] div_Suc [of "y + 99" 100] div_Suc [of "y + 399" 400] by simp_all
  have m: "y mod 400 = 0 \<Longrightarrow> y mod 100 = 0" "y mod 100 = 0 \<Longrightarrow> y mod 4 = 0" by presburger+
  show ?case using Suc m unfolding gregorian_def d
    by (auto simp: year_secs_def leap_year_def)
qed (simp add: gregorian_def)

lemma year_secs_pos: "0 < year_secs y"
  by (simp add: year_secs_def)

lemma year_range: "int (\<Sum>k \<in> {1970..<10000}. year_secs k) = 253402300800"
proof -
  have "(\<Sum>k<1970. year_secs k) + (\<Sum>k \<in> {1970..<10000}. year_secs k) = (\<Sum>k<10000. year_secs k)"
    unfolding lessThan_atLeast0 by (rule sum.atLeastLessThan_concat) simp_all
  then have "int (\<Sum>k \<in> {1970..<10000}. year_secs k) = gregorian 10000 - gregorian 1970"
    unfolding year_sum [symmetric] by linarith
  also have "\<dots> = 253402300800" by (simp add: gregorian_def)
  finally show ?thesis .
qed

lemma year_loop_eq:
  "rest < year_secs (a + n) \<Longrightarrow> year_loop a ((\<Sum>k \<in> {a..<a + n}. year_secs k) + rest) = (a + n, rest)"
proof (induction n arbitrary: a)
  case 0
  then show ?case by (subst year_loop.simps) (simp add: year_secs_def Let_def)
next
  case (Suc n)
  have "{a..<a + Suc n} = insert a {a + 1..<a + 1 + n}" by auto
  then have e: "(\<Sum>k \<in> {a..<a + Suc n}. year_secs k) + rest = year_secs a + ((\<Sum>k \<in> {a + 1..<a + 1 + n}. year_secs k) + rest)"
    by simp
  from Suc.IH [of "a + 1"] Suc.prems show ?case
    unfolding e by (subst year_loop.simps) (auto simp: Let_def year_secs_def [of a])
qed

lemma month_loop_eq:
  "rest < month_secs y (a + n) \<Longrightarrow>
    month_loop y a ((\<Sum>k \<in> {a..<a + n}. month_secs y k) + rest) = Some (a + n, rest)"
proof (induction n arbitrary: a)
  case 0
  then show ?case by (subst month_loop.simps) (simp add: month_secs_def Let_def)
next
  case (Suc n)
  have "{a..<a + Suc n} = insert a {a + 1..<a + 1 + n}" by auto
  then have e: "(\<Sum>k \<in> {a..<a + Suc n}. month_secs y k) + rest = month_secs y a + ((\<Sum>k \<in> {a + 1..<a + 1 + n}. month_secs y k) + rest)"
    by simp
  from Suc.IH [of "a + 1"] Suc.prems show ?case
    unfolding e by (subst month_loop.simps) (auto simp: Let_def month_secs_def [of _ a])
qed

text \<open>Every number splits at the partial sums of a sequence that exceeds it.\<close>

lemma sum_split:
  fixes f :: "nat \<Rightarrow> nat"
  assumes "s < (\<Sum>k \<in> {a..<a + n}. f k)"
  obtains m rest where "m < n" "rest < f (a + m)" "s = (\<Sum>k \<in> {a..<a + m}. f k) + rest"
  using assms
proof (induction n arbitrary: thesis)
  case (Suc n)
  show ?case
  proof (cases "s < (\<Sum>k \<in> {a..<a + n}. f k)")
    case True
    with Suc.IH [OF _ True] Suc.prems(1) show ?thesis by (metis less_SucI)
  next
    case False
    with Suc.prems(2) show ?thesis
      by (intro Suc.prems(1) [of n "s - (\<Sum>k \<in> {a..<a + n}. f k)"]) auto
  qed
qed simp

subsection \<open>Fields and text\<close>

definition valid_fields :: "nat \<Rightarrow> nat \<Rightarrow> nat \<Rightarrow> nat \<Rightarrow> nat \<Rightarrow> nat \<Rightarrow> bool" where
  "valid_fields y mo d h mi s \<longleftrightarrow> 1970 \<le> y \<and> y \<le> 9999 \<and> 1 \<le> mo \<and> mo \<le> 12 \<and> 1 \<le> d \<and> d \<le> days y mo \<and>
    h < 24 \<and> mi < 60 \<and> s < 60"

definition field_secs :: "nat \<Rightarrow> nat \<Rightarrow> nat \<Rightarrow> nat \<Rightarrow> nat \<Rightarrow> nat \<Rightarrow> nat" where
  "field_secs y mo d h mi s = (\<Sum>k \<in> {1970..<y}. year_secs k) + ((\<Sum>k \<in> {1..<mo}. month_secs y k) +
    (86400 * (d - 1) + 3600 * h + 60 * mi + s))"

definition iso_text :: "nat \<Rightarrow> nat \<Rightarrow> nat \<Rightarrow> nat \<Rightarrow> nat \<Rightarrow> nat \<Rightarrow> string" where
  "iso_text y mo d h mi s =
    [digit (y div 1000 mod 10), digit (y div 100 mod 10), digit (y div 10 mod 10), digit (y mod 10), CHR ''-'',
     digit (mo div 10 mod 10), digit (mo mod 10), CHR ''-'', digit (d div 10 mod 10), digit (d mod 10), CHR ''T'',
     digit (h div 10 mod 10), digit (h mod 10), CHR '':'', digit (mi div 10 mod 10), digit (mi mod 10), CHR '':'',
     digit (s div 10 mod 10), digit (s mod 10)]"

lemma length_19:
  assumes "length fmt = 19"
  obtains a b c d e f g h i j k l m n p q r s t where "fmt = [a, b, c, d, e, f, g, h, i, j, k, l, m, n, p, q, r, s, t]"
proof -
  have "fmt = map ((!) fmt) [0..<19]" using assms by (metis map_nth)
  also have "[0..<19] = [0, 1, 2, 3, 4, 5, 6, 7, 8, 9, 10, 11, 12, 13, 14, 15, 16, 17, 18 :: nat]" by code_simp
  finally show ?thesis by (intro that) (simp only: list.map)
qed

lemma write_fields_eq: "length fmt = 19 \<Longrightarrow> write_fields fmt y mo d h mi s = iso_text y mo d h mi s"
  by (erule length_19) (simp add: write_fields_def write_number_2 write_number_4 Let_def iso_text_def)

lemma digits_2: "v < 100 \<Longrightarrow> 10 * (v div 10 mod 10) + v mod 10 = v" for v :: nat
proof -
  assume "v < 100"
  then have "v div 10 mod 10 = v div 10" by (simp add: less_mult_imp_div_less)
  then show ?thesis by simp
qed

lemma digits_4: "v < 10000 \<Longrightarrow> 1000 * (v div 1000 mod 10) + 100 * (v div 100 mod 10) + 10 * (v div 10 mod 10) + v mod 10 = v"
  for v :: nat
proof -
  assume v: "v < 10000"
  have d: "v div 100 = v div 10 div 10" "v div 1000 = v div 100 div 10" by (simp_all add: div_mult2_eq [symmetric])
  have "v div 1000 mod 10 = v div 1000" using v by (simp add: less_mult_imp_div_less)
  moreover have "v = 10 * (v div 10) + v mod 10" "v div 10 = 10 * (v div 100) + v div 10 mod 10"
    "v div 100 = 10 * (v div 1000) + v div 100 mod 10" unfolding d by simp_all
  ultimately show ?thesis by linarith
qed

lemma days_le: "days y m \<le> 31"
  by (simp add: days_def)

lemma iso_text_numbers:
  assumes "valid_fields y mo d h mi s"
  defines "t \<equiv> iso_text y mo d h mi s"
  shows "read_number t 0 4 = int y" "read_number t 5 2 = int mo" "read_number t 8 2 = int d"
    "read_number t 11 2 = int h" "read_number t 14 2 = int mi" "read_number t 17 2 = int s"
proof -
  have b: "y < 10000" "mo < 100" "d < 100" "h < 100" "mi < 100" "s < 100"
    using assms(1) days_le [of y mo] by (auto simp: valid_fields_def)
  note simps = t_def iso_text_def
  have "read_number t 0 4 = int (1000 * (y div 1000 mod 10) + 100 * (y div 100 mod 10) + 10 * (y div 10 mod 10) + y mod 10)"
    by (rule read_digits(2)) (simp_all add: simps)
  then show "read_number t 0 4 = int y" by (simp only: digits_4 [OF b(1)])
  have "read_number t 5 2 = int (10 * (mo div 10 mod 10) + mo mod 10)" by (rule read_digits(1)) (simp_all add: simps)
  then show "read_number t 5 2 = int mo" by (simp only: digits_2 [OF b(2)])
  have "read_number t 8 2 = int (10 * (d div 10 mod 10) + d mod 10)" by (rule read_digits(1)) (simp_all add: simps)
  then show "read_number t 8 2 = int d" by (simp only: digits_2 [OF b(3)])
  have "read_number t 11 2 = int (10 * (h div 10 mod 10) + h mod 10)" by (rule read_digits(1)) (simp_all add: simps)
  then show "read_number t 11 2 = int h" by (simp only: digits_2 [OF b(4)])
  have "read_number t 14 2 = int (10 * (mi div 10 mod 10) + mi mod 10)" by (rule read_digits(1)) (simp_all add: simps)
  then show "read_number t 14 2 = int mi" by (simp only: digits_2 [OF b(5)])
  have "read_number t 17 2 = int (10 * (s div 10 mod 10) + s mod 10)" by (rule read_digits(1)) (simp_all add: simps)
  then show "read_number t 17 2 = int s" by (simp only: digits_2 [OF b(6)])
qed

lemma epoch_seconds_iso_text:
  assumes v: "valid_fields y mo d h mi s"
  shows "epoch_seconds (iso_text y mo d h mi s) = int (field_secs y mo d h mi s)"
proof -
  define t where "t = iso_text y mo d h mi s"
  have sep: "t ! 4 = CHR ''-''" "t ! 7 = CHR ''-''" "t ! 10 = CHR ''T''" "t ! 13 = CHR '':''" "t ! 16 = CHR '':''"
    by (simp_all add: t_def iso_text_def)
  note num = iso_text_numbers [OF v, folded t_def]
  have b: "1970 \<le> y" "1 \<le> mo" "mo \<le> 12" "1 \<le> d" "d \<le> 31" "d \<le> days y mo" "h \<le> 23" "mi \<le> 59" "s \<le> 59"
    using v days_le [of y mo] by (auto simp: valid_fields_def)
  have "1970 + (y - 1970) = y" "1 + (mo - 1) = mo" using b by simp_all
  then have "sum_months y (mo - 1) 1 (sum_years (y - 1970) 1970 0) =
      int (\<Sum>k \<in> {1970..<y}. year_secs k) + int (\<Sum>k \<in> {1..<mo}. month_secs y k)"
    unfolding sum_months_eq sum_years_eq by simp
  moreover have "nat (int y - 1970) = y - 1970" "nat (int mo - 1) = mo - 1" by linarith+
  moreover have "86400 * (int d - 1) = int (86400 * (d - 1))" using b by (simp add: of_nat_diff)
  ultimately show ?thesis
    unfolding t_def [symmetric] epoch_seconds_def sep num field_secs_def using b by (simp add: Let_def)
qed

lemma epoch_split:
  assumes v: "valid_fields y mo d h mi s"
  shows "\<exists>r r2. year_loop 1970 (field_secs y mo d h mi s) = (y, r) \<and> month_loop y 1 r = Some (mo, r2) \<and>
    r2 div 86400 + 1 = d \<and> r2 mod 86400 div 3600 = h \<and> r2 mod 86400 mod 3600 div 60 = mi \<and> r2 mod 86400 mod 3600 mod 60 = s \<and>
    field_secs y mo d h mi s < (\<Sum>k \<in> {1970..<Suc y}. year_secs k)"
proof -
  define r2 where "r2 = 86400 * (d - 1) + 3600 * h + 60 * mi + s"
  define r where "r = (\<Sum>k \<in> {1..<mo}. month_secs y k) + r2"
  have b: "1970 \<le> y" "1 \<le> mo" "mo \<le> 12" "1 \<le> d" "d \<le> days y mo" "h < 24" "mi < 60" "s < 60"
    using v by (auto simp: valid_fields_def)
  have t1: "60 * mi + s < 3600" "3600 * h + (60 * mi + s) < 86400" using b by linarith+
  have m1: "r2 = (3600 * h + (60 * mi + s)) + 86400 * (d - 1)" unfolding r2_def by simp
  have d1: "r2 div 86400 = d - 1" "r2 mod 86400 = 3600 * h + (60 * mi + s)" unfolding m1 using t1 by simp_all
  have "86400 * (d - 1) + 86400 \<le> month_secs y mo" using b by (simp add: month_secs_def)
  then have r2: "r2 < month_secs y mo" using t1 unfolding m1 by linarith
  have "(\<Sum>k \<in> {1..<mo}. month_secs y k) + (\<Sum>k \<in> {mo..<13}. month_secs y k) = (\<Sum>k \<in> {1..<13}. month_secs y k)"
    using b by (intro sum.atLeastLessThan_concat) simp_all
  moreover have "(\<Sum>k \<in> {mo..<13}. month_secs y k) = month_secs y mo + (\<Sum>k \<in> {Suc mo..<13}. month_secs y k)"
    using b by (intro sum.atLeast_Suc_lessThan) simp
  ultimately have "(\<Sum>k \<in> {1..<mo}. month_secs y k) + month_secs y mo \<le> (\<Sum>k \<in> {1..<13}. month_secs y k)"
    by linarith
  then have r: "r < year_secs y" using r2 unfolding month_sum r_def by linarith
  have "year_loop 1970 (field_secs y mo d h mi s) = (y, r)"
    using year_loop_eq [of r 1970 "y - 1970"] r b(1) unfolding field_secs_def r_def r2_def by simp
  moreover have "month_loop y 1 r = Some (mo, r2)"
    using month_loop_eq [of r2 y 1 "mo - 1"] r2 b(2) unfolding r_def by simp
  moreover have "(3600 * h + (60 * mi + s)) div 3600 = h" "(3600 * h + (60 * mi + s)) mod 3600 = 60 * mi + s"
    "(60 * mi + s) div 60 = mi" "(60 * mi + s) mod 60 = s"
    using t1(1) b(8) by simp_all
  moreover have "field_secs y mo d h mi s < (\<Sum>k \<in> {1970..<Suc y}. year_secs k)"
    using r b(1) unfolding field_secs_def r_def r2_def by simp
  ultimately show ?thesis using d1 b(4) by (intro exI [of _ r] exI [of _ r2]) simp
qed

lemma valid_last: "valid_fields 9999 12 31 23 59 59" "field_secs 9999 12 31 23 59 59 = 253402300799"
proof -
  show "valid_fields 9999 12 31 23 59 59" by (simp add: valid_fields_def days_def)
  have "(\<Sum>k \<in> {1970..<10000}. year_secs k) = (\<Sum>k \<in> {1970..<9999}. year_secs k) + year_secs 9999"
    using sum.atLeastLessThan_Suc [of 1970 9999 year_secs] by simp
  moreover have "(\<Sum>k \<in> {1..<13}. month_secs 9999 k) = (\<Sum>k \<in> {1..<12}. month_secs 9999 k) + month_secs 9999 12"
    using sum.atLeastLessThan_Suc [of 1 12 "month_secs 9999"] by simp
  moreover have "month_secs 9999 12 = 86400 * 31" by (simp add: month_secs_def days_def)
  moreover have "(\<Sum>k \<in> {1970..<10000}. year_secs k) = 253402300800" using year_range by linarith
  ultimately show "field_secs 9999 12 31 23 59 59 = 253402300799"
    unfolding month_sum field_secs_def by simp
qed

lemma field_secs_max:
  assumes v: "valid_fields y mo d h mi s"
  shows "field_secs y mo d h mi s \<le> 253402300799"
proof -
  from epoch_split [OF v] have "field_secs y mo d h mi s < (\<Sum>k \<in> {1970..<Suc y}. year_secs k)" by blast
  also have "\<dots> \<le> (\<Sum>k \<in> {1970..<10000}. year_secs k)"
    using v by (intro sum_mono2) (auto simp: valid_fields_def)
  also have "\<dots> = 253402300800" using year_range by (simp del: of_nat_sum)
  finally show ?thesis by simp
qed

lemma epoch_convert_fields:
  assumes v: "valid_fields y mo d h mi s" and l: "length fmt = 19"
    and m: "field_secs y mo d h mi s \<le> 253402300799"
  shows "epoch_convert (field_secs y mo d h mi s) fmt = Some (iso_text y mo d h mi s)"
proof (cases "field_secs y mo d h mi s < 253402300799")
  case True
  from epoch_split [OF v] obtain r r2 where e: "year_loop 1970 (field_secs y mo d h mi s) = (y, r)"
    "month_loop y 1 r = Some (mo, r2)" "r2 div 86400 + 1 = d" "r2 mod 86400 div 3600 = h"
    "r2 mod 86400 mod 3600 div 60 = mi" "r2 mod 86400 mod 3600 mod 60 = s" by blast
  show ?thesis unfolding epoch_convert_def e(1) prod.case e(2) option.case Let_def e(3-6) write_fields_eq [OF l]
    using True by (rule if_P)
next
  case False
  with m have eq: "field_secs y mo d h mi s = field_secs 9999 12 31 23 59 59" by (simp add: valid_last(2))
  from epoch_split [OF v] obtain r r2 where e: "year_loop 1970 (field_secs y mo d h mi s) = (y, r)"
    "month_loop y 1 r = Some (mo, r2)" "r2 div 86400 + 1 = d" "r2 mod 86400 div 3600 = h"
    "r2 mod 86400 mod 3600 div 60 = mi" "r2 mod 86400 mod 3600 mod 60 = s" by blast
  from epoch_split [OF valid_last(1)] obtain q q2 where f: "year_loop 1970 (field_secs 9999 12 31 23 59 59) = (9999, q)"
    "month_loop 9999 1 q = Some (12, q2)" "q2 div 86400 + 1 = 31" "q2 mod 86400 div 3600 = 23"
    "q2 mod 86400 mod 3600 div 60 = 59" "q2 mod 86400 mod 3600 mod 60 = 59" by blast
  have y: "y = 9999" "r = q" using e(1) f(1) unfolding eq by simp_all
  have mo: "mo = 12" "r2 = q2" using e(2) f(2) unfolding y by simp_all
  have rest: "d = 31" "h = 23" "mi = 59" "s = 59" using e(3-6) f(3-6) unfolding mo by simp_all
  show ?thesis using False unfolding y mo rest epoch_convert_def write_fields_eq [OF l] by (rule if_not_P)
qed

text \<open>
  C7. Converting any number of seconds and reading the result back yields the number, or the last
  second of the year 9999 when it is larger; the conversion always returns.
\<close>

theorem epoch_roundtrip:
  assumes "length fmt = 19"
  shows "\<exists>iso. epoch_convert seconds fmt = Some iso \<and> length iso = 19 \<and>
    epoch_seconds iso = int (if seconds < 253402300799 then seconds else 253402300799)"
proof (cases "seconds < 253402300799")
  case False
  then have "epoch_convert seconds fmt = Some (iso_text 9999 12 31 23 59 59)"
    unfolding epoch_convert_def write_fields_eq [OF assms] by (rule if_not_P)
  moreover have "epoch_seconds (iso_text 9999 12 31 23 59 59) = 253402300799"
    using epoch_seconds_iso_text [OF valid_last(1)] unfolding valid_last(2) by simp
  ultimately show ?thesis using False by (simp add: iso_text_def)
next
  case True
  have "(\<Sum>k \<in> {1970..<1970 + 8030}. year_secs k) = 253402300800" using year_range by (simp del: of_nat_sum)
  then have "seconds < (\<Sum>k \<in> {1970..<1970 + 8030}. year_secs k)" using True by linarith
  then obtain m r where m: "m < 8030" "r < year_secs (1970 + m)" "seconds = (\<Sum>k \<in> {1970..<1970 + m}. year_secs k) + r"
    by (rule sum_split)
  define y where "y = 1970 + m"
  have "r < (\<Sum>k \<in> {1..<1 + 12}. month_secs y k)" using m(2) month_sum [of y] unfolding y_def by simp
  then obtain n r2 where n: "n < 12" "r2 < month_secs y (1 + n)" "r = (\<Sum>k \<in> {1..<1 + n}. month_secs y k) + r2"
    by (rule sum_split)
  define d where "d = r2 div 86400 + 1"
  define t where "t = r2 mod 86400"
  have "r2 div 86400 < days y (1 + n)" using n(2) by (simp add: month_secs_def less_mult_imp_div_less mult.commute)
  moreover have "t div 3600 < 24" unfolding t_def by (simp add: less_mult_imp_div_less)
  moreover have "t mod 3600 div 60 < 60" by (simp add: less_mult_imp_div_less)
  ultimately have v: "valid_fields y (1 + n) d (t div 3600) (t mod 3600 div 60) (t mod 3600 mod 60)"
    unfolding valid_fields_def y_def d_def using m(1) n(1) by simp
  have "r2 = 86400 * (d - 1) + t" unfolding d_def t_def by simp
  also have "t = 3600 * (t div 3600) + t mod 3600" by simp
  also have "t mod 3600 = 60 * (t mod 3600 div 60) + t mod 3600 mod 60" by simp
  finally have r2: "r2 = 86400 * (d - 1) + 3600 * (t div 3600) + 60 * (t mod 3600 div 60) + t mod 3600 mod 60"
    by (simp only: add.assoc)
  have s: "seconds = field_secs y (1 + n) d (t div 3600) (t mod 3600 div 60) (t mod 3600 mod 60)"
    unfolding field_secs_def r2 [symmetric] m(3) n(3) by (simp only: y_def)
  have le: "field_secs y (1 + n) d (t div 3600) (t mod 3600 div 60) (t mod 3600 mod 60) \<le> 253402300799"
    using True unfolding s by simp
  show ?thesis
    using epoch_convert_fields [OF v assms le] epoch_seconds_iso_text [OF v] True
    unfolding s [symmetric] by (simp add: iso_text_def)
qed

theorem epoch_roundtrip_witness:
  "\<exists>iso. epoch_convert 951827696 (replicate 19 CHR ''x'') = Some iso \<and> epoch_seconds iso = 951827696"
  using epoch_roundtrip [of "replicate 19 CHR ''x''" 951827696] by auto


lemma undigits_2: "a < 10 \<Longrightarrow> b < 10 \<Longrightarrow> v = 10 * a + b \<Longrightarrow> v div 10 mod 10 = a \<and> v mod 10 = b" for v :: nat
  by simp

lemma digit_divmod: "d < 10 \<Longrightarrow> v = d + x * 10 \<Longrightarrow> v div 10 = x" "d < 10 \<Longrightarrow> v = d + x * 10 \<Longrightarrow> v mod 10 = d"
  for v x d :: nat
  by simp_all

lemma undigits_4:
  fixes v :: nat
  assumes "a < 10" "b < 10" "c < 10" "d < 10" "v = 1000 * a + 100 * b + 10 * c + d"
  shows "v div 1000 mod 10 = a" "v div 100 mod 10 = b" "v div 10 mod 10 = c" "v mod 10 = d"
proof -
  have "v = d + (100 * a + 10 * b + c) * 10" using assms(5) by simp
  note 1 = digit_divmod [OF assms(4) this]
  have "v div 10 = c + (10 * a + b) * 10" unfolding 1 by simp
  note 2 = digit_divmod [OF assms(3) this]
  have "v div 10 div 10 = b + a * 10" unfolding 2 by simp
  note 3 = digit_divmod [OF assms(2) this]
  have d: "v div 100 = v div 10 div 10" "v div 1000 = v div 10 div 10 div 10" by (simp_all add: div_mult2_eq [symmetric])
  show "v div 1000 mod 10 = a" "v div 100 mod 10 = b" "v div 10 mod 10 = c" "v mod 10 = d"
    unfolding d using 1 2 3 assms(1) by (simp_all only: mod_less)
qed

lemma epoch_seconds_fields:
  assumes l: "length str = 19" and e: "epoch_seconds str \<noteq> LLONG_MIN"
  obtains y mo d h mi s where "valid_fields y mo d h mi s" "str = iso_text y mo d h mi s"
proof -
  have sep: "str ! 4 = CHR ''-''" "str ! 7 = CHR ''-''" "str ! 10 = CHR ''T''" "str ! 13 = CHR '':''" "str ! 16 = CHR '':''"
    using e unfolding epoch_seconds_def by (auto split: if_splits)
  let ?r = "read_number str"
  have n: "1970 \<le> ?r 0 4" "1 \<le> ?r 5 2" "?r 5 2 \<le> 12" "1 \<le> ?r 8 2" "?r 8 2 \<le> int (days (nat (?r 0 4)) (nat (?r 5 2)))"
    "0 \<le> ?r 11 2" "?r 11 2 \<le> 23" "0 \<le> ?r 14 2" "?r 14 2 \<le> 59" "0 \<le> ?r 17 2" "?r 17 2 \<le> 59"
    using e unfolding epoch_seconds_def sep Let_def by (auto split: if_splits)
  obtain a b c d where y: "a < 10" "b < 10" "c < 10" "d < 10" "str ! 0 = digit a" "str ! (0 + 1) = digit b"
    "str ! (0 + 1 + 1) = digit c" "str ! (0 + 1 + 1 + 1) = digit d" "?r 0 4 = int (1000 * a + 100 * b + 10 * c + d)"
    by (rule read_number_4 [of str 0]) (use n in auto)
  obtain m0 m1 where mo: "m0 < 10" "m1 < 10" "str ! 5 = digit m0" "str ! (5 + 1) = digit m1" "?r 5 2 = int (10 * m0 + m1)"
    by (rule read_number_2 [of str 5]) (use n in auto)
  obtain d0 d1 where da: "d0 < 10" "d1 < 10" "str ! 8 = digit d0" "str ! (8 + 1) = digit d1" "?r 8 2 = int (10 * d0 + d1)"
    by (rule read_number_2 [of str 8]) (use n in auto)
  obtain h0 h1 where ho: "h0 < 10" "h1 < 10" "str ! 11 = digit h0" "str ! (11 + 1) = digit h1" "?r 11 2 = int (10 * h0 + h1)"
    by (rule read_number_2 [of str 11]) (use n in auto)
  obtain i0 i1 where mi: "i0 < 10" "i1 < 10" "str ! 14 = digit i0" "str ! (14 + 1) = digit i1" "?r 14 2 = int (10 * i0 + i1)"
    by (rule read_number_2 [of str 14]) (use n in auto)
  obtain s0 s1 where se: "s0 < 10" "s1 < 10" "str ! 17 = digit s0" "str ! (17 + 1) = digit s1" "?r 17 2 = int (10 * s0 + s1)"
    by (rule read_number_2 [of str 17]) (use n in auto)
  let ?y = "1000 * a + 100 * b + 10 * c + d"
  have "valid_fields ?y (10 * m0 + m1) (10 * d0 + d1) (10 * h0 + h1) (10 * i0 + i1) (10 * s0 + s1)"
    using n y(1-4) unfolding y(9) mo(5) da(5) ho(5) mi(5) se(5) valid_fields_def nat_int by auto
  moreover have "str = iso_text ?y (10 * m0 + m1) (10 * d0 + d1) (10 * h0 + h1) (10 * i0 + i1) (10 * s0 + s1)"
    unfolding iso_text_def undigits_4 [OF y(1-4) refl] undigits_2 [OF mo(1,2) refl, THEN conjunct1] undigits_2 [OF mo(1,2) refl, THEN conjunct2]
      undigits_2 [OF da(1,2) refl, THEN conjunct1] undigits_2 [OF da(1,2) refl, THEN conjunct2]
      undigits_2 [OF ho(1,2) refl, THEN conjunct1] undigits_2 [OF ho(1,2) refl, THEN conjunct2]
      undigits_2 [OF mi(1,2) refl, THEN conjunct1] undigits_2 [OF mi(1,2) refl, THEN conjunct2]
      undigits_2 [OF se(1,2) refl, THEN conjunct1] undigits_2 [OF se(1,2) refl, THEN conjunct2]
    using sep y(5-8) mo(3,4) da(3,4) ho(3,4) mi(3,4) se(3,4) by (rule_tac length_19 [OF l]) simp
  ultimately show ?thesis by (rule that)
qed

text \<open>
  A string that \<^verbatim>\<open>epoch_seconds\<close> accepts is exactly what \<^verbatim>\<open>epoch_convert\<close> writes for
  the number it returned, which lies between 0 and the last second of the year 9999.
\<close>

theorem epoch_seconds_inverse:
  assumes "length str = 19" "epoch_seconds str \<noteq> LLONG_MIN" "length fmt = 19"
  shows "0 \<le> epoch_seconds str \<and> epoch_seconds str \<le> 253402300799 \<and>
    epoch_convert (nat (epoch_seconds str)) fmt = Some str"
proof -
  obtain y mo d h mi s where v: "valid_fields y mo d h mi s" and str: "str = iso_text y mo d h mi s"
    by (rule epoch_seconds_fields [OF assms(1,2)])
  show ?thesis
    unfolding str epoch_seconds_iso_text [OF v] nat_int
    using epoch_convert_fields [OF v assms(3) field_secs_max [OF v]] field_secs_max [OF v] by simp
qed

theorem epoch_seconds_inverse_witness:
  "epoch_convert (nat (epoch_seconds ''2000-02-29T12:34:56'')) (replicate 19 CHR ''x'') = Some ''2000-02-29T12:34:56''"
proof -
  let ?s = "''2000-02-29T12:34:56''"
  have v: "valid_fields 2000 2 29 12 34 56" by (simp add: valid_fields_def days_def leap_year_def)
  have "?s = iso_text 2000 2 29 12 34 56" by code_simp
  then have "epoch_seconds ?s \<noteq> LLONG_MIN" using epoch_seconds_iso_text [OF v] by (simp add: LLONG_MIN_def)
  then show ?thesis using epoch_seconds_inverse [of ?s "replicate 19 CHR ''x''"] by simp
qed

end
