(* ===== verification/Alloc.thy ===== *)
theory Alloc
  imports Heap
begin

text \<open>
  The allocator of the C library, \<^verbatim>\<open>src/arctic/libc/stdlib/alloc.c\<close>. It manages the
  address range above \<open>0x80001000\<close> with a region map like the kernel heap's (entries are
  \<^verbatim>\<open>size_t\<close>, 8 bytes), and maps memory from the kernel as blocks move down:
  \<^verbatim>\<open>alloc_state[1]\<close> is the lowest mapped address of the block area. The state
  keeps the static variables of the file, the bytes of memory, which addresses are mapped,
  and \<^verbatim>\<open>errno\<close>. \<open>mmap_ok\<close> says for an address and a size whether
  \<^verbatim>\<open>mmap\<close> succeeds; the results of \<^verbatim>\<open>mtx_init\<close> and
  \<^verbatim>\<open>mtx_lock\<close> are arguments. All addresses are below \<open>2 ^ 47\<close>, so
  naturals model \<^verbatim>\<open>size_t\<close> except for the product in \<^verbatim>\<open>calloc\<close>.
\<close>

datatype libc_errno = Errno_none | ENOMEM | EINVAL

record alloc_state =
  alloc_run_once :: bool
  alloc_init0 :: bool
  alloc_init1 :: bool
  alloc_map :: "nat list"
  alloc_map_addr :: nat
  alloc_map_size :: nat
  alloc_zero :: nat
  alloc_high :: nat
  alloc_state0 :: nat
  alloc_state1 :: nat
  alloc_mem :: "nat \<Rightarrow> u8"
  alloc_mapped :: "nat \<Rightarrow> bool"
  alloc_errno :: libc_errno

type_synonym mmap_result = "nat \<Rightarrow> nat \<Rightarrow> bool"

text \<open>The boolean is the C result: \<^const>\<open>True\<close> when mapping failed. New pages are filled with zeros.\<close>

definition internal_map_pages :: "mmap_result \<Rightarrow> nat \<Rightarrow> nat \<Rightarrow> alloc_state \<Rightarrow> bool \<times> alloc_state" where
  "internal_map_pages mmap_ok addr sz s =
    (if mmap_ok addr sz
     then (False, s\<lparr>alloc_mapped := (\<lambda>a. addr \<le> a \<and> a < addr + sz \<or> alloc_mapped s a),
       alloc_mem := (\<lambda>a. if addr \<le> a \<and> a < addr + sz then 0 else alloc_mem s a)\<rparr>)
     else (True, s))"

definition internal_unmap_pages :: "nat \<Rightarrow> nat \<Rightarrow> alloc_state \<Rightarrow> alloc_state" where
  "internal_unmap_pages addr sz s =
    s\<lparr>alloc_mapped := (\<lambda>a. \<not> (addr \<le> a \<and> a < addr + sz) \<and> alloc_mapped s a)\<rparr>"

definition internal_alloc_init :: "mmap_result \<Rightarrow> bool \<Rightarrow> alloc_state \<Rightarrow> alloc_state" where
  "internal_alloc_init mmap_ok mtx_ok s =
    (if alloc_run_once s then s
     else
       let s = s\<lparr>alloc_run_once := True, alloc_zero := 0x10\<rparr>;
           m0 = 0x80001000;
           (failed, s) = internal_map_pages mmap_ok m0 0x1000 s
       in
       if failed then s\<lparr>alloc_init1 := True\<rparr>
       else
         let m1 = push_bit 16 0x7FFF0000 OR 0xFFFFE000;
             s = s\<lparr>alloc_high := m1 + 0x1000\<rparr>;
             (failed, s) = internal_map_pages mmap_ok m1 0x1000 s
         in
         if failed then s\<lparr>alloc_init1 := True\<rparr>
         else
           let s = s\<lparr>alloc_state0 := m0, alloc_state1 := m1, alloc_map_addr := m0, alloc_map_size := 0x1000,
                     alloc_map := [m0 + 0x1000, m1 + 0x1000]\<rparr>
           in if \<not> mtx_ok then s\<lparr>alloc_init1 := True\<rparr> else s\<lparr>alloc_init0 := True\<rparr>)"

text \<open>
  The growth of the map by a page; the flag is \<^const>\<open>False\<close> for the four
  \<^verbatim>\<open>return NULL\<close>.
\<close>

definition alloc_grow_map :: "mmap_result \<Rightarrow> alloc_state \<Rightarrow> bool \<times> alloc_state" where
  "alloc_grow_map mmap_ok s =
    (let map_used = 8 * length (alloc_map s) in
     if map_used \<ge> alloc_map_size s then
       if map_used > alloc_map_size s then (False, s)
       else if is_used (alloc_map s ! 0) then (False, s)
       else if (alloc_map s ! 1 + 2 ^ 64 - alloc_map s ! 0) mod 2 ^ 64 < 0x2000 then (False, s)
       else
         let (failed, s) = internal_map_pages mmap_ok (alloc_map_addr s + 8 * length (alloc_map s)) 0x1000 s in
         if failed then (False, s)
         else
           let new_size = alloc_map_size s + 0x1000 in
           (True, s\<lparr>alloc_map_size := new_size, alloc_map := (alloc_map s)[0 := alloc_map_addr s + new_size]\<rparr>)
     else (True, s))"

text \<open>The mapping of the pages from the new block up to the lowest mapped address.\<close>

definition alloc_map_block :: "mmap_result \<Rightarrow> nat \<Rightarrow> alloc_state \<Rightarrow> bool \<times> alloc_state" where
  "alloc_map_block mmap_ok addr s =
    (if addr < alloc_state1 s then
       let aligned_addr = addr div 0x1000 * 0x1000;
           aligned_size = alloc_state1 s - aligned_addr;
           (failed, s) = internal_map_pages mmap_ok aligned_addr aligned_size s
       in if failed then (False, s) else (True, s\<lparr>alloc_state1 := aligned_addr\<rparr>)
     else (True, s))"

definition internal_aligned_alloc :: "mmap_result \<Rightarrow> nat \<Rightarrow> nat \<Rightarrow> alloc_state \<Rightarrow> nat \<times> alloc_state" where
  "internal_aligned_alloc mmap_ok alignment sz s =
    (if alignment = 0 \<or> alignment > 0x400000 \<or> sz = 0 then (0, s)
     else if alignment AND (alignment - 1) \<noteq> 0 then (0, s)
     else
       let alignment = (if alignment < 0x10 then 0x10 else alignment) in
       case region_find (alloc_map s) alignment sz (length (alloc_map s) - 1) of
         Find_abort \<Rightarrow> (0, s)
       | Find_none \<Rightarrow> (0, s)
       | Find_at i addr \<Rightarrow>
           let map_insert = (addr \<noteq> alloc_map s ! (i - 1)) in
           if addr = 0 \<or> length (alloc_map s) > 0x08000000 then (0, s)
           else
             case alloc_map_block mmap_ok addr s of
               (False, s) \<Rightarrow> (0, s)
             | (True, s) \<Rightarrow>
                 (case alloc_grow_map mmap_ok s of
                    (False, s) \<Rightarrow> (0, s)
                  | (True, s) \<Rightarrow> (addr, s\<lparr>alloc_map := region_mark map_insert (alloc_map s) i addr\<rparr>)))"

text \<open>The tail of the release gives mapped pages below the lowest block back, all but two.\<close>

definition alloc_trim :: "alloc_state \<Rightarrow> alloc_state" where
  "alloc_trim s =
    (if \<not> is_used (alloc_map s ! 0) \<and> alloc_map s ! 1 > alloc_state1 s then
       let d = (alloc_map s ! 1 - alloc_state1 s) div 0x1000 * 0x1000 in
       if d > 0x4000 then
         let d = d - 0x2000;
             s = internal_unmap_pages (alloc_state1 s) d s
         in s\<lparr>alloc_state1 := alloc_state1 s + d\<rparr>
       else s
     else s)"

definition internal_free :: "nat \<Rightarrow> alloc_state \<Rightarrow> alloc_state" where
  "internal_free ptr s =
    alloc_trim (s\<lparr>alloc_map := region_merge 1 (region_release (set_used ptr) (alloc_map s))\<rparr>)"

text \<open>
  The loop at the start of every function. A thread that finds the one-time initialisation taken but
  not finished by another thread spins; alone, the second round always ends it, and
  \<^const>\<open>None\<close> is the spinning.
\<close>

fun alloc_ensure :: "nat \<Rightarrow> mmap_result \<Rightarrow> bool \<Rightarrow> alloc_state \<Rightarrow> (bool \<times> alloc_state) option" where
  "alloc_ensure fuel mmap_ok mtx_ok s =
    (if alloc_init0 s then Some (True, s)
     else if alloc_init1 s then Some (False, s)
     else
       case fuel of
         0 \<Rightarrow> None
       | Suc fuel \<Rightarrow> alloc_ensure fuel mmap_ok mtx_ok (internal_alloc_init mmap_ok mtx_ok s))"

declare alloc_ensure.simps [simp del]

definition set_enomem :: "nat \<times> alloc_state \<Rightarrow> nat \<times> alloc_state" where
  "set_enomem r = (case r of (ptr, s) \<Rightarrow> (ptr, if ptr = 0 then s\<lparr>alloc_errno := ENOMEM\<rparr> else s))"

definition libc_aligned_alloc :: "mmap_result \<Rightarrow> bool \<Rightarrow> bool \<Rightarrow> nat \<Rightarrow> nat \<Rightarrow> alloc_state \<Rightarrow> (nat \<times> alloc_state) option" where
  "libc_aligned_alloc mmap_ok mtx_ok lock_ok alignment sz s =
    (case alloc_ensure 1 mmap_ok mtx_ok s of
       None \<Rightarrow> None
     | Some (False, s) \<Rightarrow> Some (0, s)
     | Some (True, s) \<Rightarrow>
         Some (if sz = 0 then (0, s)
               else if \<not> lock_ok then (0, s)
               else set_enomem (internal_aligned_alloc mmap_ok alignment sz s)))"

definition libc_calloc :: "mmap_result \<Rightarrow> bool \<Rightarrow> bool \<Rightarrow> nat \<Rightarrow> nat \<Rightarrow> alloc_state \<Rightarrow> (nat \<times> alloc_state) option" where
  "libc_calloc mmap_ok mtx_ok lock_ok nmemb sz s =
    (let total_size = nmemb * sz mod 2 ^ 64 in
     case alloc_ensure 1 mmap_ok mtx_ok s of
       None \<Rightarrow> None
     | Some (False, s) \<Rightarrow> Some (0, s)
     | Some (True, s) \<Rightarrow>
         Some (if nmemb = 0 \<or> sz = 0 then (alloc_zero s, s)
               else if total_size = 0 \<or> total_size div nmemb \<noteq> sz then (0, s)
               else if \<not> lock_ok then (0, s)
               else
                 case internal_aligned_alloc mmap_ok 16 total_size s of
                   (ptr, s) \<Rightarrow>
                     if ptr = 0 then (ptr, s\<lparr>alloc_errno := ENOMEM\<rparr>)
                     else (ptr, s\<lparr>alloc_mem := mem_fill ptr total_size 0 (alloc_mem s)\<rparr>)))"

definition libc_malloc :: "mmap_result \<Rightarrow> bool \<Rightarrow> bool \<Rightarrow> nat \<Rightarrow> alloc_state \<Rightarrow> (nat \<times> alloc_state) option" where
  "libc_malloc mmap_ok mtx_ok lock_ok sz s =
    (case alloc_ensure 1 mmap_ok mtx_ok s of
       None \<Rightarrow> None
     | Some (False, s) \<Rightarrow> Some (0, s)
     | Some (True, s) \<Rightarrow>
         Some (if sz = 0 then (alloc_zero s, s)
               else if \<not> lock_ok then (0, s)
               else set_enomem (internal_aligned_alloc mmap_ok 16 sz s)))"

text \<open>
  \<^verbatim>\<open>memcpy\<close> of the library copies forward, byte by byte. The order matters in
  \<^verbatim>\<open>realloc\<close>, whose source range may run past the old block into the new one.
\<close>

fun mem_copy :: "nat \<Rightarrow> nat \<Rightarrow> nat \<Rightarrow> (nat \<Rightarrow> u8) \<Rightarrow> nat \<Rightarrow> u8" where
  "mem_copy 0 dst src mem = mem"
| "mem_copy (Suc n) dst src mem = mem_copy n (dst + 1) (src + 1) (mem(dst := mem src))"

definition libc_realloc :: "mmap_result \<Rightarrow> bool \<Rightarrow> bool \<Rightarrow> nat \<Rightarrow> nat \<Rightarrow> alloc_state \<Rightarrow> (nat \<times> alloc_state) option" where
  "libc_realloc mmap_ok mtx_ok lock_ok ptr sz s =
    (case alloc_ensure 1 mmap_ok mtx_ok s of
       None \<Rightarrow> None
     | Some (False, s) \<Rightarrow> Some (0, s)
     | Some (True, s) \<Rightarrow>
         Some (if ptr \<noteq> 0 \<and> ptr \<ge> alloc_high s then (0, s\<lparr>alloc_errno := EINVAL\<rparr>)
               else
                 let copy_size = (if ptr \<noteq> 0 then (if alloc_high s - ptr > sz then sz else alloc_high s - ptr) else 0) in
                 if \<not> lock_ok then (0, s)
                 else
                   let (new_ptr, s) =
                     (if sz \<noteq> 0 then
                        (case internal_aligned_alloc mmap_ok 16 sz s of
                           (new_ptr, s) \<Rightarrow>
                             if new_ptr \<noteq> 0 \<and> copy_size \<noteq> 0
                             then (new_ptr, s\<lparr>alloc_mem := mem_copy copy_size new_ptr ptr (alloc_mem s)\<rparr>)
                             else (new_ptr, s))
                      else (alloc_zero s, s));
                       s = (if new_ptr \<noteq> 0 \<and> ptr \<noteq> 0 then internal_free ptr s else s)
                   in set_enomem (new_ptr, s)))"

definition libc_free :: "mmap_result \<Rightarrow> bool \<Rightarrow> bool \<Rightarrow> nat \<Rightarrow> alloc_state \<Rightarrow> alloc_state option" where
  "libc_free mmap_ok mtx_ok lock_ok ptr s =
    (case alloc_ensure 1 mmap_ok mtx_ok s of
       None \<Rightarrow> None
     | Some (False, s) \<Rightarrow> Some s
     | Some (True, s) \<Rightarrow>
         Some (if ptr = 0 \<or> ptr = alloc_zero s then s
               else if \<not> lock_ok then s
               else internal_free ptr s))"

subsection \<open>The invariant\<close>

text \<open>
  The map is well formed and starts after its own storage, which lies below the mapped part
  of the block area; every block in use is in mapped memory.
\<close>

definition alloc_inv :: "alloc_state \<Rightarrow> bool" where
  "alloc_inv s \<longleftrightarrow> region_wf (alloc_map s) \<and>
    clear_used (alloc_map s ! 0) = alloc_map_addr s + alloc_map_size s \<and>
    last (alloc_map s) = alloc_high s \<and> alloc_high s < 2 ^ 48 \<and>
    8 * length (alloc_map s) \<le> alloc_map_size s \<and> 0 < alloc_map_addr s \<and>
    alloc_map_size s mod 0x1000 = 0 \<and> alloc_map_addr s mod 0x1000 = 0 \<and> alloc_state1 s mod 0x1000 = 0 \<and>
    alloc_map_addr s + alloc_map_size s \<le> alloc_state1 s \<and>
    (\<forall>(b, e) \<in> blocks (alloc_map s). alloc_state1 s \<le> b) \<and>
    (\<forall>a. alloc_map_addr s \<le> a \<and> a < alloc_map_addr s + alloc_map_size s \<or>
      alloc_state1 s \<le> a \<and> a < alloc_high s \<longrightarrow> alloc_mapped s a)"

definition alloc_blocks :: "alloc_state \<Rightarrow> (nat \<times> nat) set" where
  "alloc_blocks s = blocks (alloc_map s)"

text \<open>
  When the map is full, the page by which it grows must lie below the block being allocated
  and below the mapped area.
\<close>

definition alloc_grow_safe :: "alloc_state \<Rightarrow> nat \<Rightarrow> bool" where
  "alloc_grow_safe s addr \<longleftrightarrow> 8 * length (alloc_map s) < alloc_map_size s \<or>
    alloc_map_addr s + alloc_map_size s + 0x1000 < addr \<and>
    alloc_map_addr s + alloc_map_size s + 0x1000 \<le> alloc_state1 s"

definition alloc_args_ok :: "nat \<Rightarrow> nat \<Rightarrow> bool" where
  "alloc_args_ok alignment sz \<longleftrightarrow> 0 < alignment \<and> alignment \<le> 0x400000 \<and>
    alignment AND (alignment - 1) = 0 \<and> 0 < sz"

lemma page_down: "n mod 0x1000 = 0 \<Longrightarrow> n \<le> a \<Longrightarrow> n \<le> a div 0x1000 * 0x1000" for a n :: nat
proof -
  assume "n mod 0x1000 = 0" "n \<le> a"
  then have "n div 0x1000 \<le> a div 0x1000" "n = n div 0x1000 * 0x1000" by (simp_all add: div_le_mono) auto
  then show ?thesis by (metis mult_le_mono1)
qed

lemma alloc_alignment_ok:
  assumes "alloc_args_ok alignment sz"
  shows "(max 16 alignment) mod 16 = 0" "0 < max 16 alignment" "alignment dvd max 16 alignment"
  using assms pow2_mult16 [of alignment] small_pow2 [of alignment]
  by (auto simp: alloc_args_ok_def max_def)

lemma alloc_cases:
  assumes "internal_aligned_alloc mmap_ok alignment sz s = (p, s')" "p \<noteq> 0"
  obtains i g h where "alloc_args_ok alignment sz"
    "region_find (alloc_map s) (max 16 alignment) sz (length (alloc_map s) - 1) = Find_at i p"
    "alloc_map_block mmap_ok p s = (True, h)" "alloc_grow_map mmap_ok h = (True, g)"
    "s' = g\<lparr>alloc_map := region_mark (p \<noteq> alloc_map s ! (i - 1)) (alloc_map g) i p\<rparr>"
proof -
  have "alloc_args_ok alignment sz"
    using assms by (auto simp: internal_aligned_alloc_def alloc_args_ok_def split: if_splits)
  moreover have "(if alignment < 0x10 then 0x10 else alignment) = max 16 alignment" by simp
  ultimately show ?thesis
    using assms
    by (auto simp: internal_aligned_alloc_def alloc_args_ok_def Let_def
        split: if_splits find_result.splits prod.splits bool.splits intro!: that)
qed

text \<open>Mapping the pages of the block changes neither map nor blocks.\<close>

lemma alloc_map_block_main:
  assumes inv: "alloc_inv s" and b: "alloc_map_block mmap_ok p s = (ok, h)"
    and p: "alloc_map_addr s + alloc_map_size s \<le> p"
  shows "alloc_inv h" "alloc_map h = alloc_map s" "alloc_map_addr h = alloc_map_addr s"
    "alloc_map_size h = alloc_map_size s" "ok \<Longrightarrow> alloc_state1 h \<le> p" "\<forall>x \<ge> alloc_state1 s. alloc_mem h x = alloc_mem s x"
    "alloc_state1 h = alloc_state1 s \<or> alloc_state1 h = p div 0x1000 * 0x1000" "alloc_high h = alloc_high s"
proof -
  let ?a = "p div 0x1000 * 0x1000"
  have al: "(alloc_map_addr s + alloc_map_size s) mod 0x1000 = 0"
    using inv by (simp add: alloc_inv_def mod_add_eq [symmetric, of "alloc_map_addr s"])
  have low: "alloc_map_addr s + alloc_map_size s \<le> ?a" by (rule page_down [OF al p])
  have le: "?a \<le> p" by simp
  show s: "alloc_map h = alloc_map s" "alloc_map_addr h = alloc_map_addr s" "alloc_map_size h = alloc_map_size s"
    "ok \<Longrightarrow> alloc_state1 h \<le> p" "\<forall>x \<ge> alloc_state1 s. alloc_mem h x = alloc_mem s x"
    "alloc_state1 h = alloc_state1 s \<or> alloc_state1 h = ?a" "alloc_high h = alloc_high s"
    using b by (auto simp: alloc_map_block_def internal_map_pages_def Let_def split: if_splits)
  show "alloc_inv h"
  proof (cases "ok \<and> p < alloc_state1 s")
    case True
    then have h: "h = s\<lparr>alloc_mapped := (\<lambda>a. ?a \<le> a \<and> a < ?a + (alloc_state1 s - ?a) \<or> alloc_mapped s a),
        alloc_mem := (\<lambda>a. if ?a \<le> a \<and> a < ?a + (alloc_state1 s - ?a) then 0 else alloc_mem s a),
        alloc_state1 := ?a\<rparr>"
      using b by (auto simp: alloc_map_block_def internal_map_pages_def Let_def split: if_splits)
    have "?a < alloc_state1 s" using True le by linarith
    then show ?thesis using inv low unfolding h alloc_inv_def
      by (auto split: prod.splits) (meson le_less_trans less_imp_le linorder_not_le le_trans)+
  next
    case False
    then have "h = s" using b by (auto simp: alloc_map_block_def internal_map_pages_def Let_def split: if_splits)
    with inv show ?thesis by simp
  qed
qed

lemma alloc_entry_bound:
  assumes "alloc_inv s" "i < length (alloc_map s)"
  shows "clear_used (alloc_map s ! i) \<le> alloc_high s" "clear_used (alloc_map s ! i) mod 16 = 0"
proof -
  have wf: "region_wf (alloc_map s)" and top: "last (alloc_map s) = alloc_high s"
    using assms(1) by (auto simp: alloc_inv_def)
  have "alloc_map s \<noteq> []" using assms(2) by auto
  with wf top have l: "alloc_high s = clear_used (alloc_map s ! (length (alloc_map s) - 1))"
    by (simp add: region_wf_def last_conv_nth)
  show "clear_used (alloc_map s ! i) \<le> alloc_high s"
    unfolding l using region_wf_mono [OF wf, of i "length (alloc_map s) - 1"] assms(2)
    by (cases "i = length (alloc_map s) - 1") (auto intro: less_imp_le)
  show "clear_used (alloc_map s ! i) mod 16 = 0" using wf assms(2) by (simp add: region_wf_def)
qed

lemma alloc_gap:
  assumes inv: "alloc_inv s" and u: "\<not> is_used (alloc_map s ! 0)"
    and d: "\<not> (alloc_map s ! 1 + 2 ^ 64 - alloc_map s ! 0) mod 2 ^ 64 < 0x2000"
  shows "alloc_map s ! 0 + 0x2000 \<le> clear_used (alloc_map s ! 1)"
proof -
  have wf: "region_wf (alloc_map s)" using inv by (simp add: alloc_inv_def)
  then have l: "2 \<le> length (alloc_map s)" by (simp add: region_wf_def)
  let ?a = "alloc_map s ! 0" and ?b = "alloc_map s ! 1"
  have lt: "?a < clear_used ?b" using region_wf_mono [OF wf, of 0 1] l u by simp
  have b: "clear_used ?b \<le> ?b" "?b \<le> clear_used ?b + 1" by (auto simp: clear_used_def)
  have "clear_used ?b \<le> alloc_high s" "alloc_high s < 2 ^ 48"
    using alloc_entry_bound(1) [OF inv, of 1] l inv by (auto simp: alloc_inv_def)
  then have "?b < 2 ^ 64" using b by simp
  then have "(?b + 2 ^ 64 - ?a) mod 2 ^ 64 = ?b - ?a" using lt b by (simp add: mod_if)
  with d have "0x2000 \<le> ?b - ?a" by simp
  moreover have "clear_used ?b mod 16 = 0" "?a mod 16 = 0"
    using alloc_entry_bound(2) [OF inv, of 1] alloc_entry_bound(2) [OF inv, of 0] l u by force+
  then obtain k n where "clear_used ?b = 16 * k" "?a = 16 * n" by (metis mod_0_imp_dvd dvdE)
  ultimately show ?thesis using b(2) lt by arith
qed

lemma alloc_grow_cases:
  assumes inv: "alloc_inv s" and g: "alloc_grow_map mmap_ok s = (True, g)"
  obtains (same) "8 * length (alloc_map s) < alloc_map_size s" "g = s"
    | (grown) "8 * length (alloc_map s) = alloc_map_size s" "\<not> is_used (alloc_map s ! 0)"
      "alloc_map s ! 0 + 0x2000 \<le> clear_used (alloc_map s ! 1)"
      "g = s\<lparr>alloc_mapped := (\<lambda>a. alloc_map_addr s + alloc_map_size s \<le> a \<and>
                a < alloc_map_addr s + alloc_map_size s + 0x1000 \<or> alloc_mapped s a),
             alloc_mem := (\<lambda>a. if alloc_map_addr s + alloc_map_size s \<le> a \<and>
                a < alloc_map_addr s + alloc_map_size s + 0x1000 then 0 else alloc_mem s a),
             alloc_map_size := alloc_map_size s + 0x1000,
             alloc_map := (alloc_map s)[0 := alloc_map s ! 0 + 0x1000]\<rparr>"
proof (cases "8 * length (alloc_map s) < alloc_map_size s")
  case True
  with g show ?thesis by (intro same) (auto simp: alloc_grow_map_def)
next
  case False
  from False inv have e: "8 * length (alloc_map s) = alloc_map_size s" by (simp add: alloc_inv_def)
  from False g e have u: "\<not> is_used (alloc_map s ! 0)"
    and d: "\<not> (alloc_map s ! 1 + 2 ^ 64 - alloc_map s ! 0) mod 2 ^ 64 < 0x2000"
    by (auto simp: alloc_grow_map_def Let_def split: if_splits)
  have h0: "alloc_map s ! 0 = alloc_map_addr s + alloc_map_size s"
    using inv u by (simp add: alloc_inv_def)
  show ?thesis
    by (rule grown [OF e u alloc_gap [OF inv u d]])
      (use g False e u d h0 in \<open>auto simp: alloc_grow_map_def internal_map_pages_def Let_def add.assoc split: if_splits\<close>)
qed

lemma alloc_mark_step:
  assumes inv: "alloc_inv s" and room: "8 * length (alloc_map s) < alloc_map_size s"
    and j: "Suc j < length (alloc_map s)" "\<not> is_used (alloc_map s ! j)"
    and p: "alloc_map s ! j \<le> p" "p < clear_used (alloc_map s ! Suc j)" "p mod 16 = 0" "alloc_state1 s \<le> p"
  defines "s' \<equiv> s\<lparr>alloc_map := region_mark (p \<noteq> alloc_map s ! j) (alloc_map s) (Suc j) p\<rparr>"
  shows "alloc_inv s'"
    and "alloc_blocks s' = insert (p, clear_used (alloc_map s ! Suc j)) (alloc_blocks s)"
    and "\<forall>(b, c) \<in> alloc_blocks s. clear_used (alloc_map s ! Suc j) \<le> b \<or> c \<le> p"
proof -
  have wf: "region_wf (alloc_map s)" using inv by (simp add: alloc_inv_def)
  note mk = region_mark_correct [OF wf j p(1-3)]
  have "alloc_map_size s mod 0x1000 = 0" using inv by (simp add: alloc_inv_def)
  then obtain k where "alloc_map_size s = 0x1000 * k" by (metis dvdE mod_0_imp_dvd)
  moreover from this room have "length (alloc_map s) < 512 * k" by simp
  ultimately have "8 * Suc (length (alloc_map s)) \<le> alloc_map_size s" by simp
  then have "8 * length (region_mark (p \<noteq> alloc_map s ! j) (alloc_map s) (Suc j) p) \<le> alloc_map_size s"
    using mult_le_mono2 [OF mk(5), of 8] by (rule le_trans [rotated])
  with inv mk(1-4) p(4) show "alloc_inv s'" by (simp add: alloc_inv_def s'_def)
  show "alloc_blocks s' = insert (p, clear_used (alloc_map s ! Suc j)) (alloc_blocks s)"
    using mk(2) by (simp add: alloc_blocks_def s'_def)
  show "\<forall>(b, c) \<in> alloc_blocks s. clear_used (alloc_map s ! Suc j) \<le> b \<or> c \<le> p"
    unfolding alloc_blocks_def by (rule fresh_region [OF wf j mk(1,2)])
qed

lemma alloc_grown_inv:
  assumes inv: "alloc_inv s" and u: "\<not> is_used (alloc_map s ! 0)"
    and gap: "alloc_map s ! 0 + 0x2000 \<le> clear_used (alloc_map s ! 1)"
    and low: "alloc_map_addr s + alloc_map_size s + 0x1000 \<le> alloc_state1 s"
  defines "g \<equiv> s\<lparr>alloc_mapped := (\<lambda>a. alloc_map_addr s + alloc_map_size s \<le> a \<and>
                a < alloc_map_addr s + alloc_map_size s + 0x1000 \<or> alloc_mapped s a),
             alloc_mem := (\<lambda>a. if alloc_map_addr s + alloc_map_size s \<le> a \<and>
                a < alloc_map_addr s + alloc_map_size s + 0x1000 then 0 else alloc_mem s a),
             alloc_map_size := alloc_map_size s + 0x1000,
             alloc_map := (alloc_map s)[0 := alloc_map s ! 0 + 0x1000]\<rparr>"
  shows "alloc_inv g" "alloc_blocks g = alloc_blocks s" "8 * length (alloc_map g) < alloc_map_size g"
proof -
  have wf: "region_wf (alloc_map s)" using inv by (simp add: alloc_inv_def)
  then have l: "2 \<le> length (alloc_map s)" "0 < length (alloc_map s)" by (auto simp: region_wf_def)
  have m16: "alloc_map s ! 0 mod 16 = 0" using alloc_entry_bound(2) [OF inv, of 0] l u by fastforce
  have c: "(alloc_map s ! 0 + 0x1000) mod 16 = 0" using m16 by (simp add: mod_add_eq [symmetric])
  note r = region_raise [OF wf u, of "alloc_map s ! 0 + 0x1000", OF _ _ c]
  have cl: "clear_used (alloc_map s ! 0 + 0x1000) = alloc_map s ! 0 + 0x1000"
    using mult16_not_used [OF c] by simp
  have la: "last ((alloc_map s)[0 := alloc_map s ! 0 + 0x1000]) = last (alloc_map s)"
    using l by (subst last_list_update) auto
  have r: "region_wf ((alloc_map s)[0 := alloc_map s ! 0 + 0x1000])"
    "blocks ((alloc_map s)[0 := alloc_map s ! 0 + 0x1000]) = blocks (alloc_map s)"
    using r gap by simp_all
  have sz: "(alloc_map_size s + 0x1000) mod 0x1000 = 0" using inv by (simp add: alloc_inv_def)
  have h0: "alloc_map s ! 0 = alloc_map_addr s + alloc_map_size s" using inv u by (simp add: alloc_inv_def)
  show "alloc_inv g"
    unfolding alloc_inv_def g_def using inv r cl la sz low l h0
    by (auto simp: alloc_inv_def)
  show "alloc_blocks g = alloc_blocks s" using r by (simp add: alloc_blocks_def g_def)
  show "8 * length (alloc_map g) < alloc_map_size g" using inv by (simp add: alloc_inv_def g_def)
qed

lemma alloc_main:
  assumes inv: "alloc_inv s" and a: "internal_aligned_alloc mmap_ok alignment sz s = (p, s')" "p \<noteq> 0"
    and safe: "alloc_grow_safe s p"
  shows "alloc_inv s'" and "p mod alignment = 0" and
    "\<exists>e. p + sz \<le> e \<and> alloc_blocks s' = insert (p, e) (alloc_blocks s) \<and>
      (\<forall>(b, c) \<in> alloc_blocks s. e \<le> b \<or> c \<le> p)"
    and "\<forall>x \<ge> alloc_state1 s. alloc_mem s' x = alloc_mem s x" "alloc_high s' = alloc_high s" "0 < sz"
proof -
  from a obtain i g h where args: "alloc_args_ok alignment sz"
    and f: "region_find (alloc_map s) (max 16 alignment) sz (length (alloc_map s) - 1) = Find_at i p"
    and h: "alloc_map_block mmap_ok p s = (True, h)" and g: "alloc_grow_map mmap_ok h = (True, g)"
    and s': "s' = g\<lparr>alloc_map := region_mark (p \<noteq> alloc_map s ! (i - 1)) (alloc_map g) i p\<rparr>"
    by (rule alloc_cases)
  let ?m = "alloc_map s"
  note al = alloc_alignment_ok [OF args]
  from region_find_at [OF f al(2)] obtain j where
    j: "j < length ?m - 1" "i = Suc j" "\<not> is_used (?m ! j)" "?m ! j \<le> p"
      "p + sz \<le> clear_used (?m ! Suc j)" "p mod max 16 alignment = 0" by auto
  have jl: "Suc j < length ?m" using j(1) by simp
  show sz: "0 < sz" using args by (simp add: alloc_args_ok_def)
  have dv: "max 16 alignment dvd p" using j(6) by (rule mod_0_imp_dvd)
  show "p mod alignment = 0" using al(3) dv by (meson dvd_imp_mod_0 dvd_trans)
  have p16: "p mod 16 = 0" using mod_0_imp_dvd [OF al(1)] dv by (meson dvd_imp_mod_0 dvd_trans)
  have lt: "p < clear_used (?m ! Suc j)" using j(5) sz by simp
  have wf: "region_wf ?m" using inv by (simp add: alloc_inv_def)
  have base: "alloc_map_addr s + alloc_map_size s \<le> p"
  proof -
    have "clear_used (?m ! 0) \<le> clear_used (?m ! j)"
      using region_wf_mono [OF wf, of 0 j] jl by (cases "j = 0") (auto intro: less_imp_le)
    also have "\<dots> \<le> p" using j(3,4) by simp
    finally show ?thesis using inv by (simp add: alloc_inv_def)
  qed
  note hb = alloc_map_block_main [OF inv h base]
  have "alloc_inv s' \<and> alloc_blocks s' = insert (p, clear_used (?m ! Suc j)) (alloc_blocks s) \<and>
      (\<forall>(b, c) \<in> alloc_blocks s. clear_used (?m ! Suc j) \<le> b \<or> c \<le> p) \<and> (\<forall>x \<ge> alloc_state1 s. alloc_mem s' x = alloc_mem s x) \<and>
      alloc_high s' = alloc_high s"
    using hb(1) g
  proof (cases rule: alloc_grow_cases)
    case same
    have e: "s' = h\<lparr>alloc_map := region_mark (p \<noteq> alloc_map h ! j) (alloc_map h) (Suc j) p\<rparr>"
      unfolding s' same(2) j(2) hb(2) by simp
    note st = alloc_mark_step [OF hb(1) same(1), of j p, folded e]
    show ?thesis using st jl j(3,4) lt p16 hb(5) unfolding hb(2) alloc_blocks_def e hb(6) hb(8) by (simp add: hb)
  next
    case grown
    have full: "\<not> 8 * length ?m < alloc_map_size s" using grown(1) by (simp add: hb)
    have al2: "(alloc_map_addr s + alloc_map_size s + 0x1000) mod 0x1000 = 0"
      using inv by (simp add: alloc_inv_def mod_add_eq [symmetric, of "alloc_map_addr s"])
    have safe': "alloc_map_addr s + alloc_map_size s + 0x1000 < p"
      "alloc_map_addr s + alloc_map_size s + 0x1000 \<le> alloc_state1 s"
      using safe full by (auto simp: alloc_grow_safe_def)
    have "alloc_map_addr s + alloc_map_size s + 0x1000 \<le> p div 0x1000 * 0x1000"
      by (rule page_down [OF al2]) (use safe'(1) in simp)
    with safe'(2) hb(7) have low: "alloc_map_addr h + alloc_map_size h + 0x1000 \<le> alloc_state1 h"
      unfolding hb(3,4) by (elim disjE) simp_all
    note gi = alloc_grown_inv [OF hb(1) grown(2,3) low, folded grown(4)]
    have h0: "?m ! 0 = alloc_map_addr s + alloc_map_size s" using inv grown(2) by (simp add: alloc_inv_def hb)
    have gm: "alloc_map g = ?m[0 := ?m ! 0 + 0x1000]" by (simp add: grown(4) hb)
    have nth: "Suc j < length (alloc_map g)" "alloc_map g ! Suc j = ?m ! Suc j"
      "\<not> is_used (alloc_map g ! j)" "alloc_map g ! j \<le> p" "(p \<noteq> ?m ! j) = (p \<noteq> alloc_map g ! j)"
    proof -
      have "\<not> is_used (?m ! 0 + 0x1000)" using grown(2) by (simp add: is_used_def hb)
      moreover have "0 < length ?m" using jl by linarith
      then have "alloc_map g ! j = (if j = 0 then ?m ! 0 + 0x1000 else ?m ! j)"
        "alloc_map g ! Suc j = ?m ! Suc j" "length (alloc_map g) = length ?m"
        by (simp_all add: gm nth_list_update)
      ultimately show "Suc j < length (alloc_map g)" "alloc_map g ! Suc j = ?m ! Suc j"
        "\<not> is_used (alloc_map g ! j)" "alloc_map g ! j \<le> p" "(p \<noteq> ?m ! j) = (p \<noteq> alloc_map g ! j)"
        using jl j(3,4) safe'(1) h0 by (auto split: if_splits)
    qed
    have e: "s' = g\<lparr>alloc_map := region_mark (p \<noteq> alloc_map g ! j) (alloc_map g) (Suc j) p\<rparr>"
      unfolding s' j(2) using nth(5) by simp
    have st1: "alloc_state1 g \<le> p" using hb(5) by (simp add: grown(4))
    note st = alloc_mark_step [OF gi(1,3) nth(1,3,4) _ p16 st1, folded e]
    have "\<forall>x \<ge> alloc_state1 s. alloc_mem s' x = alloc_mem s x" "alloc_high s' = alloc_high s"
      unfolding e grown(4) using safe'(2) by (simp_all add: hb)
    with st lt gi(2) nth(2) show ?thesis by (simp add: alloc_blocks_def hb)
  qed
  then show "alloc_inv s'" "\<forall>x \<ge> alloc_state1 s. alloc_mem s' x = alloc_mem s x" "alloc_high s' = alloc_high s"
    "\<exists>e. p + sz \<le> e \<and> alloc_blocks s' = insert (p, e) (alloc_blocks s) \<and>
      (\<forall>(b, c) \<in> alloc_blocks s. e \<le> b \<or> c \<le> p)"
    using j(5) by blast+
qed

lemma alloc_trim_inv:
  assumes inv: "alloc_inv s"
  shows "alloc_inv (alloc_trim s)" "alloc_map (alloc_trim s) = alloc_map s" "alloc_mem (alloc_trim s) = alloc_mem s"
proof -
  show m: "alloc_map (alloc_trim s) = alloc_map s" "alloc_mem (alloc_trim s) = alloc_mem s"
    by (simp_all add: alloc_trim_def internal_unmap_pages_def Let_def)
  let ?d = "(alloc_map s ! 1 - alloc_state1 s) div 0x1000 * 0x1000"
  show "alloc_inv (alloc_trim s)"
  proof (cases "\<not> is_used (alloc_map s ! 0) \<and> alloc_map s ! 1 > alloc_state1 s \<and> ?d > 0x4000")
    case False
    then have "alloc_trim s = s" by (auto simp: alloc_trim_def Let_def)
    with inv show ?thesis by simp
  next
    case True
    define d where "d = ?d - 0x2000"
    have e: "alloc_trim s = s\<lparr>alloc_mapped := (\<lambda>a. \<not> (alloc_state1 s \<le> a \<and> a < alloc_state1 s + d) \<and> alloc_mapped s a),
        alloc_state1 := alloc_state1 s + d\<rparr>"
      using True by (simp add: alloc_trim_def internal_unmap_pages_def Let_def d_def)
    have wf: "region_wf (alloc_map s)" using inv by (simp add: alloc_inv_def)
    have "?d \<le> alloc_map s ! 1 - alloc_state1 s" by simp
    moreover have "alloc_map s ! 1 \<le> clear_used (alloc_map s ! 1) + 1" by (simp add: clear_used_def)
    ultimately have lim: "alloc_state1 s + d \<le> clear_used (alloc_map s ! 1)" using True unfolding d_def by linarith
    have low: "alloc_state1 s + d \<le> b" if "(b, c) \<in> blocks (alloc_map s)" for b c
    proof -
      from that obtain k where k: "Suc k < length (alloc_map s)" "is_used (alloc_map s ! k)" "b = clear_used (alloc_map s ! k)"
        by (auto simp: blocks_iff)
      with True have "k \<noteq> 0" by (metis (no_types))
      then have "clear_used (alloc_map s ! 1) \<le> b"
        using region_wf_mono [OF wf, of 1 k] k by (cases "k = 1") (auto intro: less_imp_le)
      with lim show ?thesis by simp
    qed
    have "d = ((alloc_map s ! 1 - alloc_state1 s) div 0x1000 - 2) * 0x1000" unfolding d_def by (simp add: diff_mult_distrib)
    then have al: "(alloc_state1 s + d) mod 0x1000 = 0"
      using inv by (simp only: alloc_inv_def mod_mult_self1)
    show ?thesis
      unfolding e alloc_inv_def using inv low al by (auto simp: alloc_inv_def)
  qed
qed

lemma internal_free_main:
  assumes inv: "alloc_inv s"
  shows "alloc_inv (internal_free p s)"
    "alloc_blocks (internal_free p s) = {q \<in> alloc_blocks s. fst q \<noteq> clear_used p}"
    "no_adjacent_free (alloc_map (internal_free p s))" "alloc_mem (internal_free p s) = alloc_mem s"
proof -
  let ?a = "set_used p"
  let ?r = "region_release ?a (alloc_map s)"
  let ?m = "region_merge 1 ?r"
  have wf: "region_wf (alloc_map s)" using inv by (simp add: alloc_inv_def)
  have ne: "alloc_map s \<noteq> []" "?r \<noteq> []"
    using wf region_release_shape(1) [of ?a "alloc_map s"] by (auto simp: region_wf_def)
  note m = region_merge_correct [OF region_release_wf [OF wf, of ?a] order_refl]
  have h: "clear_used (?r ! 0) = clear_used (alloc_map s ! 0)"
    using region_release_shape(2) [of ?a "alloc_map s"] ne
    by (metis length_greater_0_conv nth_map region_release_shape(1))
  have len: "length ?m \<le> length (alloc_map s)" using m region_release_shape(1) [of ?a "alloc_map s"] by simp
  have b: "blocks ?m = {q \<in> blocks (alloc_map s). fst q \<noteq> clear_used p}"
    using region_release_blocks [of "alloc_map s" ?a] wf m by (simp add: region_wf_def)
  have "alloc_inv (s\<lparr>alloc_map := ?m\<rparr>)"
    using inv m h len b region_release_shape(3) [OF ne(1), of ?a]
    by (auto simp: alloc_inv_def)
  note t = alloc_trim_inv [OF this, folded internal_free_def]
  show "alloc_inv (internal_free p s)" "alloc_mem (internal_free p s) = alloc_mem s" using t by simp_all
  show "alloc_blocks (internal_free p s) = {q \<in> alloc_blocks s. fst q \<noteq> clear_used p}"
    using t(2) b by (simp add: alloc_blocks_def)
  show "no_adjacent_free (alloc_map (internal_free p s))"
    using region_merge_no_adjacent [of 1 ?r] t(2) by simp
qed

lemma alloc_block_addr:
  assumes "alloc_inv s" "(p, e) \<in> alloc_blocks s"
  shows "clear_used p = p" "0 < p" "p < e" "e \<le> alloc_high s" "alloc_state1 s \<le> p"
proof -
  have wf: "region_wf (alloc_map s)" using assms(1) by (simp add: alloc_inv_def)
  note b = blocks_bounds [OF wf assms(2) [unfolded alloc_blocks_def]]
  show "p < e" "e \<le> alloc_high s" "0 < p" "alloc_state1 s \<le> p"
    using b assms by (auto simp: alloc_inv_def alloc_blocks_def)
  show "clear_used p = p" using mult16_not_used [OF b(4)] by simp
qed

lemma alloc_null:
  assumes inv: "alloc_inv s" and a: "internal_aligned_alloc mmap_ok alignment sz s = (0, s')"
  shows "alloc_inv s' \<and> alloc_blocks s' = alloc_blocks s \<and> (\<forall>x \<ge> alloc_state1 s. alloc_mem s' x = alloc_mem s x)"
proof (cases "s' = s")
  case False
  with a obtain i p where f: "region_find (alloc_map s) (if alignment < 0x10 then 0x10 else alignment) sz (length (alloc_map s) - 1) = Find_at i p"
    and al: "0 < alignment"
    by (auto simp: internal_aligned_alloc_def Let_def split: if_splits find_result.splits)
  have pos: "0 < (if alignment < 0x10 then 0x10 else alignment)" using al by simp
  from region_find_at [OF f pos] obtain j where
    j: "j < length (alloc_map s) - 1" "\<not> is_used (alloc_map s ! j)" "alloc_map s ! j \<le> p" by auto
  have wf: "region_wf (alloc_map s)" using inv by (simp add: alloc_inv_def)
  have "clear_used (alloc_map s ! 0) \<le> clear_used (alloc_map s ! j)"
    using region_wf_mono [OF wf, of 0 j] j(1) by (cases "j = 0") (auto intro: less_imp_le)
  with j inv have base: "alloc_map_addr s + alloc_map_size s \<le> p" by (simp add: alloc_inv_def)
  obtain ok h where h: "alloc_map_block mmap_ok p s = (ok, h)" by fastforce
  have gr: "g = h" if "alloc_grow_map mmap_ok h = (False, g)" for g
    using that by (auto simp: alloc_grow_map_def internal_map_pages_def Let_def split: if_splits)
  have pz: "0 < p" using base inv by (auto simp: alloc_inv_def)
  have "s' = h"
    using a f h gr False pz unfolding internal_aligned_alloc_def Let_def
    by (auto split: if_splits prod.splits bool.splits)
  with alloc_map_block_main [OF inv h base] show ?thesis by (simp add: alloc_blocks_def)
qed (use inv in simp)

interpretation libc_alloc: block_allocator alloc_inv alloc_blocks "internal_aligned_alloc mmap_ok 16" internal_free alloc_grow_safe
  for mmap_ok
proof
  fix s n p s'
  assume a: "alloc_inv s" "internal_aligned_alloc mmap_ok 16 n s = (p, s')" "p \<noteq> 0" "alloc_grow_safe s p"
  note main = alloc_main [OF a]
  show "alloc_inv s'" by (rule main)
  from main(3,6)
  show "\<exists>e. p + n \<le> e \<and> p < e \<and> alloc_blocks s' = insert (p, e) (alloc_blocks s) \<and>
      (\<forall>(b, c) \<in> alloc_blocks s. e \<le> b \<or> c \<le> p)" by fastforce
next
  fix s n s'
  assume "alloc_inv s" "internal_aligned_alloc mmap_ok 16 n s = (0, s')"
  from alloc_null [OF this] show "alloc_inv s' \<and> alloc_blocks s' = alloc_blocks s" by simp
next
  fix s p
  assume "alloc_inv s"
  then show "alloc_inv (internal_free p s)" by (rule internal_free_main)
next
  fix s p e
  assume a: "alloc_inv s" "(p, e) \<in> alloc_blocks s"
  show "alloc_blocks (internal_free p s) = {q \<in> alloc_blocks s. fst q \<noteq> p}"
    using internal_free_main(2) [OF a(1), of p] alloc_block_addr(1) [OF a] by simp
next
  fix s b e
  assume "alloc_inv s" "(b, e) \<in> alloc_blocks s"
  then show "b < e" by (rule alloc_block_addr)
qed


subsection \<open>Initialisation\<close>

text \<open>The static variables as the program starts.\<close>

definition alloc_start :: alloc_state where
  "alloc_start = \<lparr>alloc_run_once = False, alloc_init0 = False, alloc_init1 = False, alloc_map = [],
    alloc_map_addr = 0, alloc_map_size = 0, alloc_zero = 0, alloc_high = 0, alloc_state0 = 0, alloc_state1 = 0,
    alloc_mem = (\<lambda>_. 0), alloc_mapped = (\<lambda>_. False), alloc_errno = Errno_none\<rparr>"

lemma alloc_m1: "push_bit 16 0x7FFF0000 OR 0xFFFFE000 = (0x7FFFFFFFE000 :: nat)"
  by (simp add: push_bit_eq_mult)

lemma alloc_init_result:
  fixes mmap_ok :: mmap_result and mtx_ok :: bool
  assumes "\<not> alloc_run_once s" "\<not> alloc_init0 s" "\<not> alloc_init1 s"
  defines "s' \<equiv> internal_alloc_init mmap_ok mtx_ok s"
  shows "alloc_run_once s'" "alloc_init0 s' \<noteq> alloc_init1 s'"
    "alloc_init0 s' \<Longrightarrow> alloc_inv s' \<and> alloc_blocks s' = {} \<and> alloc_zero s' = 0x10 \<and> alloc_high s' = 0x7FFFFFFFF000 \<and>
      alloc_map s' = [0x80002000, 0x7FFFFFFFF000] \<and> alloc_map_addr s' = 0x80001000 \<and> alloc_map_size s' = 0x1000 \<and>
      alloc_state1 s' = 0x7FFFFFFFE000"
proof -
  show "alloc_run_once s'" "alloc_init0 s' \<noteq> alloc_init1 s'"
    using assms(1-3) by (auto simp: s'_def internal_alloc_init_def internal_map_pages_def Let_def)
  assume i: "alloc_init0 s'"
  have wf: "region_wf [0x80002000, 0x7FFFFFFFF000]" "blocks [0x80002000, 0x7FFFFFFFF000] = {}"
    by (simp_all add: region_wf_def is_used_def clear_used_def blocks_def)
  have e: "s' = s\<lparr>alloc_run_once := True, alloc_zero := 0x10, alloc_high := 0x7FFFFFFFF000,
      alloc_mapped := (\<lambda>a. 0x7FFFFFFFE000 \<le> a \<and> a < 0x7FFFFFFFF000 \<or> 0x80001000 \<le> a \<and> a < 0x80002000 \<or> alloc_mapped s a),
      alloc_mem := (\<lambda>a. if 0x7FFFFFFFE000 \<le> a \<and> a < 0x7FFFFFFFF000 \<or> 0x80001000 \<le> a \<and> a < 0x80002000 then 0 else alloc_mem s a),
      alloc_state0 := 0x80001000, alloc_state1 := 0x7FFFFFFFE000, alloc_map_addr := 0x80001000,
      alloc_map_size := 0x1000, alloc_map := [0x80002000, 0x7FFFFFFFF000], alloc_init0 := True\<rparr>"
    using i assms(1-3) unfolding s'_def internal_alloc_init_def alloc_m1
    by (auto simp: internal_map_pages_def Let_def fun_eq_iff split: if_splits)
  show "alloc_inv s' \<and> alloc_blocks s' = {} \<and> alloc_zero s' = 0x10 \<and> alloc_high s' = 0x7FFFFFFFF000 \<and>
      alloc_map s' = [0x80002000, 0x7FFFFFFFF000] \<and> alloc_map_addr s' = 0x80001000 \<and> alloc_map_size s' = 0x1000 \<and>
      alloc_state1 s' = 0x7FFFFFFFE000"
    unfolding e alloc_inv_def alloc_blocks_def using wf by (simp add: clear_used_def)
qed

text \<open>Outside an initialisation in progress, the flags say which way it ended.\<close>

definition alloc_flags_ok :: "alloc_state \<Rightarrow> bool" where
  "alloc_flags_ok s \<longleftrightarrow> alloc_run_once s = (alloc_init0 s \<or> alloc_init1 s)"

subsection \<open>Copying\<close>

lemma mem_copy_other: "a < dst \<or> dst + n \<le> a \<Longrightarrow> mem_copy n dst src mem a = mem a"
  by (induction n arbitrary: dst src mem) auto

lemma mem_copy_byte:
  "k < n \<Longrightarrow> src + k < dst \<or> dst + n \<le> src + k \<Longrightarrow> mem_copy n dst src mem (dst + k) = mem (src + k)"
proof (induction n arbitrary: dst src mem k)
  case (Suc n)
  show ?case
  proof (cases k)
    case 0
    then show ?thesis by (simp add: mem_copy_other)
  next
    case (Suc j)
    have "mem_copy n (dst + 1) (src + 1) (mem(dst := mem src)) (dst + 1 + j) = (mem(dst := mem src)) (src + 1 + j)"
      by (rule Suc.IH) (use Suc Suc.prems in auto)
    moreover have "src + 1 + j \<noteq> dst" using Suc Suc.prems by auto
    ultimately show ?thesis using Suc by simp
  qed
qed simp

subsection \<open>Properties\<close>

lemma alloc_ensure_ready: "alloc_init0 s \<Longrightarrow> alloc_ensure n mmap_ok mtx_ok s = Some (True, s)"
  by (simp add: alloc_ensure.simps)

lemma alloc_inv_mem [simp]:
  "alloc_inv (s\<lparr>alloc_mem := f\<rparr>) = alloc_inv s" "alloc_blocks (s\<lparr>alloc_mem := f\<rparr>) = alloc_blocks s"
  "alloc_inv (s\<lparr>alloc_errno := x\<rparr>) = alloc_inv s" "alloc_blocks (s\<lparr>alloc_errno := x\<rparr>) = alloc_blocks s"
  by (simp_all add: alloc_inv_def alloc_blocks_def)

definition alloc_example :: alloc_state where
  "alloc_example = internal_alloc_init (\<lambda>_ _. True) True alloc_start"

lemma alloc_example_facts:
  "alloc_inv alloc_example" "alloc_init0 alloc_example" "alloc_blocks alloc_example = {}"
  "alloc_map alloc_example = [0x80002000, 0x7FFFFFFFF000]" "alloc_map_size alloc_example = 0x1000"
  "alloc_zero alloc_example = 0x10" "alloc_state1 alloc_example = 0x7FFFFFFFE000" "alloc_high alloc_example = 0x7FFFFFFFF000"
  "alloc_map_addr alloc_example = 0x80001000" "alloc_grow_safe alloc_example p"
proof -
  have i: "alloc_init0 alloc_example"
    by (simp add: alloc_example_def alloc_start_def internal_alloc_init_def internal_map_pages_def Let_def)
  have r: "alloc_init0 alloc_example \<Longrightarrow> alloc_inv alloc_example \<and> alloc_blocks alloc_example = {} \<and>
      alloc_zero alloc_example = 0x10 \<and> alloc_high alloc_example = 0x7FFFFFFFF000 \<and>
      alloc_map alloc_example = [0x80002000, 0x7FFFFFFFF000] \<and> alloc_map_addr alloc_example = 0x80001000 \<and>
      alloc_map_size alloc_example = 0x1000 \<and> alloc_state1 alloc_example = 0x7FFFFFFFE000"
    unfolding alloc_example_def by (rule alloc_init_result(3)) (simp_all add: alloc_start_def)
  show "alloc_inv alloc_example" "alloc_init0 alloc_example" "alloc_blocks alloc_example = {}"
    "alloc_map alloc_example = [0x80002000, 0x7FFFFFFFF000]" "alloc_map_size alloc_example = 0x1000"
    "alloc_zero alloc_example = 0x10" "alloc_state1 alloc_example = 0x7FFFFFFFE000" "alloc_high alloc_example = 0x7FFFFFFFF000"
    "alloc_map_addr alloc_example = 0x80001000" "alloc_grow_safe alloc_example p"
    using r [OF i] i by (simp_all add: alloc_grow_safe_def)
qed

lemma alloc_example_malloc:
  "fst (internal_aligned_alloc (\<lambda>_ _. True) 16 0x100 alloc_example) = 0x7FFFFFFFEF00"
  by (simp add: internal_aligned_alloc_def alloc_example_facts alloc_map_block_def alloc_grow_map_def Let_def
      is_used_def clear_used_def)

text \<open>
  A pointer that the C library's \<^verbatim>\<open>malloc\<close> returns for a non-zero size starts a new
  16-byte aligned block of at least that size, disjoint from all blocks in use and entirely in mapped
  memory; the other blocks and their bytes stay as they were and the invariant is kept.
\<close>

theorem libc_malloc_correct:
  assumes "alloc_inv s" "alloc_init0 s" "0 < sz"
    and "libc_malloc mmap_ok mtx_ok True sz s = Some (p, s')" "p \<noteq> 0" "alloc_grow_safe s p"
  shows "alloc_inv s' \<and> p mod 16 = 0 \<and> (\<forall>(b, c) \<in> alloc_blocks s. \<forall>a. b \<le> a \<longrightarrow> a < c \<longrightarrow> alloc_mem s' a = alloc_mem s a) \<and>
    (\<exists>e. p + sz \<le> e \<and> alloc_blocks s' = insert (p, e) (alloc_blocks s) \<and>
      (\<forall>(b, c) \<in> alloc_blocks s. e \<le> b \<or> c \<le> p)) \<and>
    (\<forall>a. p \<le> a \<and> a < p + sz \<longrightarrow> alloc_mapped s' a)"
proof -
  have a: "internal_aligned_alloc mmap_ok 16 sz s = (p, s')"
    using assms(2-5) by (auto simp: libc_malloc_def alloc_ensure_ready set_enomem_def split: prod.splits if_splits)
  note main = alloc_main [OF assms(1) a assms(5,6)]
  from main(3) obtain e where e: "p + sz \<le> e" "alloc_blocks s' = insert (p, e) (alloc_blocks s)"
    "\<forall>(b, c) \<in> alloc_blocks s. e \<le> b \<or> c \<le> p" by (elim exE conjE)
  have pe: "(p, e) \<in> alloc_blocks s'" using e(2) by simp
  have "\<forall>a. p \<le> a \<and> a < p + sz \<longrightarrow> alloc_mapped s' a"
    using alloc_block_addr(4,5) [OF main(1) pe] e(1) main(1) by (auto simp: alloc_inv_def)
  moreover have "alloc_mem s' x = alloc_mem s x" if "(b, c) \<in> alloc_blocks s" "b \<le> x" for b c x
    using main(4) le_trans [OF alloc_block_addr(5) [OF assms(1) that(1)] that(2)] by blast
  ultimately show ?thesis using main(1,2) e by (intro conjI exI [of _ e]) auto
qed

theorem libc_malloc_correct_witness:
  "\<exists>s'. libc_malloc (\<lambda>_ _. True) True True 0x100 alloc_example = Some (0x7FFFFFFFEF00, s') \<and> alloc_inv s' \<and>
    alloc_mapped s' 0x7FFFFFFFEF00"
proof -
  obtain s' where a: "internal_aligned_alloc (\<lambda>_ _. True) 16 0x100 alloc_example = (0x7FFFFFFFEF00, s')"
    using alloc_example_malloc by (metis prod.collapse)
  then have "libc_malloc (\<lambda>_ _. True) True True 0x100 alloc_example = Some (0x7FFFFFFFEF00, s')"
    by (simp add: libc_malloc_def alloc_ensure_ready alloc_example_facts set_enomem_def)
  with libc_malloc_correct [OF alloc_example_facts(1,2) _ this _ alloc_example_facts(10)] show ?thesis by simp
qed

text \<open>
  C8. In an initialised allocator whose lock is free, \<^verbatim>\<open>realloc\<close> of a block in use to a non-zero size
  either fails and leaves all blocks and their bytes as they were, or replaces the block by one of the new size
  that starts with the bytes of the old one, up to the smaller of the sizes, and changes no byte of any other block.
  When the map of the blocks is full, the page by which it grows must lie below the new block and the mapped area.
\<close>

theorem libc_realloc_correct:
  assumes "alloc_inv s" "alloc_init0 s" "(p, e) \<in> alloc_blocks s" "0 < sz"
    and "libc_realloc mmap_ok mtx_ok True p sz s = Some (q, s')" "alloc_grow_safe s q"
  shows "alloc_inv s' \<and>
    (if q = 0 then alloc_blocks s' = alloc_blocks s \<and> alloc_errno s' = ENOMEM
     else (\<exists>f. q + sz \<le> f \<and> alloc_blocks s' = insert (q, f) (alloc_blocks s - {(p, e)})) \<and>
       (\<forall>k < min sz (e - p). alloc_mem s' (q + k) = alloc_mem s (p + k))) \<and>
    (\<forall>(b, c) \<in> alloc_blocks s. \<forall>a. b \<le> a \<longrightarrow> a < c \<longrightarrow> alloc_mem s' a = alloc_mem s a)"
proof -
  note pb = alloc_block_addr [OF assms(1,3)]
  have hi: "p < alloc_high s" "p \<noteq> 0" using pb by simp_all
  define n where "n = (if alloc_high s - p > sz then sz else alloc_high s - p)"
  have n: "n \<noteq> 0" "n \<le> sz" "min sz (e - p) \<le> n" unfolding n_def using hi(1) assms(4) pb(4) by auto
  obtain r s1 where a: "internal_aligned_alloc mmap_ok 16 sz s = (r, s1)" by fastforce
  have res: "(q, s') = (if r = 0 then (0, s1\<lparr>alloc_errno := ENOMEM\<rparr>)
      else (r, internal_free p (s1\<lparr>alloc_mem := mem_copy n r p (alloc_mem s1)\<rparr>)))"
    using assms(2,4,5) hi n(1) a unfolding libc_realloc_def alloc_ensure_ready [OF assms(2)]
    by (auto simp: Let_def n_def set_enomem_def split: if_splits)
  show ?thesis
  proof (cases "r = 0")
    case True
    with alloc_null [OF assms(1), of mmap_ok 16 sz s1] a res
    have n: "alloc_inv s'" "alloc_blocks s' = alloc_blocks s" "alloc_errno s' = ENOMEM" "q = 0"
      "\<forall>x \<ge> alloc_state1 s. alloc_mem s' x = alloc_mem s x" by simp_all
    have "alloc_mem s' x = alloc_mem s x" if "(b, c) \<in> alloc_blocks s" "b \<le> x" for b c x
      using n(5) le_trans [OF alloc_block_addr(5) [OF assms(1) that(1)] that(2)] by blast
    with n(1-4) show ?thesis by auto
  next
    case False
    then have q: "q = r" and s': "s' = internal_free p (s1\<lparr>alloc_mem := mem_copy n r p (alloc_mem s1)\<rparr>)"
      using res by simp_all
    note main = alloc_main [OF assms(1) a False assms(6) [unfolded q]]
    from main(3) obtain f where f: "r + sz \<le> f" "alloc_blocks s1 = insert (r, f) (alloc_blocks s)"
      "\<forall>(b, c) \<in> alloc_blocks s. f \<le> b \<or> c \<le> r" by (elim exE conjE)
    let ?t = "s1\<lparr>alloc_mem := mem_copy n r p (alloc_mem s1)\<rparr>"
    have t: "alloc_inv ?t" "alloc_blocks ?t = insert (r, f) (alloc_blocks s)" using main(1) f(2) by simp_all
    note fr = internal_free_main [OF t(1), of p, folded s']
    have bl: "alloc_blocks s' = {x \<in> insert (r, f) (alloc_blocks s). fst x \<noteq> p}" using fr(2) t(2) pb(1) by simp
    have old: "f \<le> p \<or> e \<le> r" using f(3) assms(3) by fastforce
    have "r \<noteq> p" using old pb(3) f(1) assms(4) by auto
    have wf: "region_wf (alloc_map s)" using assms(1) by (simp add: alloc_inv_def)
    have uniq: "c = e" if "(p, c) \<in> alloc_blocks s" for c
      using blocks_disjoint [OF wf, of p c p e] that assms(3) pb(3) alloc_block_addr(3) [OF assms(1) that]
      by (simp add: alloc_blocks_def)
    have "x \<in> alloc_blocks s' \<longleftrightarrow> x \<in> insert (r, f) (alloc_blocks s - {(p, e)})" for x
      unfolding bl using uniq [of "snd x"] \<open>r \<noteq> p\<close> by (cases x) auto
    then have new: "alloc_blocks s' = insert (r, f) (alloc_blocks s - {(p, e)})" by (rule set_eqI)
    have mem: "alloc_mem s' = mem_copy n r p (alloc_mem s1)" using fr(4) by simp
    have copy: "alloc_mem s' (r + k) = alloc_mem s (p + k)" if "k < min sz (e - p)" for k
    proof -
      have "alloc_mem s' (r + k) = alloc_mem s1 (p + k)" unfolding mem using that n old f(1) by (intro mem_copy_byte) auto
      then show ?thesis using main(4) pb(5) by simp
    qed
    have keep: "alloc_mem s' x = alloc_mem s x" if "(b, c) \<in> alloc_blocks s" "b \<le> x" "x < c" for b c x
    proof -
      have "f \<le> b \<or> c \<le> r" using f(3) that(1) by fastforce
      then have "alloc_mem s' x = alloc_mem s1 x" unfolding mem using that(2,3) f(1) n(2) by (intro mem_copy_other) auto
      then show ?thesis using main(4) alloc_block_addr(5) [OF assms(1) that(1)] that(2) by simp
    qed
    show ?thesis using fr(1) new f(1) copy keep False unfolding q by auto
  qed
qed


lemma alloc_example_block:
  obtains s e where "internal_aligned_alloc (\<lambda>_ _. True) 16 0x100 alloc_example = (0x7FFFFFFFEF00, s)"
    "alloc_inv s" "alloc_init0 s" "(0x7FFFFFFFEF00, e) \<in> alloc_blocks s" "\<forall>p. alloc_grow_safe s p"
    "alloc_map s = [0x80002000, 0x7FFFFFFFEF01, 0x7FFFFFFFF000]"
proof -
  obtain s where a: "internal_aligned_alloc (\<lambda>_ _. True) 16 0x100 alloc_example = (0x7FFFFFFFEF00, s)"
    using alloc_example_malloc by (metis prod.collapse)
  note main = alloc_main [OF alloc_example_facts(1) a _ alloc_example_facts(10)]
  have s: "alloc_map s = [0x80002000, 0x7FFFFFFFEF01, 0x7FFFFFFFF000]" "alloc_map_size s = 0x1000" "alloc_init0 s"
    using a by (auto simp: internal_aligned_alloc_def alloc_example_facts alloc_map_block_def alloc_grow_map_def Let_def
      is_used_def clear_used_def set_used_def region_mark_def)
  show ?thesis
    by (rule that [OF a main(1) s(3), of "0x7FFFFFFFF000"])
      (simp_all add: alloc_blocks_def s blocks_def is_used_def clear_used_def alloc_grow_safe_def)
qed

theorem libc_realloc_correct_witness:
  "\<exists>s q s'. alloc_inv s \<and> (0x7FFFFFFFEF00, 0x7FFFFFFFF000) \<in> alloc_blocks s \<and>
    libc_realloc (\<lambda>_ _. True) True True 0x7FFFFFFFEF00 0x200 s = Some (q, s') \<and> alloc_inv s' \<and>
    (q \<noteq> 0 \<longrightarrow> alloc_mem s' (q + 5) = alloc_mem s (0x7FFFFFFFEF00 + 5))"
proof -
  obtain s e where "internal_aligned_alloc (\<lambda>_ _. True) 16 0x100 alloc_example = (0x7FFFFFFFEF00, s)"
    and s: "alloc_inv s" "alloc_init0 s" "(0x7FFFFFFFEF00, e) \<in> alloc_blocks s" "\<forall>p. alloc_grow_safe s p"
    "alloc_map s = [0x80002000, 0x7FFFFFFFEF01, 0x7FFFFFFFF000]" by (rule alloc_example_block)
  have e: "e = 0x7FFFFFFFF000" using s(3) by (simp add: alloc_blocks_def s(5) blocks_def is_used_def clear_used_def)
  obtain q s' where r: "libc_realloc (\<lambda>_ _. True) True True 0x7FFFFFFFEF00 0x200 s = Some (q, s')"
  proof -
    have "libc_realloc (\<lambda>_ _. True) True True 0x7FFFFFFFEF00 0x200 s \<noteq> None"
      unfolding libc_realloc_def alloc_ensure_ready [OF s(2)] by simp
    then show ?thesis using that by (metis not_None_eq surj_pair)
  qed
  from libc_realloc_correct [OF s(1-3) _ r s(4) [rule_format]] s(1,3) r show ?thesis
    unfolding e by (intro exI [of _ s] exI [of _ q] exI [of _ s']) (auto split: if_splits)
qed

text \<open>
  \<^verbatim>\<open>free\<close> of a pointer obtained from \<^verbatim>\<open>malloc\<close> restores the blocks in use, keeps
  the invariant and leaves no two adjacent unused regions.
\<close>

theorem libc_malloc_free:
  assumes "alloc_inv s" "alloc_init0 s" "0 < sz" "alloc_zero s = 0x10"
    and "libc_malloc mmap_ok mtx_ok True sz s = Some (p, s')" "p \<noteq> 0" "alloc_grow_safe s p"
  shows "\<exists>s''. libc_free mmap_ok mtx_ok True p s' = Some s'' \<and> alloc_inv s'' \<and>
    alloc_blocks s'' = alloc_blocks s \<and> no_adjacent_free (alloc_map s'')"
proof -
  have a: "internal_aligned_alloc mmap_ok 16 sz s = (p, s')"
    using assms(2,3,5,6) by (auto simp: libc_malloc_def alloc_ensure_ready set_enomem_def split: prod.splits if_splits)
  note main = alloc_main [OF assms(1) a assms(6,7)]
  from main(3) obtain e where pe: "(p, e) \<in> alloc_blocks s'" by blast
  have keep: "alloc_init0 s' = alloc_init0 s" "alloc_zero s' = alloc_zero s" "alloc_map_addr s' = alloc_map_addr s"
    using a by (auto simp: internal_aligned_alloc_def alloc_map_block_def alloc_grow_map_def internal_map_pages_def Let_def
      split: if_splits find_result.splits)
  have r: "alloc_blocks (internal_free p s') = alloc_blocks s"
    by (rule libc_alloc.alloc_release [OF assms(1) a assms(6,7)])
  have "0x1000 \<le> p"
  proof -
    have "alloc_map_addr s' + alloc_map_size s' \<le> p" "0 < alloc_map_addr s'" "alloc_map_addr s' mod 0x1000 = 0"
      using main(1) alloc_block_addr(5) [OF main(1) pe] by (auto simp: alloc_inv_def)
    then have "0x1000 \<le> alloc_map_addr s'" by (auto simp: dvd_imp_le mod_0_imp_dvd)
    then show ?thesis using \<open>alloc_map_addr s' + alloc_map_size s' \<le> p\<close> by linarith
  qed
  then have "libc_free mmap_ok mtx_ok True p s' = Some (internal_free p s')"
    using assms(2,4,6) keep by (simp add: libc_free_def alloc_ensure_ready)
  then show ?thesis using internal_free_main [OF main(1), of p] r by simp
qed

theorem libc_malloc_free_witness:
  "\<exists>s' s''. libc_malloc (\<lambda>_ _. True) True True 0x100 alloc_example = Some (0x7FFFFFFFEF00, s') \<and>
    libc_free (\<lambda>_ _. True) True True 0x7FFFFFFFEF00 s' = Some s'' \<and> alloc_blocks s'' = {}"
proof -
  obtain s' e where a: "internal_aligned_alloc (\<lambda>_ _. True) 16 0x100 alloc_example = (0x7FFFFFFFEF00, s')"
    by (rule alloc_example_block)
  then have m: "libc_malloc (\<lambda>_ _. True) True True 0x100 alloc_example = Some (0x7FFFFFFFEF00, s')"
    by (simp add: libc_malloc_def alloc_ensure_ready alloc_example_facts set_enomem_def)
  from libc_malloc_free [OF alloc_example_facts(1,2) _ alloc_example_facts(6) m _ alloc_example_facts(10)] m show ?thesis
    by (auto simp: alloc_example_facts)
qed

text \<open>
  C19. As long as no other thread is in the middle of the one-time initialisation, every allocator
  function returns: the initialisation loop ends after at most one round.
\<close>

theorem libc_alloc_terminates:
  assumes "alloc_flags_ok s"
  shows "libc_malloc mmap_ok mtx_ok lock_ok sz s \<noteq> None \<and> libc_calloc mmap_ok mtx_ok lock_ok nmemb sz s \<noteq> None \<and>
    libc_aligned_alloc mmap_ok mtx_ok lock_ok alignment sz s \<noteq> None \<and>
    libc_realloc mmap_ok mtx_ok lock_ok p sz s \<noteq> None \<and> libc_free mmap_ok mtx_ok lock_ok p s \<noteq> None"
proof -
  obtain b s1 where "alloc_ensure 1 mmap_ok mtx_ok s = Some (b, s1)"
  proof (cases "alloc_init0 s \<or> alloc_init1 s")
    case True
    then show ?thesis using that by (cases "alloc_init0 s") (auto simp: alloc_ensure.simps)
  next
    case False
    with assms have "\<not> alloc_run_once s" by (simp add: alloc_flags_ok_def)
    with alloc_init_result(2) [OF this, of mmap_ok mtx_ok] False that show ?thesis
      by (cases "alloc_init0 (internal_alloc_init mmap_ok mtx_ok s)") (auto simp: alloc_ensure.simps)
  qed
  then show ?thesis
    by (cases b) (simp_all add: libc_malloc_def libc_calloc_def libc_aligned_alloc_def libc_realloc_def libc_free_def Let_def)
qed

theorem libc_alloc_terminates_witness:
  "libc_malloc (\<lambda>_ _. False) True True 8 alloc_start \<noteq> None \<and> \<not> alloc_init0 alloc_start"
  using libc_alloc_terminates [of alloc_start "\<lambda>_ _. False" True True 8]
  by (simp add: alloc_flags_ok_def alloc_start_def)

end
