(* ===== verification/Fifo.thy ===== *)
theory Fifo
  imports Prelude
begin

text \<open>
  The contract of a byte queue between a writing and a reading side whose steps interleave: a
  write appends the first \<open>n\<close> of its bytes, a read removes a prefix of the contents, and
  neither does anything else to the contents. For every interleaving the bytes that were read, followed by the
  bytes still queued, are the bytes whose writing was reported.
\<close>

inductive fifo_run ::
    "('a list \<Rightarrow> nat \<Rightarrow> 's \<Rightarrow> 's \<Rightarrow> bool) \<Rightarrow> ('a list \<Rightarrow> 's \<Rightarrow> 's \<Rightarrow> bool) \<Rightarrow> ('s \<Rightarrow> 's \<Rightarrow> bool) \<Rightarrow>
      's \<Rightarrow> 's \<Rightarrow> 'a list \<Rightarrow> 'a list \<Rightarrow> bool"
  for put get other where
  started: "fifo_run put get other s s [] []"
| wrote: "fifo_run put get other s0 s written readout \<Longrightarrow> put xs n s s' \<Longrightarrow>
    fifo_run put get other s0 s' (written @ take n xs) readout"
| got: "fifo_run put get other s0 s written readout \<Longrightarrow> get ys s s' \<Longrightarrow>
    fifo_run put get other s0 s' written (readout @ ys)"
| moved: "fifo_run put get other s0 s written readout \<Longrightarrow> other s s' \<Longrightarrow>
    fifo_run put get other s0 s' written readout"

locale fifo =
  fixes inv :: "'s \<Rightarrow> bool"
    and contents :: "'s \<Rightarrow> 'a list"
    and put :: "'a list \<Rightarrow> nat \<Rightarrow> 's \<Rightarrow> 's \<Rightarrow> bool"
    and get :: "'a list \<Rightarrow> 's \<Rightarrow> 's \<Rightarrow> bool"
    and other :: "'s \<Rightarrow> 's \<Rightarrow> bool"
  assumes put_inv: "inv s \<Longrightarrow> put xs n s s' \<Longrightarrow> inv s' \<and> contents s' = contents s @ take n xs"
    and get_inv: "inv s \<Longrightarrow> get ys s s' \<Longrightarrow> inv s' \<and> contents s = ys @ contents s'"
    and other_inv: "inv s \<Longrightarrow> other s s' \<Longrightarrow> inv s' \<and> contents s' = contents s"
begin

lemma run_order:
  "fifo_run put get other s0 s written readout \<Longrightarrow> inv s0 \<Longrightarrow>
    inv s \<and> contents s0 @ written = readout @ contents s"
proof (induction rule: fifo_run.induct)
  case (wrote s0 s written readout xs n s')
  from wrote.IH [OF wrote.prems] put_inv [OF _ wrote.hyps(2)] show ?case by simp
next
  case (got s0 s written readout ys s')
  from got.IH [OF got.prems] get_inv [OF _ got.hyps(2)] show ?case by simp
next
  case (moved s0 s written readout s')
  from moved.IH [OF moved.prems] other_inv [OF _ moved.hyps(2)] show ?case by simp
qed simp

end

end
