(* ===== verification/Pipe.thy ===== *)
theory Pipe
  imports Fifo
begin

text \<open>
  Pipes, \<^verbatim>\<open>src/kernel/vfs/pipe.c\<close>: a ring buffer of 4096 bytes shared by a read and a write
  node. Both operations work in sections of at most 512 bytes under the spin lock; a section is
  one atomic step of the model, and sections of the two sides may interleave. The event is the
  flag that \<^verbatim>\<open>event_signal\<close> sets and \<^verbatim>\<open>event_reset\<close> clears. The results of
  \<^verbatim>\<open>malloc\<close>, \<^verbatim>\<open>event_create\<close> and \<^verbatim>\<open>vfs_decrement_count\<close>
  are arguments.
\<close>

definition PIPE_SIZE :: nat where "PIPE_SIZE = 4096"

record pipe_shared =
  pipe_event :: bool
  pipe_count :: int
  pipe_start :: nat
  pipe_end :: nat
  pipe_base :: "u8 list"

datatype pipe_type = pipe_type_read | pipe_type_write

text \<open>
  The inner loop of a read section: remaining bytes of the request, \<open>atomicity\<close>, the variable
  \<open>b\<close> and the bytes stored so far.
\<close>

fun read_bytes :: "nat \<Rightarrow> nat \<Rightarrow> int \<Rightarrow> u8 list \<Rightarrow> pipe_shared \<Rightarrow> int \<times> u8 list \<times> pipe_shared" where
  "read_bytes 0 atomicity b out s = (b, out, s)"
| "read_bytes (Suc n) atomicity b out s =
    (let start = pipe_start s in
     if start \<noteq> pipe_end s then
       let b = pipe_base s ! start;
           s = s\<lparr>pipe_base := (pipe_base s)[start := 0], pipe_start := (start + 1) mod PIPE_SIZE\<rparr>;
           out = out @ [b];
           atomicity = atomicity + 1
       in if atomicity = 512 then (uint b, out, s) else read_bytes n atomicity (uint b) out s
     else (-1, out, if pipe_count s = 2 then s\<lparr>pipe_event := False\<rparr> else s))"

text \<open>
  One round of the outer loop: \<^const>\<open>None\<close> is going on, \<^const>\<open>Some\<close> the error code of a
  \<^verbatim>\<open>return\<close>.
\<close>

definition read_section :: "nat \<Rightarrow> int \<Rightarrow> u8 list \<Rightarrow> pipe_shared \<Rightarrow> dancy_error option \<times> int \<times> u8 list \<times> pipe_shared" where
  "read_section requested_size b out s =
    (let (b, out, s) = read_bytes (requested_size - length out) 0 b out s;
         s = (if pipe_count s \<noteq> 2 then s\<lparr>pipe_event := True\<rparr> else s)
     in (if pipe_count s \<noteq> 2 \<and> out = [] then Some DE_EMPTY else None, b, out, s))"

fun read_rounds :: "nat \<Rightarrow> nat \<Rightarrow> int \<Rightarrow> u8 list \<Rightarrow> pipe_shared \<Rightarrow> (dancy_error \<times> u8 list \<times> pipe_shared) option" where
  "read_rounds fuel requested_size b out s =
    (case read_section requested_size b out s of
       (Some err, b, out, s) \<Rightarrow> Some (err, out, s)
     | (None, b, out, s) \<Rightarrow>
         if b \<ge> 0 \<and> length out < requested_size
         then (case fuel of 0 \<Rightarrow> None | Suc fuel \<Rightarrow> read_rounds fuel requested_size b out s)
         else Some (DE_SUCCESS, out, s))"

declare read_rounds.simps [simp del]

text \<open>
  Result, bytes stored and state. Every round but the last reads 512 bytes, so the fuel is enough for
  any request; \<^const>\<open>None\<close> would be an endless loop.
\<close>

definition n_read :: "pipe_type \<Rightarrow> nat \<Rightarrow> pipe_shared \<Rightarrow> (dancy_error \<times> u8 list \<times> pipe_shared) option" where
  "n_read type requested_size s =
    (if type \<noteq> pipe_type_read then Some (DE_ACCESS, [], s)
     else read_rounds requested_size requested_size 0 [] s)"

text \<open>The inner loop of a write section: number of bytes stored, and state.\<close>

fun write_bytes :: "u8 list \<Rightarrow> nat \<Rightarrow> pipe_shared \<Rightarrow> nat \<times> pipe_shared" where
  "write_bytes [] atomicity s = (atomicity, s)"
| "write_bytes (x # xs) atomicity s =
    (let start = pipe_start s;
         old_end = pipe_end s;
         new_end = (old_end + 1) mod PIPE_SIZE
     in if start = new_end then (atomicity, s)
        else
          let s = s\<lparr>pipe_base := (pipe_base s)[old_end := x], pipe_end := new_end\<rparr>;
              atomicity = atomicity + 1
          in if atomicity = 512 then (atomicity, s) else write_bytes xs atomicity s)"

datatype write_result = Write_return dancy_error | Write_next nat

text \<open>
  One round of the write loop for the bytes not yet written. The result is the error of a
  \<^verbatim>\<open>return\<close>, or the number of bytes written in this round.
\<close>

definition write_section :: "nat \<Rightarrow> u8 list \<Rightarrow> pipe_shared \<Rightarrow> write_result \<times> pipe_shared" where
  "write_section requested_size rest s =
    (if pipe_count s \<noteq> 2 then (Write_return DE_PIPE, s)
     else
       let original_end = pipe_end s;
           (atomicity, s) = write_bytes rest 0 s
       in
       if requested_size \<le> 512 \<and> requested_size \<noteq> atomicity
       then (Write_return DE_RETRY, s\<lparr>pipe_end := original_end\<rparr>)
       else (Write_next atomicity, if atomicity \<noteq> 0 then s\<lparr>pipe_event := True\<rparr> else s))"

function write_rounds :: "nat \<Rightarrow> nat \<Rightarrow> u8 list \<Rightarrow> pipe_shared \<Rightarrow> dancy_error \<times> nat \<times> pipe_shared" where
  "write_rounds requested_size sz rest s =
    (case write_section requested_size rest s of
       (Write_return err, s) \<Rightarrow> (err, if err = DE_RETRY then 0 else sz, s)
     | (Write_next atomicity, s) \<Rightarrow>
         if atomicity = 0 then (DE_SUCCESS, sz, s)
         else if drop atomicity rest \<noteq> []
         then write_rounds requested_size (sz + atomicity) (drop atomicity rest) s
         else (DE_SUCCESS, sz + atomicity, s))"
  by pat_completeness auto
termination by (relation "measure (\<lambda>(r, sz, rest, s). length rest)") auto

declare write_rounds.simps [simp del]

definition n_write :: "pipe_type \<Rightarrow> u8 list \<Rightarrow> pipe_shared \<Rightarrow> dancy_error \<times> nat \<times> pipe_shared" where
  "n_write type buffer s =
    (if type \<noteq> pipe_type_write then (DE_ACCESS, 0, s)
     else write_rounds (length buffer) 0 buffer s)"

definition POLLIN :: u32 where "POLLIN = 0x0001"
definition POLLRDNORM :: u32 where "POLLRDNORM = 0x0040"
definition POLLOUT :: u32 where "POLLOUT = 0x0004"
definition POLLWRNORM :: u32 where "POLLWRNORM = 0x0100"

definition n_poll :: "pipe_type \<Rightarrow> u32 \<Rightarrow> pipe_shared \<Rightarrow> u32" where
  "n_poll type events s =
    (let start = int (pipe_start s);
         stop = int (pipe_end s);
         read_ok = (type = pipe_type_read \<and> start \<noteq> stop);
         count = stop - start;
         count = (if count < 0 then (int PIPE_SIZE + stop) - start else count);
         write_ok = (type = pipe_type_write \<and> count < int PIPE_SIZE div 2);
         r = 0;
         r = (if read_ok \<and> events AND POLLIN \<noteq> 0 then r OR POLLIN else r);
         r = (if read_ok \<and> events AND POLLRDNORM \<noteq> 0 then r OR POLLRDNORM else r);
         r = (if write_ok \<and> events AND POLLOUT \<noteq> 0 then r OR POLLOUT else r)
     in (if write_ok \<and> events AND POLLWRNORM \<noteq> 0 then r OR POLLWRNORM else r))"

text \<open>Releasing a node; \<^const>\<open>None\<close> is the freed shared data.\<close>

definition n_release :: "bool \<Rightarrow> pipe_shared \<Rightarrow> pipe_shared option" where
  "n_release last_reference s =
    (if last_reference then
       let s = s\<lparr>pipe_count := pipe_count s - 1, pipe_event := True\<rparr> in
       if pipe_count s \<le> 0 then None else Some s
     else Some s)"

definition alloc_node :: "bool \<Rightarrow> pipe_type \<Rightarrow> pipe_type option" where
  "alloc_node malloc_ok type = (if malloc_ok then Some type else None)"

definition vfs_pipe :: "bool \<Rightarrow> bool \<Rightarrow> bool \<Rightarrow> bool \<Rightarrow> dancy_error \<times> (pipe_type \<times> pipe_type \<times> pipe_shared) option" where
  "vfs_pipe shared_ok event_ok read_ok write_ok =
    (if \<not> shared_ok then (DE_MEMORY, None)
     else
       let shared_data = \<lparr>pipe_event = False, pipe_count = 2, pipe_start = 0, pipe_end = 0,
                          pipe_base = replicate PIPE_SIZE 0\<rparr>;
           read_node = alloc_node read_ok pipe_type_read;
           write_node = alloc_node write_ok pipe_type_write
       in
       case (event_ok, read_node, write_node) of
         (True, Some r, Some w) \<Rightarrow> (DE_SUCCESS, Some (r, w, shared_data))
       | _ \<Rightarrow> (DE_MEMORY, None))"

subsection \<open>The ring buffer as a queue\<close>

definition pipe_inv :: "pipe_shared \<Rightarrow> bool" where
  "pipe_inv s \<longleftrightarrow> length (pipe_base s) = PIPE_SIZE \<and> pipe_start s < PIPE_SIZE \<and> pipe_end s < PIPE_SIZE"

definition pipe_len :: "pipe_shared \<Rightarrow> nat" where
  "pipe_len s = (if pipe_start s \<le> pipe_end s then pipe_end s - pipe_start s
    else PIPE_SIZE + pipe_end s - pipe_start s)"

definition pipe_contents :: "pipe_shared \<Rightarrow> u8 list" where
  "pipe_contents s = map (\<lambda>k. pipe_base s ! ((pipe_start s + k) mod PIPE_SIZE)) [0..<pipe_len s]"

lemma mod_wrap: "a < 2 * N \<Longrightarrow> a mod N = (if a < N then a else a - N)" for a N :: nat
  by (auto simp: mod_if le_mod_geq)

lemma mod_next: "a < N \<Longrightarrow> (a + 1) mod N = (if a + 1 = N then 0 else a + 1)" for a N :: nat
  by auto

lemma pipe_len_bound: "pipe_inv s \<Longrightarrow> pipe_len s < PIPE_SIZE"
  by (auto simp: pipe_inv_def pipe_len_def)

lemma length_pipe_contents [simp]: "length (pipe_contents s) = pipe_len s"
  by (simp add: pipe_contents_def)

lemma pipe_get:
  assumes inv: "pipe_inv s" and ne: "pipe_start s \<noteq> pipe_end s"
  defines "s' \<equiv> s\<lparr>pipe_base := (pipe_base s)[pipe_start s := 0], pipe_start := (pipe_start s + 1) mod PIPE_SIZE\<rparr>"
  shows "pipe_inv s'" "pipe_contents s = pipe_base s ! pipe_start s # pipe_contents s'"
proof -
  let ?N = PIPE_SIZE and ?a = "pipe_start s"
  have b: "?a < ?N" "pipe_end s < ?N" "length (pipe_base s) = ?N" using inv by (auto simp: pipe_inv_def)
  show "pipe_inv s'" using inv b by (simp add: pipe_inv_def s'_def)
  have n: "pipe_len s = Suc (pipe_len s')"
    using b ne unfolding pipe_len_def s'_def by (simp add: mod_next [OF b(1), simplified]) auto
  have lt: "pipe_len s < ?N" by (rule pipe_len_bound [OF inv])
  have "pipe_base s' ! ((pipe_start s' + k) mod ?N) = pipe_base s ! ((?a + Suc k) mod ?N)" if "k < pipe_len s'" for k
  proof -
    have "(?a + Suc k) mod ?N \<noteq> ?a" using that n lt b by (auto simp: mod_wrap)
    moreover have "((?a + 1) mod ?N + k) mod ?N = (?a + Suc k) mod ?N" by (simp add: mod_simps)
    ultimately show ?thesis by (simp add: s'_def)
  qed
  then show "pipe_contents s = pipe_base s ! ?a # pipe_contents s'"
    unfolding pipe_contents_def n upt_conv_Cons [OF zero_less_Suc] using b(1)
    by (simp add: map_Suc_upt [symmetric] del: upt_Suc)
qed

lemma pipe_put:
  fixes x :: u8
  assumes inv: "pipe_inv s" and room: "pipe_start s \<noteq> (pipe_end s + 1) mod PIPE_SIZE"
  defines "s' \<equiv> s\<lparr>pipe_base := (pipe_base s)[pipe_end s := x], pipe_end := (pipe_end s + 1) mod PIPE_SIZE\<rparr>"
  shows "pipe_inv s'" "pipe_contents s' = pipe_contents s @ [x]"
proof -
  let ?N = PIPE_SIZE and ?a = "pipe_start s"
  have b: "?a < ?N" "pipe_end s < ?N" "length (pipe_base s) = ?N" using inv by (auto simp: pipe_inv_def)
  show "pipe_inv s'" using inv b by (simp add: pipe_inv_def s'_def)
  have n: "pipe_len s' = Suc (pipe_len s)"
    using b room unfolding pipe_len_def s'_def by (simp add: mod_next [OF b(2), simplified]) auto
  have lt: "pipe_len s < ?N" by (rule pipe_len_bound [OF inv])
  have last: "(?a + pipe_len s) mod ?N = pipe_end s" using b by (auto simp: pipe_len_def mod_wrap)
  have "pipe_base s' ! ((?a + k) mod ?N) = pipe_base s ! ((?a + k) mod ?N)" if "k < pipe_len s" for k
  proof -
    have "(?a + k) mod ?N \<noteq> (?a + pipe_len s) mod ?N" using that lt b by (auto simp: mod_wrap)
    then show ?thesis by (simp add: s'_def last)
  qed
  moreover have "pipe_start s' = ?a" "pipe_base s' ! pipe_end s = x" using b by (simp_all add: s'_def)
  ultimately show "pipe_contents s' = pipe_contents s @ [x]"
    unfolding pipe_contents_def n by (simp add: last)
qed

lemma pipe_empty_iff: "pipe_inv s \<Longrightarrow> pipe_start s = pipe_end s \<longleftrightarrow> pipe_contents s = []"
  by (auto simp: pipe_inv_def pipe_contents_def pipe_len_def)

lemma pipe_full_iff: "pipe_inv s \<Longrightarrow> pipe_start s = (pipe_end s + 1) mod PIPE_SIZE \<longleftrightarrow> pipe_len s = PIPE_SIZE - 1"
  by (auto simp: pipe_inv_def pipe_len_def mod_Suc)

lemma pipe_contents_update [simp]:
  "pipe_contents (s\<lparr>pipe_event := b\<rparr>) = pipe_contents s" "pipe_inv (s\<lparr>pipe_event := b\<rparr>) = pipe_inv s"
  "pipe_len (s\<lparr>pipe_event := b\<rparr>) = pipe_len s"
  "pipe_contents (s\<lparr>pipe_count := c\<rparr>) = pipe_contents s" "pipe_inv (s\<lparr>pipe_count := c\<rparr>) = pipe_inv s"
  by (simp_all add: pipe_contents_def pipe_len_def pipe_inv_def)

subsection \<open>Sections\<close>

text \<open>A read section takes the first bytes, at most 512; it stops early only on an empty queue.\<close>

lemma read_bytes_main:
  assumes "pipe_inv s" "read_bytes n k b out s = (b', out', s')" "k < 512"
  defines "m \<equiv> min (min n (512 - k)) (length (pipe_contents s))"
  shows "pipe_inv s' \<and> out' = out @ take m (pipe_contents s) \<and> pipe_contents s' = drop m (pipe_contents s) \<and>
    pipe_count s' = pipe_count s \<and> (0 \<le> b \<longrightarrow> (b' < 0 \<longleftrightarrow> m = length (pipe_contents s) \<and> m < min n (512 - k)))"
  using assms(1-3) unfolding m_def
proof (induction n arbitrary: k b out s)
  case 0
  then show ?case by simp
next
  case (Suc n)
  show ?case
  proof (cases "pipe_start s = pipe_end s")
    case True
    with Suc.prems pipe_empty_iff [OF Suc.prems(1)] show ?thesis by auto
  next
    case False
    define t where "t = s\<lparr>pipe_base := (pipe_base s)[pipe_start s := 0], pipe_start := (pipe_start s + 1) mod PIPE_SIZE\<rparr>"
    define x where "x = pipe_base s ! pipe_start s"
    note g = pipe_get [OF Suc.prems(1) False, folded t_def x_def]
    have c: "pipe_count t = pipe_count s" by (simp add: t_def)
    show ?thesis
    proof (cases "k = 511")
      case True
      then have "b' = uint x" "out' = out @ [x]" "s' = t"
        using Suc.prems(2) False by (auto simp: Let_def t_def x_def)
      with g c True show ?thesis by auto
    next
      case k: False
      then have r: "read_bytes n (k + 1) (uint x) (out @ [x]) t = (b', out', s')"
        using Suc.prems(2) False by (simp add: Let_def t_def x_def)
      have "k + 1 < 512" "512 - k = Suc (512 - (k + 1))" using k Suc.prems(3) by auto
      with Suc.IH [OF g(1) r] g(2) c show ?thesis by (auto simp: min_def split: if_splits)
    qed
  qed
qed

text \<open>A write section stores as many bytes as fit, at most 512.\<close>

lemma write_bytes_main:
  assumes "pipe_inv s" "write_bytes xs k s = (k', s')" "k < 512"
  defines "m \<equiv> min (min (length xs) (512 - k)) (PIPE_SIZE - 1 - pipe_len s)"
  shows "pipe_inv s' \<and> k' = k + m \<and> pipe_contents s' = pipe_contents s @ take m xs \<and>
    pipe_count s' = pipe_count s \<and> pipe_start s' = pipe_start s \<and> pipe_event s' = pipe_event s"
  using assms(1-3) unfolding m_def
proof (induction xs arbitrary: k s)
  case Nil
  then show ?case by simp
next
  case (Cons x xs)
  show ?case
  proof (cases "pipe_start s = (pipe_end s + 1) mod PIPE_SIZE")
    case True
    with Cons.prems pipe_full_iff [OF Cons.prems(1)] show ?thesis by auto
  next
    case False
    define t where "t = s\<lparr>pipe_base := (pipe_base s)[pipe_end s := x], pipe_end := (pipe_end s + 1) mod PIPE_SIZE\<rparr>"
    note g = pipe_put [OF Cons.prems(1) False, of x, folded t_def]
    have l: "pipe_len t = Suc (pipe_len s)" using arg_cong [OF g(2), of length] by simp
    have c: "pipe_count t = pipe_count s" "pipe_start t = pipe_start s" "pipe_event t = pipe_event s" by (simp_all add: t_def)
    have room: "PIPE_SIZE - 1 - pipe_len s = Suc (PIPE_SIZE - 1 - pipe_len t)"
      using False pipe_full_iff [OF Cons.prems(1)] pipe_len_bound [OF Cons.prems(1)] l by auto
    show ?thesis
    proof (cases "k = 511")
      case True
      then have "k' = 512" "s' = t" using Cons.prems(2) False by (auto simp: Let_def t_def)
      with g c True room show ?thesis by auto
    next
      case k: False
      then have r: "write_bytes xs (k + 1) t = (k', s')"
        using Cons.prems(2) False by (simp add: Let_def t_def)
      have "k + 1 < 512" "512 - k = Suc (512 - (k + 1))" using k Cons.prems(3) by auto
      with Cons.IH [OF g(1) r] g(2) c room show ?thesis by (auto simp: min_def split: if_splits)
    qed
  qed
qed

lemma read_section_main:
  assumes "pipe_inv s" "read_section req b out s = (r, b', out', s')" "length out \<le> req"
  defines "m \<equiv> min (min (req - length out) 512) (length (pipe_contents s))"
  shows "pipe_inv s' \<and> out' = out @ take m (pipe_contents s) \<and> pipe_contents s' = drop m (pipe_contents s) \<and>
    pipe_count s' = pipe_count s \<and> r = (if pipe_count s \<noteq> 2 \<and> out' = [] then Some DE_EMPTY else None) \<and>
    (0 \<le> b \<longrightarrow> (b' < 0 \<longleftrightarrow> m = length (pipe_contents s) \<and> m < min (req - length out) 512))"
proof -
  obtain b1 out1 s1 where r: "read_bytes (req - length out) 0 b out s = (b1, out1, s1)" by (metis surj_pair)
  let ?t = "if pipe_count s1 \<noteq> 2 then s1\<lparr>pipe_event := True\<rparr> else s1"
  have e: "r = (if pipe_count ?t \<noteq> 2 \<and> out1 = [] then Some DE_EMPTY else None)" "b' = b1" "out' = out1" "s' = ?t"
    using assms(2) unfolding read_section_def r Let_def prod.case by blast+
  have t: "pipe_inv ?t = pipe_inv s1" "pipe_contents ?t = pipe_contents s1" "pipe_count ?t = pipe_count s1" by simp_all
  show ?thesis unfolding e t m_def using read_bytes_main [OF assms(1) r] by simp
qed

lemma read_rounds_stop:
  assumes "read_section req b out s = (r, b', out', s')" "\<not> (r = None \<and> b' \<ge> 0 \<and> length out' < req)"
  shows "read_rounds fuel req b out s = Some (case r of None \<Rightarrow> DE_SUCCESS | Some e \<Rightarrow> e, out', s')"
  using assms(2) by (subst read_rounds.simps) (auto simp: assms(1) split: option.splits)

lemma read_rounds_main:
  assumes "pipe_inv s" "0 \<le> b" "length out \<le> req" "req - length out \<le> fuel"
  shows "\<exists>s'. read_rounds fuel req b out s =
      Some (if pipe_count s \<noteq> 2 \<and> out @ take (req - length out) (pipe_contents s) = [] then DE_EMPTY else DE_SUCCESS,
        out @ take (req - length out) (pipe_contents s), s') \<and>
    pipe_inv s' \<and> pipe_contents s' = drop (req - length out) (pipe_contents s) \<and> pipe_count s' = pipe_count s"
  using assms
proof (induction fuel arbitrary: b out s)
  case 0
  obtain r b' out' s' where sec: "read_section req b out s = (r, b', out', s')" by (metis surj_pair)
  have l: "length out = req" using 0 by simp
  from read_section_main [OF 0(1) sec 0(3)] l have main: "pipe_inv s'" "out' = out"
    "pipe_contents s' = pipe_contents s" "pipe_count s' = pipe_count s"
    "r = (if pipe_count s \<noteq> 2 \<and> out = [] then Some DE_EMPTY else None)" by auto
  have "\<not> (r = None \<and> b' \<ge> 0 \<and> length out' < req)" using main(2) l by simp
  from read_rounds_stop [OF sec this, of 0] main l show ?case by auto
next
  case (Suc fuel)
  obtain r b' out' s' where sec: "read_section req b out s = (r, b', out', s')" by (metis surj_pair)
  define n where "n = req - length out"
  define c where "c = pipe_contents s"
  define m where "m = min (min n 512) (length c)"
  from read_section_main [OF Suc.prems(1) sec Suc.prems(3)] Suc.prems(2)
  have main: "pipe_inv s'" "out' = out @ take m c" "pipe_contents s' = drop m c"
    "pipe_count s' = pipe_count s" "r = (if pipe_count s \<noteq> 2 \<and> out' = [] then Some DE_EMPTY else None)"
    "b' < 0 \<longleftrightarrow> m = length c \<and> m < min n 512"
    unfolding m_def n_def c_def by auto
  show ?case
  proof (cases "r = None \<and> b' \<ge> 0 \<and> length out' < req")
    case True
    then have m: "m = 512" "512 < n" "512 \<le> length c"
      using main(2,6) Suc.prems(3) unfolding m_def n_def by (auto simp: min_def split: if_splits)
    have l: "length out' = length out + 512" using main(2) m by simp
    have "read_rounds (Suc fuel) req b out s = read_rounds fuel req b' out' s'"
      using True by (subst read_rounds.simps) (simp add: sec)
    moreover have "\<exists>t. read_rounds fuel req b' out' s' =
      Some (if pipe_count s' \<noteq> 2 \<and> out' @ take (req - length out') (pipe_contents s') = [] then DE_EMPTY else DE_SUCCESS,
        out' @ take (req - length out') (pipe_contents s'), t) \<and>
      pipe_inv t \<and> pipe_contents t = drop (req - length out') (pipe_contents s') \<and> pipe_count t = pipe_count s'"
      by (rule Suc.IH) (use main(1) True l Suc.prems in auto)
    moreover have "out' @ take (req - length out') (pipe_contents s') = out @ take n c"
      "drop (req - length out') (pipe_contents s') = drop n c"
    proof -
      have n: "req - length out' = n - 512" "n = 512 + (n - 512)" using l m(2) unfolding n_def by simp_all
      have "take 512 c @ take (n - 512) (drop 512 c) = take n c" unfolding take_add [symmetric] using n(2) by simp
      then show "out' @ take (req - length out') (pipe_contents s') = out @ take n c"
        unfolding n(1) unfolding main(2,3) m(1) by simp
      show "drop (req - length out') (pipe_contents s') = drop n c"
        unfolding main(3) n(1) m(1) drop_drop using n(2) by (simp add: add.commute)
    qed
    ultimately show ?thesis unfolding n_def [symmetric] c_def [symmetric] main(4) by simp
  next
    case False
    have t: "take m c = take n c" "drop m c = drop n c"
    proof -
      have "m = n \<or> m = length c \<and> length c \<le> n"
        using False main(2,5,6) Suc.prems(3) unfolding m_def n_def by (auto simp: min_def split: if_splits)
      then show "take m c = take n c" "drop m c = drop n c" by auto
    qed
    from read_rounds_stop [OF sec False, of "Suc fuel"] main t show ?thesis
      unfolding n_def [symmetric] c_def [symmetric] by auto
  qed
qed

lemma write_section_main:
  assumes "pipe_inv s" "write_section req xs s = (r, s')"
  defines "m \<equiv> min (min (length xs) 512) (PIPE_SIZE - 1 - pipe_len s)"
  shows "pipe_inv s' \<and> pipe_count s' = pipe_count s \<and>
    (if pipe_count s \<noteq> 2 then r = Write_return DE_PIPE \<and> s' = s
     else if req \<le> 512 \<and> req \<noteq> m then r = Write_return DE_RETRY \<and> pipe_contents s' = pipe_contents s
     else r = Write_next m \<and> pipe_contents s' = pipe_contents s @ take m xs)"
proof (cases "pipe_count s = 2")
  case False
  with assms show ?thesis by (simp add: write_section_def)
next
  case True
  obtain k t where w: "write_bytes xs 0 s = (k, t)" by fastforce
  from write_bytes_main [OF assms(1) w] have main: "pipe_inv t" "k = m" "pipe_contents t = pipe_contents s @ take m xs"
    "pipe_count t = pipe_count s" "pipe_start t = pipe_start s" unfolding m_def by auto
  have "pipe_inv (t\<lparr>pipe_end := pipe_end s\<rparr>)" using main(1) assms(1) by (simp add: pipe_inv_def)
  moreover have "pipe_contents (t\<lparr>pipe_end := pipe_end s\<rparr>) = pipe_contents s"
  proof -
    have l: "pipe_len (t\<lparr>pipe_end := pipe_end s\<rparr>) = pipe_len s" using main(5) by (simp add: pipe_len_def)
    have "pipe_len s \<le> pipe_len t" using arg_cong [OF main(3), of length] by simp
    then have "pipe_contents (t\<lparr>pipe_end := pipe_end s\<rparr>) = take (pipe_len s) (pipe_contents t)"
      unfolding pipe_contents_def l by (simp add: take_map min_def)
    then show ?thesis using main(3) by simp
  qed
  ultimately show ?thesis using True main assms(2) w by (auto simp: write_section_def Let_def)
qed

lemma write_rounds_large:
  assumes "pipe_inv s" "pipe_count s = 2" "512 < req" "xs \<noteq> []"
  defines "m \<equiv> min (length xs) (PIPE_SIZE - 1 - pipe_len s)"
  shows "\<exists>s'. write_rounds req sz xs s = (DE_SUCCESS, sz + m, s') \<and> pipe_inv s' \<and>
    pipe_contents s' = pipe_contents s @ take m xs \<and> pipe_count s' = 2"
  using assms(1-4) unfolding m_def
proof (induction "length xs" arbitrary: sz xs s rule: less_induct)
  case less
  obtain r s' where sec: "write_section req xs s = (r, s')" by fastforce
  define k where "k = min (min (length xs) 512) (PIPE_SIZE - 1 - pipe_len s)"
  from write_section_main [OF less.prems(1) sec] less.prems(2,3)
  have main: "pipe_inv s'" "pipe_count s' = 2" "r = Write_next k" "pipe_contents s' = pipe_contents s @ take k xs"
    unfolding k_def by auto
  have len: "pipe_len s' = pipe_len s + k"
    using arg_cong [OF main(4), of length] unfolding k_def by simp
  show ?case
  proof (cases "k = 0 \<or> drop k xs = []")
    case True
    then have "k = min (length xs) (PIPE_SIZE - 1 - pipe_len s)" using less.prems(4) unfolding k_def by auto
    moreover have "write_rounds req sz xs s = (DE_SUCCESS, sz + k, s')"
      using True by (subst write_rounds.simps) (auto simp: sec main(3))
    ultimately show ?thesis using main by simp
  next
    case False
    have "\<exists>t. write_rounds req (sz + k) (drop k xs) s' =
        (DE_SUCCESS, sz + k + min (length (drop k xs)) (PIPE_SIZE - 1 - pipe_len s'), t) \<and> pipe_inv t \<and>
        pipe_contents t = pipe_contents s' @ take (min (length (drop k xs)) (PIPE_SIZE - 1 - pipe_len s')) (drop k xs) \<and> pipe_count t = 2"
      by (rule less.hyps) (use False main(1,2) less.prems(3) in auto)
    moreover have "write_rounds req sz xs s = write_rounds req (sz + k) (drop k xs) s'"
      using False by (subst write_rounds.simps) (simp add: sec main(3))
    moreover have k: "k + min (length (drop k xs)) (PIPE_SIZE - 1 - pipe_len s') = min (length xs) (PIPE_SIZE - 1 - pipe_len s)"
      unfolding len k_def by (simp only: length_drop min_def) auto
    ultimately show ?thesis unfolding main(4) append_assoc take_add [symmetric] add.assoc k by simp
  qed
qed

subsection \<open>Pipes as queues\<close>

text \<open>
  The atomic steps: a round of a write for the rest \<open>xs\<close> of a request, with the number of
  bytes it commits; a round of a read that delivers \<open>ys\<close>; the release of a node that is not the
  last.
\<close>

definition pipe_write_step :: "u8 list \<Rightarrow> nat \<Rightarrow> pipe_shared \<Rightarrow> pipe_shared \<Rightarrow> bool" where
  "pipe_write_step xs n s s' \<longleftrightarrow> (\<exists>req r. write_section req xs s = (r, s') \<and>
    n = (case r of Write_next k \<Rightarrow> k | Write_return _ \<Rightarrow> 0))"

definition pipe_read_step :: "u8 list \<Rightarrow> pipe_shared \<Rightarrow> pipe_shared \<Rightarrow> bool" where
  "pipe_read_step ys s s' \<longleftrightarrow> (\<exists>req b out r b'. length out \<le> req \<and> read_section req b out s = (r, b', out @ ys, s'))"

definition pipe_release_step :: "pipe_shared \<Rightarrow> pipe_shared \<Rightarrow> bool" where
  "pipe_release_step s s' \<longleftrightarrow> (\<exists>last_reference. n_release last_reference s = Some s')"

interpretation pipe: fifo pipe_inv pipe_contents pipe_write_step pipe_read_step pipe_release_step
proof
  fix s s' :: pipe_shared and xs n
  assume inv: "pipe_inv s" and "pipe_write_step xs n s s'"
  then obtain req r where "write_section req xs s = (r, s')" "n = (case r of Write_next k \<Rightarrow> k | Write_return _ \<Rightarrow> 0)"
    by (auto simp: pipe_write_step_def)
  with write_section_main [OF inv, of req xs r s'] show "pipe_inv s' \<and> pipe_contents s' = pipe_contents s @ take n xs"
    by (auto split: if_splits)
next
  fix s s' :: pipe_shared and ys
  assume inv: "pipe_inv s" and "pipe_read_step ys s s'"
  then obtain req b out r b' where l: "length out \<le> req" and r: "read_section req b out s = (r, b', out @ ys, s')"
    by (auto simp: pipe_read_step_def)
  from read_section_main [OF inv r l] show "pipe_inv s' \<and> pipe_contents s = ys @ pipe_contents s'" by auto
next
  fix s s' :: pipe_shared
  assume "pipe_inv s" "pipe_release_step s s'"
  then show "pipe_inv s' \<and> pipe_contents s' = pipe_contents s"
    by (auto simp: pipe_release_step_def n_release_def Let_def split: if_splits)
qed

subsection \<open>Properties\<close>

definition pipe_example :: pipe_shared where
  "pipe_example = \<lparr>pipe_event = False, pipe_count = 2, pipe_start = 0, pipe_end = 0, pipe_base = replicate PIPE_SIZE 0\<rparr>"

lemma pipe_example_facts: "pipe_inv pipe_example" "pipe_contents pipe_example = []" "pipe_count pipe_example = 2"
  "pipe_len pipe_example = 0"
  by (simp_all add: pipe_example_def pipe_inv_def pipe_contents_def pipe_len_def PIPE_SIZE_def)

text \<open>
  C3. For every interleaving of read rounds, write rounds and releases of a node on a pipe that
  \<^verbatim>\<open>vfs_pipe\<close> created, the bytes delivered to readers followed by the bytes in the ring
  buffer are exactly the bytes that writers were told are written, in order.
\<close>

theorem pipe_fifo:
  assumes "vfs_pipe shared_ok event_ok read_ok write_ok = (DE_SUCCESS, Some (r, w, s0))"
    and "fifo_run pipe_write_step pipe_read_step pipe_release_step s0 s written readout"
  shows "written = readout @ pipe_contents s \<and> length (pipe_contents s) < PIPE_SIZE"
proof -
  have s0: "s0 = pipe_example"
    using assms(1) by (auto simp: vfs_pipe_def Let_def pipe_example_def split: if_splits option.splits bool.splits)
  from pipe.run_order [OF assms(2)] have "pipe_inv s" "written = readout @ pipe_contents s"
    unfolding s0 using pipe_example_facts by auto
  with pipe_len_bound [of s] show ?thesis by simp
qed

theorem pipe_fifo_witness:
  "\<exists>s. fifo_run pipe_write_step pipe_read_step pipe_release_step pipe_example s [1, 2, 3] [1, 2] \<and> pipe_contents s = [3]"
proof -
  have c: "vfs_pipe True True True True = (DE_SUCCESS, Some (pipe_type_read, pipe_type_write, pipe_example))"
    by (simp add: vfs_pipe_def alloc_node_def pipe_example_def)
  obtain r s1 where w: "write_section 3 [1, 2, 3] pipe_example = (r, s1)" by fastforce
  from write_section_main [OF pipe_example_facts(1) w] pipe_example_facts
  have s1: "r = Write_next 3" "pipe_inv s1" "pipe_contents s1 = [1, 2, 3]" by (auto simp: PIPE_SIZE_def)
  have "pipe_write_step [1, 2, 3] 3 pipe_example s1" unfolding pipe_write_step_def using w s1(1) by (intro exI [of _ 3] exI [of _ r]) simp
  then have "fifo_run pipe_write_step pipe_read_step pipe_release_step pipe_example s1 ([] @ take 3 [1, 2, 3]) []"
    by (rule fifo_run.wrote [where put = pipe_write_step, OF fifo_run.started])
  then have f1: "fifo_run pipe_write_step pipe_read_step pipe_release_step pipe_example s1 [1, 2, 3] []" by simp
  obtain q b' out' s2 where rd: "read_section 2 0 [] s1 = (q, b', out', s2)" by (metis surj_pair)
  from read_section_main [OF s1(2) rd] s1(3) have "out' = [1, 2]" by auto
  then have "pipe_read_step [1, 2] s1 s2" using rd unfolding pipe_read_step_def
    by (intro exI [of _ 2] exI [of _ 0] exI [of _ "[]"] exI [of _ q] exI [of _ b']) simp
  then have "fifo_run pipe_write_step pipe_read_step pipe_release_step pipe_example s2 [1, 2, 3] ([] @ [1, 2])"
    by (rule fifo_run.got [where get = pipe_read_step, OF f1])
  then have f2: "fifo_run pipe_write_step pipe_read_step pipe_release_step pipe_example s2 [1, 2, 3] [1, 2]" by simp
  with pipe_fifo [OF c f2] show ?thesis by auto
qed

lemma n_write_main:
  assumes "pipe_inv s"
  defines "free \<equiv> PIPE_SIZE - 1 - length (pipe_contents s)"
  shows "\<exists>err k s'. n_write pipe_type_write xs s = (err, k, s') \<and> pipe_inv s' \<and> pipe_count s' = pipe_count s \<and>
    pipe_contents s' = pipe_contents s @ take k xs \<and>
    (if pipe_count s \<noteq> 2 then err = DE_PIPE \<and> k = 0
     else if length xs \<le> 512 \<and> free < length xs then err = DE_RETRY \<and> k = 0
     else err = DE_SUCCESS \<and> k = min (length xs) free)"
proof -
  have fr: "free = PIPE_SIZE - 1 - pipe_len s" by (simp add: free_def)
  obtain r s1 where sec: "write_section (length xs) xs s = (r, s1)" by fastforce
  note main = write_section_main [OF assms(1) sec, folded fr]
  consider "pipe_count s \<noteq> 2" | "pipe_count s = 2" "512 < length xs" | "pipe_count s = 2" "length xs \<le> 512" by linarith
  then show ?thesis
  proof cases
    case 1
    with main have "r = Write_return DE_PIPE" "s1 = s" by auto
    with 1 assms(1) show ?thesis by (simp add: n_write_def write_rounds.simps [of _ _ xs s] sec)
  next
    case 2
    then have "xs \<noteq> []" by auto
    with write_rounds_large [OF assms(1) 2 this, of 0] 2 show ?thesis by (auto simp: n_write_def fr)
  next
    case 3
    show ?thesis
    proof (cases "free < length xs")
      case True
      with 3 main have "r = Write_return DE_RETRY" "pipe_contents s1 = pipe_contents s" "pipe_inv s1" "pipe_count s1 = 2" by auto
      with 3 True show ?thesis by (simp add: n_write_def write_rounds.simps [of _ _ xs s] sec)
    next
      case False
      with 3 main have "r = Write_next (length xs)" "pipe_contents s1 = pipe_contents s @ xs" "pipe_inv s1" "pipe_count s1 = 2"
        by (auto simp: min_def split: if_splits)
      with 3 False show ?thesis by (auto simp: n_write_def write_rounds.simps [of _ _ xs s] sec)
    qed
  qed
qed

text \<open>
  C20. A write of at most 512 bytes to an open pipe is atomic: either all bytes are appended and
  its size is reported, or, exactly when they do not fit, the contents stay as they were and the
  caller is told to retry. A larger write appends as many bytes as fit. With one side closed
  nothing is written.
\<close>

theorem n_write_correct:
  assumes "pipe_inv s"
  defines "free \<equiv> PIPE_SIZE - 1 - length (pipe_contents s)"
  shows "\<exists>err k s'. n_write pipe_type_write xs s = (err, k, s') \<and> pipe_inv s' \<and> pipe_count s' = pipe_count s \<and>
    pipe_contents s' = pipe_contents s @ take k xs \<and>
    (if pipe_count s \<noteq> 2 then err = DE_PIPE \<and> k = 0
     else if length xs \<le> 512 \<and> free < length xs then err = DE_RETRY \<and> k = 0
     else err = DE_SUCCESS \<and> k = min (length xs) free)"
  unfolding free_def by (rule n_write_main [OF assms(1)])

theorem n_write_correct_witness:
  "\<exists>s'. n_write pipe_type_write [1, 2, 3] pipe_example = (DE_SUCCESS, 3, s') \<and> pipe_contents s' = [1, 2, 3]"
  using n_write_correct [OF pipe_example_facts(1), of "[1, 2, 3]"] pipe_example_facts by (auto simp: PIPE_SIZE_def)

text \<open>
  C21. A read returns, delivers the first bytes of the pipe, as many as were asked for and are
  there, and removes exactly these; it reports an empty pipe when it delivers nothing and a side
  is closed. The result does not depend on how the request is split into rounds.
\<close>

theorem n_read_correct:
  assumes "pipe_inv s"
  shows "\<exists>s'. n_read pipe_type_read n s =
      Some (if pipe_count s \<noteq> 2 \<and> take n (pipe_contents s) = [] then DE_EMPTY else DE_SUCCESS, take n (pipe_contents s), s') \<and>
    pipe_inv s' \<and> pipe_contents s' = drop n (pipe_contents s) \<and> pipe_count s' = pipe_count s"
  using read_rounds_main [OF assms, of 0 "[]" n n] by (simp add: n_read_def)

theorem n_read_correct_witness:
  "\<exists>s s'. n_read pipe_type_read 2 s = Some (DE_SUCCESS, [1, 2], s') \<and> pipe_contents s' = [3]"
proof -
  obtain s where s: "pipe_inv s" "pipe_contents s = [1, 2, 3]" "pipe_count s = 2"
    using write_section_main [OF pipe_example_facts(1) prod.collapse [symmetric], of 3 "[1, 2, 3]"] pipe_example_facts
    by (auto simp: PIPE_SIZE_def)
  from n_read_correct [OF s(1), of 2] s show ?thesis by auto
qed

text \<open>
  C22. \<^verbatim>\<open>n_poll\<close> reports a readable pipe exactly when it holds a byte, which a read then delivers, and a
  writable one exactly when fewer than 2048 bytes wait, half of the buffer. It does not look at the number of open
  sides: when it reports a writable pipe, a write of at most 512 bytes never has to be retried, but it succeeds only
  while both sides are open and reports the broken pipe otherwise.
\<close>

theorem n_poll_correct:
  assumes "pipe_inv s"
  shows "(n_poll pipe_type_read POLLIN s = POLLIN \<longleftrightarrow> pipe_contents s \<noteq> []) \<and>
    (n_poll pipe_type_write POLLOUT s = POLLOUT \<longleftrightarrow> length (pipe_contents s) < 2048) \<and>
    (n_poll pipe_type_write POLLOUT s = POLLOUT \<longrightarrow> length xs \<le> 512 \<longrightarrow>
      (\<exists>s'. n_write pipe_type_write xs s =
        (if pipe_count s = 2 then (DE_SUCCESS, length xs, s') else (DE_PIPE, 0, s')) \<and>
        pipe_contents s' = pipe_contents s @ (if pipe_count s = 2 then xs else [])))"
proof -
  have "n_poll pipe_type_read POLLIN s = POLLIN \<longleftrightarrow> pipe_start s \<noteq> pipe_end s"
    by (auto simp: n_poll_def Let_def POLLIN_def POLLRDNORM_def)
  moreover have out: "n_poll pipe_type_write POLLOUT s = POLLOUT \<longleftrightarrow> pipe_len s < 2048"
  proof -
    have "(if int (pipe_end s) - int (pipe_start s) < 0 then int PIPE_SIZE + int (pipe_end s) - int (pipe_start s)
        else int (pipe_end s) - int (pipe_start s)) = int (pipe_len s)"
      using assms by (auto simp: pipe_len_def pipe_inv_def)
    then show ?thesis by (simp add: n_poll_def Let_def POLLOUT_def POLLWRNORM_def PIPE_SIZE_def)
  qed
  moreover have "\<exists>s'. n_write pipe_type_write xs s =
        (if pipe_count s = 2 then (DE_SUCCESS, length xs, s') else (DE_PIPE, 0, s')) \<and>
        pipe_contents s' = pipe_contents s @ (if pipe_count s = 2 then xs else [])"
    if "pipe_len s < 2048" "length xs \<le> 512"
    using n_write_main [OF assms, of xs] that by (auto simp: PIPE_SIZE_def)
  ultimately show ?thesis using pipe_empty_iff [OF assms] by auto
qed

theorem n_poll_correct_witness:
  "n_poll pipe_type_read POLLIN pipe_example \<noteq> POLLIN \<and> n_poll pipe_type_write POLLOUT pipe_example = POLLOUT \<and>
    (\<exists>s'. n_write pipe_type_write [7] pipe_example = (DE_SUCCESS, 1, s') \<and> pipe_contents s' = [7])"
  using n_poll_correct [OF pipe_example_facts(1), of "[7]"] pipe_example_facts by simp

end
