(* ===== verification/Bitarray.thy ===== *)
theory Bitarray
  imports Prelude
begin

text \<open>
  The bit stream of the compression code, \<^verbatim>\<open>src/kernel/lib/bitarray.c\<close> (the copy in
  \<^verbatim>\<open>src/tools/dy-zip\<close> differs in comments only). The data pointer is a position in a
  buffer: \<open>ba_done\<close> are the bytes before it and \<open>ba_data\<close> the bytes from it on; the null
  pointer is the empty buffer. The callback is an argument of the functions that call it. Sizes and
  the bit states are naturals: the decrements that wrap at zero are always overwritten.
\<close>

record bitarray =
  ba_done :: "u8 list"
  ba_data :: "u8 list"
  ba_size :: nat
  ba_state0 :: nat
  ba_state1 :: nat
  ba_written :: nat

type_synonym ba_callback = "bitarray \<Rightarrow> int \<times> bitarray"

definition default_callback :: ba_callback where
  "default_callback b = (-1, b)"

definition bitarray_init :: "u8 list \<Rightarrow> nat \<Rightarrow> bitarray" where
  "bitarray_init data sz =
    \<lparr>ba_done = [], ba_data = (if sz \<noteq> 0 then data else []), ba_size = sz, ba_state0 = 0, ba_state1 = 0, ba_written = 0\<rparr>"

definition bitarray_clear :: "bitarray \<Rightarrow> bitarray" where
  "bitarray_clear b = b\<lparr>ba_done := [], ba_data := [], ba_size := 0, ba_state0 := 0, ba_state1 := 0\<rparr>"

text \<open>The step that both the fetch loop and the Huffman decoder take to refill the bit state.\<close>

definition ba_refill :: "bitarray \<Rightarrow> bitarray" where
  "ba_refill b = b\<lparr>ba_size := ba_size b - 1, ba_state0 := 8, ba_state1 := unat (hd (ba_data b)),
    ba_done := ba_done b @ [hd (ba_data b)], ba_data := tl (ba_data b)\<rparr>"

function fetch_loop :: "ba_callback \<Rightarrow> nat \<Rightarrow> nat \<Rightarrow> nat \<Rightarrow> bitarray \<Rightarrow> int \<times> bitarray" where
  "fetch_loop cb bits n ret b =
    (if n < bits then
       if ba_state0 b \<noteq> 0 then
         fetch_loop cb bits (n + 1) (ret OR push_bit n (ba_state1 b AND 1))
           (b\<lparr>ba_state0 := ba_state0 b - 1, ba_state1 := drop_bit 1 (ba_state1 b)\<rparr>)
       else if ba_size b \<noteq> 0 then fetch_loop cb bits n ret (ba_refill b)
       else
         (case cb (bitarray_clear b) of
            (r, b) \<Rightarrow> if r \<noteq> 0 \<or> ba_size b = 0 then (-1, b) else fetch_loop cb bits n ret b)
     else (int (ret AND 0x7FFFFFFF), b))"
  by pat_completeness auto
termination
  by (relation "measures [\<lambda>(cb, bits, n, ret, b). bits - n,
      \<lambda>(cb, bits, n, ret, b). if ba_state0 b \<noteq> 0 then 0 else if ba_size b \<noteq> 0 then 1 else 2]")
    (auto simp: ba_refill_def)

declare fetch_loop.simps [simp del]

definition bitarray_fetch :: "ba_callback \<Rightarrow> bitarray \<Rightarrow> nat \<Rightarrow> int \<times> bitarray" where
  "bitarray_fetch cb b bits = fetch_loop cb bits 0 0 b"

definition bitarray_aligned_fetch :: "ba_callback \<Rightarrow> bitarray \<Rightarrow> nat \<Rightarrow> u8 list \<times> int \<times> bitarray" where
  "bitarray_aligned_fetch cb b bits =
    (let b = (if ba_state0 b \<noteq> 0 then b\<lparr>ba_state0 := 0, ba_state1 := 0\<rparr> else b)
     in (ba_data b, bitarray_fetch cb b bits))"

fun shove_loop :: "ba_callback \<Rightarrow> nat \<Rightarrow> nat \<Rightarrow> bitarray \<Rightarrow> int \<times> bitarray" where
  "shove_loop cb 0 val b = (0, b)"
| "shove_loop cb (Suc n) val b =
    (let b = b\<lparr>ba_state1 := ba_state1 b OR push_bit (ba_state0 b) (val AND 1), ba_state0 := ba_state0 b + 1\<rparr>;
         val = drop_bit 1 val
     in
     if ba_state0 b < 8 then shove_loop cb n val b
     else
       let (failed, b) =
         (if ba_size b = 0 then
            let t = ba_state1 b in
            case cb (bitarray_clear b) of
              (r, b) \<Rightarrow> if r \<noteq> 0 \<or> ba_size b = 0 then (True, b) else (False, b\<lparr>ba_state1 := t\<rparr>)
          else (False, b))
       in
       if failed then (-1, b)
       else
         shove_loop cb n val
           (b\<lparr>ba_done := ba_done b @ [word_of_nat (ba_state1 b)], ba_data := tl (ba_data b), ba_state0 := 0, ba_state1 := 0,
              ba_written := ba_written b + 1, ba_size := ba_size b - 1\<rparr>))"

definition bitarray_shove :: "ba_callback \<Rightarrow> bitarray \<Rightarrow> nat \<Rightarrow> nat \<Rightarrow> int \<times> bitarray" where
  "bitarray_shove cb b bits val = shove_loop cb bits val b"

text \<open>The result, the number of bytes written, and the stream.\<close>

definition bitarray_written :: "ba_callback \<Rightarrow> bitarray \<Rightarrow> int \<times> nat \<times> bitarray" where
  "bitarray_written cb b =
    (let bits = (if ba_state0 b \<noteq> 0 then 8 - ba_state0 b else 0) in
     case bitarray_shove cb b bits 0 of (ret, b) \<Rightarrow> (ret, ba_written b, b))"

subsection \<open>Reading bits\<close>

definition nat_bits :: "nat \<Rightarrow> nat \<Rightarrow> bool list" where
  "nat_bits n v = map (bit v) [0..<n]"

definition byte_bits :: "u8 \<Rightarrow> bool list" where
  "byte_bits w = nat_bits 8 (unat w)"

text \<open>The bits still to be read, the next first.\<close>

definition read_bits :: "bitarray \<Rightarrow> bool list" where
  "read_bits b = nat_bits (ba_state0 b) (ba_state1 b) @ concat (map byte_bits (take (ba_size b) (ba_data b)))"

definition read_ok :: "bitarray \<Rightarrow> bool" where
  "read_ok b \<longleftrightarrow> ba_size b \<le> length (ba_data b) \<and> ba_state0 b \<le> 8"

lemma length_nat_bits [simp]: "length (nat_bits n v) = n"
  by (simp add: nat_bits_def)

lemma nat_bits_0 [simp]: "nat_bits 0 v = []"
  by (simp add: nat_bits_def)

lemma nat_bits_Suc: "nat_bits (Suc n) v = odd v # nat_bits n (drop_bit 1 v)"
  by (simp add: nat_bits_def upt_conv_Cons map_Suc_upt [symmetric] bit_drop_bit_eq bit_0 del: upt_Suc)

lemma and_one_odd: "v AND 1 = of_bool (odd v)" for v :: nat
  by (simp add: and_one_eq mod_2_eq_odd)

text \<open>One turn of a reading loop: from a state with bits left, after a refill if needed.\<close>

definition ba_step :: "bitarray \<Rightarrow> bitarray" where
  "ba_step b = (let b = (if ba_state0 b \<noteq> 0 then b else ba_refill b)
    in b\<lparr>ba_state0 := ba_state0 b - 1, ba_state1 := drop_bit 1 (ba_state1 b)\<rparr>)"

lemma read_bits_refill:
  assumes "read_ok b" "ba_state0 b = 0" "ba_size b \<noteq> 0"
  shows "read_bits (ba_refill b) = read_bits b" "read_ok (ba_refill b)" "ba_state0 (ba_refill b) = 8"
proof -
  from assms obtain w ws n where w: "ba_data b = w # ws" "ba_size b = Suc n"
    by (cases "ba_data b"; cases "ba_size b") (auto simp: read_ok_def)
  with assms show "read_bits (ba_refill b) = read_bits b" "read_ok (ba_refill b)" "ba_state0 (ba_refill b) = 8"
    by (simp_all add: read_bits_def ba_refill_def byte_bits_def read_ok_def)
qed

lemma read_bits_step:
  assumes "read_ok b" "read_bits b = x # xs"
  shows "read_ok (ba_step b)" "read_bits (ba_step b) = xs"
    "ba_state1 (if ba_state0 b \<noteq> 0 then b else ba_refill b) AND 1 = of_bool x"
    "ba_state0 b \<noteq> 0 \<or> ba_size b \<noteq> 0"
proof -
  show ne: "ba_state0 b \<noteq> 0 \<or> ba_size b \<noteq> 0" using assms(2) by (cases "ba_state0 b = 0"; cases "ba_size b = 0") (auto simp: read_bits_def)
  define c where "c = (if ba_state0 b \<noteq> 0 then b else ba_refill b)"
  have c: "read_ok c" "read_bits c = x # xs" "ba_state0 c \<noteq> 0"
    using read_bits_refill [OF assms(1)] assms ne unfolding c_def by auto
  then obtain n where n: "ba_state0 c = Suc n" by (cases "ba_state0 c") auto
  have st: "ba_step b = c\<lparr>ba_state0 := ba_state0 c - 1, ba_state1 := drop_bit 1 (ba_state1 c)\<rparr>"
    by (simp add: ba_step_def c_def Let_def)
  from c(2) n have e: "odd (ba_state1 c) = x" "nat_bits n (drop_bit 1 (ba_state1 c)) @ concat (map byte_bits (take (ba_size c) (ba_data c))) = xs"
    by (simp_all add: read_bits_def nat_bits_Suc)
  show "read_ok (ba_step b)" "read_bits (ba_step b) = xs"
    using c(1) n e(2) unfolding st by (simp_all add: read_ok_def read_bits_def)
  show "ba_state1 (if ba_state0 b \<noteq> 0 then b else ba_refill b) AND 1 = of_bool x"
    unfolding c_def [symmetric] and_one_odd e(1) ..
qed

lemma fetch_loop_step:
  assumes "read_ok b" "read_bits b = x # xs" "n < bits"
  shows "fetch_loop cb bits n ret b = fetch_loop cb bits (n + 1) (ret OR push_bit n (of_bool x)) (ba_step b)"
proof -
  note st = read_bits_step [OF assms(1,2)]
  show ?thesis
  proof (cases "ba_state0 b = 0")
    case False
    with st(3) assms(3) show ?thesis by (subst fetch_loop.simps) (simp add: ba_step_def Let_def)
  next
    case True
    with st(4) have s: "ba_size b \<noteq> 0" by simp
    have "fetch_loop cb bits n ret b = fetch_loop cb bits n ret (ba_refill b)"
      using True s assms(3) by (subst fetch_loop.simps) simp
    also have "\<dots> = fetch_loop cb bits (n + 1) (ret OR push_bit n (of_bool x)) (ba_step b)"
      using True st(3) assms(3) read_bits_refill(3) [OF assms(1) True s]
      by (subst fetch_loop.simps) (simp add: ba_step_def Let_def)
    finally show ?thesis .
  qed
qed

text \<open>The number whose binary digits are given, the lowest first.\<close>

definition bits_val :: "bool list \<Rightarrow> nat" where
  "bits_val bs = horner_sum of_bool 2 bs"

lemma bits_val_simps [simp]: "bits_val [] = 0" "bits_val (b # bs) = of_bool b + 2 * bits_val bs"
  by (simp_all add: bits_val_def)

lemma bits_val_bound: "bits_val bs < 2 ^ length bs"
  by (induction bs) (auto split: if_splits)

lemma bits_val_nat_bits: "bits_val (nat_bits n v) = v mod 2 ^ n"
proof (induction n arbitrary: v)
  case (Suc n)
  have "v mod 2 ^ Suc n = v mod 2 + 2 * (v div 2 mod 2 ^ n)"
    by (simp add: mod_mult2_eq)
  moreover have "v mod 2 = of_bool (odd v)" by (simp add: mod_2_eq_odd)
  ultimately show ?case by (simp add: nat_bits_Suc Suc drop_bit_eq_div)
qed simp

lemma fetch_loop_main:
  assumes "read_ok b" "n \<le> bits" "bits - n \<le> length (read_bits b)" "ret < 2 ^ n"
  shows "\<exists>b'. fetch_loop cb bits n ret b =
      (int ((ret + 2 ^ n * bits_val (take (bits - n) (read_bits b))) AND 0x7FFFFFFF), b') \<and>
    read_ok b' \<and> read_bits b' = drop (bits - n) (read_bits b)"
  using assms
proof (induction "bits - n" arbitrary: n ret b)
  case 0
  then show ?case by (subst fetch_loop.simps) simp
next
  case (Suc m)
  then obtain x xs where x: "read_bits b = x # xs" by (cases "read_bits b") auto
  have n: "n < bits" "bits - n = Suc (bits - (n + 1))" using Suc by simp_all
  note st = read_bits_step [OF Suc.prems(1) x]
  let ?r = "ret OR push_bit n (of_bool x)"
  have r: "?r = ret + 2 ^ n * of_bool x" by (rule or_push_bit [OF Suc.prems(4)])
  have "\<exists>b'. fetch_loop cb bits (n + 1) ?r (ba_step b) =
      (int ((?r + 2 ^ (n + 1) * bits_val (take (bits - (n + 1)) (read_bits (ba_step b)))) AND 0x7FFFFFFF), b') \<and>
    read_ok b' \<and> read_bits b' = drop (bits - (n + 1)) (read_bits (ba_step b))"
    by (rule Suc.hyps(1)) (use Suc st x r n in \<open>auto split: if_splits\<close>)
  moreover have "?r + 2 ^ (n + 1) * bits_val (take (bits - (n + 1)) xs) = ret + 2 ^ n * bits_val (take (bits - n) (x # xs))"
    unfolding r n(2) by (simp add: algebra_simps)
  ultimately show ?case
    unfolding fetch_loop_step [OF Suc.prems(1) x n(1)] st(2) x by (simp add: n(2))
qed

lemma bitarray_fetch_main:
  assumes "read_ok b" "bits \<le> length (read_bits b)" "bits \<le> 31"
  shows "\<exists>b'. bitarray_fetch cb b bits = (int (bits_val (take bits (read_bits b))), b') \<and>
    read_ok b' \<and> read_bits b' = drop bits (read_bits b)"
proof -
  have "bits_val (take bits (read_bits b)) < 2 ^ bits" using bits_val_bound [of "take bits (read_bits b)"] assms(2) by simp
  also have "(2::nat) ^ bits \<le> 2 ^ 31" using assms(3) by (intro power_increasing) simp_all
  finally have "bits_val (take bits (read_bits b)) AND 0x7FFFFFFF = bits_val (take bits (read_bits b))"
    using and_mask_nat_eq [of "0x7FFFFFFF" 31 "2 ^ 31"] by simp
  with fetch_loop_main [OF assms(1), of 0 bits 0 cb] assms(2) show ?thesis by (simp add: bitarray_fetch_def)
qed

subsection \<open>Writing bits\<close>

text \<open>All bits stored so far, those of the unfinished byte last.\<close>

definition written_bits :: "bitarray \<Rightarrow> bool list" where
  "written_bits b = concat (map byte_bits (ba_done b)) @ nat_bits (ba_state0 b) (ba_state1 b)"

definition write_ok :: "bitarray \<Rightarrow> bool" where
  "write_ok b \<longleftrightarrow> ba_size b = length (ba_data b) \<and> ba_state0 b < 8 \<and> ba_state1 b < 2 ^ ba_state0 b \<and>
    ba_written b = length (ba_done b)"

lemma nat_bits_snoc: "v < 2 ^ n \<Longrightarrow> nat_bits (Suc n) (v + 2 ^ n * of_bool x) = nat_bits n v @ [x]"
proof (induction n arbitrary: v)
  case 0
  then show ?case by (simp add: nat_bits_Suc)
next
  case (Suc n)
  have d: "drop_bit 1 (v + 2 ^ Suc n * of_bool x) = v div 2 + 2 ^ n * of_bool x" by (simp add: drop_bit_eq_div)
  have "v div 2 < 2 ^ n" using Suc.prems by (simp add: less_mult_imp_div_less)
  from Suc.IH [OF this] show ?case
    by (subst (1 2) nat_bits_Suc) (simp only: d append_Cons, simp add: drop_bit_eq_div)
qed

lemma length_byte_bits [simp]: "length (byte_bits w) = 8"
  by (simp add: byte_bits_def)

lemma length_concat_byte_bits: "length (concat (map byte_bits ws)) = 8 * length ws"
  by (induction ws) simp_all

lemma length_written_bits: "write_ok b \<Longrightarrow> length (written_bits b) = 8 * ba_written b + ba_state0 b"
  by (simp add: written_bits_def write_ok_def length_concat_byte_bits)

text \<open>
  Shoving with the default callback appends the bits of the value, lowest first; when the buffer
  is full it fails, which happens only for bits that do not fit, and leaves a stream that has written as many
  bytes as the buffer has.
\<close>

lemma shove_loop_main:
  assumes "write_ok b"
  shows "(\<exists>b'. shove_loop default_callback n v b = (0, b') \<and> write_ok b' \<and>
      written_bits b' = written_bits b @ nat_bits n v \<and>
      ba_written b' + ba_size b' = ba_written b + ba_size b) \<or>
    (\<exists>b'. shove_loop default_callback n v b = (-1, b') \<and> ba_state0 b' = 0 \<and> ba_state1 b' = 0 \<and> ba_size b' = 0 \<and>
      ba_written b' = ba_written b + ba_size b \<and> 8 * (ba_written b + ba_size b) + 8 \<le> length (written_bits b) + n)"
  using assms
proof (induction n arbitrary: v b)
  case 0
  then show ?case by (simp add: nat_bits_def)
next
  case (Suc n)
  let ?k = "ba_state0 b" and ?s = "ba_state1 b" and ?x = "odd v"
  define s1 where "s1 = ?s + 2 ^ ?k * of_bool ?x"
  have ok: "ba_size b = length (ba_data b)" "?k < 8" "?s < 2 ^ ?k" "ba_written b = length (ba_done b)"
    using Suc.prems by (auto simp: write_ok_def)
  have s1: "?s OR push_bit ?k (v AND 1) = s1" unfolding and_one_odd s1_def by (rule or_push_bit [OF ok(3)])
  have b1: "s1 < 2 ^ Suc ?k" using ok(3) by (auto simp: s1_def)
  have sn: "nat_bits (Suc ?k) s1 = nat_bits ?k ?s @ [?x]" unfolding s1_def by (rule nat_bits_snoc [OF ok(3)])
  define c where "c = b\<lparr>ba_state1 := s1, ba_state0 := ?k + 1\<rparr>"
  have step: "shove_loop default_callback (Suc n) v b =
      (if ba_state0 c < 8 then shove_loop default_callback n (drop_bit 1 v) c
       else if ba_size b = 0 then (-1, bitarray_clear c)
       else shove_loop default_callback n (drop_bit 1 v)
         (c\<lparr>ba_done := ba_done c @ [word_of_nat s1], ba_data := tl (ba_data c), ba_state0 := 0, ba_state1 := 0,
            ba_written := ba_written c + 1, ba_size := ba_size c - 1\<rparr>))"
    unfolding shove_loop.simps s1 c_def by (simp add: Let_def default_callback_def bitarray_clear_def)
  consider "?k + 1 < 8" | "?k = 7" "ba_size b = 0" | "?k = 7" "ba_size b \<noteq> 0" using ok(2) by linarith
  then show ?case
  proof cases
    case 1
    have "write_ok c" using ok b1 1 by (simp add: write_ok_def c_def)
    moreover have "written_bits c = written_bits b @ [?x]" using sn by (simp add: written_bits_def c_def)
    moreover have "ba_written c = ba_written b" "ba_size c = ba_size b" "ba_done c = ba_done b" "ba_data c = ba_data b"
      "ba_state0 c < 8" using 1 by (simp_all add: c_def)
    ultimately show ?thesis using Suc.IH [of c "drop_bit 1 v"] unfolding step nat_bits_Suc by auto
  next
    case 2
    then show ?thesis unfolding step using ok length_written_bits [OF Suc.prems] by (auto simp: c_def bitarray_clear_def)
  next
    case 3
    let ?d = "c\<lparr>ba_done := ba_done c @ [word_of_nat s1], ba_data := tl (ba_data c), ba_state0 := 0, ba_state1 := 0,
            ba_written := ba_written c + 1, ba_size := ba_size c - 1\<rparr>"
    have "write_ok ?d" using ok 3 by (simp add: write_ok_def c_def)
    moreover have "unat (word_of_nat s1 :: u8) = s1" using b1 3 by (simp add: unat_of_nat take_bit_eq_mod)
    then have "written_bits ?d = written_bits b @ [?x]"
      using sn 3(1) by (simp add: written_bits_def c_def byte_bits_def)
    ultimately show ?thesis using Suc.IH [of ?d "drop_bit 1 v"] 3 unfolding step nat_bits_Suc by (auto simp: c_def)
  qed
qed

end
