(* ===== verification/Huffman.thy ===== *)
theory Huffman
  imports Bitarray
begin

text \<open>
  Canonical Huffman codes, \<^verbatim>\<open>src/kernel/lib/huffman.c\<close>: the tables built in place from
  code lengths, the bit-by-bit decoder and the encoder table. Loops are recursions over the number
  of rounds left. Table entries and code values are naturals; with at most 15-bit codes and
  fewer than \<open>2 ^ 28\<close> symbols they stay below \<open>2 ^ 32\<close>.
\<close>

record huffman =
  hf_lengths :: "nat list"
  hf_symbols :: "nat list"
  hf_completed :: bool

fun count_lengths :: "nat list \<Rightarrow> nat list \<Rightarrow> (bool \<times> nat list)" where
  "count_lengths [] lengths = (True, lengths)"
| "count_lengths (len # symbols) lengths =
    (if len > 15 then (False, lengths)
     else count_lengths symbols (lengths[len := lengths ! len + 1]))"

fun check_lengths :: "nat list \<Rightarrow> int \<Rightarrow> int option" where
  "check_lengths [] t = Some t"
| "check_lengths (len # lengths) t =
    (let t = t * 2 - int len in if t < 0 then None else check_lengths lengths t)"

fun offset_loop :: "nat \<Rightarrow> nat \<Rightarrow> nat list \<Rightarrow> nat list \<Rightarrow> nat list" where
  "offset_loop 0 i lengths buf = buf"
| "offset_loop (Suc n) i lengths buf = offset_loop n (i + 1) lengths (buf[i + 1 := lengths ! i + buf ! i])"

fun build_loop :: "nat \<Rightarrow> nat \<Rightarrow> nat list \<Rightarrow> nat list \<Rightarrow> nat list" where
  "build_loop 0 i symbols buf = symbols"
| "build_loop (Suc n) i symbols buf =
    (let len = symbols ! i AND 0x0F;
         sym = push_bit 4 i
     in if len = 0 then build_loop n (i + 1) symbols buf
        else build_loop n (i + 1) (symbols[buf ! len := symbols ! (buf ! len) OR sym]) (buf[len := buf ! len + 1]))"

definition huffman_init :: "nat list \<Rightarrow> int \<times> huffman" where
  "huffman_init symbols =
    (let n = length symbols;
         h = \<lparr>hf_lengths = replicate 16 0, hf_symbols = symbols, hf_completed = False\<rparr>;
         (ok, lengths) = count_lengths symbols (hf_lengths h);
         h = h\<lparr>hf_lengths := lengths\<rparr>
     in
     if \<not> ok then (-1, h)
     else if lengths ! 0 \<noteq> n then
       (case check_lengths (tl lengths) 1 of
          None \<Rightarrow> (-2, h)
        | Some t \<Rightarrow>
            let buf = offset_loop 14 1 lengths (replicate 16 0);
                symbols = build_loop n 0 symbols buf
            in (0, h\<lparr>hf_completed := (t = 0), hf_symbols := map (drop_bit 4) symbols\<rparr>))
     else (0, h))"

function huffman_loop :: "ba_callback \<Rightarrow> huffman \<Rightarrow> nat \<Rightarrow> nat \<Rightarrow> nat \<Rightarrow> nat \<Rightarrow> bitarray \<Rightarrow> int \<times> bitarray" where
  "huffman_loop cb h i base off val b =
    (if i < 16 then
       if ba_state0 b \<noteq> 0 then
         let len = hf_lengths h ! i;
             val = push_bit 1 val OR (ba_state1 b AND 1);
             b = b\<lparr>ba_state0 := ba_state0 b - 1, ba_state1 := drop_bit 1 (ba_state1 b)\<rparr>
         in if val < base + len then (int (hf_symbols h ! (off + (val - base))), b)
            else huffman_loop cb h (i + 1) (push_bit 1 (base + len)) (off + len) val b
       else if ba_size b \<noteq> 0 then huffman_loop cb h i base off val (ba_refill b)
       else
         (case cb (bitarray_clear b) of
            (r, b) \<Rightarrow> if r \<noteq> 0 \<or> ba_size b = 0 then (-1, b) else huffman_loop cb h i base off val b)
     else (-2, b))"
  by pat_completeness auto
termination
  by (relation "measures [\<lambda>(cb, h, i, base, off, val, b). 16 - i,
      \<lambda>(cb, h, i, base, off, val, b). if ba_state0 b \<noteq> 0 then 0 else if ba_size b \<noteq> 0 then 1 else 2]")
    (auto simp: ba_refill_def)

declare huffman_loop.simps [simp del]

definition huffman_fetch :: "ba_callback \<Rightarrow> huffman \<Rightarrow> bitarray \<Rightarrow> int \<times> bitarray" where
  "huffman_fetch cb h b = huffman_loop cb h 1 0 0 0 b"

fun rev_loop :: "nat \<Rightarrow> nat \<Rightarrow> nat \<Rightarrow> nat \<Rightarrow> nat" where
  "rev_loop 0 k val rv = rv"
| "rev_loop (Suc n) k val rv =
    rev_loop n (k + 1) val (push_bit 1 rv OR (if val AND push_bit k 1 \<noteq> 0 then 1 else 0))"

text \<open>
  The loop over the codes of one length: the number of codes left, \<open>i\<close>, the index of the next symbol
  and \<open>val\<close>; the flag is \<^const>\<open>False\<close> for the error return.
\<close>

fun table_row :: "nat \<Rightarrow> nat \<Rightarrow> nat \<Rightarrow> nat list \<Rightarrow> nat \<Rightarrow> nat list \<Rightarrow> bool \<times> nat \<times> nat list" where
  "table_row 0 i idx symbols val table = (True, val, table)"
| "table_row (Suc m) i idx symbols val table =
    (let sym = symbols ! idx * 2;
         rv = rev_loop i 0 val 0
     in if sym \<ge> length table then (False, val, table)
        else table_row m i (idx + 1) symbols (val + 1) (table[sym := i, sym + 1 := rv]))"

fun table_rows :: "nat \<Rightarrow> nat \<Rightarrow> nat \<Rightarrow> nat list \<Rightarrow> nat list \<Rightarrow> nat \<Rightarrow> nat list \<Rightarrow> bool \<times> nat list" where
  "table_rows 0 i off lengths symbols val table = (True, table)"
| "table_rows (Suc n) i off lengths symbols val table =
    (let len = lengths ! i in
     case table_row len i off symbols val table of
       (False, val, table) \<Rightarrow> (False, table)
     | (True, val, table) \<Rightarrow> table_rows n (i + 1) (off + len) lengths symbols (push_bit 1 val) table)"

definition huffman_table :: "huffman \<Rightarrow> nat \<Rightarrow> int \<times> nat list" where
  "huffman_table h n =
    (let table = replicate n 0;
         total = sum_list (take 15 (drop 1 (hf_lengths h)))
     in if total * 2 \<noteq> n then (-1, table)
        else
          case table_rows 15 1 0 (hf_lengths h) (hf_symbols h) 0 table of
            (ok, table) \<Rightarrow> (if ok then 0 else -2, table))"

subsection \<open>The canonical code\<close>

text \<open>
  For code lengths \<open>ls\<close>: the symbols with a length, the number of codes of each length, the index of
  the first of them among all coded symbols, and the first code of each length.
\<close>

definition syms :: "nat list \<Rightarrow> nat \<Rightarrow> nat \<Rightarrow> nat list" where
  "syms ls n l = filter (\<lambda>s. ls ! s = l) [0..<n]"

definition ccount :: "nat list \<Rightarrow> nat \<Rightarrow> nat" where
  "ccount ls l = length (syms ls (length ls) l)"

primrec cfirst :: "nat list \<Rightarrow> nat \<Rightarrow> nat" where
  "cfirst ls 0 = 0"
| "cfirst ls (Suc i) = cfirst ls i + (if i = 0 then 0 else ccount ls i)"

primrec cbase :: "nat list \<Rightarrow> nat \<Rightarrow> nat" where
  "cbase ls 0 = 0"
| "cbase ls (Suc i) = (if i = 0 then 0 else 2 * (cbase ls i + ccount ls i))"

lemma syms_Suc: "syms ls (Suc i) l = syms ls i l @ (if ls ! i = l then [i] else [])"
  by (simp add: syms_def)

lemma syms_mono: "i \<le> n \<Longrightarrow> length (syms ls i l) \<le> length (syms ls n l)"
  by (induction rule: dec_induct) (auto simp: syms_Suc)

lemma ccount_count: "ccount ls l = count_list ls l"
proof -
  have "length (syms ls n l) = count_list (take n ls) l" if "n \<le> length ls" for n
    using that
  proof (induction n)
    case (Suc n)
    then show ?case by (auto simp: syms_Suc take_Suc_conv_app_nth)
  qed (simp add: syms_def)
  then show ?thesis by (simp add: ccount_def)
qed

lemma count_lengths_main:
  assumes "length lengths = 16"
  shows "fst (count_lengths symbols lengths) = (\<forall>x \<in> set symbols. x \<le> 15)"
    "\<forall>x \<in> set symbols. x \<le> 15 \<Longrightarrow> length (snd (count_lengths symbols lengths)) = 16 \<and>
      (\<forall>l < 16. snd (count_lengths symbols lengths) ! l = lengths ! l + count_list symbols l)"
  using assms by (induction symbols lengths rule: count_lengths.induct) (auto simp: nth_list_update)

lemma count_lengths_init:
  assumes "\<forall>x \<in> set ls. x \<le> 15" "count_lengths ls (replicate 16 0) = (ok, lengths)"
  shows "ok" "length lengths = 16" "l < 16 \<Longrightarrow> lengths ! l = ccount ls l"
  using assms count_lengths_main [of "replicate 16 0" ls] by (auto simp: ccount_count)

text \<open>A code that passes the check has room for its codes at every length.\<close>

lemma check_lengths_main:
  assumes "check_lengths (map (ccount ls) [i..<16]) (2 ^ (i - 1) - int (cbase ls (i - 1) + ccount ls (i - 1))) = Some t"
    "1 < i" "i \<le> k" "k < 16"
  shows "cbase ls k + ccount ls k \<le> 2 ^ k"
  using assms
proof (induction "16 - i" arbitrary: i)
  case (Suc m)
  then have i: "[i..<16] = i # [i + 1..<16]" "i - 1 + 1 = i" by (simp_all add: upt_conv_Cons)
  have c: "cbase ls i = 2 * (cbase ls (i - 1) + ccount ls (i - 1))"
    using Suc.prems(2) cbase.simps(2) [of ls "i - 1"] by simp
  have p: "(2::int) ^ i = 2 * 2 ^ (i - 1)" using Suc.prems(2) by (cases i) auto
  have t: "(2 ^ (i - 1) - int (cbase ls (i - 1) + ccount ls (i - 1))) * 2 - int (ccount ls i) = 2 ^ i - int (cbase ls i + ccount ls i)"
    unfolding c p by simp
  from Suc.prems(1) have r: "0 \<le> 2 ^ i - int (cbase ls i + ccount ls i)"
    "check_lengths (map (ccount ls) [i + 1..<16]) (2 ^ i - int (cbase ls i + ccount ls i)) = Some t"
    unfolding i(1) list.map check_lengths.simps Let_def t by (auto split: if_splits)
  show ?case
  proof (cases "k = i")
    case True
    from r(1) have "int (cbase ls i + ccount ls i) \<le> int (2 ^ i)" by simp
    then show ?thesis unfolding True by (simp only: of_nat_le_iff)
  next
    case False
    show ?thesis
      by (rule Suc.hyps(1) [of "i + 1"]) (use False Suc r(2) in auto)
  qed
qed simp

lemma check_lengths_init:
  assumes "check_lengths (map (ccount ls) [1..<16]) 1 = Some t" "1 \<le> k" "k < 16"
  shows "cbase ls k + ccount ls k \<le> 2 ^ k"
proof -
  have e: "[1..<16] = 1 # [2..<16::nat]" by (simp add: upt_conv_Cons)
  have c1: "cbase ls 1 = 0" by simp
  from assms(1) have r: "0 \<le> 2 - int (ccount ls 1)" "check_lengths (map (ccount ls) [2..<16]) (2 - int (ccount ls 1)) = Some t"
    unfolding e by (auto simp: Let_def split: if_splits)
  show ?thesis
  proof (cases "k = 1")
    case True
    with r(1) show ?thesis by simp
  next
    case False
    show ?thesis by (rule check_lengths_main [of ls 2 t]) (use r(2) False assms c1 in auto)
  qed
qed

lemma cfirst_mono: "1 \<le> l \<Longrightarrow> l < m \<Longrightarrow> cfirst ls l + ccount ls l \<le> cfirst ls m"
proof (induction m)
  case (Suc m)
  then show ?case by (cases "l = m") auto
qed simp

lemma cfirst_total: "1 \<le> m \<Longrightarrow> cfirst ls m = (\<Sum>l \<in> {1..<m}. ccount ls l)"
proof (induction m)
  case (Suc m)
  then show ?case by (cases "m = 0") auto
qed simp

lemma cfirst_bound: "cfirst ls m \<le> length ls"
proof (cases "1 \<le> m")
  case True
  have "cfirst ls m = (\<Sum>l \<in> {1..<m}. count_list ls l)" using cfirst_total [OF True] by (simp add: ccount_count)
  also have "\<dots> \<le> length ls"
  proof (induction ls)
    case (Cons x ls)
    have "(\<Sum>l \<in> {1..<m}. count_list (x # ls) l) = (\<Sum>l \<in> {1..<m}. count_list ls l + (if l = x then 1 else 0))"
      by (rule sum.cong) auto
    also have "\<dots> \<le> (\<Sum>l \<in> {1..<m}. count_list ls l) + 1" by (simp add: sum.distrib)
    finally show ?case using Cons by simp
  qed simp
  finally show ?thesis .
qed (cases m; simp)

lemma offset_loop_main:
  assumes "length buf = 16" "n + i = 15" "1 \<le> i" "\<And>l. 1 \<le> l \<Longrightarrow> l \<le> i \<Longrightarrow> buf ! l = cfirst ls l"
    "\<And>l. l < 16 \<Longrightarrow> lengths ! l = ccount ls l"
  shows "length (offset_loop n i lengths buf) = 16 \<and>
    (\<forall>l. 1 \<le> l \<longrightarrow> l \<le> 15 \<longrightarrow> offset_loop n i lengths buf ! l = cfirst ls l)"
  using assms
proof (induction n arbitrary: i buf)
  case (Suc n)
  have "length (offset_loop n (i + 1) lengths (buf[i + 1 := lengths ! i + buf ! i])) = 16 \<and>
    (\<forall>l. 1 \<le> l \<longrightarrow> l \<le> 15 \<longrightarrow> offset_loop n (i + 1) lengths (buf[i + 1 := lengths ! i + buf ! i]) ! l = cfirst ls l)"
  proof (rule Suc.IH)
    fix l assume l: "1 \<le> l" "l \<le> i + 1"
    show "buf[i + 1 := lengths ! i + buf ! i] ! l = cfirst ls l"
      using l Suc.prems by (cases "l = i + 1") auto
  qed (use Suc.prems in auto)
  then show ?case by simp
qed simp

lemma cfirst_inj:
  assumes "cfirst ls l + k = cfirst ls m + j" "k < ccount ls l" "j < ccount ls m" "1 \<le> l" "1 \<le> m"
  shows "l = m \<and> k = j"
proof -
  have "\<not> l < m" "\<not> m < l" using cfirst_mono [of l m ls] cfirst_mono [of m l ls] assms by linarith+
  then show ?thesis using assms(1) by simp
qed

lemma cfirst_pos_bound: "1 \<le> l \<Longrightarrow> k < ccount ls l \<Longrightarrow> cfirst ls l + k < length ls"
  using cfirst_bound [of ls "Suc l"] by auto

definition build_inv :: "nat list \<Rightarrow> nat \<Rightarrow> nat list \<Rightarrow> nat list \<Rightarrow> bool" where
  "build_inv ls i A buf \<longleftrightarrow> length A = length ls \<and> length buf = 16 \<and>
    (\<forall>l. 1 \<le> l \<longrightarrow> l \<le> 15 \<longrightarrow> buf ! l = cfirst ls l + length (syms ls i l)) \<and>
    (\<forall>p < length ls. A ! p mod 16 = ls ! p) \<and>
    (\<forall>l k. 1 \<le> l \<longrightarrow> l \<le> 15 \<longrightarrow> k < ccount ls l \<longrightarrow>
      A ! (cfirst ls l + k) div 16 = (if k < length (syms ls i l) then syms ls i l ! k else 0))"

lemma build_inv_step:
  assumes "build_inv ls i A buf" "i < length ls" "ls ! i = l" "1 \<le> l" "l \<le> 15"
  shows "build_inv ls (Suc i) (A[buf ! l := A ! (buf ! l) OR push_bit 4 i]) (buf[l := buf ! l + 1])"
proof -
  let ?n = "length (syms ls i l)"
  let ?p = "cfirst ls l + ?n"
  note I = assms(1)[unfolded build_inv_def]
  have n: "?n < ccount ls l"
    using syms_mono [of "Suc i" "length ls" ls l] assms(2,3) by (simp add: syms_Suc ccount_def)
  have p: "buf ! l = ?p" "?p < length ls" using I assms(4,5) cfirst_pos_bound [OF assms(4) n] by auto
  have "A ! ?p div 16 = 0" using I n assms(4,5) by auto
  then have lt: "A ! ?p < 2 ^ 4" by simp
  have v: "A ! ?p OR push_bit 4 i = A ! ?p + 16 * i" using or_push_bit [OF lt, of i] by simp
  have len: "length A = length ls" "length buf = 16" using I by simp_all
  show ?thesis unfolding build_inv_def p(1) v
  proof (intro conjI allI impI)
    fix m :: nat assume m: "1 \<le> m" "m \<le> 15"
    show "buf[l := ?p + 1] ! m = cfirst ls m + length (syms ls (Suc i) m)"
      using I m len assms(3) by (cases "m = l") (auto simp: syms_Suc)
  next
    fix q assume q: "q < length ls"
    show "A[?p := A ! ?p + 16 * i] ! q mod 16 = ls ! q"
      using I q len p(2) by (cases "q = ?p") auto
  next
    fix m k assume m: "1 \<le> m" "m \<le> 15" "k < ccount ls m"
    have pm: "cfirst ls m + k < length ls" by (rule cfirst_pos_bound [OF m(1,3)])
    have Im: "A ! (cfirst ls m + k) div 16 = (if k < length (syms ls i m) then syms ls i m ! k else 0)"
      using I m by auto
    show "A[?p := A ! ?p + 16 * i] ! (cfirst ls m + k) div 16 =
      (if k < length (syms ls (Suc i) m) then syms ls (Suc i) m ! k else 0)"
    proof (cases "?p = cfirst ls m + k")
      case True
      then have "l = m \<and> ?n = k" by (rule cfirst_inj) (use n m assms(4) in auto)
      then show ?thesis using p(2) len lt assms(3) by (auto simp: syms_Suc nth_append)
    next
      case False
      have "\<not> (l = m \<and> k = ?n)" using False by auto
      then show ?thesis using False Im assms(3) by (auto simp: syms_Suc nth_append)
    qed
  qed (use len in auto)
qed

lemma build_loop_main:
  assumes "build_inv ls i A buf" "n + i = length ls" "\<forall>x \<in> set ls. x \<le> 15"
  shows "\<exists>buf'. build_inv ls (length ls) (build_loop n i A buf) buf'"
  using assms(1,2)
proof (induction n arbitrary: i A buf)
  case (Suc n)
  have i: "i < length ls" using Suc.prems(2) by simp
  have "A ! i mod 16 = ls ! i" using Suc.prems(1) i unfolding build_inv_def by blast
  moreover have "A ! i AND 15 = A ! i mod 16" by (rule and_mask_nat_eq [of _ 4]) simp_all
  ultimately have m: "A ! i AND 15 = ls ! i" by (simp only:)
  show ?case
  proof (cases "ls ! i = 0")
    case True
    have "build_inv ls (i + 1) A buf" using Suc.prems(1) True unfolding build_inv_def by (auto simp: syms_Suc)
    from Suc.IH [OF this] Suc.prems(2) show ?thesis by (simp add: m True Let_def)
  next
    case False
    have "ls ! i \<le> 15" using assms(3) i by simp
    from Suc.IH [OF build_inv_step [OF Suc.prems(1) i refl _ this, simplified]] False Suc.prems(2) show ?thesis
      by (simp add: m Let_def)
  qed
qed auto

text \<open>What a successful initialisation establishes: the tables hold the canonical code of \<open>ls\<close>.\<close>

definition huffman_ok :: "nat list \<Rightarrow> huffman \<Rightarrow> bool" where
  "huffman_ok ls h \<longleftrightarrow> length (hf_lengths h) = 16 \<and>
    (\<forall>l. 1 \<le> l \<longrightarrow> l \<le> 15 \<longrightarrow> hf_lengths h ! l = ccount ls l \<and> cbase ls l + ccount ls l \<le> 2 ^ l \<and>
      (\<forall>k < ccount ls l. hf_symbols h ! (cfirst ls l + k) = syms ls (length ls) l ! k))"

lemma huffman_okD:
  assumes "huffman_ok ls h" "1 \<le> l" "l \<le> 15"
  shows "hf_lengths h ! l = ccount ls l" "cbase ls l + ccount ls l \<le> 2 ^ l"
    "k < ccount ls l \<Longrightarrow> hf_symbols h ! (cfirst ls l + k) = syms ls (length ls) l ! k"
  using assms unfolding huffman_ok_def by blast+

lemma ccount_zero:
  assumes "ccount ls 0 = length ls" "1 \<le> l"
  shows "ccount ls l = 0"
proof -
  have "ls ! s = 0" if "s < length ls" for s
    using assms(1) that unfolding ccount_def syms_def
    by (metis (mono_tags, lifting) atLeast0LessThan diff_zero filter_id_conv filter_True length_filter_less length_upt less_irrefl
        lessThan_iff set_upt)
  then show ?thesis using assms(2) by (auto simp: ccount_def syms_def filter_empty_conv)
qed

lemma huffman_init_ok:
  assumes "huffman_init ls = (0, h)"
  shows "huffman_ok ls h" "\<forall>x \<in> set ls. x \<le> 15"
proof -
  obtain ok lengths where c: "count_lengths ls (replicate 16 0) = (ok, lengths)" by (cases "count_lengths ls (replicate 16 0)")
  have ok: "ok" using assms c by (auto simp: huffman_init_def Let_def split: if_splits)
  then show le: "\<forall>x \<in> set ls. x \<le> 15" using count_lengths_main(1) [of "replicate 16 0" ls] c by simp
  note L = count_lengths_init [OF le c]
  show "huffman_ok ls h"
  proof (cases "lengths ! 0 = length ls")
    case True
    have z: "ccount ls l = 0" if "1 \<le> l" for l using ccount_zero [OF _ that] L(3) [of 0] True by simp
    have "cbase ls l = 0" for l using z by (induction l) auto
    with z show ?thesis using assms c ok True L(2,3) by (auto simp: huffman_init_def huffman_ok_def)
  next
    case False
    have "lengths = map (ccount ls) [0..<16]" by (rule nth_equalityI) (use L in auto)
    then have tl: "tl lengths = map (ccount ls) [1..<16]" by (simp add: upt_conv_Cons map_tl [symmetric])
    obtain t where t: "check_lengths (map (ccount ls) [1..<16]) 1 = Some t"
      using assms c ok False tl by (auto simp: huffman_init_def Let_def split: option.splits)
    let ?buf = "offset_loop 14 1 lengths (replicate 16 0)"
    have buf: "length ?buf = 16" "\<And>l. 1 \<le> l \<Longrightarrow> l \<le> 15 \<Longrightarrow> ?buf ! l = cfirst ls l"
      using offset_loop_main [of "replicate 16 0" 14 1 ls lengths] L(3) by (auto simp: le_Suc_eq)
    have sm: "ls ! p < 16" if "p < length ls" for p using le nth_mem [OF that] by (auto simp: le_imp_less_Suc)
    have "build_inv ls 0 ls ?buf"
      unfolding build_inv_def using buf sm cfirst_pos_bound by (auto simp: syms_def)
    from build_loop_main [OF this _ le] obtain buf' where B: "build_inv ls (length ls) (build_loop (length ls) 0 ls ?buf) buf'"
      by auto
    have h: "hf_lengths h = lengths" "hf_symbols h = map (drop_bit 4) (build_loop (length ls) 0 ls ?buf)"
      using assms c ok False tl t by (auto simp: huffman_init_def Let_def)
    show ?thesis
      unfolding huffman_ok_def h
    proof (intro conjI allI impI)
      fix l k assume l: "1 \<le> l" "l \<le> 15" and k: "k < ccount ls l"
      from cfirst_pos_bound [OF l(1) k] B l k
      show "map (drop_bit 4) (build_loop (length ls) 0 ls ?buf) ! (cfirst ls l + k) = syms ls (length ls) l ! k"
        unfolding build_inv_def by (auto simp: drop_bit_eq_div ccount_def)
    qed (use L check_lengths_init [OF t] in auto)
  qed
qed

lemma cbase_mono: "1 \<le> i \<Longrightarrow> i < l \<Longrightarrow> (cbase ls i + ccount ls i) * 2 ^ (l - i) \<le> cbase ls l"
proof (induction l)
  case (Suc l)
  show ?case
  proof (cases "i = l")
    case False
    with Suc have "(cbase ls i + ccount ls i) * 2 ^ (l - i) \<le> cbase ls l" "Suc l - i = Suc (l - i)" by auto
    then have "(cbase ls i + ccount ls i) * 2 ^ (Suc l - i) \<le> 2 * cbase ls l" by simp
    also have "\<dots> \<le> cbase ls (Suc l)" using Suc.prems False by simp
    finally show ?thesis .
  qed (use Suc in auto)
qed simp

lemma nat_bits_last: "nat_bits (Suc n) v = nat_bits n v @ [bit v n]"
  by (simp add: nat_bits_def)

lemma div_shift_bit: "2 * (c div 2 ^ Suc r) + of_bool (bit c r) = c div 2 ^ r" for c :: nat
proof -
  have "of_bool (bit c r) = c div 2 ^ r mod 2" by (simp add: bit_iff_odd mod_2_eq_odd)
  moreover have "c div 2 ^ Suc r = c div 2 ^ r div 2" by (metis div_mult2_eq power_Suc2)
  ultimately show ?thesis by simp
qed

text \<open>One turn of the decoder on a stream with bits left.\<close>

lemma huffman_loop_step:
  assumes "read_ok b" "read_bits b = x # xs" "i < 16"
  shows "huffman_loop cb h i base off val b =
    (let val = 2 * val + of_bool x; len = hf_lengths h ! i in
     if val < base + len then (int (hf_symbols h ! (off + (val - base))), ba_step b)
     else huffman_loop cb h (i + 1) (2 * (base + len)) (off + len) val (ba_step b))"
proof -
  note st = read_bits_step [OF assms(1,2)]
  have v: "push_bit 1 val OR of_bool x = 2 * val + of_bool x" 
    using or_push_bit [of "of_bool x" 1 val] by (simp add: or.commute)
  have p: "push_bit 1 n = 2 * n" for n :: nat by simp
  show ?thesis
  proof (cases "ba_state0 b = 0")
    case False
    with st(3) assms(3) v show ?thesis by (subst huffman_loop.simps) (simp add: ba_step_def Let_def mult.commute)
  next
    case True
    with st(4) have s: "ba_size b \<noteq> 0" by simp
    have "huffman_loop cb h i base off val b = huffman_loop cb h i base off val (ba_refill b)"
      using True s assms(3) by (subst huffman_loop.simps) simp
    also have "\<dots> = (let val = 2 * val + of_bool x; len = hf_lengths h ! i in
     if val < base + len then (int (hf_symbols h ! (off + (val - base))), ba_step b)
     else huffman_loop cb h (i + 1) (2 * (base + len)) (off + len) val (ba_step b))"
      using True st(3) assms(3) read_bits_refill(3) [OF assms(1) True s] v
      by (subst huffman_loop.simps) (simp add: ba_step_def Let_def mult.commute)
    finally show ?thesis .
  qed
qed

lemma huffman_loop_main:
  assumes h: "huffman_ok ls h" and l: "1 \<le> i" "i \<le> l" "l \<le> 15" and k: "k < ccount ls l" and
    b: "read_ok b" "read_bits b = rev (nat_bits (l + 1 - i) (cbase ls l + k)) @ rest"
  shows "\<exists>b'. huffman_loop cb h i (cbase ls i) (cfirst ls i) ((cbase ls l + k) div 2 ^ (l + 1 - i)) b =
      (int (syms ls (length ls) l ! k), b') \<and> read_ok b' \<and> read_bits b' = rest"
  using l(1,2) b
proof (induction "l - i" arbitrary: i b)
  case 0
  then have i: "i = l" by simp
  let ?c = "cbase ls l + k"
  have e: "read_bits b = bit ?c 0 # rest" using 0 i by (simp add: nat_bits_def)
  note st = read_bits_step [OF 0(4) e]
  have v: "2 * (?c div 2 ^ 1) + of_bool (bit ?c 0) = ?c" using div_shift_bit [of ?c 0] by simp
  show ?case
    using huffman_loop_step [OF 0(4) e, of l cb h "cbase ls l" "cfirst ls l" "?c div 2 ^ 1"] v huffman_okD [OF h _ l(3)] 0 i k st l(3)
    by (simp add: Let_def)
next
  case (Suc m)
  let ?c = "cbase ls l + k"
  have i: "i < l" "l + 1 - i = Suc (l - i)" "l + 1 - (i + 1) = l - i" using Suc by simp_all
  have e: "read_bits b = bit ?c (l - i) # rev (nat_bits (l - i) ?c) @ rest"
    using Suc.prems(4) unfolding i(2) nat_bits_last by simp
  note st = read_bits_step [OF Suc.prems(3) e]
  have v: "2 * (?c div 2 ^ Suc (l - i)) + of_bool (bit ?c (l - i)) = ?c div 2 ^ (l - i)" by (rule div_shift_bit)
  have "(cbase ls i + ccount ls i) * 2 ^ (l - i) \<le> ?c" using cbase_mono [OF Suc.prems(1) i(1), of ls] by linarith
  then have ge: "cbase ls i + ccount ls i \<le> ?c div 2 ^ (l - i)" by (simp add: less_eq_div_iff_mult_less_eq)
  have "\<exists>b'. huffman_loop cb h (i + 1) (cbase ls (i + 1)) (cfirst ls (i + 1)) (?c div 2 ^ (l + 1 - (i + 1))) (ba_step b) =
      (int (syms ls (length ls) l ! k), b') \<and> read_ok b' \<and> read_bits b' = rest"
    by (rule Suc.hyps(1)) (use Suc st i in auto)
  moreover have "huffman_loop cb h i (cbase ls i) (cfirst ls i) (?c div 2 ^ (l + 1 - i)) b =
      huffman_loop cb h (i + 1) (cbase ls (i + 1)) (cfirst ls (i + 1)) (?c div 2 ^ (l + 1 - (i + 1))) (ba_step b)"
    unfolding i(2,3) using huffman_loop_step [OF Suc.prems(3) e, of i cb h "cbase ls i" "cfirst ls i" "?c div 2 ^ Suc (l - i)"]
      v ge i l(3) Suc.prems(1) huffman_okD(1) [OF h Suc.prems(1)] by (simp add: Let_def)
  ultimately show ?case by simp
qed

subsection \<open>The encoder table\<close>

lemma rev_loop_main: "nat_bits k rv = rev (nat_bits k val) \<Longrightarrow> nat_bits (k + n) (rev_loop n k val rv) = rev (nat_bits (k + n) val)"
proof (induction n arbitrary: k rv)
  case (Suc n)
  let ?r = "push_bit 1 rv OR (if val AND push_bit k 1 \<noteq> 0 then 1 else 0)"
  have "(val AND push_bit k 1 \<noteq> 0) = bit val k"
    by (simp add: push_bit_of_1 and_exp_eq_0_iff_not_bit)
  then have r: "?r = of_bool (bit val k) + 2 * rv"
    using or_push_bit [of "of_bool (bit val k)" 1 rv] by (cases "bit val k") (simp_all add: or.commute)
  have "nat_bits (Suc k) ?r = rev (nat_bits (Suc k) val)"
    unfolding r nat_bits_last [of k val] nat_bits_Suc [of k "of_bool (bit val k) + 2 * rv"]
    by (simp add: Suc.prems drop_bit_eq_div)
  from Suc.IH [OF this [unfolded Suc_eq_plus1]] show ?case by (simp only: rev_loop.simps add_Suc add_Suc_right Suc_eq_plus1 add.assoc)
    (simp add: add.commute)
qed simp

lemma nat_bits_rev_loop: "nat_bits n (rev_loop n 0 val 0) = rev (nat_bits n val)"
  using rev_loop_main [of 0 0 val n] by simp

lemma syms_nth:
  assumes "k < ccount ls l"
  shows "syms ls (length ls) l ! k < length ls" "ls ! (syms ls (length ls) l ! k) = l"
  using nth_mem [of k "syms ls (length ls) l"] assms by (auto simp: ccount_def syms_def)

lemma syms_nth_inj:
  assumes "syms ls (length ls) l ! k = syms ls (length ls) m ! j" "k < ccount ls l" "j < ccount ls m"
  shows "l = m \<and> k = j"
proof -
  have "l = m" using syms_nth(2) [OF assms(2)] syms_nth(2) [OF assms(3)] assms(1) by metis
  moreover have "distinct (syms ls (length ls) l)" by (simp add: syms_def)
  ultimately show ?thesis using assms nth_eq_iff_index_eq by (fastforce simp: ccount_def)
qed

lemma syms_ex:
  assumes "s < length ls"
  obtains k where "k < ccount ls (ls ! s)" "syms ls (length ls) (ls ! s) ! k = s"
proof -
  have "s \<in> set (syms ls (length ls) (ls ! s))" using assms by (simp add: syms_def)
  with that show ?thesis by (auto simp: in_set_conv_nth ccount_def)
qed

text \<open>The entries of the codes before the \<open>j\<close>-th of length \<open>l\<close> are in the table.\<close>

definition code_table_ok :: "nat list \<Rightarrow> nat list \<Rightarrow> nat \<Rightarrow> nat \<Rightarrow> bool" where
  "code_table_ok ls table l j \<longleftrightarrow> (\<forall>m k. 1 \<le> m \<longrightarrow> k < ccount ls m \<longrightarrow> m < l \<or> m = l \<and> k < j \<longrightarrow>
    2 * (syms ls (length ls) m ! k) + 1 < length table \<and>
    table ! (2 * (syms ls (length ls) m ! k)) = m \<and>
    table ! (2 * (syms ls (length ls) m ! k) + 1) = rev_loop m 0 (cbase ls m + k) 0)"

lemma code_table_okD:
  assumes "code_table_ok ls table l j" "1 \<le> m" "k < ccount ls m" "m < l \<or> m = l \<and> k < j"
  shows "2 * (syms ls (length ls) m ! k) + 1 < length table"
    "table ! (2 * (syms ls (length ls) m ! k)) = m"
    "table ! (2 * (syms ls (length ls) m ! k) + 1) = rev_loop m 0 (cbase ls m + k) 0"
  using assms unfolding code_table_ok_def by blast+

lemma code_table_ok_update:
  assumes "code_table_ok ls table l j" "j < ccount ls l" "1 \<le> l" "s = syms ls (length ls) l ! j" "2 * s + 1 < length table"
  shows "code_table_ok ls (table[2 * s := l, 2 * s + 1 := rev_loop l 0 (cbase ls l + j) 0]) l (Suc j)"
  unfolding code_table_ok_def
proof (intro allI impI)
  fix m k assume m: "1 \<le> m" "k < ccount ls m" "m < l \<or> m = l \<and> k < Suc j"
  let ?t = "table[2 * s := l, 2 * s + 1 := rev_loop l 0 (cbase ls l + j) 0]" and ?q = "syms ls (length ls) m ! k"
  show "2 * ?q + 1 < length ?t \<and> ?t ! (2 * ?q) = m \<and> ?t ! (2 * ?q + 1) = rev_loop m 0 (cbase ls m + k) 0"
  proof (cases "m = l \<and> k = j")
    case True
    then show ?thesis using assms by simp
  next
    case False
    then have "?q \<noteq> s" unfolding assms(4) using syms_nth_inj m(2) assms(2) by blast
    moreover have "2 * ?q \<noteq> 2 * s + 1" "2 * ?q + 1 \<noteq> 2 * s" by presburger+
    ultimately show ?thesis using code_table_okD [OF assms(1) m(1,2)] m(3) False by (simp add: less_Suc_eq) blast
  qed
qed

text \<open>With an even table size the row either runs to its end or meets a symbol outside the table.\<close>

lemma table_row_main:
  assumes "huffman_ok ls h" "1 \<le> l" "l \<le> 15" "n + j = ccount ls l" "code_table_ok ls table l j" "even (length table)"
  shows "(\<exists>table'. table_row n l (cfirst ls l + j) (hf_symbols h) (cbase ls l + j) table =
      (True, cbase ls l + ccount ls l, table') \<and> code_table_ok ls table' l (ccount ls l) \<and> length table' = length table) \<or>
    fst (table_row n l (cfirst ls l + j) (hf_symbols h) (cbase ls l + j) table) = False \<and>
      (\<exists>k < ccount ls l. length table \<le> 2 * (syms ls (length ls) l ! k))"
  using assms(4-6)
proof (induction n arbitrary: j table)
  case (Suc n)
  let ?s = "syms ls (length ls) l ! j"
  have j: "j < ccount ls l" using Suc.prems(1) by simp
  have s: "hf_symbols h ! (cfirst ls l + j) = ?s" by (rule huffman_okD(3) [OF assms(1-3) j])
  show ?case
  proof (cases "length table \<le> 2 * ?s")
    case True
    with j s show ?thesis by (auto simp: Let_def mult.commute)
  next
    case False
    with Suc.prems(3) have b: "2 * ?s + 1 < length table" by presburger
    have r: "table_row (Suc n) l (cfirst ls l + j) (hf_symbols h) (cbase ls l + j) table =
        table_row n l (cfirst ls l + Suc j) (hf_symbols h) (cbase ls l + Suc j)
          (table[2 * ?s := l, 2 * ?s + 1 := rev_loop l 0 (cbase ls l + j) 0])"
      using False s by (simp add: Let_def mult.commute)
    show ?thesis unfolding r
      using Suc.IH [of "Suc j", OF _ code_table_ok_update [OF Suc.prems(2) j assms(2) refl b]] Suc.prems by simp
  qed
qed simp

lemma code_table_ok_next: "code_table_ok ls table l (ccount ls l) \<Longrightarrow> code_table_ok ls table (Suc l) 0"
  unfolding code_table_ok_def by (auto simp: less_Suc_eq)

lemma table_rows_main:
  assumes "huffman_ok ls h" "n + l = 16" "1 \<le> l" "code_table_ok ls table l 0" "even (length table)"
  shows "(\<exists>table'. table_rows n l (cfirst ls l) (hf_lengths h) (hf_symbols h) (cbase ls l) table = (True, table') \<and>
      code_table_ok ls table' 16 0 \<and> length table' = length table) \<or>
    fst (table_rows n l (cfirst ls l) (hf_lengths h) (hf_symbols h) (cbase ls l) table) = False \<and>
      (\<exists>s < length ls. length table \<le> 2 * s)"
  using assms(2-5)
proof (induction n arbitrary: l table)
  case (Suc n)
  have l: "l \<le> 15" using Suc.prems by simp
  note row = table_row_main [OF assms(1) Suc.prems(2) l, of "ccount ls l" 0 table]
  have len: "hf_lengths h ! l = ccount ls l" by (rule huffman_okD(1) [OF assms(1) Suc.prems(2) l])
  have v: "push_bit 1 (cbase ls l + ccount ls l) = cbase ls (Suc l)" "cfirst ls l + ccount ls l = cfirst ls (Suc l)"
    using Suc.prems(2) by simp_all
  consider table' where "table_row (ccount ls l) l (cfirst ls l) (hf_symbols h) (cbase ls l) table =
      (True, cbase ls l + ccount ls l, table')" "code_table_ok ls table' l (ccount ls l)" "length table' = length table"
    | "fst (table_row (ccount ls l) l (cfirst ls l) (hf_symbols h) (cbase ls l) table) = False"
      "\<exists>k < ccount ls l. length table \<le> 2 * (syms ls (length ls) l ! k)"
    using row Suc.prems(3,4) by auto
  then show ?case
  proof cases
    case 1
    have "table_rows (Suc n) l (cfirst ls l) (hf_lengths h) (hf_symbols h) (cbase ls l) table =
      table_rows n (Suc l) (cfirst ls (Suc l)) (hf_lengths h) (hf_symbols h) (cbase ls (Suc l)) table'"
      unfolding table_rows.simps len Let_def 1(1) prod.case bool.case v by simp
    then show ?thesis using Suc.IH [of "Suc l", OF _ _ code_table_ok_next [OF 1(2)]] Suc.prems 1(3) by simp
  next
    case 2
    then show ?thesis using syms_nth(1) len
      by (cases "table_row (ccount ls l) l (cfirst ls l) (hf_symbols h) (cbase ls l) table") (auto simp: Let_def)
  qed
qed (auto)

lemma huffman_table_main:
  assumes "huffman_ok ls h" "huffman_table h n = (0, table)"
  shows "code_table_ok ls table 16 0" "length table = n"
proof -
  have e: "even n" and r: "table_rows 15 1 0 (hf_lengths h) (hf_symbols h) 0 (replicate n 0) = (True, table)"
    using assms(2) by (auto simp: huffman_table_def Let_def split: if_splits prod.splits)
  have "code_table_ok ls (replicate n 0) 1 0" by (auto simp: code_table_ok_def)
  from table_rows_main [OF assms(1) _ _ this, of 15] r e
  show "code_table_ok ls table 16 0" "length table = n" by auto
qed

text \<open>When every symbol has a code, a table of two words per symbol is filled without an error.\<close>

lemma huffman_table_total:
  assumes "huffman_ok ls h" "\<forall>x \<in> set ls. 1 \<le> x \<and> x \<le> 15"
  obtains table where "huffman_table h (2 * length ls) = (0, table)"
proof -
  have take_15: "take 15 (map f [1..<16]) = map f [1..<16]" for f :: "nat \<Rightarrow> nat" by simp
  have "hf_lengths h = hf_lengths h ! 0 # map (ccount ls) [1..<16]"
    by (rule nth_equalityI) (use assms(1) in \<open>auto simp: huffman_ok_def nth_Cons' less_Suc_eq_le\<close>)
  then have "take 15 (drop 1 (hf_lengths h)) = map (ccount ls) [1..<16]"
    by (metis drop0 drop_Suc_Cons One_nat_def take_15)
  then have "sum_list (take 15 (drop 1 (hf_lengths h))) = (\<Sum>l \<in> {1..<16}. ccount ls l)"
    by (simp only: interv_sum_list_conv_sum_set_nat set_upt)
  also have "\<dots> = length ls" using assms(2) unfolding ccount_count
    by (subst sum_count_set [of ls "{1..<16}"]) auto
  finally have t: "sum_list (take 15 (drop 1 (hf_lengths h))) * 2 = 2 * length ls" by simp
  have "code_table_ok ls (replicate (2 * length ls) 0) 1 0" by (auto simp: code_table_ok_def)
  from table_rows_main [OF assms(1) _ _ this, of 15]
  have "fst (table_rows 15 1 0 (hf_lengths h) (hf_symbols h) 0 (replicate (2 * length ls) 0))" by auto
  with t show thesis using that by (cases "table_rows 15 1 0 (hf_lengths h) (hf_symbols h) 0 (replicate (2 * length ls) 0)")
    (auto simp: huffman_table_def)
qed

lemma huffman_decode:
  assumes "huffman_ok ls h" "huffman_table h n = (0, table)" "s < length ls" "1 \<le> ls ! s" "ls ! s \<le> 15"
    "read_ok b" "read_bits b = nat_bits (table ! (2 * s)) (table ! (2 * s + 1)) @ rest"
  shows "\<exists>b'. huffman_fetch cb h b = (int s, b') \<and> read_ok b' \<and> read_bits b' = rest"
proof -
  let ?l = "ls ! s"
  obtain k where k: "k < ccount ls ?l" "syms ls (length ls) ?l ! k = s" by (rule syms_ex [OF assms(3)])
  have lt: "cbase ls ?l + k < 2 ^ ?l" using huffman_okD(2) [OF assms(1,4,5)] k(1) by linarith
  have "?l < 16 \<or> ?l = 16 \<and> k < 0" using assms(5) by linarith
  note t = code_table_okD [OF huffman_table_main(1) [OF assms(1,2)] assms(4) k(1) this, unfolded k(2)]
  have "read_bits b = rev (nat_bits (?l + 1 - 1) (cbase ls ?l + k)) @ rest"
    using assms(7) unfolding t(2,3) nat_bits_rev_loop by simp
  from huffman_loop_main [OF assms(1) order_refl assms(4,5) k(1) assms(6) this, of cb] lt k(2)
  show ?thesis by (simp add: huffman_fetch_def)
qed

subsection \<open>Encoding and decoding\<close>

text \<open>
  Decoding inverts encoding for every canonical code: when the code lengths \<open>ls\<close> are accepted
  and the encoder table is built, reading a stream that starts with the table's code word of a
  coded symbol \<open>s\<close> returns \<open>s\<close> and consumes exactly that code word.
\<close>

theorem huffman_roundtrip:
  assumes "huffman_init ls = (0, h)" "huffman_table h n = (0, table)" "s < length ls" "ls ! s \<noteq> 0"
    "read_ok b" "read_bits b = nat_bits (table ! (2 * s)) (table ! (2 * s + 1)) @ rest"
  shows "\<exists>b'. huffman_fetch cb h b = (int s, b') \<and> read_ok b' \<and> read_bits b' = rest"
proof (rule huffman_decode [OF huffman_init_ok(1) [OF assms(1)] assms(2,3) _ _ assms(5,6)])
  show "1 \<le> ls ! s" using assms(4) by simp
  show "ls ! s \<le> 15" using huffman_init_ok(2) [OF assms(1)] assms(3) by simp
qed

lemmas huffman_numeral_simps =
  offset_loop.simps(2) [of "pred_numeral k" for k, folded numeral_eq_Suc]
  build_loop.simps(2) [of "pred_numeral k" for k, folded numeral_eq_Suc]
  rev_loop.simps(2) [of "pred_numeral k" for k, folded numeral_eq_Suc]
  table_row.simps(2) [of "pred_numeral k" for k, folded numeral_eq_Suc]
  table_rows.simps(2) [of "pred_numeral k" for k, folded numeral_eq_Suc]

lemma replicate_16: "replicate 16 x = [x, x, x, x, x, x, x, x, x, x, x, x, x, x, x, x]"
  by (simp add: numeral_eq_Suc)

lemma huffman_sample_init:
  "huffman_init [2, 1, 3, 3] =
    (0, \<lparr>hf_lengths = [0, 1, 1, 2, 0, 0, 0, 0, 0, 0, 0, 0, 0, 0, 0, 0], hf_symbols = [1, 0, 2, 3], hf_completed = True\<rparr>)"
proof -
  have c: "count_lengths [2, 1, 3, 3] (replicate 16 0) = (True, [0, 1, 1, 2, 0, 0, 0, 0, 0, 0, 0, 0, 0, 0, 0, 0])"
    by (simp add: replicate_16)
  have o: "offset_loop 14 1 [0, 1, 1, 2, 0, 0, 0, 0, 0, 0, 0, 0, 0, 0, 0, 0] (replicate 16 0) =
      [0, 0, 1, 2, 4, 4, 4, 4, 4, 4, 4, 4, 4, 4, 4, 4]"
    by (simp add: replicate_16 huffman_numeral_simps)
  have b: "build_loop 4 0 [2, 1, 3, 3] [0, 0, 1, 2, 4, 4, 4, 4, 4, 4, 4, 4, 4, 4, 4, 4] = [18, 1, 35, 51]"
    by (simp add: huffman_numeral_simps Let_def Suc_nat_number_of_add flip: numeral_2_eq_2 numeral_3_eq_3)
  show ?thesis unfolding huffman_init_def Let_def huffman.select_convs c prod.case using o b by (simp flip: numeral_2_eq_2 numeral_3_eq_3)
qed

lemma huffman_sample_table:
  "huffman_table \<lparr>hf_lengths = [0, 1, 1, 2, 0, 0, 0, 0, 0, 0, 0, 0, 0, 0, 0, 0], hf_symbols = [1, 0, 2, 3], hf_completed = True\<rparr> 8 =
    (0, [2, 1, 1, 0, 3, 3, 3, 7])"
proof -
  have r: "replicate 8 (0::nat) = [0, 0, 0, 0, 0, 0, 0, 0]" by (simp add: numeral_eq_Suc)
  show ?thesis by (simp add: huffman_table_def Let_def r huffman_numeral_simps)
qed

theorem huffman_roundtrip_witness:
  "\<exists>h b'. huffman_init [2, 1, 3, 3] = (0, h) \<and> huffman_fetch default_callback h (bitarray_init [3] 1) = (2, b') \<and>
    read_bits b' = replicate 5 False"
proof -
  have r: "read_ok (bitarray_init [3] 1)" "read_bits (bitarray_init [3] 1) = nat_bits 3 3 @ replicate 5 False"
    by code_simp+
  show ?thesis
    using huffman_roundtrip [OF huffman_sample_init huffman_sample_table, of 2 "bitarray_init [3] 1" "replicate 5 False" default_callback] r
    unfolding huffman_sample_init by auto
qed

end
