(* ===== verification/Symbol_Code.thy ===== *)
theory Symbol_Code
  imports Bitarray
begin

text \<open>
  The contract between the inflater and the prefix codes it reads: a decoder that inverts an encoder
  of the symbols below \<open>symbols\<close> on every stream. The client's lemma adds the extra bits that
  follow a length or distance symbol.
\<close>

locale symbol_code =
  fixes symbols :: nat
    and enc :: "nat \<Rightarrow> bool list"
    and dec :: "bitarray \<Rightarrow> int \<times> bitarray"
  assumes dec_enc: "s < symbols \<Longrightarrow> read_ok b \<Longrightarrow> read_bits b = enc s @ rest \<Longrightarrow>
    \<exists>b'. dec b = (int s, b') \<and> read_ok b' \<and> read_bits b' = rest"
begin

lemma decode:
  assumes "s < symbols" "read_ok b" "read_bits b = enc s @ rest"
  obtains b' where "dec b = (int s, b')" "read_ok b'" "read_bits b' = rest"
  using dec_enc [OF assms] by (elim exE conjE)

lemma decode_extra:
  assumes "s < symbols" "read_ok b" "read_bits b = enc s @ nat_bits e v @ rest" "e \<le> 31" "v < 2 ^ e"
  obtains b' b'' where "dec b = (int s, b')" "bitarray_fetch cb b' e = (int v, b'')" "read_ok b''" "read_bits b'' = rest"
proof -
  obtain b' where b': "dec b = (int s, b')" "read_ok b'" "read_bits b' = nat_bits e v @ rest"
    by (rule decode [OF assms(1-3)])
  have "\<exists>b''. bitarray_fetch cb b' e = (int (bits_val (take e (read_bits b'))), b'') \<and>
    read_ok b'' \<and> read_bits b'' = drop e (read_bits b')"
    by (rule bitarray_fetch_main) (use b' assms(4) in simp_all)
  with b' assms(5) show thesis by (auto simp: bits_val_nat_bits intro: that)
qed

end

end
