(* ===== verification/Inflate.thy ===== *)
theory Inflate
  imports Huffman Symbol_Code
begin

text \<open>
  Decompression, \<^verbatim>\<open>src/kernel/lib/inflate.c\<close>. The output buffer is the list of the bytes
  stored so far, so that its length is the source's \<open>off\<close>; the result is the error code, the bytes,
  the value left in \<open>*size\<close> and the stream. The tables built at the first call are constant, so the
  flag that caches them is not part of the state. Lengths are naturals: a length is at most
  \<open>258\<close> and a distance at most \<open>32768\<close>, far below the width of the source's integers.
\<close>

record bit_code =
  bc_extra :: nat
  bc_value :: nat

definition length_codes :: "bit_code list" where
  "length_codes = map (\<lambda>(e, v). \<lparr>bc_extra = e, bc_value = v\<rparr>)
    [(0, 3), (0, 4), (0, 5), (0, 6), (0, 7), (0, 8), (0, 9), (0, 10),
     (1, 11), (1, 13), (1, 15), (1, 17), (2, 19), (2, 23), (2, 27), (2, 31),
     (3, 35), (3, 43), (3, 51), (3, 59), (4, 67), (4, 83), (4, 99), (4, 115),
     (5, 131), (5, 163), (5, 195), (5, 227), (0, 258)]"

definition distance_codes :: "bit_code list" where
  "distance_codes = map (\<lambda>(e, v). \<lparr>bc_extra = e, bc_value = v\<rparr>)
    [(0, 1), (0, 2), (0, 3), (0, 4), (1, 5), (1, 7), (2, 9), (2, 13),
     (3, 17), (3, 25), (4, 33), (4, 49), (5, 65), (5, 97), (6, 129), (6, 193),
     (7, 257), (7, 385), (8, 513), (8, 769), (9, 1025), (9, 1537), (10, 2049), (10, 3073),
     (11, 4097), (11, 6145), (12, 8193), (12, 12289), (13, 16385), (13, 24577), (0, 65535)]"

definition code_symbols :: "nat list" where
  "code_symbols = replicate 144 8 @ replicate 112 9 @ replicate 24 7 @ replicate 6 8 @ replicate 2 8"

definition dist_symbols :: "nat list" where
  "dist_symbols = replicate 32 5"

definition inflate_init :: "(huffman \<times> huffman) option" where
  "inflate_init =
    (case huffman_init code_symbols of
       (r, h1) \<Rightarrow> if r \<noteq> 0 then None
       else
         case huffman_init dist_symbols of
           (r, h2) \<Rightarrow> if r \<noteq> 0 then None else Some (h1, h2))"

primrec copy_loop :: "nat \<Rightarrow> nat \<Rightarrow> u8 list \<Rightarrow> u8 list" where
  "copy_loop 0 dist out = out"
| "copy_loop (Suc len) dist out = copy_loop len dist (out @ [out ! (length out - dist)])"

text \<open>The body of the loop for a length symbol; the result is zero when the loop goes on.\<close>

definition inflate_match ::
  "ba_callback \<Rightarrow> huffman \<Rightarrow> nat \<Rightarrow> nat \<Rightarrow> u8 list \<Rightarrow> bitarray \<Rightarrow> int \<times> u8 list \<times> bitarray" where
  "inflate_match cb h_dist sz lsym out b =
    (if lsym \<ge> 286 then (5, out, b)
     else
       let code = length_codes ! (lsym - 257) in
       case bitarray_fetch cb b (bc_extra code) of
         (val, b) \<Rightarrow>
       if val < 0 then (5, out, b)
       else
         let len = bc_value code + nat val in
         if length out + len > sz then (5, out, b)
         else
           case huffman_fetch cb h_dist b of
             (symb, b) \<Rightarrow>
           if symb < 0 \<or> symb \<ge> 30 then (5, out, b)
           else
             let code = distance_codes ! nat symb in
             case bitarray_fetch cb b (bc_extra code) of
               (val, b) \<Rightarrow>
             if val < 0 then (5, out, b)
             else
               let dist = bc_value code + nat val in
               if dist > length out then (4, out, b)
               else (0, copy_loop len dist out, b))"

lemma length_copy_loop [simp]: "length (copy_loop len dist out) = length out + len"
  by (induction len arbitrary: out) simp_all

lemma length_codes_value: "i < 29 \<Longrightarrow> 3 \<le> bc_value (length_codes ! i)"
proof -
  have "list_all (\<lambda>c. 3 \<le> bc_value c) length_codes" "length length_codes = 29" by (simp_all add: length_codes_def)
  then show "i < 29 \<Longrightarrow> 3 \<le> bc_value (length_codes ! i)" by (simp add: list_all_length)
qed

lemma inflate_match_length:
  assumes "inflate_match cb h_dist sz lsym out b = (r, out', b')"
  shows "r = 0 \<Longrightarrow> length out < length out' \<and> length out' \<le> sz"
    "r \<noteq> 0 \<Longrightarrow> out' = out \<and> (r = 4 \<or> r = 5)"
proof -
  have "0 < bc_value (length_codes ! (lsym - 257))" if "\<not> 286 \<le> lsym"
  proof -
    have "lsym - 257 < 29" using that by linarith
    from length_codes_value [OF this] show ?thesis by linarith
  qed
  then show "r = 0 \<Longrightarrow> length out < length out' \<and> length out' \<le> sz" "r \<noteq> 0 \<Longrightarrow> out' = out \<and> (r = 4 \<or> r = 5)"
    using assms by (auto simp: inflate_match_def Let_def split: if_splits prod.splits)
qed

function inflate_loop ::
  "ba_callback \<Rightarrow> huffman \<Rightarrow> huffman \<Rightarrow> nat \<Rightarrow> u8 list \<Rightarrow> bitarray \<Rightarrow> int \<times> u8 list \<times> nat \<times> bitarray" where
  "inflate_loop cb h_code h_dist sz out b =
    (case huffman_fetch cb h_code b of
       (symb, b) \<Rightarrow>
     if symb = 256 then (if sz \<noteq> length out then (1, out, length out, b) else (0, out, sz, b))
     else if symb < 0 then (3, out, sz, b)
     else if symb < 256 then
       if length out \<ge> sz then (4, out, sz, b)
       else inflate_loop cb h_code h_dist sz (out @ [word_of_int symb]) b
     else
       case inflate_match cb h_dist sz (nat symb) out b of
         (r, out, b) \<Rightarrow> if r \<noteq> 0 then (r, out, sz, b) else inflate_loop cb h_code h_dist sz out b)"
  by pat_completeness auto
termination
  by (relation "measure (\<lambda>(cb, h_code, h_dist, sz, out, b). sz - length out)")
    (auto dest!: inflate_match_length(1) [OF sym, OF _ refl])

declare inflate_loop.simps [simp del]

definition inflate :: "ba_callback \<Rightarrow> bitarray \<Rightarrow> nat \<Rightarrow> int \<times> u8 list \<times> nat \<times> bitarray" where
  "inflate cb b sz =
    (case inflate_init of
       None \<Rightarrow> (2, [], sz, b)
     | Some (h_code, h_dist) \<Rightarrow>
         case bitarray_fetch cb b 1 of
           (v, b) \<Rightarrow> if v \<noteq> 1 then (2, [], sz, b)
         else
           case bitarray_fetch cb b 2 of
             (v, b) \<Rightarrow> if v \<noteq> 1 then (2, [], sz, b)
           else inflate_loop cb h_code h_dist sz [] b)"

subsection \<open>Bounds\<close>

lemma inflate_loop_bounds:
  assumes "inflate_loop cb h_code h_dist sz out b = (r, out', sz', b')" "length out \<le> sz"
  shows "if r = 0 then length out' = sz \<and> sz' = sz
    else if r = 1 then length out' < sz \<and> sz' = length out'
    else r \<in> {3, 4, 5} \<and> length out' \<le> sz \<and> sz' = sz"
  using assms
proof (induction cb h_code h_dist sz out b rule: inflate_loop.induct)
  case (1 cb h_code h_dist sz out b)
  obtain s b1 where s: "huffman_fetch cb h_code b = (s, b1)" by (cases "huffman_fetch cb h_code b")
  obtain q out1 b2 where m: "inflate_match cb h_dist sz (nat s) out b1 = (q, out1, b2)"
    by (cases "inflate_match cb h_dist sz (nat s) out b1")
  note M = inflate_match_length [OF m]
  note e = 1(3) [unfolded inflate_loop.simps [of cb h_code h_dist sz out b] s prod.case m]
  consider "s = 256 \<or> s < 0 \<or> s < 256 \<and> sz \<le> length out \<or> 256 < s \<and> q \<noteq> 0"
    | "0 \<le> s" "s < 256" "\<not> sz \<le> length out" | "256 < s" "q = 0" by linarith
  then show ?case
  proof cases
    case 1
    then show ?thesis using e M(2) \<open>length out \<le> sz\<close> by (auto split: if_splits)
  next
    case 2
    have "inflate_loop cb h_code h_dist sz (out @ [word_of_int s]) b1 = (r, out', sz', b')" using e 2 by simp
    from 1(1) [OF s [symmetric] _ _ _ _ this] 2 show ?thesis by simp
  next
    case 3
    have "inflate_loop cb h_code h_dist sz out1 b2 = (r, out', sz', b')" using e 3 by simp
    from 1(2) [OF s [symmetric] _ _ _ m [symmetric] refl _ this] 3 M(1) show ?thesis by simp
  qed
qed

subsection \<open>The fixed codes\<close>

lemma count_list_replicate: "count_list (replicate n x) y = (if x = y then n else 0)"
  by (induction n) auto

lemma huffman_init_total:
  assumes "\<forall>x \<in> set ls. x \<le> 15" "check_lengths (map (ccount ls) [1..<16]) 1 \<noteq> None"
  shows "fst (huffman_init ls) = 0"
proof -
  obtain ok lengths where c: "count_lengths ls (replicate 16 0) = (ok, lengths)" by (cases "count_lengths ls (replicate 16 0)")
  note L = count_lengths_init [OF assms(1) c]
  have "lengths = map (ccount ls) [0..<16]" by (rule nth_equalityI) (use L in auto)
  then have "tl lengths = map (ccount ls) [1..<16]" by (simp add: upt_conv_Cons map_tl [symmetric])
  then show ?thesis using L(1) assms(2) c by (auto simp: huffman_init_def Let_def)
qed

lemma code_symbols_facts:
  "length code_symbols = 288" "\<forall>x \<in> set code_symbols. 1 \<le> x \<and> x \<le> 15" "fst (huffman_init code_symbols) = 0"
proof -
  show le: "length code_symbols = 288" "\<forall>x \<in> set code_symbols. 1 \<le> x \<and> x \<le> 15" by (auto simp: code_symbols_def)
  have "check_lengths (map (ccount code_symbols) [1..<16]) 1 = Some 0"
    by (simp add: upt_conv_Cons ccount_count code_symbols_def count_list_append count_list_replicate Let_def)
  then show "fst (huffman_init code_symbols) = 0" using le by (intro huffman_init_total) auto
qed

lemma dist_symbols_facts:
  "length dist_symbols = 32" "\<forall>x \<in> set dist_symbols. 1 \<le> x \<and> x \<le> 15" "fst (huffman_init dist_symbols) = 0"
proof -
  show le: "length dist_symbols = 32" "\<forall>x \<in> set dist_symbols. 1 \<le> x \<and> x \<le> 15" by (auto simp: dist_symbols_def)
  have "check_lengths (map (ccount dist_symbols) [1..<16]) 1 = Some 0"
    by (simp add: upt_conv_Cons ccount_count dist_symbols_def count_list_replicate Let_def)
  then show "fst (huffman_init dist_symbols) = 0" using le by (intro huffman_init_total) auto
qed

definition lit_huffman :: huffman where
  "lit_huffman = snd (huffman_init code_symbols)"

definition dist_huffman :: huffman where
  "dist_huffman = snd (huffman_init dist_symbols)"

definition lit_table :: "nat list" where
  "lit_table = snd (huffman_table lit_huffman 576)"

definition dst_table :: "nat list" where
  "dst_table = snd (huffman_table dist_huffman 64)"

definition table_bits :: "nat list \<Rightarrow> nat \<Rightarrow> bool list" where
  "table_bits table s = nat_bits (table ! (2 * s)) (table ! (2 * s + 1))"

lemma fixed_init:
  "huffman_init code_symbols = (0, lit_huffman)" "huffman_init dist_symbols = (0, dist_huffman)"
  using code_symbols_facts(3) dist_symbols_facts(3) by (simp_all add: lit_huffman_def dist_huffman_def prod_eq_iff)

lemma inflate_init_fixed: "inflate_init = Some (lit_huffman, dist_huffman)"
  by (simp add: inflate_init_def fixed_init)

lemma fixed_tables:
  "huffman_table lit_huffman 576 = (0, lit_table)" "huffman_table dist_huffman 64 = (0, dst_table)"
proof -
  obtain t where "huffman_table lit_huffman (2 * length code_symbols) = (0, t)"
    by (rule huffman_table_total [OF huffman_init_ok(1) [OF fixed_init(1)] code_symbols_facts(2)])
  then show "huffman_table lit_huffman 576 = (0, lit_table)" by (simp add: lit_table_def code_symbols_facts(1))
  obtain t where "huffman_table dist_huffman (2 * length dist_symbols) = (0, t)"
    by (rule huffman_table_total [OF huffman_init_ok(1) [OF fixed_init(2)] dist_symbols_facts(2)])
  then show "huffman_table dist_huffman 64 = (0, dst_table)" by (simp add: dst_table_def dist_symbols_facts(1))
qed

text \<open>Both fixed codes meet the contract of a symbol code.\<close>

interpretation lit: symbol_code 288 "table_bits lit_table" "huffman_fetch cb lit_huffman" for cb
proof (unfold_locales)
  fix s b rest assume a: "s < 288" "read_ok b" "read_bits b = table_bits lit_table s @ rest"
  have "code_symbols ! s \<in> set code_symbols" using a(1) code_symbols_facts(1) by simp
  then show "\<exists>b'. huffman_fetch cb lit_huffman b = (int s, b') \<and> read_ok b' \<and> read_bits b' = rest"
    using huffman_decode [OF huffman_init_ok(1) [OF fixed_init(1)] fixed_tables(1), of s b rest cb] a code_symbols_facts
    by (simp add: table_bits_def)
qed

interpretation dst: symbol_code 32 "table_bits dst_table" "huffman_fetch cb dist_huffman" for cb
proof (unfold_locales)
  fix s b rest assume a: "s < 32" "read_ok b" "read_bits b = table_bits dst_table s @ rest"
  have "dist_symbols ! s \<in> set dist_symbols" using a(1) dist_symbols_facts(1) by simp
  then show "\<exists>b'. huffman_fetch cb dist_huffman b = (int s, b') \<and> read_ok b' \<and> read_bits b' = rest"
    using huffman_decode [OF huffman_init_ok(1) [OF fixed_init(2)] fixed_tables(2), of s b rest cb] a dist_symbols_facts
    by (simp add: table_bits_def)
qed

subsection \<open>The format\<close>

text \<open>
  The elements of a compressed block with the fixed codes: a literal, or a match given by its length
  symbol, the extra length bits, its distance symbol and the extra distance bits. The number of extra
  bits and the values of the symbols follow the rules of the format, not the tables of the code.
\<close>

datatype token = Literal u8 | Match nat nat nat nat

definition length_extra :: "nat \<Rightarrow> nat" where
  "length_extra li = (if li < 8 \<or> li = 28 then 0 else li div 4 - 1)"

definition length_base :: "nat \<Rightarrow> nat" where
  "length_base li = (if li < 8 then 3 + li else if li = 28 then 258 else 3 + (4 + li mod 4) * 2 ^ length_extra li)"

definition dist_extra :: "nat \<Rightarrow> nat" where
  "dist_extra di = (if di < 4 then 0 else di div 2 - 1)"

definition dist_base :: "nat \<Rightarrow> nat" where
  "dist_base di = (if di < 4 then 1 + di else 1 + (2 + di mod 2) * 2 ^ dist_extra di)"

primrec token_bits :: "token \<Rightarrow> bool list" where
  "token_bits (Literal c) = table_bits lit_table (unat c)"
| "token_bits (Match li lv di dv) = table_bits lit_table (257 + li) @ nat_bits (length_extra li) lv @
    table_bits dst_table di @ nat_bits (dist_extra di) dv"

abbreviation token_len :: "nat \<Rightarrow> nat \<Rightarrow> nat" where
  "token_len li lv \<equiv> length_base li + lv"

abbreviation token_dist :: "nat \<Rightarrow> nat \<Rightarrow> nat" where
  "token_dist di dv \<equiv> dist_base di + dv"

primrec token_ok :: "nat \<Rightarrow> token \<Rightarrow> bool" where
  "token_ok off (Literal c) = True"
| "token_ok off (Match li lv di dv) \<longleftrightarrow> li < 29 \<and> lv < 2 ^ length_extra li \<and> di < 30 \<and>
    dv < 2 ^ dist_extra di \<and> token_dist di dv \<le> off"

text \<open>
  The output an element stands for: a match repeats the last \<open>dist\<close> bytes, from the first of them on and
  over again until the length is reached.
\<close>

definition repeated :: "nat \<Rightarrow> nat \<Rightarrow> u8 list \<Rightarrow> u8 list" where
  "repeated len dist out = map (\<lambda>k. out ! (length out - dist + k mod dist)) [0..<len]"

primrec expand :: "token \<Rightarrow> u8 list \<Rightarrow> u8 list" where
  "expand (Literal c) out = out @ [c]"
| "expand (Match li lv di dv) out = out @ repeated (token_len li lv) (token_dist di dv) out"

lemma copy_loop_repeated:
  assumes "1 \<le> dist" "dist \<le> length out"
  shows "copy_loop len dist out = out @ repeated len dist out"
proof -
  let ?f = "\<lambda>k. out ! (length out - dist + k mod dist)"
  have "copy_loop n dist (out @ map ?f [0..<j]) = out @ map ?f [0..<j + n]" for n j
  proof (induction n arbitrary: j)
    case (Suc n)
    have "(out @ map ?f [0..<j]) ! (length (out @ map ?f [0..<j]) - dist) = ?f j"
    proof (cases "j < dist")
      case True
      then have "length out + j - dist < length out" "length out + j - dist = length out - dist + j" using assms by auto
      then show ?thesis using True by (simp add: nth_append)
    next
      case False
      then have "\<not> length out + j - dist < length out" "length out + j - dist - length out = j - dist" "j - dist < j"
        using assms by auto
      moreover have "(j - dist) mod dist = j mod dist" using False by (simp add: le_mod_geq)
      ultimately show ?thesis by (simp add: nth_append)
    qed
    then show ?case using Suc.IH [of "Suc j"] by simp
  qed simp
  from this [of len 0] show ?thesis by (simp add: repeated_def)
qed

lemma code_tables:
  "length_codes = map (\<lambda>i. \<lparr>bc_extra = length_extra i, bc_value = length_base i\<rparr>) [0..<29]"
  "distance_codes = map (\<lambda>i. \<lparr>bc_extra = dist_extra i, bc_value = dist_base i\<rparr>) [0..<30] @ [\<lparr>bc_extra = 0, bc_value = 65535\<rparr>]"
  by (simp_all add: length_codes_def distance_codes_def length_extra_def length_base_def dist_extra_def dist_base_def upt_rec)

lemma length_code: "li < 29 \<Longrightarrow> bc_extra (length_codes ! li) = length_extra li \<and> bc_value (length_codes ! li) = length_base li"
  unfolding code_tables by simp

lemma distance_code: "di < 30 \<Longrightarrow> bc_extra (distance_codes ! di) = dist_extra di \<and> bc_value (distance_codes ! di) = dist_base di"
  unfolding code_tables by (simp add: nth_append)

lemma dist_base_pos: "1 \<le> dist_base di"
  by (simp add: dist_base_def)

fun tokens_ok :: "token list \<Rightarrow> u8 list \<Rightarrow> bool" where
  "tokens_ok [] out = True"
| "tokens_ok (t # ts) out \<longleftrightarrow> token_ok (length out) t \<and> tokens_ok ts (expand t out)"

definition block_bits :: "token list \<Rightarrow> bool list" where
  "block_bits ts = [True, True, False] @ concat (map token_bits ts) @ table_bits lit_table 256"

lemma code_extra_bound:
  "li < 29 \<Longrightarrow> bc_extra (length_codes ! li) \<le> 31" "di < 30 \<Longrightarrow> bc_extra (distance_codes ! di) \<le> 31"
proof -
  have "list_all (\<lambda>c. bc_extra c \<le> 31) length_codes" "list_all (\<lambda>c. bc_extra c \<le> 31) distance_codes"
    "length length_codes = 29" "length distance_codes = 31" by (simp_all add: length_codes_def distance_codes_def)
  then show "li < 29 \<Longrightarrow> bc_extra (length_codes ! li) \<le> 31" "di < 30 \<Longrightarrow> bc_extra (distance_codes ! di) \<le> 31"
    by (simp_all add: list_all_length)
qed

lemma expand_length: "length out \<le> length (expand t out)"
  by (cases t) simp_all

lemma fold_expand_length: "length out \<le> length (fold expand ts out)"
proof (induction ts arbitrary: out)
  case (Cons t ts)
  then show ?case using expand_length [of out t] order_trans by fastforce
qed simp

lemma inflate_match_token:
  assumes "token_ok (length out) (Match li lv di dv)" "length (expand (Match li lv di dv) out) \<le> sz" "read_ok b"
    "read_bits b = token_bits (Match li lv di dv) @ rest"
  obtains b1 b2 where "huffman_fetch cb lit_huffman b = (int (257 + li), b1)"
    "inflate_match cb dist_huffman sz (257 + li) out b1 = (0, expand (Match li lv di dv) out, b2)"
    "read_ok b2" "read_bits b2 = rest"
proof -
  have l: "li < 29" "di < 30" using assms(1) by simp_all
  note code = length_code [OF l(1)] distance_code [OF l(2)]
  have ok: "li < 29" "lv < 2 ^ length_extra li" "di < 30" "dv < 2 ^ dist_extra di"
    "token_dist di dv \<le> length out" "length out + token_len li lv \<le> sz" using assms(1,2) by (simp_all add: repeated_def)
  have e: "length_extra li \<le> 31" "dist_extra di \<le> 31" using code_extra_bound(1) [OF l(1)] code_extra_bound(2) [OF l(2)] code by simp_all
  have copy: "copy_loop (token_len li lv) (token_dist di dv) out = expand (Match li lv di dv) out"
    using copy_loop_repeated [of "token_dist di dv" out] ok(5) dist_base_pos [of di] by simp
  obtain b1 b2 where b: "huffman_fetch cb lit_huffman b = (int (257 + li), b1)"
    "bitarray_fetch cb b1 (length_extra li) = (int lv, b2)" "read_ok b2"
    "read_bits b2 = table_bits dst_table di @ nat_bits (dist_extra di) dv @ rest"
    by (rule lit.decode_extra [of "257 + li" b "length_extra li" lv "table_bits dst_table di @ nat_bits (dist_extra di) dv @ rest" cb cb])
      (use ok assms e in auto)
  obtain b3 b4 where c: "huffman_fetch cb dist_huffman b2 = (int di, b3)"
    "bitarray_fetch cb b3 (dist_extra di) = (int dv, b4)" "read_ok b4" "read_bits b4 = rest"
    by (rule dst.decode_extra [of di b2 "dist_extra di" dv rest cb cb]) (use ok b e in auto)
  have "inflate_match cb dist_huffman sz (257 + li) out b1 = (0, copy_loop (token_len li lv) (token_dist di dv) out, b4)"
    using ok b c code by (simp add: inflate_match_def Let_def)
  then show thesis using that b(1) c(3,4) unfolding copy by blast
qed

lemma inflate_loop_tokens:
  assumes "tokens_ok ts out" "length (fold expand ts out) \<le> sz" "read_ok b"
    "read_bits b = concat (map token_bits ts) @ table_bits lit_table 256 @ rest"
  shows "\<exists>b'. inflate_loop cb lit_huffman dist_huffman sz out b =
      (if length (fold expand ts out) = sz then 0 else 1, fold expand ts out, length (fold expand ts out), b') \<and>
    read_ok b' \<and> read_bits b' = rest"
  using assms
proof (induction ts arbitrary: out b)
  case Nil
  obtain b1 where "huffman_fetch cb lit_huffman b = (int 256, b1)" "read_ok b1" "read_bits b1 = rest"
    by (rule lit.decode [of 256 b rest cb]) (use Nil in auto)
  then show ?case by (subst inflate_loop.simps) auto
next
  case (Cons t ts)
  let ?rest = "concat (map token_bits ts) @ table_bits lit_table 256 @ rest"
  have "length (expand t out) \<le> length (fold expand (t # ts) out)" using fold_expand_length by simp
  then have le: "length (expand t out) \<le> sz" using Cons.prems(2) by (rule order_trans)
  have IH: "\<exists>b'. inflate_loop cb lit_huffman dist_huffman sz (expand t out) b2 =
      (if length (fold expand (t # ts) out) = sz then 0 else 1, fold expand (t # ts) out, length (fold expand (t # ts) out), b') \<and>
    read_ok b' \<and> read_bits b' = rest" if "read_ok b2" "read_bits b2 = ?rest" for b2
    using Cons.IH [of "expand t out" b2] Cons.prems(1,2) that by simp
  show ?case
  proof (cases t)
    case (Literal c)
    have c: "unat c < 256" using unsigned_less [of c] by simp
    obtain b1 where b1: "huffman_fetch cb lit_huffman b = (int (unat c), b1)" "read_ok b1" "read_bits b1 = ?rest"
      by (rule lit.decode [of "unat c" b ?rest cb]) (use Cons.prems Literal c in auto)
    have "int (unat c) < int 256" using c by (simp only: of_nat_less_iff)
    then have u: "uint c < 256" unfolding of_nat_unat by simp
    have "inflate_loop cb lit_huffman dist_huffman sz out b = inflate_loop cb lit_huffman dist_huffman sz (expand t out) b1"
      using b1(1) u le by (subst inflate_loop.simps) (simp add: Literal)
    with IH [OF b1(2,3)] show ?thesis by simp
  next
    case (Match li lv di dv)
    obtain b1 b2 where b: "huffman_fetch cb lit_huffman b = (int (257 + li), b1)"
      "inflate_match cb dist_huffman sz (257 + li) out b1 = (0, expand t out, b2)" "read_ok b2" "read_bits b2 = ?rest"
      by (rule inflate_match_token [of out li lv di dv sz b ?rest cb]) (use Cons.prems le Match in auto)
    have n: "nat (int (257 + li)) = 257 + li" by simp
    have "inflate_loop cb lit_huffman dist_huffman sz out b = inflate_loop cb lit_huffman dist_huffman sz (expand t out) b2"
      using b(2) by (subst inflate_loop.simps) (simp add: b(1) n del: of_nat_add)
    with IH [OF b(3,4)] show ?thesis by simp
  qed
qed

lemma inflate_block:
  assumes "tokens_ok ts []" "length (fold expand ts []) \<le> sz" "read_ok b" "read_bits b = block_bits ts @ rest"
  shows "\<exists>b'. inflate cb b sz =
      (if length (fold expand ts []) = sz then 0 else 1, fold expand ts [], length (fold expand ts []), b') \<and>
    read_ok b' \<and> read_bits b' = rest"
proof -
  obtain b1 where b1: "bitarray_fetch cb b 1 = (1, b1)" "read_ok b1" "read_bits b1 = [True, False] @ concat (map token_bits ts) @ table_bits lit_table 256 @ rest"
    using bitarray_fetch_main [OF assms(3), of 1 cb] assms(4) by (auto simp: block_bits_def)
  obtain b2 where b2: "bitarray_fetch cb b1 2 = (1, b2)" "read_ok b2" "read_bits b2 = concat (map token_bits ts) @ table_bits lit_table 256 @ rest"
    using bitarray_fetch_main [OF b1(2), of 2 cb] b1(3) by auto
  show ?thesis using inflate_loop_tokens [OF assms(1,2) b2(2,3), of cb] b1(1) b2(1)
    by (simp add: inflate_def inflate_init_fixed)
qed

text \<open>
  C24. Whatever the compressed stream and its callback are, the inflater stops and never stores more
  bytes than the buffer holds. It reports success exactly for a full buffer, result \<open>1\<close> for a
  shorter output whose size it stores in \<open>*size\<close>, and one of the errors \<open>2\<close> to \<open>5\<close>
  otherwise, with \<open>*size\<close> unchanged.
\<close>

theorem inflate_bounds:
  "case inflate cb b sz of (r, out, sz', b') \<Rightarrow>
    if r = 0 then length out = sz \<and> sz' = sz
    else if r = 1 then length out < sz \<and> sz' = length out
    else r \<in> {2, 3, 4, 5} \<and> length out \<le> sz \<and> sz' = sz"
proof -
  have loop: "case inflate_loop cb lit_huffman dist_huffman sz [] c of (r, out, sz', b') \<Rightarrow>
    if r = 0 then length out = sz \<and> sz' = sz
    else if r = 1 then length out < sz \<and> sz' = length out
    else r \<in> {2, 3, 4, 5} \<and> length out \<le> sz \<and> sz' = sz" for c
    using inflate_loop_bounds [of cb lit_huffman dist_huffman sz "[]" c]
    by (cases "inflate_loop cb lit_huffman dist_huffman sz [] c") (auto split: if_splits)
  show ?thesis
    by (cases "bitarray_fetch cb b 1"; cases "bitarray_fetch cb (snd (bitarray_fetch cb b 1)) 2")
      (simp add: inflate_def inflate_init_fixed loop)
qed

text \<open>
  C23. The inflater implements the format: a stream that starts with a block of valid elements with the
  fixed codes inflates to what the elements stand for, when the buffer is large enough: literals are appended,
  and a match repeats the last \<open>dist\<close> bytes of the output over and over until its length is reached, with
  lengths and distances as the format numbers them. The stream is left right behind the block.
\<close>

theorem inflate_correct:
  assumes "tokens_ok ts []" "length (fold expand ts []) \<le> sz" "read_ok b" "read_bits b = block_bits ts @ rest"
  shows "\<exists>b'. inflate cb b sz =
      (if length (fold expand ts []) = sz then 0 else 1, fold expand ts [], length (fold expand ts []), b') \<and>
    read_ok b' \<and> read_bits b' = rest"
  by (rule inflate_block [OF assms])

lemma lit_table_entry:
  assumes "k < ccount code_symbols l" "1 \<le> l" "l \<le> 15" "syms code_symbols 288 l ! k = s"
  shows "table_bits lit_table s = rev (nat_bits l (cbase code_symbols l + k))"
proof -
  have l: "l < 16 \<or> l = 16 \<and> k < 0" using assms(3) by linarith
  note t = code_table_okD [OF huffman_table_main(1) [OF huffman_init_ok(1) [OF fixed_init(1)] fixed_tables(1)] assms(2,1) l,
      unfolded code_symbols_facts(1) assms(4)]
  show ?thesis unfolding table_bits_def t(2,3) by (rule nat_bits_rev_loop)
qed

lemma code_symbols_nth:
  "s < 144 \<Longrightarrow> code_symbols ! s = 8" "144 \<le> s \<Longrightarrow> s < 256 \<Longrightarrow> code_symbols ! s = 9" "256 \<le> s \<Longrightarrow> s < 280 \<Longrightarrow> code_symbols ! s = 7"
  by (auto simp: code_symbols_def nth_append)

lemma ccount_code_symbols:
  "ccount code_symbols 7 = 24" "ccount code_symbols 8 = 152" "ccount code_symbols 9 = 112"
  "l \<notin> {7, 8, 9} \<Longrightarrow> ccount code_symbols l = 0"
  by (simp_all add: ccount_count code_symbols_def count_list_append count_list_replicate)

lemma cbase_code_symbols: "cbase code_symbols 7 = 0" "cbase code_symbols 8 = 48"
proof -
  have "cbase code_symbols (Suc 7) = 2 * (cbase code_symbols 7 + 24)"
    by (simp only: cbase.simps ccount_code_symbols) simp
  moreover show "cbase code_symbols 7 = 0" by (simp add: numeral_eq_Suc ccount_code_symbols)
  ultimately show "cbase code_symbols 8 = 48" by simp
qed

lemma lit_table_end: "table_bits lit_table 256 = replicate 7 False"
proof -
  have "[0..<288] = [0..<256] @ 256 # [257..<288::nat]"
    using upt_add_eq_append [of 0 256 32] upt_conv_Cons [of 256 288] by simp
  moreover have "filter (\<lambda>s. code_symbols ! s = 7) [0..<256] = []"
  proof -
    have "code_symbols ! s \<noteq> 7" if "s < 256" for s using code_symbols_nth(1,2) [of s] that by (cases "s < 144") auto
    then show ?thesis by (auto simp: filter_empty_conv)
  qed
  ultimately have "syms code_symbols 288 7 = 256 # filter (\<lambda>s. code_symbols ! s = 7) [257..<288]"
    using code_symbols_nth(3) [of 256] by (simp only: syms_def filter_append filter.simps) simp
  then have "table_bits lit_table 256 = rev (nat_bits 7 (0 + 0))"
    using lit_table_entry [of 0 7 256] by (simp add: ccount_code_symbols cbase_code_symbols)
  then show ?thesis by (simp add: nat_bits_def numeral_eq_Suc)
qed

lemma lit_table_small: "s < 144 \<Longrightarrow> table_bits lit_table s = rev (nat_bits 8 (48 + s))"
proof (rule lit_table_entry [of s 8 s, unfolded cbase_code_symbols])
  assume s: "s < 144"
  then show "s < ccount code_symbols 8" by (simp add: ccount_code_symbols)
  have "[0..<288] = [0..<144] @ [144..<288::nat]" using upt_add_eq_append [of 0 144 144] by simp
  moreover have "filter (\<lambda>s. code_symbols ! s = 8) [0..<144] = [0..<144]"
    using code_symbols_nth(1) by (auto simp: filter_id_conv)
  ultimately show "syms code_symbols 288 8 ! s = s" using s by (simp add: syms_def nth_append)
qed auto

lemma lit_table_length:
  assumes s: "256 \<le> s" "s < 280"
  shows "table_bits lit_table s = rev (nat_bits 7 (s - 256))"
proof -
  have u: "[0..<288] = [0..<256] @ [256..<280] @ [280..<288::nat]"
  proof -
    have "[256..<280 + 8] = [256..<280] @ [280..<280 + 8 :: nat]" by (rule upt_add_eq_append) simp
    moreover have "[0..<256 + 32] = [0..<256] @ [256..<256 + 32 :: nat]" by (rule upt_add_eq_append) simp
    ultimately show ?thesis by (simp only: arith_simps)
  qed
  have a: "filter (\<lambda>s. code_symbols ! s = 7) [0..<256] = []"
  proof -
    have "code_symbols ! s \<noteq> 7" if "s < 256" for s using code_symbols_nth(1,2) [of s] that by (cases "s < 144") auto
    then show ?thesis by (simp add: filter_empty_conv)
  qed
  have b: "filter (\<lambda>s. code_symbols ! s = 7) [256..<280] = [256..<280]"
    using code_symbols_nth(3) by (auto simp: filter_id_conv)
  have "[256..<280] ! (s - 256) = 256 + (s - 256)" by (rule nth_upt) (use s in simp)
  then have l: "[256..<280] ! (s - 256) = s" "s - 256 < length [256..<280]"
    using s by (simp only: le_add_diff_inverse, simp)
  have "syms code_symbols 288 7 = [256..<280] @ filter (\<lambda>s. code_symbols ! s = 7) [280..<288]"
    by (simp only: syms_def u filter_append a b append_Nil)
  then have "syms code_symbols 288 7 ! (s - 256) = s" using l by (simp only: nth_append if_True)
  moreover have "s - 256 < ccount code_symbols 7" using s by (simp add: ccount_code_symbols)
  ultimately show ?thesis using lit_table_entry [of "s - 256" 7 s] by (simp add: cbase_code_symbols)
qed

lemma dst_table_entry:
  assumes s: "s < 32"
  shows "table_bits dst_table s = rev (nat_bits 5 s)"
proof -
  have c: "ccount dist_symbols 5 = 32" "\<And>l. l \<noteq> 5 \<Longrightarrow> ccount dist_symbols l = 0"
    by (simp_all add: ccount_count dist_symbols_def count_list_replicate)
  have "cbase dist_symbols 5 = 0" by (simp add: numeral_eq_Suc c(2))
  moreover have "syms dist_symbols 32 5 = [0..<32]"
    by (auto simp: syms_def dist_symbols_def filter_id_conv)
  ultimately show ?thesis
    using code_table_okD [OF huffman_table_main(1) [OF huffman_init_ok(1) [OF fixed_init(2)] fixed_tables(2)], of 5 s] s
    by (simp add: c(1) dist_symbols_facts(1) table_bits_def nat_bits_rev_loop)
qed

text \<open>The stream of two literals and a match of length 4 at distance 2.\<close>

theorem inflate_correct_witness:
  "\<exists>b'. inflate default_callback (bitarray_init [75, 76, 2, 65, 0] 5) 9 = (1, [97, 98, 97, 98, 97, 98], 6, b') \<and>
    read_bits b' = [False, False]"
proof -
  let ?ts = "[Literal 97, Literal 98, Match 1 0 1 0]"
  have n: "nat_bits 8 145 = [True, False, False, False, True, False, False, True]"
    "nat_bits 8 146 = [False, True, False, False, True, False, False, True]"
    "nat_bits 7 2 = [False, True, False, False, False, False, False]" "nat_bits 5 (Suc 0) = [True, False, False, False, False]"
    by code_simp+
  have "block_bits ?ts = [True, True, False] @ [True, False, False, True, False, False, False, True] @
      [True, False, False, True, False, False, True, False] @ [False, False, False, False, False, True, False] @
      [False, False, False, False, True] @ replicate 7 False"
    by (simp add: block_bits_def lit_table_end lit_table_small lit_table_length dst_table_entry n length_extra_def dist_extra_def)
  moreover have "read_bits (bitarray_init [75, 76, 2, 65, 0] 5) =
      ([True, True, False] @ [True, False, False, True, False, False, False, True] @
      [True, False, False, True, False, False, True, False] @ [False, False, False, False, False, True, False] @
      [False, False, False, False, True] @ replicate 7 False) @ [False, False]"
    by code_simp
  ultimately have bits: "read_bits (bitarray_init [75, 76, 2, 65, 0] 5) = block_bits ?ts @ [False, False]" by simp
  have out: "fold expand ?ts [] = [97, 98, 97, 98, 97, 98]"
    by (simp add: repeated_def length_base_def dist_base_def upt_rec mod_Suc)
  have ok: "tokens_ok ?ts []" by (simp add: length_extra_def dist_extra_def dist_base_def)
  have "read_ok (bitarray_init [75, 76, 2, 65, 0] 5)" by code_simp
  from inflate_correct [OF ok _ this bits, of 9 default_callback] show ?thesis unfolding out by auto
qed

end
