(* ===== verification/Deflate.thy ===== *)
theory Deflate
  imports Inflate
begin

text \<open>
  Compression, \<^verbatim>\<open>src/tools/dy-zip/deflate.c\<close>: the LZ77 match search and the writer of
  literals and matches. The two static code tables are arguments of the functions that read them,
  and whether \<^verbatim>\<open>malloc\<close> succeeds is an argument of \<open>deflate_compress\<close>. The streams
  here are initialised without a callback of their own.
\<close>

text \<open>
  The two searching loops of \<^verbatim>\<open>put_lendist\<close> over a code table; \<^const>\<open>None\<close> stands for a read past
  the end of the table.
\<close>

fun find_code :: "bit_code list \<Rightarrow> nat \<Rightarrow> nat \<Rightarrow> nat option" where
  "find_code [] i v = None"
| "find_code (c # cs) i v =
    (if v = bc_value c then Some i
     else case cs of
       [] \<Rightarrow> None
     | d # ds \<Rightarrow> if v < bc_value d then Some i else find_code cs (i + 1) v)"

text \<open>One code word and its extra bits, the part that is the same for lengths and distances.\<close>

definition put_code :: "nat list \<Rightarrow> nat \<Rightarrow> bit_code \<Rightarrow> nat \<Rightarrow> bitarray \<Rightarrow> int \<times> bitarray" where
  "put_code table idx code v b =
    (case bitarray_shove default_callback b (table ! (push_bit 1 idx)) (table ! (push_bit 1 idx + 1)) of
       (r, b) \<Rightarrow>
     if r \<noteq> 0 then (-1, b)
     else if bc_extra code \<noteq> 0 then
       (case bitarray_shove default_callback b (bc_extra code) (v - bc_value code) of
          (r, b) \<Rightarrow> if r \<noteq> 0 then (-1, b) else (0, b))
     else (0, b))"

definition put_lendist :: "nat list \<Rightarrow> nat list \<Rightarrow> bitarray \<Rightarrow> nat \<Rightarrow> nat \<Rightarrow> int \<times> bitarray" where
  "put_lendist code_table dist_table b len dist =
    (if len < 3 \<or> len > 258 \<or> dist < 1 \<or> dist > 32768 then (-1, b)
     else
       case find_code length_codes 0 len of
         None \<Rightarrow> (-1, b)
       | Some i \<Rightarrow>
           case put_code code_table (257 + i) (length_codes ! i) len b of
             (r, b) \<Rightarrow>
           if r \<noteq> 0 then (-1, b)
           else
             case find_code distance_codes 0 dist of
               None \<Rightarrow> (-1, b)
             | Some i \<Rightarrow>
                 case put_code dist_table i (distance_codes ! i) dist b of
                   (r, b) \<Rightarrow> if r \<noteq> 0 then (-1, b) else (0, b))"

definition put_literal :: "nat list \<Rightarrow> bitarray \<Rightarrow> u8 \<Rightarrow> int \<times> bitarray" where
  "put_literal code_table b c =
    (let c = unat c AND 0xFF in
     bitarray_shove default_callback b (code_table ! push_bit 1 c) (code_table ! (push_bit 1 c + 1)))"

text \<open>The length of the match at distance \<open>dist\<close>, whose first two bytes agree.\<close>

function match_loop :: "u8 list \<Rightarrow> nat \<Rightarrow> nat \<Rightarrow> nat \<Rightarrow> nat \<Rightarrow> nat" where
  "match_loop data i dist limit j =
    (if j < limit \<and> data ! (i - dist + j) = data ! (i + j) then match_loop data i dist limit (j + 1) else j)"
  by pat_completeness auto
termination
  by (relation "measure (\<lambda>(data, i, dist, limit, j). limit - j)") auto

declare match_loop.simps [simp del]

text \<open>The loop over the distances: the best length and distance found.\<close>

function find_match :: "u8 list \<Rightarrow> nat \<Rightarrow> nat \<Rightarrow> nat \<Rightarrow> u8 \<Rightarrow> u8 \<Rightarrow> nat \<Rightarrow> nat \<Rightarrow> nat \<Rightarrow> nat \<times> nat" where
  "find_match data i window limit c1 c2 dist found_len found_dist =
    (if dist \<le> i \<and> dist \<le> window then
       if data ! (i - dist) = c1 \<and> data ! (i - dist + 1) = c2 then
         let j = match_loop data i dist limit 2 in
         if found_len < j then
           if j \<ge> 64 then (j, dist)
           else find_match data i window limit c1 c2 (dist + 1) j dist
         else find_match data i window limit c1 c2 (dist + 1) found_len found_dist
       else find_match data i window limit c1 c2 (dist + 1) found_len found_dist
     else (found_len, found_dist))"
  by pat_completeness auto
termination
  by (relation "measure (\<lambda>(data, i, window, limit, c1, c2, dist, found_len, found_dist). Suc i - dist)") auto

declare find_match.simps [simp del]

lemma find_match_ge: "l \<le> fst (find_match data i window limit c1 c2 dist l d)"
proof (induction data i window limit c1 c2 dist l d rule: find_match.induct)
  case (1 data i window limit c1 c2 dist l d)
  show ?case using 1 by (subst find_match.simps) (force simp: Let_def)
qed

definition lz77_search :: "u8 list \<Rightarrow> nat \<Rightarrow> nat \<times> nat" where
  "lz77_search data i =
    (let sz = length data;
         window = (if sz \<le> 524288 then 32768 else 1024);
         limit = (if sz - i < 258 then sz - i else 258);
         c1 = data ! i;
         c2 = (if limit > 2 then data ! (i + 1) else 0)
     in find_match data i window limit c1 c2 1 2 0)"

lemma lz77_search_ge: "(len, dist) = lz77_search data i \<Longrightarrow> 2 \<le> len"
  using find_match_ge unfolding lz77_search_def Let_def by (metis fst_conv)

function lz77_loop :: "nat list \<Rightarrow> nat list \<Rightarrow> u8 list \<Rightarrow> nat \<Rightarrow> bitarray \<Rightarrow> int \<times> bitarray" where
  "lz77_loop code_table dist_table data i b =
    (if i < length data then
       case lz77_search data i of
         (found_len, found_dist) \<Rightarrow>
       if found_dist \<noteq> 0 then
         (case put_lendist code_table dist_table b found_len found_dist of
            (r, b) \<Rightarrow> if r \<noteq> 0 then (-1, b) else lz77_loop code_table dist_table data (i + found_len) b)
       else
         (case put_literal code_table b (data ! i) of
            (r, b) \<Rightarrow> if r \<noteq> 0 then (-1, b) else lz77_loop code_table dist_table data (i + 1) b)
     else (0, b))"
  by pat_completeness auto
termination
  by (relation "measure (\<lambda>(code_table, dist_table, data, i, b). length data - i)")
    (auto dest!: lz77_search_ge)

declare lz77_loop.simps [simp del]

definition lz77_compress :: "nat list \<Rightarrow> nat list \<Rightarrow> bitarray \<Rightarrow> u8 list \<Rightarrow> int \<times> bitarray" where
  "lz77_compress code_table dist_table b data =
    (case put_literal code_table b (data ! 0) of
       (r, b) \<Rightarrow> if r \<noteq> 0 then (-1, b) else lz77_loop code_table dist_table data 1 b)"

text \<open>The result and the first \<open>*size\<close> bytes of the data afterwards.\<close>

definition deflate_compress :: "bool \<Rightarrow> u8 list \<Rightarrow> int \<times> u8 list" where
  "deflate_compress malloc_ok data =
    (let sz = length data in
     if sz < 4 then (1, data)
     else
       case huffman_init code_symbols of (r, h) \<Rightarrow> if r \<noteq> 0 then (1, data)
       else case huffman_table h (2 * 288) of (r, code_table) \<Rightarrow> if r \<noteq> 0 then (1, data)
       else case huffman_init dist_symbols of (r, h) \<Rightarrow> if r \<noteq> 0 then (1, data)
       else case huffman_table h (2 * 32) of (r, dist_table) \<Rightarrow> if r \<noteq> 0 then (1, data)
       else if \<not> malloc_ok then (1, data)
       else
         let b = bitarray_init (replicate sz 0) sz;
             b = snd (bitarray_shove default_callback b 1 1);
             b = snd (bitarray_shove default_callback b 2 1)
         in
         case lz77_compress code_table dist_table b data of (r, b) \<Rightarrow> if r \<noteq> 0 then (1, data)
         else
           let b = snd (bitarray_shove default_callback b (code_table ! (2 * 256)) (code_table ! (2 * 256 + 1))) in
           case bitarray_written default_callback b of
             (r, written, b) \<Rightarrow>
             if r \<noteq> 0 \<or> written > sz - 1 then (1, data)
             else (0, take written (ba_done b)))"

subsection \<open>Writing elements\<close>

text \<open>
  The result of an operation that appends \<open>bs\<close>: it succeeds and the bits are in the stream, or it
  fails because the buffer is too small for them.
\<close>

definition shoves :: "bitarray \<Rightarrow> bool list \<Rightarrow> int \<times> bitarray \<Rightarrow> bool" where
  "shoves b bs res \<longleftrightarrow>
    (\<exists>b'. res = (0, b') \<and> write_ok b' \<and> written_bits b' = written_bits b @ bs \<and>
      ba_written b' + ba_size b' = ba_written b + ba_size b) \<or>
    (\<exists>b'. res = (-1, b') \<and> ba_state0 b' = 0 \<and> ba_state1 b' = 0 \<and> ba_size b' = 0 \<and>
      ba_written b' = ba_written b + ba_size b \<and> 8 * (ba_written b + ba_size b) + 8 \<le> length (written_bits b) + length bs)"

lemma shoves_shove: "write_ok b \<Longrightarrow> shoves b (nat_bits n v) (bitarray_shove default_callback b n v)"
  unfolding shoves_def bitarray_shove_def length_nat_bits by (rule shove_loop_main)

lemma shoves_cases:
  assumes "shoves b bs res"
  obtains b' where "res = (0, b')" "write_ok b'" "written_bits b' = written_bits b @ bs"
      "ba_written b' + ba_size b' = ba_written b + ba_size b"
    | b' where "res = (-1, b')"
  using assms unfolding shoves_def by blast

text \<open>Sequences: the second operation runs only after the first has succeeded.\<close>

lemma shoves_append:
  assumes "shoves b bs res" "\<And>b'. write_ok b' \<Longrightarrow> shoves b' cs (f b')"
  shows "shoves b (bs @ cs) (case res of (r, b) \<Rightarrow> if r \<noteq> 0 then (-1, b) else f b)"
  using assms(1)
proof (cases rule: shoves_cases)
  case (1 b')
  from assms(2) [OF 1(2)] show ?thesis unfolding 1(1) by (simp add: shoves_def 1(3,4) add.assoc)
next
  case (2 b')
  then show ?thesis using assms(1) by (auto simp: shoves_def)
qed

lemma shoves_done: "write_ok b \<Longrightarrow> shoves b [] (0, b)"
  by (simp add: shoves_def)

lemma put_code_shoves:
  assumes "write_ok b"
  shows "shoves b (table_bits table idx @ nat_bits (bc_extra code) (v - bc_value code)) (put_code table idx code v b)"
proof -
  have "shoves b' (nat_bits (bc_extra code) (v - bc_value code))
      (if bc_extra code \<noteq> 0 then
        (case bitarray_shove default_callback b' (bc_extra code) (v - bc_value code) of
          (r, b) \<Rightarrow> if r \<noteq> 0 then (-1, b) else (0, b))
       else (0, b'))" if "write_ok b'" for b'
    using that shoves_append [OF shoves_shove [OF that] shoves_done, of "bc_extra code" "v - bc_value code"]
    by (auto simp: shoves_done)
  from shoves_append [OF shoves_shove [OF assms] this, of "table ! (2 * idx)" "table ! (2 * idx + 1)"] show ?thesis
    by (simp add: put_code_def table_bits_def mult.commute)
qed

lemma put_literal_shoves: "write_ok b \<Longrightarrow> shoves b (token_bits (Literal c)) (put_literal lit_table b c)"
proof -
  have c: "unat c < 256" using unsigned_less [of c] by simp
  have "unat c AND 255 = unat c mod 256" by (rule and_mask_nat_eq [of _ 8]) simp_all
  also have "\<dots> = unat c" by (rule mod_less [OF c])
  finally have "unat c AND 255 = unat c" .
  then show "write_ok b \<Longrightarrow> ?thesis"
    using shoves_shove [of b "lit_table ! (2 * unat c)" "lit_table ! (2 * unat c + 1)"]
    by (simp add: put_literal_def table_bits_def Let_def mult.commute)
qed

subsection \<open>The code search\<close>

lemma find_code_main:
  assumes "cs \<noteq> []" "bc_value (hd cs) \<le> v" "v \<le> bc_value (last cs)"
  shows "\<exists>k < length cs. find_code cs i v = Some (i + k) \<and> bc_value (cs ! k) \<le> v \<and>
    (v = bc_value (cs ! k) \<or> Suc k < length cs \<and> v < bc_value (cs ! Suc k))"
  using assms
proof (induction cs arbitrary: i)
  case (Cons c cs)
  consider "v = bc_value c" | d ds where "v \<noteq> bc_value c" "cs = d # ds" "v < bc_value d"
    | d ds where "v \<noteq> bc_value c" "cs = d # ds" "\<not> v < bc_value d"
    using Cons.prems(2,3) by (cases cs) auto
  then show ?case
  proof cases
    case 3
    with Cons.IH [of "i + 1"] Cons.prems obtain k where k: "k < length cs" "find_code cs (i + 1) v = Some (i + 1 + k)"
      "bc_value (cs ! k) \<le> v" "v = bc_value (cs ! k) \<or> Suc k < length cs \<and> v < bc_value (cs ! Suc k)" by auto
    then show ?thesis using 3 by (intro exI [of _ "Suc k"]) auto
  qed (use Cons.prems in \<open>auto intro!: exI [of _ 0]\<close>)
qed simp

lemma codes_shape:
  "length length_codes = 29" "length distance_codes = 31"
  "hd length_codes = \<lparr>bc_extra = 0, bc_value = 3\<rparr>" "last length_codes = \<lparr>bc_extra = 0, bc_value = 258\<rparr>"
  "hd distance_codes = \<lparr>bc_extra = 0, bc_value = 1\<rparr>" "last distance_codes = \<lparr>bc_extra = 0, bc_value = 65535\<rparr>"
  "distance_codes ! 29 = \<lparr>bc_extra = 13, bc_value = 24577\<rparr>" "distance_codes ! 30 = \<lparr>bc_extra = 0, bc_value = 65535\<rparr>"
  by (simp_all add: length_codes_def distance_codes_def)

lemma codes_step:
  "k < 28 \<Longrightarrow> bc_value (length_codes ! Suc k) \<le> bc_value (length_codes ! k) + 2 ^ bc_extra (length_codes ! k)"
  "k < 29 \<Longrightarrow> bc_value (distance_codes ! Suc k) \<le> bc_value (distance_codes ! k) + 2 ^ bc_extra (distance_codes ! k)"
proof -
  have "list_all (\<lambda>k. bc_value (length_codes ! Suc k) \<le> bc_value (length_codes ! k) + 2 ^ bc_extra (length_codes ! k)) [0..<28]"
    "list_all (\<lambda>k. bc_value (distance_codes ! Suc k) \<le> bc_value (distance_codes ! k) + 2 ^ bc_extra (distance_codes ! k)) [0..<29]"
    by (simp_all add: length_codes_def distance_codes_def upt_conv_Cons)
  then show "k < 28 \<Longrightarrow> bc_value (length_codes ! Suc k) \<le> bc_value (length_codes ! k) + 2 ^ bc_extra (length_codes ! k)"
    "k < 29 \<Longrightarrow> bc_value (distance_codes ! Suc k) \<le> bc_value (distance_codes ! k) + 2 ^ bc_extra (distance_codes ! k)"
    by (auto simp: list_all_iff)
qed

lemma find_length_code:
  assumes "3 \<le> len" "len \<le> 258"
  obtains k where "find_code length_codes 0 len = Some k" "k < 29" "bc_value (length_codes ! k) \<le> len"
    "len - bc_value (length_codes ! k) < 2 ^ bc_extra (length_codes ! k)"
proof -
  have "length_codes \<noteq> []" using codes_shape(1) by auto
  from find_code_main [OF this, of len 0] assms codes_shape obtain k where
    k: "k < 29" "find_code length_codes 0 len = Some k" "bc_value (length_codes ! k) \<le> len"
      "len = bc_value (length_codes ! k) \<or> Suc k < 29 \<and> len < bc_value (length_codes ! Suc k)" by auto
  have "len - bc_value (length_codes ! k) < 2 ^ bc_extra (length_codes ! k)"
    using k(3,4) codes_step(1) [of k] by auto
  with k that show thesis by blast
qed

lemma find_distance_code:
  assumes "1 \<le> dist" "dist \<le> 32768"
  obtains k where "find_code distance_codes 0 dist = Some k" "k < 30" "bc_value (distance_codes ! k) \<le> dist"
    "dist - bc_value (distance_codes ! k) < 2 ^ bc_extra (distance_codes ! k)"
proof -
  have "distance_codes \<noteq> []" using codes_shape(2) by auto
  from find_code_main [OF this, of dist 0] assms codes_shape obtain k where
    k: "k < 31" "find_code distance_codes 0 dist = Some k" "bc_value (distance_codes ! k) \<le> dist"
      "dist = bc_value (distance_codes ! k) \<or> Suc k < 31 \<and> dist < bc_value (distance_codes ! Suc k)" by auto
  have "k \<noteq> 30" using k(3) assms(2) codes_shape(8) by auto
  then have k30: "k < 30" using k(1) by simp
  have "dist - bc_value (distance_codes ! k) < 2 ^ bc_extra (distance_codes ! k)"
  proof (cases "k = 29")
    case True
    then show ?thesis using assms(2) by (simp add: codes_shape(7))
  next
    case False
    then show ?thesis using k(3,4) k30 codes_step(2) [of k] by auto
  qed
  with k k30 that show thesis by blast
qed

subsection \<open>The elements the search produces\<close>

definition match_token :: "nat \<Rightarrow> nat \<Rightarrow> token" where
  "match_token len dist =
    (let li = the (find_code length_codes 0 len);
         di = the (find_code distance_codes 0 dist)
     in Match li (len - bc_value (length_codes ! li)) di (dist - bc_value (distance_codes ! di)))"

function lz77_tokens :: "u8 list \<Rightarrow> nat \<Rightarrow> token list" where
  "lz77_tokens data i =
    (if i < length data then
       case lz77_search data i of
         (len, dist) \<Rightarrow>
           if dist \<noteq> 0 then match_token len dist # lz77_tokens data (i + len)
           else Literal (data ! i) # lz77_tokens data (i + 1)
     else [])"
  by pat_completeness auto
termination
  by (relation "measure (\<lambda>(data, i). length data - i)") (auto dest!: lz77_search_ge)

declare lz77_tokens.simps [simp del]

lemma match_token_main:
  assumes "3 \<le> len" "len \<le> 258" "1 \<le> dist" "dist \<le> 32768"
  shows "token_ok off (match_token len dist) \<longleftrightarrow> dist \<le> off" "expand (match_token len dist) out = out @ repeated len dist out"
    "write_ok b \<Longrightarrow> shoves b (token_bits (match_token len dist)) (put_lendist lit_table dst_table b len dist)"
proof -
  obtain k where k: "find_code length_codes 0 len = Some k" "k < 29" "bc_value (length_codes ! k) \<le> len"
    "len - bc_value (length_codes ! k) < 2 ^ bc_extra (length_codes ! k)" by (rule find_length_code [OF assms(1,2)])
  obtain m where m: "find_code distance_codes 0 dist = Some m" "m < 30" "bc_value (distance_codes ! m) \<le> dist"
    "dist - bc_value (distance_codes ! m) < 2 ^ bc_extra (distance_codes ! m)" by (rule find_distance_code [OF assms(3,4)])
  have t: "match_token len dist = Match k (len - bc_value (length_codes ! k)) m (dist - bc_value (distance_codes ! m))"
    by (simp add: match_token_def k(1) m(1))
  show "token_ok off (match_token len dist) \<longleftrightarrow> dist \<le> off" "expand (match_token len dist) out = out @ repeated len dist out"
    using k m length_code [OF k(2)] distance_code [OF m(2)] by (simp_all add: t)
  assume b: "write_ok b"
  have d: "shoves b' (table_bits dst_table m @ nat_bits (bc_extra (distance_codes ! m)) (dist - bc_value (distance_codes ! m)))
      (case put_code dst_table m (distance_codes ! m) dist b' of (r, b) \<Rightarrow> if r \<noteq> 0 then (-1, b) else (0, b))"
    if "write_ok b'" for b' using shoves_append [OF put_code_shoves [OF that] shoves_done] by simp
  from shoves_append [OF put_code_shoves [OF b] this, of lit_table "257 + k" "length_codes ! k" len] assms
  show "shoves b (token_bits (match_token len dist)) (put_lendist lit_table dst_table b len dist)"
    unfolding put_lendist_def k(1) m(1) option.case t using length_code [OF k(2)] distance_code [OF m(2)] by simp
qed

lemma match_loop_main:
  "j \<le> match_loop data i dist limit j" "match_loop data i dist limit j \<le> max j limit"
  "j \<le> k \<Longrightarrow> k < match_loop data i dist limit j \<Longrightarrow> data ! (i - dist + k) = data ! (i + k)"
proof (induction data i dist limit j rule: match_loop.induct)
  case (1 data i dist limit j)
  { case 1 then show ?case using "1.IH"(1) by (subst match_loop.simps) auto }
  { case 2 then show ?case using "1.IH"(2) by (subst match_loop.simps) auto }
  { case 3 then show ?case using "1.IH"(3) by (subst (asm) match_loop.simps) (cases "k = j"; auto split: if_splits) }
qed

text \<open>A match: the bytes at the position agree with the bytes at a distance before it.\<close>

definition is_match :: "u8 list \<Rightarrow> nat \<Rightarrow> nat \<Rightarrow> nat \<Rightarrow> nat \<Rightarrow> nat \<Rightarrow> bool" where
  "is_match data i window limit len dist \<longleftrightarrow> 3 \<le> len \<and> len \<le> limit \<and> 1 \<le> dist \<and> dist \<le> i \<and> dist \<le> window \<and>
    (\<forall>k < len. data ! (i - dist + k) = data ! (i + k))"

lemma find_match_main:
  assumes "find_match data i window limit c1 c2 dist l d = (len, dst)" "1 \<le> dist" "2 \<le> l"
    "c1 = data ! i" "2 < limit \<Longrightarrow> c2 = data ! (i + 1)" "d = 0 \<or> is_match data i window limit l d"
  shows "dst = 0 \<or> is_match data i window limit len dst"
  using assms
proof (induction data i window limit c1 c2 dist l d rule: find_match.induct)
  case (1 data i window limit c1 c2 dist l d)
  let ?j = "match_loop data i dist limit 2"
  note e = 1(4) [unfolded find_match.simps [of data i window limit c1 c2 dist l d]]
  have m: "is_match data i window limit ?j dist"
    if "dist \<le> i" "dist \<le> window" "data ! (i - dist) = c1" "data ! (i - dist + 1) = c2" "l < ?j"
  proof -
    have j: "3 \<le> ?j" "?j \<le> limit" using that(5) 1(6) match_loop_main(2) [of data i dist limit 2] by linarith+
    have "data ! (i - dist + k) = data ! (i + k)" if "k < ?j" for k
    proof -
      consider "k = 0" | "k = 1" | "2 \<le> k" by linarith
      then show ?thesis
        using match_loop_main(3) [of 2 k data i dist limit] that \<open>data ! (i - dist) = c1\<close> \<open>data ! (i - dist + 1) = c2\<close>
          1(7,8) j by cases simp_all
    qed
    with that j 1(5) show ?thesis by (simp add: is_match_def)
  qed
  consider "\<not> (dist \<le> i \<and> dist \<le> window)" | "dist \<le> i \<and> dist \<le> window" "\<not> (data ! (i - dist) = c1 \<and> data ! (i - dist + 1) = c2)"
    | "dist \<le> i \<and> dist \<le> window" "data ! (i - dist) = c1 \<and> data ! (i - dist + 1) = c2" "\<not> l < ?j"
    | "dist \<le> i \<and> dist \<le> window" "data ! (i - dist) = c1 \<and> data ! (i - dist + 1) = c2" "l < ?j" "64 \<le> ?j"
    | "dist \<le> i \<and> dist \<le> window" "data ! (i - dist) = c1 \<and> data ! (i - dist + 1) = c2" "l < ?j" "\<not> 64 \<le> ?j"
    by blast
  then show ?case
  proof cases
    case 1
    then show ?thesis using e \<open>d = 0 \<or> is_match data i window limit l d\<close> by auto
  next
    case 2
    have "find_match data i window limit c1 c2 (dist + 1) l d = (len, dst)" using e 2 by auto
    from "1.IH"(3) [OF 2 this] 1 show ?thesis by simp
  next
    case 3
    have "find_match data i window limit c1 c2 (dist + 1) l d = (len, dst)" using e 3 by (auto simp: Let_def)
    from "1.IH"(2) [OF 3(1,2) refl 3(3) this] 1 show ?thesis by simp
  next
    case 4
    then show ?thesis using e m by (auto simp: Let_def)
  next
    case 5
    have "find_match data i window limit c1 c2 (dist + 1) ?j dist = (len, dst)" using e 5 by (auto simp: Let_def)
    from "1.IH"(1) [OF 5(1,2) refl 5(3,4) this] 1 m 5 show ?thesis by simp
  qed
qed

lemma lz77_search_main:
  assumes "lz77_search data i = (len, dist)" "dist \<noteq> 0" "i < length data"
  shows "3 \<le> len" "len \<le> 258" "1 \<le> dist" "dist \<le> 32768" "dist \<le> i" "i + len \<le> length data"
    "k < len \<Longrightarrow> data ! (i - dist + k) = data ! (i + k)"
proof -
  let ?limit = "if length data - i < 258 then length data - i else 258"
  let ?window = "if length data \<le> 524288 then 32768 else 1024"
  have "is_match data i ?window ?limit len dist"
    using find_match_main [OF assms(1) [unfolded lz77_search_def Let_def]] assms(2) by auto
  then show "3 \<le> len" "len \<le> 258" "1 \<le> dist" "dist \<le> 32768" "dist \<le> i" "i + len \<le> length data"
    "k < len \<Longrightarrow> data ! (i - dist + k) = data ! (i + k)"
    using assms(3) unfolding is_match_def by (auto split: if_splits)
qed

lemma copy_loop_match:
  assumes "1 \<le> dist" "dist \<le> i" "i + len \<le> length data" "\<And>k. k < len \<Longrightarrow> data ! (i - dist + k) = data ! (i + k)"
  shows "copy_loop len dist (take i data) = take (i + len) data"
  using assms
proof (induction len arbitrary: i)
  case (Suc len)
  have "take i data ! (i - dist) = data ! i" using Suc.prems(4) [of 0] Suc.prems(1,2) by simp
  then have e: "take i data @ [take i data ! (length (take i data) - dist)] = take (Suc i) data"
    using Suc.prems(3) by (simp add: take_Suc_conv_app_nth)
  have "copy_loop len dist (take (Suc i) data) = take (Suc i + len) data"
    by (rule Suc.IH) (use Suc.prems(1-3) Suc.prems(4) [of "Suc k" for k] in \<open>auto simp: Suc_diff_le\<close>)
  then show ?case unfolding copy_loop.simps e by simp
qed simp

lemma lz77_tokens_main:
  "i \<le> length data \<Longrightarrow> tokens_ok (lz77_tokens data i) (take i data)"
  "i \<le> length data \<Longrightarrow> fold expand (lz77_tokens data i) (take i data) = data"
proof (induction data i rule: lz77_tokens.induct)
  case (1 data i)
  obtain len dist where s: "lz77_search data i = (len, dist)" by (cases "lz77_search data i")
  have "tokens_ok (lz77_tokens data i) (take i data) \<and> fold expand (lz77_tokens data i) (take i data) = data"
    if le: "i \<le> length data"
  proof (cases "i < length data")
    case False
    then show ?thesis using le by (subst (1 2) lz77_tokens.simps) simp
  next
    case True
    show ?thesis
    proof (cases "dist = 0")
      case False
      note m = lz77_search_main [OF s False True]
      have c: "take i data @ repeated len dist (take i data) = take (i + len) data"
        using copy_loop_match [OF m(3,5,6) m(7)] copy_loop_repeated [of dist "take i data" len] m(3,5) le by simp
      show ?thesis using "1.IH"(1,2) [OF True s [symmetric] False m(6)] True False m(5)
        by (subst (1 2) lz77_tokens.simps) (simp add: s c match_token_main [OF m(1-4)])
    next
      case dz: True
      have "take i data @ [data ! i] = take (i + 1) data" using True by (simp add: take_Suc_conv_app_nth)
      then show ?thesis using "1.IH"(3,4) [OF True s [symmetric]] True dz
        by (subst (1 2) lz77_tokens.simps) (simp add: s)
    qed
  qed
  then show "i \<le> length data \<Longrightarrow> tokens_ok (lz77_tokens data i) (take i data)"
    "i \<le> length data \<Longrightarrow> fold expand (lz77_tokens data i) (take i data) = data" by blast+
qed

lemma lz77_loop_shoves:
  "write_ok b \<Longrightarrow> shoves b (concat (map token_bits (lz77_tokens data i))) (lz77_loop lit_table dst_table data i b)"
proof (induction data i arbitrary: b rule: lz77_tokens.induct)
  case (1 data i)
  obtain len dist where s: "lz77_search data i = (len, dist)" by (cases "lz77_search data i")
  show ?case
  proof (cases "i < length data")
    case False
    then show ?thesis using shoves_done [OF 1(3)] by (subst lz77_tokens.simps, subst lz77_loop.simps) simp
  next
    case True
    show ?thesis
    proof (cases "dist = 0")
      case False
      note m = lz77_search_main [OF s False True]
      from shoves_append [OF match_token_main(3) [OF m(1-4) 1(3)] "1.IH"(1) [OF True s [symmetric] False]] True False
      show ?thesis by (subst lz77_tokens.simps, subst lz77_loop.simps) (simp add: s)
    next
      case dz: True
      have nz: "\<not> dist \<noteq> 0" using dz by simp
      from shoves_append [OF put_literal_shoves [OF 1(3)] "1.IH"(2) [OF True s [symmetric] nz]] True dz
      show ?thesis by (subst lz77_tokens.simps, subst lz77_loop.simps) (simp add: s)
    qed
  qed
qed

definition deflate_tokens :: "u8 list \<Rightarrow> token list" where
  "deflate_tokens data = Literal (data ! 0) # lz77_tokens data 1"

lemma deflate_tokens_main:
  assumes "data \<noteq> []"
  shows "tokens_ok (deflate_tokens data) []" "fold expand (deflate_tokens data) [] = data"
proof -
  have "take 1 data = [data ! 0]" "1 \<le> length data" using assms by (cases data; simp)+
  then show "tokens_ok (deflate_tokens data) []" "fold expand (deflate_tokens data) [] = data"
    using lz77_tokens_main [of 1 data] by (simp_all add: deflate_tokens_def)
qed

lemma lz77_compress_shoves:
  "write_ok b \<Longrightarrow> shoves b (concat (map token_bits (deflate_tokens data))) (lz77_compress lit_table dst_table b data)"
  using shoves_append [OF put_literal_shoves lz77_loop_shoves, of b "data ! 0" data 1]
  by (simp add: deflate_tokens_def lz77_compress_def)

text \<open>The last bits are padded to a byte.\<close>

lemma bitarray_written_main:
  assumes "write_ok b"
  shows "(\<exists>b' k. bitarray_written default_callback b = (0, ba_written b', b') \<and> write_ok b' \<and> k < 8 \<and> ba_state0 b' = 0 \<and>
      written_bits b' = written_bits b @ replicate k False \<and> ba_written b' + ba_size b' = ba_written b + ba_size b) \<or>
    fst (bitarray_written default_callback b) = -1 \<and> 8 * (ba_written b + ba_size b) < length (written_bits b)"
proof -
  define k where "k = (if ba_state0 b \<noteq> 0 then 8 - ba_state0 b else 0)"
  have k: "k < 8" "(ba_state0 b + k) mod 8 = 0" using assms by (auto simp: k_def write_ok_def)
  have w: "bitarray_written default_callback b = (case bitarray_shove default_callback b k 0 of (ret, b) \<Rightarrow> (ret, ba_written b, b))"
    by (simp add: bitarray_written_def k_def Let_def)
  have z: "nat_bits k 0 = replicate k False" by (rule nth_equalityI) (simp_all add: nat_bits_def)
  from shoves_shove [OF assms, of k 0] show ?thesis unfolding z
  proof (cases rule: shoves_cases)
    case (1 b')
    have "8 * ba_written b' + ba_state0 b' = 8 * ba_written b + (ba_state0 b + k)"
      using length_written_bits [OF 1(2)] length_written_bits [OF assms] 1(3) by simp
    from arg_cong [OF this, of "\<lambda>x. x mod 8"] have "ba_state0 b' mod 8 = (ba_state0 b + k) mod 8"
      by (simp only: mod_mult_self4)
    then have "ba_state0 b' = 0" using k(2) 1(2) by (simp add: write_ok_def)
    with 1 k(1) show ?thesis unfolding w 1(1) by auto
  next
    case (2 b')
    then show ?thesis using shoves_shove [OF assms, of k 0] k(1) unfolding w by (auto simp: shoves_def)
  qed
qed

subsection \<open>Compression\<close>

lemma deflate_header:
  assumes "4 \<le> sz"
  defines "b1 \<equiv> snd (bitarray_shove default_callback (bitarray_init (replicate sz 0) sz) 1 1)"
  defines "b2 \<equiv> snd (bitarray_shove default_callback b1 2 1)"
  shows "write_ok b2" "written_bits b2 = [True, True, False]" "ba_written b2 + ba_size b2 = sz"
proof -
  let ?b0 = "bitarray_init (replicate sz 0) sz"
  have b0: "write_ok ?b0" "written_bits ?b0 = []" "ba_written ?b0 = 0" "ba_size ?b0 = sz"
    by (simp_all add: bitarray_init_def write_ok_def written_bits_def)
  have n: "nat_bits 1 1 = [True]" "nat_bits 2 1 = [True, False]" by code_simp+
  have b1: "write_ok b1" "written_bits b1 = [True]" "ba_written b1 + ba_size b1 = sz"
    using shoves_shove [OF b0(1), of 1 1] b0(2-4) assms(1) unfolding n b1_def by (auto simp: shoves_def)
  show "write_ok b2" "written_bits b2 = [True, True, False]" "ba_written b2 + ba_size b2 = sz"
    using shoves_shove [OF b1(1), of 2 1] b1(2-3) assms(1) unfolding n b2_def by (auto simp: shoves_def)
qed

lemma deflate_finish:
  fixes data :: "u8 list"
  assumes "write_ok b" "ba_written b + ba_size b = sz" "0 < sz"
    "eob = table_bits lit_table 256" "bits = written_bits b @ eob"
  defines "c \<equiv> snd (bitarray_shove default_callback b (lit_table ! 512) (lit_table ! 513))"
  defines "res \<equiv> (case bitarray_written default_callback c of (r, written, b) \<Rightarrow>
    if r \<noteq> 0 \<or> written > sz - 1 then (1, data) else (0, take written (ba_done b)))"
  shows "if length bits \<le> 8 * (sz - 1)
    then \<exists>out k. res = (0 :: int, out) \<and> k < 8 \<and> concat (map byte_bits out) = bits @ replicate k False \<and> length out < sz
    else res = (1, data)"
proof -
  have e: "nat_bits (lit_table ! 512) (lit_table ! 513) = eob" by (simp add: assms(4) table_bits_def)
  have sh: "shoves b eob (bitarray_shove default_callback b (lit_table ! 512) (lit_table ! 513))"
    using shoves_shove [OF assms(1), of "lit_table ! 512" "lit_table ! 513"] unfolding e .
  from sh show ?thesis
  proof (cases rule: shoves_cases)
    case (1 c')
    have c: "c = c'" "write_ok c" "written_bits c = bits" "ba_written c + ba_size c = sz"
      using 1 assms(2,5) by (simp_all add: c_def)
    consider b' k where "bitarray_written default_callback c = (0, ba_written b', b')" "write_ok b'" "k < 8" "ba_state0 b' = 0"
      "written_bits b' = bits @ replicate k False"
      | "fst (bitarray_written default_callback c) = -1" "8 * sz < length bits"
      using bitarray_written_main [OF c(2)] unfolding c(3,4) by (elim disjE exE conjE) blast+
    then show ?thesis
    proof cases
      case (1 b' k)
      have w: "ba_written b' = length (ba_done b')" "concat (map byte_bits (ba_done b')) = bits @ replicate k False"
        using 1 by (simp_all add: write_ok_def written_bits_def)
      have "8 * length (ba_done b') = length bits + k" using arg_cong [OF w(2), of length] by (simp add: length_concat_byte_bits)
      then have "length (ba_done b') > sz - 1 \<longleftrightarrow> \<not> length bits \<le> 8 * (sz - 1)" using 1(3) by linarith
      then show ?thesis using 1(1,3) w assms(3) by (auto simp: res_def)
    next
      case 2
      then show ?thesis by (cases "bitarray_written default_callback c") (auto simp: res_def)
    qed
  next
    case (2 c')
    then have "ba_state0 c = 0" "ba_written c = sz" "8 * sz + 8 \<le> length bits"
      using sh assms(2,5) by (auto simp: shoves_def c_def)
    then show ?thesis using assms(3) by (auto simp: res_def bitarray_written_def bitarray_shove_def)
  qed
qed

lemma deflate_compress_main:
  assumes "4 \<le> length data"
  shows "if length (block_bits (deflate_tokens data)) \<le> 8 * (length data - 1)
    then \<exists>out k. deflate_compress True data = (0, out) \<and> k < 8 \<and>
      concat (map byte_bits out) = block_bits (deflate_tokens data) @ replicate k False \<and> length out < length data
    else deflate_compress True data = (1, data)"
proof -
  define b1 where "b1 = snd (bitarray_shove default_callback (bitarray_init (replicate (length data) 0) (length data)) 1 1)"
  define b2 where "b2 = snd (bitarray_shove default_callback b1 2 1)"
  note b2 = deflate_header [OF assms, folded b1_def, folded b2_def]
  define fin where "fin b = (case bitarray_written default_callback
      (snd (bitarray_shove default_callback b (lit_table ! 512) (lit_table ! 513))) of (r, written, b) \<Rightarrow>
    if r \<noteq> 0 \<or> written > length data - 1 then (1 :: int, data) else (0, take written (ba_done b)))" for b
  have eq: "deflate_compress True data =
      (case lz77_compress lit_table dst_table b2 data of (r, b) \<Rightarrow> if r \<noteq> 0 then (1, data) else fin b)"
    using assms by (simp add: deflate_compress_def fixed_init fixed_tables Let_def [of "length data"] b1_def b2_def)
      (rule prod.case_cong [OF refl], simp add: fin_def Let_def)
  note sh = lz77_compress_shoves [OF b2(1), of data]
  from sh show ?thesis
  proof (cases rule: shoves_cases)
    case (1 b3)
    have f: "deflate_compress True data = fin b3" unfolding eq 1(1) by simp
    have bits: "block_bits (deflate_tokens data) = written_bits b3 @ table_bits lit_table 256"
      using 1(3) b2(2) by (simp add: block_bits_def)
    show ?thesis unfolding f fin_def
      by (rule deflate_finish [OF 1(2) _ _ refl bits]) (use 1(4) b2(3) assms in auto)
  next
    case (2 b3)
    then have "8 * length data + 8 \<le> 3 + length (concat (map token_bits (deflate_tokens data)))"
      using sh b2(2,3) by (auto simp: shoves_def)
    then show ?thesis unfolding eq 2 by (simp add: block_bits_def)
  qed
qed

text \<open>
  C4. Compression is lossless: what \<^const>\<open>deflate_compress\<close> leaves when it reports success is
  shorter than the data, and the kernel's inflater turns it back into exactly the data, for every
  input.
\<close>

theorem deflate_inflate:
  assumes "deflate_compress malloc_ok data = (0, out)"
  shows "length out < length data \<and>
    (\<exists>b'. inflate cb (bitarray_init out (length out)) (length data) = (0, data, length data, b'))"
proof -
  have m: "malloc_ok" "4 \<le> length data"
    using assms by (auto simp: deflate_compress_def Let_def not_less split: if_splits prod.splits)
  have d: "deflate_compress True data = (0, out)" using assms m(1) by simp
  obtain k where k: "concat (map byte_bits out) = block_bits (deflate_tokens data) @ replicate k False" "length out < length data"
    using deflate_compress_main [OF m(2)] d by (auto split: if_splits)
  have "data \<noteq> []" using m(2) by auto
  note t = deflate_tokens_main [OF this]
  have "read_bits (bitarray_init out (length out)) = block_bits (deflate_tokens data) @ replicate k False"
    "read_ok (bitarray_init out (length out))"
    using k(1) by (auto simp: bitarray_init_def read_bits_def read_ok_def)
  from inflate_block [OF t(1) _ this(2,1), of "length data" cb] t(2) k(2) show ?thesis by auto
qed

lemma table_bits_length:
  assumes "huffman_init ls = (0, h)" "huffman_table h n = (0, table)" "s < length ls" "1 \<le> ls ! s"
  shows "length (table_bits table s) = ls ! s"
proof -
  have le: "ls ! s \<le> 15" using huffman_init_ok(2) [OF assms(1)] assms(3) by simp
  obtain k where k: "k < ccount ls (ls ! s)" "syms ls (length ls) (ls ! s) ! k = s" by (rule syms_ex [OF assms(3)])
  have "ls ! s < 16 \<or> ls ! s = 16 \<and> k < 0" using le by linarith
  from code_table_okD(2) [OF huffman_table_main(1) [OF huffman_init_ok(1) [OF assms(1)] assms(2)] assms(4) k(1) this] k(2)
  show ?thesis by (simp add: table_bits_def)
qed

lemma token_bits_length:
  assumes "token_ok off t"
  shows "length (token_bits t) \<le> 92"
proof -
  have l: "length (table_bits lit_table s) \<le> 15" if "s < 288" for s
    using table_bits_length [OF fixed_init(1) fixed_tables(1), of s] code_symbols_facts(1,2) that nth_mem [of s code_symbols] by auto
  have d: "length (table_bits dst_table s) \<le> 15" if "s < 32" for s
    using table_bits_length [OF fixed_init(2) fixed_tables(2), of s] dist_symbols_facts(1,2) that nth_mem [of s dist_symbols] by auto
  show ?thesis
  proof (cases t)
    case (Literal c)
    have "unat c < 256" using unsigned_less [of c] by simp
    then show ?thesis using l [of "unat c"] Literal by simp
  next
    case (Match li lv di dv)
    then show ?thesis using l [of "257 + li"] d [of di] assms code_extra_bound(1) [of li] code_extra_bound(2) [of di]
      length_code [of li] distance_code [of di] by simp
  qed
qed

theorem deflate_inflate_witness:
  "\<exists>out. deflate_compress True (replicate 40 7) = (0, out) \<and> length out < 40 \<and>
    (\<exists>b'. inflate default_callback (bitarray_init out (length out)) 40 = (0, replicate 40 7, 40, b'))"
proof -
  let ?data = "replicate 40 7 :: u8 list"
  have m: "match_loop ?data 1 1 39 j = 39" if "j \<le> 39" for j
    using that by (induction "39 - j" arbitrary: j) (subst match_loop.simps, simp)+
  have "find_match ?data 1 32768 39 7 7 1 2 0 = (39, 1)"
    using m [of 2] by (subst find_match.simps) (simp add: find_match.simps [of _ "Suc 0" _ _ _ _ "Suc (Suc 0)"])
  then have s: "lz77_search ?data 1 = (39, 1)" by (simp add: lz77_search_def)
  have t: "deflate_tokens ?data = [Literal 7, match_token 39 1]"
    unfolding deflate_tokens_def by (subst lz77_tokens.simps, subst lz77_tokens.simps) (simp add: s [simplified])
  have "length (token_bits (Literal 7)) \<le> 92" "length (token_bits (match_token 39 1)) \<le> 92" "length (table_bits lit_table 256) \<le> 92"
    using token_bits_length [of 0 "Literal 7"] token_bits_length [of 1 "match_token 39 1"] match_token_main(1) [of 39 1 1] lit_table_end by auto
  then have "length (block_bits (deflate_tokens ?data)) \<le> 8 * (length ?data - 1)" unfolding t block_bits_def by simp
  then obtain out where out: "deflate_compress True ?data = (0, out)" using deflate_compress_main [of ?data] by auto
  from deflate_inflate [OF this, of default_callback] out show ?thesis by auto
qed

end
