(* ===== verification/Fat_Base.thy ===== *)
theory Fat_Base
  imports Prelude
begin

text \<open>
  The state of the FAT file system driver, \<^verbatim>\<open>src/common/fat.c\<close>: the structures, the byte
  order macros and the error codes. The functions the driver declares as external (the block device,
  and \<^verbatim>\<open>malloc\<close>) are the fields of an environment that the operations take as an argument; the
  device they act on is the field \<open>dev\<close> of the instance. Unsigned fields are naturals below
  \<open>2 ^ 32\<close>, with the wrap-around written out where it can occur; a null buffer is the empty list.
\<close>

definition FAT_BLOCK_READ_ERROR :: int where "FAT_BLOCK_READ_ERROR = 0x10"
definition FAT_BLOCK_WRITE_ERROR :: int where "FAT_BLOCK_WRITE_ERROR = 0x11"
definition FAT_DIRECTORY_NOT_EMPTY :: int where "FAT_DIRECTORY_NOT_EMPTY = 0x12"
definition FAT_FILE_ALREADY_OPEN :: int where "FAT_FILE_ALREADY_OPEN = 0x13"
definition FAT_FILE_NOT_FOUND :: int where "FAT_FILE_NOT_FOUND = 0x14"
definition FAT_INCONSISTENT_STATE :: int where "FAT_INCONSISTENT_STATE = 0x15"
definition FAT_INVALID_FILE_NAME :: int where "FAT_INVALID_FILE_NAME = 0x16"
definition FAT_INVALID_PARAMETERS :: int where "FAT_INVALID_PARAMETERS = 0x17"
definition FAT_NOT_ENOUGH_SPACE :: int where "FAT_NOT_ENOUGH_SPACE = 0x18"
definition FAT_NOT_READY :: int where "FAT_NOT_READY = 0x19"
definition FAT_READ_ONLY_FILE :: int where "FAT_READ_ONLY_FILE = 0x1A"
definition FAT_READ_ONLY_RECORD :: int where "FAT_READ_ONLY_RECORD = 0x1B"
definition FAT_SEEK_ERROR :: int where "FAT_SEEK_ERROR = 0x1C"
definition FAT_DIRECTORY_RECORD :: int where "FAT_DIRECTORY_RECORD = 0x1D"
definition FAT_FILE_RECORD :: int where "FAT_FILE_RECORD = 0x1E"

definition MODE_APPEND :: nat where "MODE_APPEND = 0x01"
definition MODE_CREATE :: nat where "MODE_CREATE = 0x02"
definition MODE_MODIFY :: nat where "MODE_MODIFY = 0x04"
definition MODE_READ :: nat where "MODE_READ = 0x08"
definition MODE_ROOT_DIR :: nat where "MODE_ROOT_DIR = 0x10"
definition MODE_WRITE :: nat where "MODE_WRITE = 0x20"

definition FAT_READY :: int where "FAT_READY = 0x00746166"

lemmas fat_codes = FAT_BLOCK_READ_ERROR_def FAT_BLOCK_WRITE_ERROR_def FAT_DIRECTORY_NOT_EMPTY_def
  FAT_FILE_ALREADY_OPEN_def FAT_FILE_NOT_FOUND_def FAT_INCONSISTENT_STATE_def FAT_INVALID_FILE_NAME_def
  FAT_INVALID_PARAMETERS_def FAT_NOT_ENOUGH_SPACE_def FAT_NOT_READY_def FAT_READ_ONLY_FILE_def
  FAT_READ_ONLY_RECORD_def FAT_SEEK_ERROR_def FAT_DIRECTORY_RECORD_def FAT_FILE_RECORD_def FAT_READY_def

lemmas fat_modes = MODE_APPEND_def MODE_CREATE_def MODE_MODIFY_def MODE_READ_def MODE_ROOT_DIR_def MODE_WRITE_def

definition LE16 :: "u8 list \<Rightarrow> nat \<Rightarrow> nat" where
  "LE16 buf i = unat (buf ! i) OR push_bit 8 (unat (buf ! (i + 1)))"

definition LE32 :: "u8 list \<Rightarrow> nat \<Rightarrow> nat" where
  "LE32 buf i = unat (buf ! i) OR push_bit 8 (unat (buf ! (i + 1))) OR
    push_bit 16 (unat (buf ! (i + 2))) OR push_bit 24 (unat (buf ! (i + 3)))"

definition W_LE16 :: "u8 list \<Rightarrow> nat \<Rightarrow> nat \<Rightarrow> u8 list" where
  "W_LE16 buf i d = buf[i := word_of_nat d, i + 1 := word_of_nat (drop_bit 8 d)]"

definition W_LE32 :: "u8 list \<Rightarrow> nat \<Rightarrow> nat \<Rightarrow> u8 list" where
  "W_LE32 buf i d = buf[i := word_of_nat d, i + 1 := word_of_nat (drop_bit 8 d),
    i + 2 := word_of_nat (drop_bit 16 d), i + 3 := word_of_nat (drop_bit 24 d)]"

text \<open>Subtraction of the source's 32-bit unsigned integers.\<close>

definition sub32 :: "nat \<Rightarrow> nat \<Rightarrow> nat" where
  "sub32 a b = (a + 2 ^ 32 - b) mod 2 ^ 32"

text \<open>\<^verbatim>\<open>memcpy\<close> into a buffer at an offset.\<close>

definition overlay :: "u8 list \<Rightarrow> nat \<Rightarrow> u8 list \<Rightarrow> u8 list" where
  "overlay buf off data = take off buf @ data @ drop (off + length data) buf"

text \<open>The padding of the source's \<^verbatim>\<open>struct fat_name\<close> is left out.\<close>

record fat_name =
  nm_name :: "u8 list"
  nm_length :: nat
  nm_is_dir :: bool

record fat_fd =
  fd_opened :: int
  fd_mode :: nat
  fd_record :: "u8 list"
  fd_record_offset :: nat
  fd_record_sector :: nat
  fd_eof :: int
  fd_offset :: nat
  fd_cluster_idx :: nat
  fd_cluster_val :: nat

record 'd fat_instance =
  ready :: int
  fat_id :: int
  fd_entries :: nat
  fd_special :: nat
  fd :: "fat_fd list"
  cluster_size :: nat
  cluster_sector :: nat
  block_buffer :: "u8 list"
  cluster_buffer :: "u8 list"
  table_buffer :: "u8 list"
  table_sectors :: "nat list"
  table_buffer_size :: nat
  table_entries :: nat
  table_offset :: nat
  fs_bytes_per_sector :: nat
  fs_cluster_sectors :: nat
  fs_reserved_sectors :: nat
  fs_tables :: nat
  fs_directory_entries :: nat
  fs_directory_sectors :: nat
  fs_total_sectors :: nat
  fs_table_sectors :: nat
  fs_table_size :: nat
  fs_data_sectors :: nat
  fs_clusters :: nat
  fs_root_cluster :: nat
  fs_last_table_sector :: nat
  fs_info_modified :: nat
  fs_info_sector :: nat
  fs_info_free :: nat
  fs_info_next :: nat
  type_12 :: bool
  type_16 :: bool
  type_32 :: bool
  path_entries :: nat
  path_buffer :: "fat_name list"
  block_buffer_lba :: nat
  cluster_buffer_lba :: nat
  io_mul :: nat
  maximum_file_size :: nat
  last_allocated :: nat
  dev :: 'd

record 'd fat_env =
  fat_get_size :: "int \<Rightarrow> 'd \<Rightarrow> int \<times> nat \<times> nat"
  fat_get_time :: "'d \<Rightarrow> int \<times> u8 list"
  fat_io_read :: "int \<Rightarrow> nat \<Rightarrow> nat \<Rightarrow> 'd \<Rightarrow> int \<times> u8 list \<times> 'd"
  fat_io_write :: "int \<Rightarrow> nat \<Rightarrow> u8 list \<Rightarrow> 'd \<Rightarrow> int \<times> 'd"
  malloc_ok :: "nat \<Rightarrow> bool"

end
