(* ===== verification/Fat_Bpb.thy ===== *)
theory Fat_Bpb
  imports Fat_Base
begin

text \<open>
  Mounting, \<^verbatim>\<open>read_bios_parameter_block\<close> of \<^verbatim>\<open>src/common/fat.c\<close>: the checks of the boot
  sector in the order of the source, each group a function that returns \<^const>\<open>None\<close> for the error
  return and the updated instance otherwise; the fields an error return leaves half-filled are not
  kept, since the caller then discards the instance. A fresh cluster buffer is modelled as zeros:
  its contents are not read before the first cluster is loaded. The geometry that an accepted boot sector describes is
  what the table and cluster operations rely on.
\<close>

function pad_size :: "nat \<Rightarrow> nat" where
  "pad_size sz = (if 0 < sz \<and> sz < 512 then pad_size (sz * 2) else sz)"
  by pat_completeness auto
termination
  by (relation "measure (\<lambda>sz. 512 - sz)") auto

declare pad_size.simps [simp del]

definition is_pow2 :: "nat \<Rightarrow> bool" where
  "is_pow2 v \<longleftrightarrow> v AND (v - 1) = 0"

text \<open>The jump instruction and the boot signature.\<close>

definition bpb_signature :: "u8 list \<Rightarrow> bool" where
  "bpb_signature buf \<longleftrightarrow>
    (if unat (buf ! 0) = 0xEB then
       let val = unat (buf ! 1) in \<not> (val < 0x3C \<or> val \<ge> 0x80 \<and> val \<noteq> 0xFE)
     else if unat (buf ! 0) = 0xE9 then
       let val = LE16 buf 1 in \<not> (val < 0x3C \<or> val \<ge> 0x1FD \<and> val \<noteq> 0xFFFD)
     else False) \<and>
    LE16 buf 510 = 0xAA55"

text \<open>Sector and cluster sizes, reserved sectors, tables, root directory and total sectors.\<close>

definition bpb_sizes :: "u8 list \<Rightarrow> nat \<Rightarrow> nat \<Rightarrow> 'd fat_instance \<Rightarrow> 'd fat_instance option" where
  "bpb_sizes buf block_size block_total f =
    (let val = LE16 buf 11 in
     if val < 512 \<or> val > 4096 \<or> \<not> is_pow2 val then None
     else if val < block_size then None
     else
       let f = f\<lparr>fs_bytes_per_sector := val, io_mul := val div block_size\<rparr>; val = unat (buf ! 13) in
       if val < 1 \<or> val > 128 \<or> \<not> is_pow2 val then None
       else
         let f = f\<lparr>fs_cluster_sectors := val\<rparr>; val = LE16 buf 14 in
         if val = 0 then None
         else
           let f = f\<lparr>fs_reserved_sectors := val\<rparr>; val = unat (buf ! 16) in
           if val \<noteq> 1 \<and> val \<noteq> 2 then None
           else
             let f = f\<lparr>fs_tables := val, fs_directory_entries := LE16 buf 17, fs_directory_sectors := 0\<rparr>;
                 t1 = fs_directory_entries f * 32;
                 t2 = t1 div fs_bytes_per_sector f
             in
             if fs_directory_entries f \<noteq> 0 \<and> t1 mod fs_bytes_per_sector f \<noteq> 0 then None
             else
               let f = (if fs_directory_entries f \<noteq> 0 then f\<lparr>fs_directory_sectors := t2\<rparr> else f);
                   f = f\<lparr>fs_total_sectors := LE16 buf 19\<rparr>;
                   val = LE32 buf 32
               in
               if fs_total_sectors f \<noteq> 0 \<and> val \<noteq> 0 \<and> val \<noteq> fs_total_sectors f then None
               else
                 let f = (if fs_total_sectors f \<noteq> 0 then f else f\<lparr>fs_total_sectors := val\<rparr>) in
                 if block_total < fs_total_sectors f div io_mul f then None else Some f)"

text \<open>The size of a table, the number of clusters and the type of the file system.\<close>

definition bpb_clusters :: "u8 list \<Rightarrow> 'd fat_instance \<Rightarrow> 'd fat_instance option" where
  "bpb_clusters buf f =
    (let val = LE16 buf 22;
         f = f\<lparr>fs_table_sectors := (if val \<noteq> 0 then val else LE32 buf 36)\<rparr>;
         val = fs_bytes_per_sector f
     in
     if fs_table_sectors f > 0x40000000 div val then None
     else
       let f = f\<lparr>fs_table_size := fs_table_sectors f * val\<rparr>;
           used = fs_reserved_sectors f + fs_table_sectors f * fs_tables f + fs_directory_sectors f
       in
       if used + fs_cluster_sectors f > fs_total_sectors f then None
       else
         let val = fs_total_sectors f - used;
             f = f\<lparr>fs_data_sectors := val, fs_clusters := val div fs_cluster_sectors f\<rparr>
         in
         if fs_clusters f = 0 then None
         else
           let val = fs_clusters f in
           Some (f\<lparr>type_12 := val < 4085, type_16 := 4085 \<le> val \<and> val < 65525, type_32 := 65525 \<le> val,
             fs_root_cluster := 0, fs_info_sector := 0, fs_info_free := 0xFFFFFFFF, fs_info_next := 0xFFFFFFFF\<rparr>))"

text \<open>The checks that depend on the type.\<close>

definition bpb_type :: "u8 list \<Rightarrow> 'd fat_instance \<Rightarrow> 'd fat_instance option" where
  "bpb_type buf f =
    (if type_12 f \<or> type_16 f then
       if fs_directory_entries f = 0 then None
       else if fs_table_size f > 0x20000 then None
       else
         let val = (if type_12 f then ((fs_clusters f + 2) * 3 + 1) div 2 else (fs_clusters f + 2) * 2) in
         if fs_table_size f < val then None else Some f
     else if fs_directory_entries f \<noteq> 0 then None
     else if LE16 buf 19 \<noteq> 0 \<or> LE16 buf 22 \<noteq> 0 then None
     else if LE16 buf 42 \<noteq> 0 then None
     else
       let f = f\<lparr>fs_root_cluster := LE32 buf 44\<rparr> in
       if fs_root_cluster f < 2 then None
       else if fs_root_cluster f - 2 \<ge> fs_clusters f then None
       else if fs_clusters f + 2 > 0x0FFFFFF8 then None
       else if fs_table_size f < (fs_clusters f + 2) * 4 then None
       else
         let f = f\<lparr>fs_info_sector := LE16 buf 48\<rparr> in
         if fs_info_sector f = 0 then None
         else if fs_info_sector f \<ge> fs_reserved_sectors f then None
         else Some f)"

definition read_bios_parameter_block :: "'d fat_env \<Rightarrow> 'd fat_instance \<Rightarrow> int \<Rightarrow> int \<times> 'd fat_instance" where
  "read_bios_parameter_block env f fid =
    (case fat_get_size env fid (dev f) of
       (r, block_size, block_total) \<Rightarrow>
     if r \<noteq> 0 then (1, f)
     else if block_size < 1 \<or> block_size > 4096 then (1, f)
     else if \<not> is_pow2 block_size then (1, f)
     else if \<not> block_total \<le> 0xFFFFFFFF then (1, f)
     else
       case fat_io_read env fid 0 (pad_size block_size) (dev f) of
         (r, data, d) \<Rightarrow>
       let f = f\<lparr>block_buffer := overlay (block_buffer f) 0 data, dev := d\<rparr>;
           buf = block_buffer f
       in
       if r \<noteq> 0 then (1, f)
       else if \<not> bpb_signature buf then (1, f)
       else
         case Option.bind (bpb_sizes buf block_size block_total f)
             (\<lambda>f. Option.bind (bpb_clusters buf f) (bpb_type buf)) of
           None \<Rightarrow> (1, f)
         | Some f \<Rightarrow>
             let val = fs_reserved_sectors f + fs_tables f * fs_table_sectors f;
                 f = f\<lparr>fs_last_table_sector := val - 1\<rparr>;
                 val = fs_bytes_per_sector f * fs_cluster_sectors f
             in
             if \<not> malloc_ok env val then (1, f)
             else (0, f\<lparr>cluster_buffer := replicate val 0, cluster_size := val, cluster_sector := 0\<rparr>))"

lemma is_pow2_power:
  assumes "0 < v" "is_pow2 v"
  obtains k where "v = 2 ^ k"
proof -
  have "\<exists>k. v = 2 ^ k" using assms
  proof (induction v rule: less_induct)
    case (less v)
    show ?case
    proof (cases "even v")
      case True
      then obtain w where w: "v = 2 * w" by blast
      then have w0: "0 < w" using less.prems(1) by simp
      have "v AND (v - 1) = 2 * (w AND (w - 1))"
      proof (rule bit_eqI)
        fix n
        have e: "2 * w - 1 = 1 + 2 * (w - 1)" using w0 by simp
        show "bit (v AND (v - 1)) n = bit (2 * (w AND (w - 1))) n"
          unfolding w e bit_and_iff by (cases n) (simp_all add: bit_and_iff bit_0 bit_Suc)
      qed
      then have "is_pow2 w" using less.prems(2) by (simp add: is_pow2_def)
      from less.IH [OF _ w0 this] w w0 obtain k where "w = 2 ^ k" by auto
      then show ?thesis using w by (intro exI [of _ "Suc k"]) simp
    next
      case False
      have "v AND (v - 1) = v - 1"
      proof (rule bit_eqI)
        fix n
        obtain w where w: "v = 2 * w + 1" using False by (elim oddE)
        show "bit (v AND (v - 1)) n = bit (v - 1) n" unfolding w bit_and_iff by (cases n) (simp_all add: bit_0 bit_Suc)
      qed
      then have "v = 2 ^ 0" using less.prems by (simp add: is_pow2_def)
      then show ?thesis by blast
    qed
  qed
  then show thesis using that by blast
qed

lemma pow2_dvd: "v = 2 ^ k \<Longrightarrow> b = 2 ^ j \<Longrightarrow> b \<le> v \<Longrightarrow> v = v div b * (b :: nat)"
proof -
  assume a: "v = 2 ^ k" "b = 2 ^ j" "b \<le> v"
  then have "j \<le> k" by (simp add: power_increasing_iff)
  then have "b dvd v" using a by (simp add: le_imp_power_dvd)
  then show ?thesis by simp
qed

text \<open>What an accepted boot sector guarantees.\<close>

definition fat_geometry :: "'d fat_instance \<Rightarrow> bool" where
  "fat_geometry f \<longleftrightarrow>
    (\<exists>k. fs_bytes_per_sector f = 2 ^ k) \<and> 512 \<le> fs_bytes_per_sector f \<and> fs_bytes_per_sector f \<le> 4096 \<and>
    1 \<le> fs_cluster_sectors f \<and> fs_cluster_sectors f \<le> 128 \<and> 1 \<le> fs_reserved_sectors f \<and>
    (fs_tables f = 1 \<or> fs_tables f = 2) \<and>
    fs_table_size f = fs_table_sectors f * fs_bytes_per_sector f \<and> fs_table_size f \<le> 0x40000000 \<and>
    fs_total_sectors f = fs_reserved_sectors f + fs_table_sectors f * fs_tables f + fs_directory_sectors f + fs_data_sectors f \<and>
    fs_total_sectors f < 2 ^ 32 \<and>
    fs_clusters f * fs_cluster_sectors f \<le> fs_data_sectors f \<and> 1 \<le> fs_clusters f \<and>
    (type_12 f \<longleftrightarrow> fs_clusters f < 4085) \<and> (type_16 f \<longleftrightarrow> 4085 \<le> fs_clusters f \<and> fs_clusters f < 65525) \<and>
    (type_32 f \<longleftrightarrow> 65525 \<le> fs_clusters f) \<and>
    (type_12 f \<longrightarrow> ((fs_clusters f + 2) * 3 + 1) div 2 \<le> fs_table_size f) \<and>
    (type_16 f \<longrightarrow> (fs_clusters f + 2) * 2 \<le> fs_table_size f) \<and>
    (type_32 f \<longrightarrow> (fs_clusters f + 2) * 4 \<le> fs_table_size f \<and> fs_clusters f + 2 \<le> 0x0FFFFFF8) \<and>
    (\<not> type_32 f \<longrightarrow> fs_table_size f \<le> 0x20000) \<and>
    fs_last_table_sector f = fs_reserved_sectors f + fs_tables f * fs_table_sectors f - 1 \<and>
    cluster_size f = fs_bytes_per_sector f * fs_cluster_sectors f \<and> length (cluster_buffer f) = cluster_size f"

lemma unat_u8_less: "unat (w :: u8) < 256"
  using unsigned_less [of w] by simp

lemma LE16_sum: "LE16 buf i = unat (buf ! i) + 256 * unat (buf ! (i + 1))"
  unfolding LE16_def using or_push_bit [of "unat (buf ! i)" 8] unat_u8_less by simp

lemma LE32_sum: "LE32 buf i = unat (buf ! i) + 256 * unat (buf ! (i + 1)) + 65536 * unat (buf ! (i + 2)) + 16777216 * unat (buf ! (i + 3))"
proof -
  have b: "unat (buf ! j) < 256" for j by (rule unat_u8_less)
  have 1: "unat (buf ! i) OR push_bit 8 (unat (buf ! (i + 1))) = unat (buf ! i) + 256 * unat (buf ! (i + 1))"
    using or_push_bit [of "unat (buf ! i)" 8] b by simp
  have 2: "(unat (buf ! i) + 256 * unat (buf ! (i + 1))) OR push_bit 16 (unat (buf ! (i + 2))) =
      unat (buf ! i) + 256 * unat (buf ! (i + 1)) + 65536 * unat (buf ! (i + 2))"
    using or_push_bit [of "unat (buf ! i) + 256 * unat (buf ! (i + 1))" 16] b [of i] b [of "i + 1"] by simp
  have 3: "(unat (buf ! i) + 256 * unat (buf ! (i + 1)) + 65536 * unat (buf ! (i + 2))) OR push_bit 24 (unat (buf ! (i + 3))) =
      unat (buf ! i) + 256 * unat (buf ! (i + 1)) + 65536 * unat (buf ! (i + 2)) + 16777216 * unat (buf ! (i + 3))"
    using or_push_bit [of "unat (buf ! i) + 256 * unat (buf ! (i + 1)) + 65536 * unat (buf ! (i + 2))" 24] b [of i] b [of "i + 1"] b [of "i + 2"] by simp
  show ?thesis unfolding LE32_def or.assoc [symmetric] 1 2 3 ..
qed

lemma le_bounds: "LE16 buf i < 65536" "LE32 buf i < 4294967296"
  unfolding LE16_sum LE32_sum
  using unat_u8_less [of "buf ! i"] unat_u8_less [of "buf ! (i + 1)"] unat_u8_less [of "buf ! (i + 2)"] unat_u8_less [of "buf ! (i + 3)"]
  by linarith+

lemma bpb_sizes_main:
  assumes "bpb_sizes buf block_size block_total f = Some g" "is_pow2 block_size" "1 \<le> block_size"
  shows "\<exists>k. fs_bytes_per_sector g = 2 ^ k" "512 \<le> fs_bytes_per_sector g" "fs_bytes_per_sector g \<le> 4096"
    "1 \<le> fs_cluster_sectors g" "fs_cluster_sectors g \<le> 128" "1 \<le> fs_reserved_sectors g" "fs_tables g = 1 \<or> fs_tables g = 2"
    "fs_total_sectors g < 2 ^ 32" "fs_bytes_per_sector g = io_mul g * block_size"
    "table_buffer g = table_buffer f" "table_sectors g = table_sectors f" "dev g = dev f" "fat_id g = fat_id f" "table_offset g = table_offset f"
proof -
  have s: "512 \<le> LE16 buf 11" "LE16 buf 11 \<le> 4096" "is_pow2 (LE16 buf 11)" "block_size \<le> LE16 buf 11"
    "1 \<le> unat (buf ! 13)" "unat (buf ! 13) \<le> 128" "1 \<le> LE16 buf 14" "unat (buf ! 16) = 1 \<or> unat (buf ! 16) = 2"
    using assms(1) unfolding bpb_sizes_def Let_def by (simp_all split: if_split_asm)
  have g: "g = f\<lparr>fs_bytes_per_sector := LE16 buf 11, io_mul := LE16 buf 11 div block_size, fs_cluster_sectors := unat (buf ! 13),
      fs_reserved_sectors := LE16 buf 14, fs_tables := unat (buf ! 16), fs_directory_entries := LE16 buf 17,
      fs_directory_sectors := (if LE16 buf 17 \<noteq> 0 then LE16 buf 17 * 32 div LE16 buf 11 else 0),
      fs_total_sectors := (if LE16 buf 19 \<noteq> 0 then LE16 buf 19 else LE32 buf 32)\<rparr>"
    using assms(1) unfolding bpb_sizes_def Let_def by (simp split: if_split_asm)
  obtain k where k: "LE16 buf 11 = 2 ^ k" by (rule is_pow2_power [of "LE16 buf 11"]) (use s in auto)
  obtain j where j: "block_size = 2 ^ j" by (rule is_pow2_power [of block_size]) (use assms in auto)
  show "\<exists>k. fs_bytes_per_sector g = 2 ^ k" "512 \<le> fs_bytes_per_sector g" "fs_bytes_per_sector g \<le> 4096"
    "fs_bytes_per_sector g = io_mul g * block_size"
    using s k g pow2_dvd [OF k j s(4)] by auto
  show "1 \<le> fs_cluster_sectors g" "fs_cluster_sectors g \<le> 128" "1 \<le> fs_reserved_sectors g" "fs_tables g = 1 \<or> fs_tables g = 2"
    "table_buffer g = table_buffer f" "table_sectors g = table_sectors f" "dev g = dev f" "fat_id g = fat_id f" "table_offset g = table_offset f"
    unfolding g using s(5-8) by simp_all
  show "fs_total_sectors g < 2 ^ 32" unfolding g using le_bounds(1) [of buf 19] le_bounds(2) [of buf 32] by simp
qed

lemma bpb_clusters_main:
  assumes "bpb_clusters buf f = Some g" "0 < fs_bytes_per_sector f" "0 < fs_cluster_sectors f"
  shows "fs_table_size g = fs_table_sectors g * fs_bytes_per_sector g" "fs_table_size g \<le> 0x40000000"
    "fs_total_sectors g = fs_reserved_sectors g + fs_table_sectors g * fs_tables g + fs_directory_sectors g + fs_data_sectors g"
    "fs_clusters g * fs_cluster_sectors g \<le> fs_data_sectors g" "1 \<le> fs_clusters g"
    "type_12 g = (fs_clusters g < 4085)" "type_16 g = (4085 \<le> fs_clusters g \<and> fs_clusters g < 65525)"
    "type_32 g = (65525 \<le> fs_clusters g)"
    "fs_bytes_per_sector g = fs_bytes_per_sector f" "fs_cluster_sectors g = fs_cluster_sectors f"
    "fs_reserved_sectors g = fs_reserved_sectors f" "fs_tables g = fs_tables f" "fs_total_sectors g = fs_total_sectors f"
    "io_mul g = io_mul f" "table_buffer g = table_buffer f" "table_sectors g = table_sectors f" "dev g = dev f" "fat_id g = fat_id f" "table_offset g = table_offset f"
proof -
  let ?ts = "if LE16 buf 22 \<noteq> 0 then LE16 buf 22 else LE32 buf 36"
  let ?used = "fs_reserved_sectors f + ?ts * fs_tables f + fs_directory_sectors f"
  let ?val = "fs_total_sectors f - ?used"
  have c: "?ts \<le> 0x40000000 div fs_bytes_per_sector f" "?used + fs_cluster_sectors f \<le> fs_total_sectors f"
    "?val div fs_cluster_sectors f \<noteq> 0"
    using assms(1) by (auto simp: bpb_clusters_def Let_def not_less split: if_splits)
  have g: "g = f\<lparr>fs_table_sectors := ?ts, fs_table_size := ?ts * fs_bytes_per_sector f, fs_data_sectors := ?val,
      fs_clusters := ?val div fs_cluster_sectors f, type_12 := ?val div fs_cluster_sectors f < 4085,
      type_16 := 4085 \<le> ?val div fs_cluster_sectors f \<and> ?val div fs_cluster_sectors f < 65525,
      type_32 := 65525 \<le> ?val div fs_cluster_sectors f,
      fs_root_cluster := 0, fs_info_sector := 0, fs_info_free := 0xFFFFFFFF, fs_info_next := 0xFFFFFFFF\<rparr>"
    using assms(1) c unfolding bpb_clusters_def Let_def by (simp del: if_split split: if_splits)
  have "?ts * fs_bytes_per_sector f \<le> 0x40000000"
    using mult_le_mono1 [OF c(1), of "fs_bytes_per_sector f"] div_times_less_eq_dividend [of "0x40000000" "fs_bytes_per_sector f"]
    by linarith
  then show "fs_table_size g \<le> 0x40000000" unfolding g by simp
  show "fs_table_size g = fs_table_sectors g * fs_bytes_per_sector g"
    "type_12 g = (fs_clusters g < 4085)" "type_16 g = (4085 \<le> fs_clusters g \<and> fs_clusters g < 65525)"
    "type_32 g = (65525 \<le> fs_clusters g)"
    "fs_bytes_per_sector g = fs_bytes_per_sector f" "fs_cluster_sectors g = fs_cluster_sectors f"
    "fs_reserved_sectors g = fs_reserved_sectors f" "fs_tables g = fs_tables f" "fs_total_sectors g = fs_total_sectors f"
    "io_mul g = io_mul f" "table_buffer g = table_buffer f" "table_sectors g = table_sectors f" "dev g = dev f" "fat_id g = fat_id f" "table_offset g = table_offset f"
    unfolding g by simp_all
  show "fs_total_sectors g = fs_reserved_sectors g + fs_table_sectors g * fs_tables g + fs_directory_sectors g + fs_data_sectors g"
    "fs_clusters g * fs_cluster_sectors g \<le> fs_data_sectors g" "1 \<le> fs_clusters g"
    unfolding g using c(2,3) by (simp_all del: if_split)
qed

lemma bpb_type_main:
  assumes "bpb_type buf f = Some g" "type_32 f = (\<not> type_12 f \<and> \<not> type_16 f)" "\<not> (type_12 f \<and> type_16 f)"
  shows "type_12 f \<Longrightarrow> ((fs_clusters f + 2) * 3 + 1) div 2 \<le> fs_table_size f" "type_16 f \<Longrightarrow> (fs_clusters f + 2) * 2 \<le> fs_table_size f"
    "type_32 f \<Longrightarrow> (fs_clusters f + 2) * 4 \<le> fs_table_size f \<and> fs_clusters f + 2 \<le> 0x0FFFFFF8"
    "\<not> type_32 f \<Longrightarrow> fs_table_size f \<le> 0x20000"
    "\<exists>r i. g = f\<lparr>fs_root_cluster := r, fs_info_sector := i\<rparr>"
proof -
  show "type_12 f \<Longrightarrow> ((fs_clusters f + 2) * 3 + 1) div 2 \<le> fs_table_size f" "type_16 f \<Longrightarrow> (fs_clusters f + 2) * 2 \<le> fs_table_size f"
    "type_32 f \<Longrightarrow> (fs_clusters f + 2) * 4 \<le> fs_table_size f \<and> fs_clusters f + 2 \<le> 0x0FFFFFF8"
    "\<not> type_32 f \<Longrightarrow> fs_table_size f \<le> 0x20000"
    using assms by (auto simp: bpb_type_def Let_def split: if_splits)
  have "g = f \<or> g = f\<lparr>fs_root_cluster := LE32 buf 44, fs_info_sector := LE16 buf 48\<rparr>"
    using assms(1) by (auto simp: bpb_type_def Let_def split: if_splits)
  moreover have "f = f\<lparr>fs_root_cluster := fs_root_cluster f, fs_info_sector := fs_info_sector f\<rparr>" by simp
  ultimately show "\<exists>r i. g = f\<lparr>fs_root_cluster := r, fs_info_sector := i\<rparr>" by metis
qed

lemma read_bios_parameter_block_main:
  assumes "read_bios_parameter_block env f fid = (0, g)"
  shows "fat_geometry g" "\<exists>bs bt. fat_get_size env fid (dev f) = (0, bs, bt) \<and> fs_bytes_per_sector g = io_mul g * bs"
    "table_buffer g = table_buffer f" "table_sectors g = table_sectors f" "fat_id g = fat_id f"
    "\<exists>n r data. fat_io_read env fid 0 n (dev f) = (r, data, dev g)" "table_offset g = table_offset f"
proof -
  obtain bs bt where s: "fat_get_size env fid (dev f) = (0, bs, bt)" "1 \<le> bs" "is_pow2 bs"
    using assms by (auto simp: read_bios_parameter_block_def split: prod.splits if_splits)
  obtain data d where r: "fat_io_read env fid 0 (pad_size bs) (dev f) = (0, data, d)"
    using assms s(1) by (auto simp: read_bios_parameter_block_def Let_def split: prod.splits if_splits)
  define buf where "buf = overlay (block_buffer f) 0 data"
  define f0 where "f0 = f\<lparr>block_buffer := buf, dev := d\<rparr>"
  obtain f1 f2 f3 where f: "bpb_sizes buf bs bt f0 = Some f1" "bpb_clusters buf f1 = Some f2" "bpb_type buf f2 = Some f3"
    and g: "g = f3\<lparr>fs_last_table_sector := fs_reserved_sectors f3 + fs_tables f3 * fs_table_sectors f3 - 1,
      cluster_buffer := replicate (fs_bytes_per_sector f3 * fs_cluster_sectors f3) 0,
      cluster_size := fs_bytes_per_sector f3 * fs_cluster_sectors f3, cluster_sector := 0\<rparr>"
    using assms s(1) r by (auto simp: read_bios_parameter_block_def Let_def buf_def f0_def bind_eq_Some_conv split: if_splits option.splits)
  note A = bpb_sizes_main [OF f(1) s(3,2)]
  have p: "0 < fs_bytes_per_sector f1" "0 < fs_cluster_sectors f1" using A(2,4) by simp_all
  note B = bpb_clusters_main [OF f(2) p]
  have t: "type_32 f2 = (\<not> type_12 f2 \<and> \<not> type_16 f2)" "\<not> (type_12 f2 \<and> type_16 f2)" unfolding B(6-8) by auto
  note C = bpb_type_main [OF f(3) t]
  obtain x i where f3: "f3 = f2\<lparr>fs_root_cluster := x, fs_info_sector := i\<rparr>" using C(5) by blast
  show "table_buffer g = table_buffer f" "table_sectors g = table_sectors f" "fat_id g = fat_id f" "table_offset g = table_offset f"
    using A(10-14) B(15-19) by (simp_all add: g f3 f0_def)
  have "dev g = d" using A(12) B(17) by (simp add: g f3 f0_def)
  with r show "\<exists>n r data. fat_io_read env fid 0 n (dev f) = (r, data, dev g)" by blast
  have "fs_bytes_per_sector g = io_mul g * bs" using A(9) B(9,14) by (simp add: g f3)
  with s show "\<exists>bs bt. fat_get_size env fid (dev f) = (0, bs, bt) \<and> fs_bytes_per_sector g = io_mul g * bs" by blast
  show "fat_geometry g"
    unfolding fat_geometry_def
  proof (intro conjI)
    show "\<exists>k. fs_bytes_per_sector g = 2 ^ k" using A(1) B(9) by (simp add: g f3)
    show "type_12 g \<longrightarrow> ((fs_clusters g + 2) * 3 + 1) div 2 \<le> fs_table_size g" using C(1) by (simp add: g f3)
    show "type_16 g \<longrightarrow> (fs_clusters g + 2) * 2 \<le> fs_table_size g" using C(2) by (simp add: g f3)
    show "type_32 g \<longrightarrow> (fs_clusters g + 2) * 4 \<le> fs_table_size g \<and> fs_clusters g + 2 \<le> 0x0FFFFFF8" using C(3) by (simp add: g f3)
    show "\<not> type_32 g \<longrightarrow> fs_table_size g \<le> 0x20000" using C(4) by (simp add: g f3)
    show "fs_tables g = 1 \<or> fs_tables g = 2" using A(7) B(12) by (simp add: g f3)
    show "fs_total_sectors g = fs_reserved_sectors g + fs_table_sectors g * fs_tables g + fs_directory_sectors g + fs_data_sectors g"
      using B(3) by (simp add: g f3)
  qed (use A(2-8) B in \<open>simp_all add: g f3\<close>)
qed

end
