(* ===== verification/Fat_Table.thy ===== *)
theory Fat_Table
  imports Fat_Bpb
begin

text \<open>
  The file allocation table, \<^verbatim>\<open>src/common/fat.c\<close>: the whole table of a FAT12 or FAT16 file
  system or a window of a FAT32 table is kept in memory with a mark for every modified sector, and
  written back to the device in runs of modified sectors.
\<close>

text \<open>The inner loop of \<^verbatim>\<open>write_table\<close>: the end of the run of modified sectors.\<close>

function run_end :: "nat list \<Rightarrow> nat \<Rightarrow> nat \<Rightarrow> nat" where
  "run_end sectors n i = (if i < n \<and> sectors ! i \<noteq> 0 then run_end sectors n (i + 1) else i)"
  by pat_completeness auto
termination
  by (relation "measure (\<lambda>(sectors, n, i). n - i)") auto

declare run_end.simps [simp del]

lemma run_end_ge: "i \<le> run_end sectors n i"
proof (induction sectors n i rule: run_end.induct)
  case (1 sectors n i)
  then show ?case by (subst run_end.simps) auto
qed

lemma run_end_gt: "i < run_end sectors n (Suc i)"
  using run_end_ge [of "Suc i"] by (simp add: Suc_le_eq)

text \<open>
  The loop over the sectors, for the primary table (\<open>add = 0\<close>, errors are reported) and for the
  secondary one (\<open>add\<close> is the length of a table, errors are ignored).
\<close>

function write_dirty :: "'d fat_env \<Rightarrow> bool \<Rightarrow> nat \<Rightarrow> nat \<Rightarrow> 'd fat_instance \<Rightarrow> int \<times> 'd fat_instance" where
  "write_dirty env strict add i f =
    (if i < table_entries f then
       if table_sectors f ! i = 0 then write_dirty env strict add (i + 1) f
       else
         let j = run_end (table_sectors f) (table_entries f) (i + 1);
             lba = (fs_reserved_sectors f + i + add + table_offset f div fs_bytes_per_sector f) * io_mul f;
             data = take ((j - i) * fs_bytes_per_sector f) (drop (i * fs_bytes_per_sector f) (table_buffer f))
         in
         case fat_io_write env (fat_id f) lba data (dev f) of
           (r, d) \<Rightarrow>
         if strict \<and> r \<noteq> 0 then (FAT_BLOCK_WRITE_ERROR, f\<lparr>dev := d, ready := 0\<rparr>)
         else write_dirty env strict add j (f\<lparr>dev := d\<rparr>)
     else (0, f))"
  by pat_completeness auto
termination
  by (relation "measure (\<lambda>(env, strict, add, i, f). table_entries f - i)") (use run_end_gt in \<open>auto intro!: diff_less_mono2\<close>)

declare write_dirty.simps [simp del]

definition clear_sectors :: "'d fat_instance \<Rightarrow> 'd fat_instance" where
  "clear_sectors f = f\<lparr>table_sectors := replicate (table_entries f) 0 @ drop (table_entries f) (table_sectors f)\<rparr>"

definition write_table :: "'d fat_env \<Rightarrow> 'd fat_instance \<Rightarrow> int \<times> 'd fat_instance" where
  "write_table env f =
    (case write_dirty env True 0 0 f of
       (r, f) \<Rightarrow>
     if r \<noteq> 0 then (r, f)
     else if fs_tables f < 2 then (0, clear_sectors f)
     else
       case write_dirty env False (fs_table_sectors f) 0 f of (r, f) \<Rightarrow> (0, clear_sectors f))"

definition read_full_table :: "'d fat_env \<Rightarrow> 'd fat_instance \<Rightarrow> int \<times> 'd fat_instance" where
  "read_full_table env f =
    (let n = fs_table_sectors f; lba = io_mul f * fs_reserved_sectors f; sz = fs_table_size f in
     if \<not> malloc_ok env sz then (1, f\<lparr>table_buffer := []\<rparr>)
     else if \<not> malloc_ok env n then (1, f\<lparr>table_buffer := [], table_sectors := []\<rparr>)
     else
       let f = f\<lparr>table_buffer := replicate sz 0, table_sectors := replicate n 0, table_entries := n\<rparr> in
       case fat_io_read env (fat_id f) lba sz (dev f) of
         (r, data, d) \<Rightarrow>
       let f = f\<lparr>table_buffer := overlay (table_buffer f) 0 data, dev := d\<rparr> in
       if r \<noteq> 0 then (1, f) else (0, f))"

text \<open>The part of \<^verbatim>\<open>read_table_buffer\<close> that loads the window at \<open>off2\<close>.\<close>

definition load_window :: "'d fat_env \<Rightarrow> nat \<Rightarrow> 'd fat_instance \<Rightarrow> int \<times> 'd fat_instance" where
  "load_window env off2 f =
    (let f = f\<lparr>table_offset := off2\<rparr>;
         lba = (fs_reserved_sectors f + off2 div fs_bytes_per_sector f) * io_mul f;
         over = off2 + 0x20000 > fs_table_size f;
         excess = off2 + 0x20000 - fs_table_size f;
         f = (if over then f\<lparr>table_buffer := overlay (table_buffer f) 0 (replicate 0x20000 0)\<rparr> else f)
     in
     if over \<and> 0x20000 < excess then (FAT_INCONSISTENT_STATE, f\<lparr>ready := 0\<rparr>)
     else
       let sz = (if over then 0x20000 - excess else 0x20000) in
       case fat_io_read env (fat_id f) lba sz (dev f) of
         (r, data, d) \<Rightarrow>
       let f = f\<lparr>table_buffer := overlay (table_buffer f) 0 data, dev := d\<rparr> in
       if r \<noteq> 0 then (FAT_BLOCK_READ_ERROR, f\<lparr>ready := 0\<rparr>) else (0, f))"

text \<open>The result, the offset in the window (the source's \<open>*table_offset\<close>) and the instance.\<close>

definition read_table_buffer :: "'d fat_env \<Rightarrow> 'd fat_instance \<Rightarrow> nat \<Rightarrow> int \<times> nat \<times> 'd fat_instance" where
  "read_table_buffer env f toff =
    (let off1 = toff AND 0x0001FFFF; off2 = toff AND 0xFFFE0000 in
     if table_offset f = off2 then (0, off1, f)
     else
       let n = 0x20000 div fs_bytes_per_sector f in
       if table_buffer f = [] then
         if \<not> malloc_ok env 0x20000 then (FAT_INCONSISTENT_STATE, off1, f)
         else if \<not> malloc_ok env n then (FAT_INCONSISTENT_STATE, off1, f)
         else
           case load_window env off2 (f\<lparr>table_buffer := replicate 0x20000 0, table_sectors := replicate n 0,
               table_buffer_size := 0x20000, table_entries := n, table_offset := 0\<rparr>) of
             (r, f) \<Rightarrow> (r, off1, f)
       else
         case write_table env f of
           (r, f) \<Rightarrow>
         if r \<noteq> 0 then
           (FAT_BLOCK_WRITE_ERROR, off1,
            f\<lparr>table_buffer := overlay (table_buffer f) 0 (replicate 0x20000 0),
              table_sectors := replicate n 0 @ drop n (table_sectors f)\<rparr>)
         else case load_window env off2 f of (r, f) \<Rightarrow> (r, off1, f))"

definition get_table_value :: "'d fat_env \<Rightarrow> 'd fat_instance \<Rightarrow> nat \<Rightarrow> nat \<times> 'd fat_instance" where
  "get_table_value env f off =
    (if off \<ge> fs_clusters f + 2 then (1, f)
     else if type_12 f then
       let ret_val = LE16 (table_buffer f) (off + drop_bit 1 off);
           ret_val = (if off AND 1 \<noteq> 0 then drop_bit 4 ret_val else ret_val);
           ret_val = ret_val AND 0x0FFF
       in (if ret_val \<ge> 0x0FF8 then ret_val OR 0x0FFFF000 else ret_val, f)
     else if type_16 f then
       let ret_val = LE16 (table_buffer f) (push_bit 1 off)
       in (if ret_val \<ge> 0xFFF8 then ret_val OR 0x0FFF0000 else ret_val, f)
     else if type_32 f then
       case read_table_buffer env f (push_bit 2 off) of
         (r, add, f) \<Rightarrow>
       if r \<noteq> 0 then (1, f) else (LE32 (table_buffer f) add AND 0x0FFFFFFF, f)
     else (1, f))"

text \<open>The bookkeeping of free clusters for the FAT32 information sector.\<close>

definition count_free :: "nat \<Rightarrow> nat \<Rightarrow> nat \<Rightarrow> 'd fat_instance \<Rightarrow> 'd fat_instance" where
  "count_free off old_val val f =
    (if fs_info_free f \<noteq> 0xFFFFFFFF then
       let f = (if old_val AND 0x0FFFFFFF = 0 then
                  if val \<noteq> 0 then f\<lparr>fs_info_free := sub32 (fs_info_free f) 1\<rparr> else f
                else if val = 0 then f\<lparr>fs_info_free := (fs_info_free f + 1) mod 2 ^ 32\<rparr> else f)
       in if val \<noteq> 0 then f\<lparr>fs_info_next := off\<rparr> else f
     else f)"

definition set_table_value :: "'d fat_env \<Rightarrow> 'd fat_instance \<Rightarrow> nat \<Rightarrow> nat \<Rightarrow> int \<times> 'd fat_instance" where
  "set_table_value env f off val =
    (let bps = fs_bytes_per_sector f in
     if off \<ge> fs_clusters f + 2 then (FAT_INCONSISTENT_STATE, f)
     else if type_12 f then
       let add = off + drop_bit 1 off;
           old_val = LE16 (table_buffer f) add;
           val = (if off AND 1 \<noteq> 0 then (push_bit 4 val AND 0xFFF0) OR (old_val AND 0x000F)
                  else (val AND 0x0FFF) OR (old_val AND 0xF000));
           sec = add div bps;
           f = (if add = bps - 1 then f\<lparr>table_sectors := (table_sectors f)[sec + 1 := 1]\<rparr> else f)
       in (0, f\<lparr>table_sectors := (table_sectors f)[sec := 1], table_buffer := W_LE16 (table_buffer f) add val\<rparr>)
     else if type_16 f then
       let add = push_bit 1 off
       in (0, f\<lparr>table_sectors := (table_sectors f)[add div bps := 1], table_buffer := W_LE16 (table_buffer f) add val\<rparr>)
     else if type_32 f then
       case read_table_buffer env f (push_bit 2 off) of
         (r, add, f) \<Rightarrow>
       if r \<noteq> 0 then (r, f)
       else
         let f = f\<lparr>table_sectors := (table_sectors f)[add div bps := 1]\<rparr>;
             old_val = LE32 (table_buffer f) add;
             f = count_free off old_val val f;
             val = (val AND 0x0FFFFFFF) OR (old_val AND 0xF0000000)
         in (0, f\<lparr>table_buffer := W_LE32 (table_buffer f) add val\<rparr>)
     else (FAT_NOT_READY, f))"

subsection \<open>The device\<close>

text \<open>
  What the driver relies on of the external block device, for an observer \<open>bytes\<close> of its
  contents and its block size: a read has no effect on the contents and, when it reports success,
  stores the bytes asked for; a write changes nothing outside its range and, when it reports
  success, stores the data.
\<close>

definition block_device :: "'d fat_env \<Rightarrow> ('d \<Rightarrow> nat \<Rightarrow> u8) \<Rightarrow> nat \<Rightarrow> bool" where
  "block_device env bytes bs \<longleftrightarrow>
    (\<forall>fid lba n d r data d'. fat_io_read env fid lba n d = (r, data, d') \<longrightarrow>
      bytes d' = bytes d \<and> length data \<le> n \<and> (r = 0 \<longrightarrow> data = map (\<lambda>i. bytes d (lba * bs + i)) [0..<n])) \<and>
    (\<forall>fid lba data d r d'. fat_io_write env fid lba data d = (r, d') \<longrightarrow>
      (\<forall>x. \<not> (lba * bs \<le> x \<and> x < lba * bs + length data) \<longrightarrow> bytes d' x = bytes d x) \<and>
      (r = 0 \<longrightarrow> (\<forall>k < length data. bytes d' (lba * bs + k) = data ! k)))"

lemma block_device_read:
  assumes "block_device env bytes bs" "fat_io_read env fid lba n d = (r, data, d')"
  shows "bytes d' = bytes d" "length data \<le> n" "r = 0 \<Longrightarrow> data = map (\<lambda>i. bytes d (lba * bs + i)) [0..<n]"
  using assms unfolding block_device_def by blast+

lemma block_device_write:
  assumes "block_device env bytes bs" "fat_io_write env fid lba data d = (r, d')"
  shows "\<not> (lba * bs \<le> x \<and> x < lba * bs + length data) \<Longrightarrow> bytes d' x = bytes d x"
    "r = 0 \<Longrightarrow> k < length data \<Longrightarrow> bytes d' (lba * bs + k) = data ! k"
  using assms unfolding block_device_def by blast+

subsection \<open>Writing the table\<close>

lemma run_end_main:
  "run_end sectors n i \<le> max n i" "i \<le> k \<Longrightarrow> k < run_end sectors n i \<Longrightarrow> sectors ! k \<noteq> 0"
proof (induction sectors n i rule: run_end.induct)
  case (1 sectors n i)
  { case 1 then show ?case using "1.IH"(1) by (subst run_end.simps) auto }
  { case 2 then show ?case using "1.IH"(2) by (subst (asm) run_end.simps) (cases "k = i"; auto split: if_splits) }
qed

text \<open>The offsets in the buffer of modified bytes from a sector on.\<close>

definition dirty :: "'d fat_instance \<Rightarrow> nat \<Rightarrow> nat \<Rightarrow> bool" where
  "dirty f i k \<longleftrightarrow> i * fs_bytes_per_sector f \<le> k \<and> k < length (table_buffer f) \<and>
    table_sectors f ! (k div fs_bytes_per_sector f) \<noteq> 0"

definition window_shape :: "nat \<Rightarrow> 'd fat_instance \<Rightarrow> bool" where
  "window_shape bs f \<longleftrightarrow> 0 < fs_bytes_per_sector f \<and> io_mul f * bs = fs_bytes_per_sector f \<and>
    length (table_sectors f) = table_entries f \<and> length (table_buffer f) = table_entries f * fs_bytes_per_sector f \<and>
    fs_bytes_per_sector f dvd table_offset f"

lemma dirty_run:
  assumes "window_shape bs f" "i < table_entries f" "table_sectors f ! i \<noteq> 0" "j = run_end (table_sectors f) (table_entries f) (i + 1)"
  shows "j \<le> table_entries f" "i < j"
    "dirty f i k \<longleftrightarrow> i * fs_bytes_per_sector f \<le> k \<and> k < j * fs_bytes_per_sector f \<or> dirty f j k"
proof -
  let ?p = "fs_bytes_per_sector f"
  have p: "0 < ?p" "length (table_buffer f) = table_entries f * ?p" using assms(1) unfolding window_shape_def by blast+
  show j: "j \<le> table_entries f" using run_end_main(1) [of "table_sectors f" "table_entries f" "i + 1"] assms(2,4) by simp
  show ij: "i < j" using run_end_gt assms(4) by simp
  have d: "table_sectors f ! q \<noteq> 0" if "i \<le> q" "q < j" for q
    using run_end_main(2) [of "i + 1" q "table_sectors f" "table_entries f"] assms(3,4) that by (cases "q = i") auto
  have le: "j * ?p \<le> length (table_buffer f)" "i * ?p \<le> j * ?p" using p(2) j ij by simp_all
  show "dirty f i k \<longleftrightarrow> i * ?p \<le> k \<and> k < j * ?p \<or> dirty f j k"
  proof (cases "i * ?p \<le> k \<and> k < j * ?p")
    case True
    then have "i \<le> k div ?p" "k div ?p < j"
      using p(1) by (simp_all add: less_eq_div_iff_mult_less_eq less_mult_imp_div_less)
    then have "table_sectors f ! (k div ?p) \<noteq> 0" by (rule d)
    then show ?thesis using True le by (simp add: dirty_def)
  next
    case False
    have "i * ?p \<le> k" if "j * ?p \<le> k" using le(2) that by linarith
    with False show ?thesis unfolding dirty_def by (meson not_le)
  qed
qed

lemma write_dirty_main:
  assumes "block_device env bytes bs" "window_shape bs f" "write_dirty env strict add i f = (r, f')"
    "base = (fs_reserved_sectors f + add) * fs_bytes_per_sector f + table_offset f"
  shows "(r = 0 \<and> f' = f\<lparr>dev := dev f'\<rparr> \<or> r = FAT_BLOCK_WRITE_ERROR \<and> strict \<and> f' = f\<lparr>dev := dev f', ready := 0\<rparr>) \<and>
    (\<forall>x. (\<forall>k. dirty f i k \<longrightarrow> x \<noteq> base + k) \<longrightarrow> bytes (dev f') x = bytes (dev f) x) \<and>
    (r = 0 \<longrightarrow> strict \<longrightarrow> (\<forall>k. dirty f i k \<longrightarrow> bytes (dev f') (base + k) = table_buffer f ! k))"
  using assms
proof (induction env strict add i f rule: write_dirty.induct)
  case (1 env strict add i f)
  let ?p = "fs_bytes_per_sector f"
  have p: "0 < ?p" "io_mul f * bs = ?p" "length (table_buffer f) = table_entries f * ?p" "?p dvd table_offset f"
    using 1(4) unfolding window_shape_def by blast+
  consider "\<not> i < table_entries f" | "i < table_entries f" "table_sectors f ! i = 0" | "i < table_entries f" "table_sectors f ! i \<noteq> 0"
    by blast
  then show ?case
  proof cases
    case 1
    then have "table_entries f * ?p \<le> i * ?p" by simp
    then have "\<not> (i * ?p \<le> k \<and> k < table_entries f * ?p)" for k by linarith
    then have "\<not> dirty f i k" for k unfolding dirty_def p(3) by blast
    with 1 \<open>write_dirty env strict add i f = (r, f')\<close> show ?thesis by (subst (asm) write_dirty.simps) auto
  next
    case 2
    have e: "write_dirty env strict add (i + 1) f = (r, f')" using 2 1(5) by (subst (asm) write_dirty.simps) simp
    have "dirty f (i + 1) k = dirty f i k" for k
    proof -
      have "k div ?p = i" if "i * ?p \<le> k" "k < (i + 1) * ?p"
        using that by (intro div_nat_eqI) (simp_all add: mult.commute)
      then show ?thesis using 2(2) by (cases "k < (i + 1) * ?p") (auto simp: dirty_def not_less)
    qed
    then show ?thesis using "1.IH"(1) [OF 2 1(3,4) e 1(6)] by simp
  next
    case 3
    define j where "j = run_end (table_sectors f) (table_entries f) (i + 1)"
    note run = dirty_run [OF 1(4) 3 j_def]
    define lba where "lba = (fs_reserved_sectors f + i + add + table_offset f div ?p) * io_mul f"
    define data where "data = take ((j - i) * ?p) (drop (i * ?p) (table_buffer f))"
    obtain r1 d where w: "fat_io_write env (fat_id f) lba data (dev f) = (r1, d)" by (cases "fat_io_write env (fat_id f) lba data (dev f)")
    have "lba * bs = (fs_reserved_sectors f + i + add + table_offset f div ?p) * ?p" by (simp add: lba_def p(2) mult.assoc)
    also have "\<dots> = base + i * ?p" using p(4) by (simp add: 1(6) algebra_simps)
    finally have lba: "lba * bs = base + i * ?p" .
    have jle: "j * ?p \<le> table_entries f * ?p" "i * ?p \<le> j * ?p" using run(1,2) by simp_all
    have len: "length data = j * ?p - i * ?p"
      unfolding data_def length_take length_drop p(3) diff_mult_distrib by (rule min_absorb2) (use jle in linarith)
    have nth: "data ! (k - i * ?p) = table_buffer f ! k" if k: "i * ?p \<le> k" "k < j * ?p" for k
    proof -
      have "k - i * ?p < j * ?p - i * ?p" "i * ?p \<le> length (table_buffer f)" "i * ?p + (k - i * ?p) = k"
        unfolding p(3) using k jle by linarith+
      then show ?thesis unfolding data_def diff_mult_distrib by simp
    qed
    have out: "bytes d x = bytes (dev f) x" if x: "\<forall>k. i * ?p \<le> k \<and> k < j * ?p \<longrightarrow> x \<noteq> base + k" for x
    proof (rule block_device_write(1) [OF 1(3) w], unfold lba len, rule notI)
      assume "base + i * ?p \<le> x \<and> x < base + i * ?p + (j * ?p - i * ?p)"
      then have "i * ?p \<le> x - base" "x - base < j * ?p" "x = base + (x - base)" using jle by linarith+
      then show False using x by blast
    qed
    have inn: "bytes d (base + k) = table_buffer f ! k" if k: "r1 = 0" "i * ?p \<le> k" "k < j * ?p" for k
    proof -
      have "k - i * ?p < length data" "base + i * ?p + (k - i * ?p) = base + k" unfolding len using k jle by linarith+
      then show ?thesis using block_device_write(2) [OF 1(3) w k(1)] nth [OF k(2,3)] unfolding lba by metis
    qed
    have e: "(if strict \<and> r1 \<noteq> 0 then (FAT_BLOCK_WRITE_ERROR, f\<lparr>dev := d, ready := 0\<rparr>)
        else write_dirty env strict add j (f\<lparr>dev := d\<rparr>)) = (r, f')"
      using 1(5) 3 w unfolding j_def lba_def data_def by (subst (asm) write_dirty.simps) (auto simp: Let_def split: if_split_asm)
    show ?thesis
    proof (cases "strict \<and> r1 \<noteq> 0")
      case True
      then have "r = FAT_BLOCK_WRITE_ERROR" "f' = f\<lparr>dev := d, ready := 0\<rparr>" using e by auto
      then show ?thesis using True out run(3) by (auto simp: FAT_BLOCK_WRITE_ERROR_def)
    next
      case False
      let ?g = "f\<lparr>dev := d\<rparr>"
      have e2: "write_dirty env strict add j ?g = (r, f')" using e False by (simp split: if_splits)
      have sh: "window_shape bs ?g" using 1(4) by (simp add: window_shape_def)
      have bs: "base = (fs_reserved_sectors ?g + add) * fs_bytes_per_sector ?g + table_offset ?g" using 1(6) by simp
      have dg: "dirty ?g j k = dirty f j k" for k by (simp add: dirty_def)
      have IH: "(r = 0 \<and> f' = ?g\<lparr>dev := dev f'\<rparr> \<or> r = FAT_BLOCK_WRITE_ERROR \<and> strict \<and> f' = ?g\<lparr>dev := dev f', ready := 0\<rparr>) \<and>
        (\<forall>x. (\<forall>k. dirty ?g j k \<longrightarrow> x \<noteq> base + k) \<longrightarrow> bytes (dev f') x = bytes (dev ?g) x) \<and>
        (r = 0 \<longrightarrow> strict \<longrightarrow> (\<forall>k. dirty ?g j k \<longrightarrow> bytes (dev f') (base + k) = table_buffer ?g ! k))"
        by (rule "1.IH"(2) [OF 3 j_def lba_def data_def w [symmetric] False 1(3) sh e2 bs])
      have keep: "bytes (dev f') (base + k) = table_buffer f ! k" if "r = 0" "strict" "dirty f i k" for k
      proof (cases "dirty f j k")
        case True
        then show ?thesis using IH that dg by auto
      next
        case nd: False
        then have ik: "i * ?p \<le> k" "k < j * ?p" using run(3) that(3) by blast+
        have "bytes (dev f') (base + k) = bytes (dev ?g) (base + k)"
          by (rule IH [THEN conjunct2, THEN conjunct1, rule_format]) (use nd dg in auto)
        then show ?thesis using inn [OF _ ik] False that(2) by simp
      qed
      have other: "bytes (dev f') x = bytes (dev f) x" if x: "\<forall>k. dirty f i k \<longrightarrow> x \<noteq> base + k" for x
      proof -
        have "bytes (dev f') x = bytes (dev ?g) x"
          by (rule IH [THEN conjunct2, THEN conjunct1, rule_format]) (use x run(3) dg in auto)
        also have "\<dots> = bytes (dev f) x" using out [of x] x run(3) by simp
        finally show ?thesis .
      qed
      have fr: "r = 0 \<and> f' = f\<lparr>dev := dev f'\<rparr> \<or> r = FAT_BLOCK_WRITE_ERROR \<and> strict \<and> f' = f\<lparr>dev := dev f', ready := 0\<rparr>"
        using IH [THEN conjunct1] by simp
      show ?thesis using fr other keep by blast
    qed
  qed
qed

subsection \<open>The table the driver sees\<close>

text \<open>
  A byte of the table: from the window when it is there, otherwise from the primary table of the
  device. The window is coherent when its unmodified sectors agree with the device.
\<close>

abbreviation table_base :: "'d fat_instance \<Rightarrow> nat" where
  "table_base f \<equiv> fs_reserved_sectors f * fs_bytes_per_sector f"

definition tbyte :: "('d \<Rightarrow> nat \<Rightarrow> u8) \<Rightarrow> 'd fat_instance \<Rightarrow> nat \<Rightarrow> u8" where
  "tbyte bytes f i =
    (if table_offset f \<le> i \<and> i < table_offset f + length (table_buffer f) then table_buffer f ! (i - table_offset f)
     else bytes (dev f) (table_base f + i))"

definition coherent :: "('d \<Rightarrow> nat \<Rightarrow> u8) \<Rightarrow> 'd fat_instance \<Rightarrow> bool" where
  "coherent bytes f \<longleftrightarrow> (\<forall>i < fs_table_size f. \<not> (table_offset f \<le> i \<and> dirty f 0 (i - table_offset f)) \<longrightarrow>
    tbyte bytes f i = bytes (dev f) (table_base f + i))"

definition dirty_inside :: "'d fat_instance \<Rightarrow> bool" where
  "dirty_inside f \<longleftrightarrow> (\<forall>s < table_entries f. table_sectors f ! s \<noteq> 0 \<longrightarrow>
    table_offset f + s * fs_bytes_per_sector f < fs_table_size f)"

definition table_ok :: "('d \<Rightarrow> nat \<Rightarrow> u8) \<Rightarrow> nat \<Rightarrow> 'd fat_instance \<Rightarrow> bool" where
  "table_ok bytes bs f \<longleftrightarrow> fat_geometry f \<and> window_shape bs f \<and> dirty_inside f \<and>
    (if type_32 f then length (table_buffer f) = 0x20000 \<and> 0x20000 dvd table_offset f \<and> coherent bytes f
     else table_offset f = 0 \<and> length (table_buffer f) = fs_table_size f)"

text \<open>Writing the table makes the primary table of the device agree with the window.\<close>

lemma write_table_cases:
  assumes "block_device env bytes bs" "window_shape bs f" "write_table env f = (r, f')"
  obtains (failed) d where "r = FAT_BLOCK_WRITE_ERROR" "f' = f\<lparr>dev := d, ready := 0\<rparr>"
    | (written) d1 d2 r2 where "write_dirty env True 0 0 f = (0, f\<lparr>dev := d1\<rparr>)"
      "fs_tables f < 2 \<and> d2 = d1 \<or> write_dirty env False (fs_table_sectors f) 0 (f\<lparr>dev := d1\<rparr>) = (r2, f\<lparr>dev := d2\<rparr>)"
      "r = 0" "f' = f\<lparr>dev := d2, table_sectors := replicate (table_entries f) 0\<rparr>"
proof -
  obtain r1 f1 where 1: "write_dirty env True 0 0 f = (r1, f1)" by (cases "write_dirty env True 0 0 f")
  note W = write_dirty_main [OF assms(1,2) 1 refl, THEN conjunct1]
  show thesis
  proof (cases "r1 = 0")
    case False
    then have "r1 = FAT_BLOCK_WRITE_ERROR" "f1 = f\<lparr>dev := dev f1, ready := 0\<rparr>" using W by blast+
    then show thesis using failed [of "dev f1"] assms(3) 1 False by (simp add: write_table_def)
  next
    case True
    then have "f1 = f\<lparr>dev := dev f1\<rparr>" using W by (auto simp: FAT_BLOCK_WRITE_ERROR_def)
    then obtain d1 where f1: "f1 = f\<lparr>dev := d1\<rparr>" by (rule exI [THEN exE])
    have w1: "write_dirty env True 0 0 f = (0, f\<lparr>dev := d1\<rparr>)" using 1 True f1 by simp
    have len: "length (table_sectors f) = table_entries f" using assms(2) unfolding window_shape_def by blast
    have g: "clear_sectors (f\<lparr>dev := d\<rparr>) = f\<lparr>dev := d, table_sectors := replicate (table_entries f) 0\<rparr>" for d
      by (simp add: clear_sectors_def len)
    show thesis
    proof (cases "fs_tables f < 2")
      case True
      have "r = 0" "f' = f\<lparr>dev := d1, table_sectors := replicate (table_entries f) 0\<rparr>"
        using assms(3) True by (simp_all add: write_table_def w1 g)
      then show thesis using written w1 True by blast
    next
      case False
      obtain r2 f2 where 2: "write_dirty env False (fs_table_sectors f) 0 (f\<lparr>dev := d1\<rparr>) = (r2, f2)"
        by (cases "write_dirty env False (fs_table_sectors f) 0 (f\<lparr>dev := d1\<rparr>)")
      have "window_shape bs (f\<lparr>dev := d1\<rparr>)" using assms(2) by (simp add: window_shape_def)
      from write_dirty_main [OF assms(1) this 2 refl, THEN conjunct1] have "f2 = f\<lparr>dev := dev f2\<rparr>" by simp
      then obtain d2 where f2: "f2 = f\<lparr>dev := d2\<rparr>" by (rule exI [THEN exE])
      have "r = 0" "f' = f\<lparr>dev := d2, table_sectors := replicate (table_entries f) 0\<rparr>"
        using assms(3) False 2 by (simp_all add: write_table_def w1 f2 g)
      then show thesis using written [OF w1] 2 f2 by blast
    qed
  qed
qed

lemma write_table_main:
  assumes "block_device env bytes bs" "window_shape bs f" "fs_table_size f = fs_table_sectors f * fs_bytes_per_sector f"
    "write_table env f = (r, f')"
  obtains (failed) d where "r = FAT_BLOCK_WRITE_ERROR" "f' = f\<lparr>dev := d, ready := 0\<rparr>"
    | (written) d where "r = 0" "f' = f\<lparr>dev := d, table_sectors := replicate (table_entries f) 0\<rparr>"
      "\<forall>i < fs_table_size f. bytes d (table_base f + i) =
        (if table_offset f \<le> i \<and> dirty f 0 (i - table_offset f) then table_buffer f ! (i - table_offset f)
         else bytes (dev f) (table_base f + i))"
  using assms(1,2,4)
proof (cases rule: write_table_cases)
  case (failed d)
  then show thesis using that(1) by blast
next
  case (written d1 d2 r2)
  let ?p = "fs_bytes_per_sector f"
  let ?b = "(fs_reserved_sectors f + 0) * ?p + table_offset f"
  note A = write_dirty_main [OF assms(1,2) written(1) refl, THEN conjunct2]
  have A1: "bytes d1 x = bytes (dev f) x" if "\<forall>k. dirty f 0 k \<longrightarrow> x \<noteq> ?b + k" for x using A that by simp
  have A2: "bytes d1 (?b + k) = table_buffer f ! k" if "dirty f 0 k" for k using A that by simp
  have B: "bytes d2 x = bytes d1 x" if x: "x < (fs_reserved_sectors f + fs_table_sectors f) * ?p" for x
  proof (cases "fs_tables f < 2 \<and> d2 = d1")
    case False
    then have 2: "write_dirty env False (fs_table_sectors f) 0 (f\<lparr>dev := d1\<rparr>) = (r2, f\<lparr>dev := d2\<rparr>)" using written(2) by blast
    have "window_shape bs (f\<lparr>dev := d1\<rparr>)" using assms(2) by (simp add: window_shape_def)
    from write_dirty_main [OF assms(1) this 2 refl, THEN conjunct2, THEN conjunct1, rule_format, of x] x show ?thesis by simp
  qed simp
  have "bytes d2 (table_base f + i) =
      (if table_offset f \<le> i \<and> dirty f 0 (i - table_offset f) then table_buffer f ! (i - table_offset f)
       else bytes (dev f) (table_base f + i))" if i: "i < fs_table_size f" for i
  proof -
    have "bytes d2 (table_base f + i) = bytes d1 (table_base f + i)"
      by (rule B) (use i assms(3) in \<open>simp add: distrib_right\<close>)
    moreover have "bytes d1 (table_base f + i) = table_buffer f ! (i - table_offset f)"
      if "table_offset f \<le> i" "dirty f 0 (i - table_offset f)"
      using A2 [OF that(2)] that(1) by simp
    moreover have "bytes d1 (table_base f + i) = bytes (dev f) (table_base f + i)"
      if "\<not> (table_offset f \<le> i \<and> dirty f 0 (i - table_offset f))"
      by (rule A1) (use that in auto)
    ultimately show ?thesis by auto
  qed
  then show thesis using that(2) written(3,4) by blast
qed

lemma flushed_tbyte:
  assumes "coherent bytes f" "i < fs_table_size f"
  shows "(if table_offset f \<le> i \<and> dirty f 0 (i - table_offset f) then table_buffer f ! (i - table_offset f)
    else bytes (dev f) (table_base f + i)) = tbyte bytes f i"
proof (cases "table_offset f \<le> i \<and> dirty f 0 (i - table_offset f)")
  case True
  then have "i - table_offset f < length (table_buffer f)" by (simp add: dirty_def)
  then show ?thesis using True by (auto simp: tbyte_def)
next
  case False
  then show ?thesis using assms unfolding coherent_def by auto
qed

subsection \<open>The window of a FAT32 table\<close>

lemma and_shifted_mask: "x AND push_bit n m = push_bit n (drop_bit n x AND m)" for x :: nat
  by (rule bit_eqI) (auto simp: bit_simps)

lemma window_split:
  fixes toff :: nat
  assumes "toff < 2 ^ 32"
  shows "toff AND 0x0001FFFF = toff mod 0x20000" "toff AND 0xFFFE0000 = toff - toff mod 0x20000"
proof -
  show "toff AND 0x0001FFFF = toff mod 0x20000" by (rule and_mask_nat_eq [of _ 17]) simp_all
  have d: "drop_bit 17 toff = toff div 0x20000" by (simp add: drop_bit_eq_div)
  have "toff div 0x20000 < 2 ^ 15" using assms by (simp add: less_mult_imp_div_less)
  moreover have "drop_bit 17 toff AND 0x7FFF = toff div 0x20000 mod 0x8000"
    unfolding d by (rule and_mask_nat_eq [of _ 15]) simp_all
  ultimately have "drop_bit 17 toff AND 0x7FFF = toff div 0x20000" by simp
  then have "toff AND push_bit 17 0x7FFF = toff div 0x20000 * 0x20000"
    unfolding and_shifted_mask by (simp add: push_bit_eq_mult)
  then show "toff AND 0xFFFE0000 = toff - toff mod 0x20000" by (simp add: minus_mod_eq_div_mult)
qed

lemma geometry_sector_dvd: "fat_geometry f \<Longrightarrow> fs_bytes_per_sector f dvd 0x20000"
proof -
  assume "fat_geometry f"
  then obtain k where k: "fs_bytes_per_sector f = 2 ^ k" "fs_bytes_per_sector f \<le> 4096" unfolding fat_geometry_def by blast
  have "(2::nat) ^ k \<le> 2 ^ 12" using k by simp
  then have "k \<le> 12" by (simp only: power_increasing_iff [of "2::nat"] one_less_numeral_iff semiring_norm)
  then have "(2::nat) ^ k dvd 2 ^ 17" by (intro le_imp_power_dvd) simp
  then show ?thesis using k(1) by simp
qed

lemma load_window_main:
  assumes "block_device env bytes bs" "fat_geometry f" "io_mul f * bs = fs_bytes_per_sector f"
    "length (table_buffer f) = 0x20000" "0x20000 dvd off2" "off2 < fs_table_size f" "load_window env off2 f = (r, f')"
  obtains (failed) "r \<noteq> 0" "ready f' = 0"
    | (loaded) tb d where "r = 0" "f' = f\<lparr>table_offset := off2, table_buffer := tb, dev := d\<rparr>" "bytes d = bytes (dev f)"
      "length tb = 0x20000" "\<forall>k < 0x20000. off2 + k < fs_table_size f \<longrightarrow> tb ! k = bytes (dev f) (table_base f + off2 + k)"
proof -
  define lba where "lba = (fs_reserved_sectors f + off2 div fs_bytes_per_sector f) * io_mul f"
  define over where "over = (off2 + 0x20000 > fs_table_size f)"
  define sz where "sz = (if over then 0x20000 - (off2 + 0x20000 - fs_table_size f) else 0x20000)"
  define buf where "buf = (if over then overlay (table_buffer f) 0 (replicate 0x20000 0) else table_buffer f)"
  obtain r1 data d where rd: "fat_io_read env (fat_id f) lba sz (dev f) = (r1, data, d)"
    by (cases "fat_io_read env (fat_id f) lba sz (dev f)")
  have nx: "\<not> (over \<and> 0x20000 < off2 + 0x20000 - fs_table_size f)" using assms(6) by linarith
  have "load_window env off2 f =
      (let g = f\<lparr>table_offset := off2, table_buffer := overlay buf 0 data, dev := d\<rparr>
       in if r1 \<noteq> 0 then (FAT_BLOCK_READ_ERROR, g\<lparr>ready := 0\<rparr>) else (0, g))"
    using nx rd unfolding load_window_def Let_def lba_def sz_def buf_def over_def
    by (cases "fs_table_size f < off2 + 0x20000") simp_all
  then have e: "(r, f') = (let g = f\<lparr>table_offset := off2, table_buffer := overlay buf 0 data, dev := d\<rparr>
       in if r1 \<noteq> 0 then (FAT_BLOCK_READ_ERROR, g\<lparr>ready := 0\<rparr>) else (0, g))" using assms(7) by simp
  show thesis
  proof (cases "r1 = 0")
    case False
    then show thesis using e failed by (auto simp: Let_def FAT_BLOCK_READ_ERROR_def)
  next
    case True
    have szle: "sz \<le> 0x20000" "\<And>k. k < 0x20000 \<Longrightarrow> off2 + k < fs_table_size f \<Longrightarrow> k < sz" by (auto simp: sz_def over_def)
    note D = block_device_read [OF assms(1) rd]
    have data: "data = map (\<lambda>i. bytes (dev f) (lba * bs + i)) [0..<sz]" by (rule D(3) [OF True])
    have "fs_bytes_per_sector f dvd off2" using geometry_sector_dvd [OF assms(2)] assms(5) by (rule dvd_trans)
    then have lba: "lba * bs = table_base f + off2"
      using assms(3) by (simp add: lba_def mult.assoc distrib_right)
    have blen: "length buf = 0x20000" using assms(4) by (simp add: buf_def overlay_def)
    have len: "length (overlay buf 0 data) = 0x20000" using blen data szle(1) by (simp add: overlay_def)
    have nth: "overlay buf 0 data ! k = bytes (dev f) (table_base f + off2 + k)" if "k < sz" for k
      using that data lba by (simp add: overlay_def nth_append)
    show thesis
      by (rule loaded [where tb = "overlay buf 0 data" and d = d]) (use e True D(1) len nth szle(2) in \<open>auto simp: Let_def\<close>)
  qed
qed

lemma table_okD:
  assumes "table_ok bytes bs f"
  shows "fat_geometry f" "window_shape bs f" "dirty_inside f"
    "type_32 f \<Longrightarrow> length (table_buffer f) = 0x20000 \<and> 0x20000 dvd table_offset f \<and> coherent bytes f"
    "\<not> type_32 f \<Longrightarrow> table_offset f = 0 \<and> length (table_buffer f) = fs_table_size f"
  using assms unfolding table_ok_def by (auto split: if_splits)

lemma geometryD:
  assumes "fat_geometry f"
  shows "fs_table_size f = fs_table_sectors f * fs_bytes_per_sector f" "fs_table_size f \<le> 0x40000000"
    "512 \<le> fs_bytes_per_sector f" "0 < fs_bytes_per_sector f" "type_12 f \<or> type_16 f \<or> type_32 f"
    "type_12 f \<Longrightarrow> \<not> type_16 f \<and> \<not> type_32 f" "type_16 f \<Longrightarrow> \<not> type_12 f \<and> \<not> type_32 f"
    "type_32 f \<Longrightarrow> \<not> type_12 f \<and> \<not> type_16 f"
    "type_12 f \<Longrightarrow> ((fs_clusters f + 2) * 3 + 1) div 2 \<le> fs_table_size f" "type_16 f \<Longrightarrow> (fs_clusters f + 2) * 2 \<le> fs_table_size f"
    "type_32 f \<Longrightarrow> (fs_clusters f + 2) * 4 \<le> fs_table_size f"
  using assms unfolding fat_geometry_def by auto

lemma shapeD:
  assumes "window_shape bs f"
  shows "0 < fs_bytes_per_sector f" "io_mul f * bs = fs_bytes_per_sector f" "length (table_sectors f) = table_entries f"
    "length (table_buffer f) = table_entries f * fs_bytes_per_sector f" "fs_bytes_per_sector f dvd table_offset f"
  using assms unfolding window_shape_def by blast+

lemma fat_geometry_cong:
  "fat_geometry (f\<lparr>table_buffer := tb, table_sectors := ts, table_offset := x, dev := d\<rparr>) = fat_geometry f"
  "fat_geometry (f\<lparr>table_buffer := tb, table_sectors := ts\<rparr>) = fat_geometry f"
  "fat_geometry (f\<lparr>fs_info_free := a\<rparr>) = fat_geometry f" "fat_geometry (f\<lparr>fs_info_next := b\<rparr>) = fat_geometry f"
  "fat_geometry (f\<lparr>dev := d, table_sectors := ts\<rparr>) = fat_geometry f"
  by (simp_all add: fat_geometry_def)

text \<open>Loading a window writes the old one back and does not change the table.\<close>

lemma read_table_buffer_main:
  assumes "block_device env bytes bs" "table_ok bytes bs f" "type_32 f" "toff < fs_table_size f"
    "read_table_buffer env f toff = (r, off1, f')"
  obtains (failed) "r \<noteq> 0" "ready f' = 0"
    | (loaded) tb ts d where "r = 0" "off1 = toff mod 0x20000"
      "f' = f\<lparr>table_buffer := tb, table_sectors := ts, table_offset := toff - toff mod 0x20000, dev := d\<rparr>"
      "table_ok bytes bs f'" "\<forall>i < fs_table_size f. tbyte bytes f' i = tbyte bytes f i"
proof -
  note ok = table_okD [OF assms(2)] and geo = geometryD [OF table_okD(1) [OF assms(2)]]
  have t32: "toff < 2 ^ 32" using assms(4) geo(2) by simp
  define off2 where "off2 = toff - toff mod 0x20000"
  note ws = window_split [OF t32, folded off2_def]
  have off2: "0x20000 dvd off2" "off2 \<le> toff" by (simp_all add: off2_def minus_mod_eq_mult_div)
  show thesis
  proof (cases "table_offset f = off2")
    case True
    then have "r = 0" "off1 = toff mod 0x20000" "f' = f" using assms(5) ws by (auto simp: read_table_buffer_def)
    moreover have "f = f\<lparr>table_buffer := table_buffer f, table_sectors := table_sectors f, table_offset := off2, dev := dev f\<rparr>"
      using True by simp
    ultimately show thesis using loaded [folded off2_def] assms(2) by blast
  next
    case False
    have nn: "table_buffer f \<noteq> []" using ok(4) assms(3) by auto
    obtain r1 f1 where w: "write_table env f = (r1, f1)" by (cases "write_table env f")
    from assms(1) ok(2) geo(1) w show thesis
    proof (cases rule: write_table_main)
      case (failed d)
      then show thesis using that(1) assms(5) False nn w ws by (auto simp: read_table_buffer_def Let_def FAT_BLOCK_WRITE_ERROR_def)
    next
      case (written d)
      have fl: "bytes d (table_base f + i) = tbyte bytes f i" if "i < fs_table_size f" for i
        using written(3) flushed_tbyte [of bytes f i] ok(4) assms(3) that by simp
      obtain r2 f2 where l: "load_window env off2 f1 = (r2, f2)" by (cases "load_window env off2 f1")
      have e: "r = r2" "off1 = toff mod 0x20000" "f' = f2"
        using assms(5) False nn w ws l written(1) by (auto simp: read_table_buffer_def Let_def)
      have g1: "fat_geometry f1" using ok(1) by (simp add: written(2) fat_geometry_cong)
      have sh: "io_mul f1 * bs = fs_bytes_per_sector f1" "length (table_buffer f1) = 0x20000" "off2 < fs_table_size f1"
        using shapeD(2) [OF ok(2)] ok(4) assms(3,4) off2(2) by (simp_all add: written(2))
      from assms(1) g1 sh(1,2) off2(1) sh(3) l show thesis
      proof (cases rule: load_window_main)
        case failed
        then show thesis using that(1) e by simp
      next
        case (loaded tb d2)
        let ?ts = "replicate (table_entries f) (0::nat)"
        have f': "f' = f\<lparr>table_buffer := tb, table_sectors := ?ts, table_offset := off2, dev := d2\<rparr>"
          by (simp add: e(3) loaded(2) written(2))
        have b: "bytes d2 = bytes d" using loaded(3) by (simp add: written(2))
        have tb: "tb ! k = bytes d (table_base f + off2 + k)" if "k < 0x20000" "off2 + k < fs_table_size f" for k
          using loaded(5) that by (simp add: written(2))
        have view: "tbyte bytes f' i = bytes d (table_base f + i)" if i: "i < fs_table_size f" for i
        proof (cases "off2 \<le> i \<and> i < off2 + 0x20000")
          case True
          then have "tb ! (i - off2) = bytes d (table_base f + off2 + (i - off2))" using i by (intro tb) linarith+
          moreover have "table_base f + off2 + (i - off2) = table_base f + i" using True by linarith
          ultimately show ?thesis using True unfolding f' by (simp add: tbyte_def loaded(4))
        next
          case False
          then show ?thesis unfolding f' by (auto simp: tbyte_def loaded(4) b)
        qed
        have sp: "fs_bytes_per_sector f dvd off2" by (rule dvd_trans [OF geometry_sector_dvd [OF ok(1)] off2(1)])
        have sh': "window_shape bs f'"
          using shapeD [OF ok(2)] ok(4) assms(3) sp unfolding f' window_shape_def by (simp add: loaded(4))
        have "table_ok bytes bs f'"
          unfolding table_ok_def
        proof (intro conjI)
          show "fat_geometry f'" using ok(1) unfolding f' fat_geometry_cong .
          show "window_shape bs f'" by (rule sh')
          show "dirty_inside f'" unfolding f' by (simp add: dirty_inside_def)
          have "coherent bytes f'" unfolding coherent_def using view b by (simp add: f')
          then show "if type_32 f' then length (table_buffer f') = 0x20000 \<and> 0x20000 dvd table_offset f' \<and> coherent bytes f'
              else table_offset f' = 0 \<and> length (table_buffer f') = fs_table_size f'"
            using assms(3) off2(1) by (simp add: f' loaded(4))
        qed
        then show thesis using that(2) [folded off2_def, OF _ e(2) f'] e(1) loaded(1) view fl by simp
      qed
    qed
  qed
qed

subsection \<open>Packing of the entries\<close>

text \<open>The digits of base 16 of a byte sequence; a FAT12 entry is three of them.\<close>

definition nib :: "(nat \<Rightarrow> nat) \<Rightarrow> nat \<Rightarrow> nat" where
  "nib T m = (if even m then T (m div 2) mod 16 else T (m div 2) div 16)"

definition fat12_entry :: "(nat \<Rightarrow> nat) \<Rightarrow> nat \<Rightarrow> nat" where
  "fat12_entry T off = nib T (3 * off) + 16 * nib T (3 * off + 1) + 256 * nib T (3 * off + 2)"

definition fat12_word :: "nat \<Rightarrow> nat \<Rightarrow> nat \<Rightarrow> nat" where
  "fat12_word off old v = (if odd off then 16 * (v mod 4096) + old mod 16 else v mod 4096 + 4096 * (old div 4096))"

lemma base_split: "a < n \<Longrightarrow> (a + n * b) mod n = a" "a < n \<Longrightarrow> (a + n * b) div n = b" for a b n :: nat
  by simp_all

lemma nib_simps:
  "nib T (6 * h) = T (3 * h) mod 16" "nib T (6 * h + 1) = T (3 * h) div 16" "nib T (6 * h + 2) = T (3 * h + 1) mod 16"
  "nib T (6 * h + 3) = T (3 * h + 1) div 16" "nib T (6 * h + 4) = T (3 * h + 2) mod 16" "nib T (6 * h + 5) = T (3 * h + 2) div 16"
proof -
  have d: "6 * h = 2 * (3 * h)" "6 * h + 1 = 2 * (3 * h) + 1" "6 * h + 2 = 2 * (3 * h + 1)" "6 * h + 3 = 2 * (3 * h + 1) + 1"
    "6 * h + 4 = 2 * (3 * h + 2)" "6 * h + 5 = 2 * (3 * h + 2) + 1" by simp_all
  have e: "nib T (2 * k) = T k mod 16" "nib T (2 * k + 1) = T k div 16" for k by (simp_all add: nib_def)
  show "nib T (6 * h) = T (3 * h) mod 16" by (simp only: d(1) e)
  show "nib T (6 * h + 1) = T (3 * h) div 16" by (simp only: d(2) e)
  show "nib T (6 * h + 2) = T (3 * h + 1) mod 16" by (simp only: d(3) e)
  show "nib T (6 * h + 3) = T (3 * h + 1) div 16" by (simp only: d(4) e)
  show "nib T (6 * h + 4) = T (3 * h + 2) mod 16" by (simp only: d(5) e)
  show "nib T (6 * h + 5) = T (3 * h + 2) div 16" by (simp only: d(6) e)
qed

lemma fat12_get:
  assumes "\<And>i. T i < 256"
  shows "fat12_entry T off =
    (if odd off then (T (off + off div 2) + 256 * T (off + off div 2 + 1)) div 16
     else T (off + off div 2) + 256 * T (off + off div 2 + 1)) mod 4096"
proof (cases "odd off")
  case False
  then obtain h where h: "off = 2 * h" by blast
  let ?x = "T (3 * h)" and ?y = "T (3 * h + 1)"
  have "fat12_entry T off = ?x mod 16 + 16 * (?x div 16) + 256 * (?y mod 16)"
    using h nib_simps(1-3) [of T h] by (simp add: fat12_entry_def)
  also have "?x mod 16 + 16 * (?x div 16) = ?x" by simp
  also have "?x + 256 * (?y mod 16) = (?x + 256 * ?y) mod 4096"
  proof -
    have "(?x + 256 * ?y) mod (256 * 16) = (?x + 256 * ?y) mod 256 + 256 * ((?x + 256 * ?y) div 256 mod 16)"
      unfolding mod_mult2_eq by simp
    then show ?thesis using base_split [OF assms, of "3 * h" ?y] by simp
  qed
  finally show ?thesis using h by (simp add: mult.commute)
next
  case True
  then obtain h where h: "off = 2 * h + 1" by (elim oddE)
  let ?x = "T (3 * h + 1)" and ?y = "T (3 * h + 2)"
  have i: "off + off div 2 = 3 * h + 1" "off + off div 2 + 1 = 3 * h + 2" "3 * off = 6 * h + 3" "3 * off + 1 = 6 * h + 4" "3 * off + 2 = 6 * h + 5"
    using h by simp_all
  have "fat12_entry T off = ?x div 16 + 16 * (?y mod 16) + 256 * (?y div 16)"
    unfolding fat12_entry_def i(4,5) unfolding i(3) nib_simps ..
  also have "\<dots> = ?x div 16 + 16 * (?y mod 16 + 16 * (?y div 16))"
    by (simp only: distrib_left mult.assoc [symmetric] add.assoc numeral_times_numeral semiring_norm)
  also have "?y mod 16 + 16 * (?y div 16) = ?y" by (rule mod_mult_div_eq)
  also have "?x div 16 + 16 * ?y = (?x + 256 * ?y) div 16"
  proof -
    have "?x + 256 * ?y = ?x + 16 * ?y * 16" by simp
    then show ?thesis by (simp only: div_mult_self1 [of 16])
  qed
  also have "\<dots> = (?x + 256 * ?y) div 16 mod 4096"
  proof -
    have "?x + 256 * ?y < 4096 * 16" using assms [of "3 * h + 1"] assms [of "3 * h + 2"] by simp
    then show ?thesis by (simp add: less_mult_imp_div_less)
  qed
  finally show ?thesis using True unfolding i by simp
qed

lemma fat12_digits: "v mod 4096 = v mod 16 + 16 * (v div 16 mod 16) + 256 * (v div 256 mod 16)" for v :: nat
proof -
  have "v mod (16 * (16 * 16)) = v mod 16 + 16 * (v div 16 mod (16 * 16))" unfolding mod_mult2_eq by simp
  also have "v div 16 mod (16 * 16) = v div 16 mod 16 + 16 * (v div 16 div 16 mod 16)" unfolding mod_mult2_eq by simp
  also have "v div 16 div 16 = v div 256" by (simp add: div_mult2_eq [symmetric])
  finally show ?thesis by simp
qed

lemma fat12_set:
  assumes "\<And>i. T i < 256" "a = off + off div 2" "w = fat12_word off (T a + 256 * T (a + 1)) v" "T' = T(a := w mod 256, a + 1 := w div 256)"
  shows "w < 65536" "nib T' m = (if m = 3 * off then v mod 16 else if m = 3 * off + 1 then v div 16 mod 16
    else if m = 3 * off + 2 then v div 256 mod 16 else nib T m)"
proof -
  define x0 where "x0 = v mod 16" define x1 where "x1 = v div 16 mod 16" define x2 where "x2 = v div 256 mod 16"
  have x: "x0 < 16" "x1 < 16" "x2 < 16" "v mod 4096 = x0 + 16 * x1 + 256 * x2"
    using fat12_digits [of v] by (simp_all add: x0_def x1_def x2_def)
  have nm: "nib T' m = nib T m" if "m div 2 \<noteq> a" "m div 2 \<noteq> a + 1" using that by (simp add: nib_def assms(4))
  have par: "m = 2 * (m div 2) \<or> m = 2 * (m div 2) + 1" by presburger
  have T: "T (a + 1) = T (a + 1) mod 16 + 16 * (T (a + 1) div 16)" "T a = T a mod 16 + 16 * (T a div 16)"
    "T (a + 1) div 16 < 16" "T a mod 16 < 16"
    using assms(1) [of "a + 1"] by (simp_all add: less_mult_imp_div_less)
  have "w < 65536 \<and> nib T' m = (if m = 3 * off then x0 else if m = 3 * off + 1 then x1 else if m = 3 * off + 2 then x2 else nib T m)"
  proof (cases "odd off")
    case False
    then obtain h where h: "off = 2 * h" by blast
    have a: "a = 3 * h" using assms(2) h by simp
    have "(T a + 256 * T (a + 1)) div (256 * 16) = T (a + 1) div 16"
      unfolding div_mult2_eq base_split(2) [OF assms(1)] ..
    then have w: "w = (x0 + 16 * x1) + 256 * (x2 + 16 * (T (a + 1) div 16))"
      using False x(4) by (simp add: assms(3) fat12_word_def)
    have w2: "w mod 256 = x0 + 16 * x1" "w div 256 = x2 + 16 * (T (a + 1) div 16)"
      unfolding w using x base_split [of "x0 + 16 * x1" 256 "x2 + 16 * (T (a + 1) div 16)"] by simp_all
    have "w < 65536" unfolding w using x T(3) by simp
    moreover have "nib T' m = (if m = 3 * off then x0 else if m = 3 * off + 1 then x1 else if m = 3 * off + 2 then x2 else nib T m)"
    proof -
      have i: "3 * off = 6 * h" "3 * off + 1 = 6 * h + 1" "3 * off + 2 = 6 * h + 2" using h by simp_all
      have b: "T' (3 * h) = x0 + 16 * x1" "T' (3 * h + 1) = x2 + 16 * (T (3 * h + 1) div 16)"
        using w2 unfolding assms(4) a by simp_all
      have n: "nib T' (6 * h) = x0" "nib T' (6 * h + 1) = x1" "nib T' (6 * h + 2) = x2" "nib T' (6 * h + 3) = nib T (6 * h + 3)"
        unfolding nib_simps b base_split(1) [OF x(1)] base_split(2) [OF x(1)] base_split(1) [OF x(3)] base_split(2) [OF x(3)]
        by (rule refl)+
      consider "m = 6 * h" | "m = 6 * h + 1" | "m = 6 * h + 2" | "m = 6 * h + 3" | "m div 2 \<noteq> a" "m div 2 \<noteq> a + 1"
        using par unfolding a by linarith
      then show ?thesis
      proof cases
        case 5
        then have "m \<noteq> 3 * off" "m \<noteq> 3 * off + 1" "m \<noteq> 3 * off + 2" using h a by auto
        then show ?thesis using nm 5 by simp
      qed (unfold i(2,3), unfold i(1), simp_all only: n, simp_all)
    qed
    ultimately show ?thesis by simp
  next
    case True
    then obtain h where h: "off = 2 * h + 1" by (elim oddE)
    have a: "a = 3 * h + 1" using assms(2) h by simp
    have o: "(T a + 256 * T (a + 1)) mod 16 = T a mod 16"
    proof -
      have "T a + 256 * T (a + 1) = T a + 16 * (16 * T (a + 1))" by simp
      then show ?thesis by (simp only: mod_mult_self2)
    qed
    have w: "w = (T a mod 16 + 16 * x0) + 256 * (x1 + 16 * x2)"
      using True x(4) o by (simp add: assms(3) fat12_word_def)
    have w2: "w mod 256 = T a mod 16 + 16 * x0" "w div 256 = x1 + 16 * x2"
      unfolding w using x T(4) base_split [of "T a mod 16 + 16 * x0" 256 "x1 + 16 * x2"] by linarith+
    have "y + 16 * x0 + 256 * (x1 + 16 * x2) < 65536" if "y < 16" for y using x(1-3) that by simp
    then have "w < 65536" unfolding w using T(4) by blast
    moreover have "nib T' m = (if m = 3 * off then x0 else if m = 3 * off + 1 then x1 else if m = 3 * off + 2 then x2 else nib T m)"
    proof -
      have i: "3 * off = 6 * h + 3" "3 * off + 1 = 6 * h + 4" "3 * off + 2 = 6 * h + 5" using h by simp_all
      have b: "T' (3 * h + 1) = T (3 * h + 1) mod 16 + 16 * x0" "T' (3 * h + 2) = x1 + 16 * x2"
        using w2 unfolding assms(4) a by simp_all
      have y: "T (3 * h + 1) mod 16 < 16" by simp
      have n: "nib T' (6 * h + 2) = nib T (6 * h + 2)" "nib T' (6 * h + 3) = x0" "nib T' (6 * h + 4) = x1" "nib T' (6 * h + 5) = x2"
        unfolding nib_simps b base_split(1) [OF x(2)] base_split(2) [OF x(2)] base_split(1) [OF y] base_split(2) [OF y]
        by (rule refl)+
      consider "m = 6 * h + 2" | "m = 6 * h + 3" | "m = 6 * h + 4" | "m = 6 * h + 5" | "m div 2 \<noteq> a" "m div 2 \<noteq> a + 1"
        using par unfolding a by linarith
      then show ?thesis
      proof cases
        case 5
        then have "m \<noteq> 3 * off" "m \<noteq> 3 * off + 1" "m \<noteq> 3 * off + 2" using h a by auto
        then show ?thesis using nm 5 by simp
      qed (unfold i(2,3), unfold i(1), simp_all only: n, simp_all)
    qed
    ultimately show ?thesis by simp
  qed
  then show "w < 65536" "nib T' m = (if m = 3 * off then v mod 16 else if m = 3 * off + 1 then v div 16 mod 16
    else if m = 3 * off + 2 then v div 256 mod 16 else nib T m)"
    by (simp_all add: x0_def x1_def x2_def)
qed

subsection \<open>Entries\<close>

text \<open>
  The value of an entry, with the end-of-chain marks of the smaller formats widened as the
  source does, and the value that is read back after storing \<open>v\<close>.
\<close>

definition ext12 :: "nat \<Rightarrow> nat" where
  "ext12 v = (if v \<ge> 0x0FF8 then v + 0x0FFFF000 else v)"

definition ext16 :: "nat \<Rightarrow> nat" where
  "ext16 v = (if v \<ge> 0xFFF8 then v + 0x0FFF0000 else v)"

definition word32 :: "(nat \<Rightarrow> nat) \<Rightarrow> nat \<Rightarrow> nat" where
  "word32 T i = T i + 256 * T (i + 1) + 65536 * T (i + 2) + 16777216 * T (i + 3)"

definition entry :: "('d \<Rightarrow> nat \<Rightarrow> u8) \<Rightarrow> 'd fat_instance \<Rightarrow> nat \<Rightarrow> nat" where
  "entry bytes f off =
    (let T = (\<lambda>i. unat (tbyte bytes f i)) in
     if type_12 f then ext12 (fat12_entry T off)
     else if type_16 f then ext16 (T (2 * off) + 256 * T (2 * off + 1))
     else word32 T (4 * off) mod 0x10000000)"

definition stored :: "'d fat_instance \<Rightarrow> nat \<Rightarrow> nat" where
  "stored f v = (if type_12 f then ext12 (v mod 0x1000) else if type_16 f then ext16 (v mod 0x10000) else v mod 0x10000000)"

lemma fat12_bound: "m \<le> 3 * off + 2 \<Longrightarrow> off < n \<Longrightarrow> m div 2 < (n * 3 + 1) div 2" for m n off :: nat
proof -
  assume "m \<le> 3 * off + 2" "off < n"
  then have "(m + 2) div 2 \<le> (n * 3 + 1) div 2" by (intro div_le_mono) simp
  then show ?thesis by simp
qed

lemma fat12_last: "off + off div 2 + 1 = (3 * off + 2) div 2" for off :: nat
proof -
  have "3 * off + 2 = 2 * (off + 1) + off" by simp
  then show ?thesis by (simp only: div_mult_self4)
qed

lemma entry_cong:
  assumes "fat_geometry f" "off < fs_clusters f + 2" "\<forall>i < fs_table_size f. tbyte bytes f' i = tbyte bytes f i"
    "type_12 f' = type_12 f" "type_16 f' = type_16 f"
  shows "entry bytes f' off = entry bytes f off"
proof -
  note g = geometryD [OF assms(1)]
  consider "type_12 f" | "\<not> type_12 f" "type_16 f" | "\<not> type_12 f" "\<not> type_16 f" "type_32 f" using g(5) by blast
  then show ?thesis
  proof cases
    case 1
    have i: "m div 2 < fs_table_size f" if "m \<le> 3 * off + 2" for m
    proof -
      have "m div 2 < ((fs_clusters f + 2) * 3 + 1) div 2" by (rule fat12_bound [OF that assms(2)])
      then show ?thesis using g(9) [OF 1] by (rule less_le_trans)
    qed
    have "nib (\<lambda>i. unat (tbyte bytes f' i)) m = nib (\<lambda>i. unat (tbyte bytes f i)) m" if "m \<le> 3 * off + 2" for m
      using assms(3) i [OF that] by (simp add: nib_def)
    then show ?thesis using 1 assms(4) by (simp add: entry_def Let_def fat12_entry_def)
  next
    case 2
    then show ?thesis using assms g(10) by (simp add: entry_def)
  next
    case 3
    then show ?thesis using assms g(11) by (simp add: entry_def word32_def)
  qed
qed

lemma or_high:
  "v < 0x1000 \<Longrightarrow> v OR 0x0FFFF000 = v + 0x0FFFF000" "v < 0x10000 \<Longrightarrow> v OR 0x0FFF0000 = v + 0x0FFF0000" for v :: nat
  using or_push_bit [of v 12 "0xFFFF"] or_push_bit [of v 16 "0xFFF"] by (simp_all add: push_bit_eq_mult)

lemma LE16_tbyte:
  assumes "\<not> type_32 f" "table_ok bytes bs f" "i + 1 < fs_table_size f"
  shows "LE16 (table_buffer f) i = unat (tbyte bytes f i) + 256 * unat (tbyte bytes f (i + 1))"
  using table_okD(5) [OF assms(2,1)] assms(3) by (simp add: LE16_sum tbyte_def)

lemma get_table_value_main:
  assumes "block_device env bytes bs" "table_ok bytes bs f" "off < fs_clusters f + 2" "get_table_value env f off = (v, f')"
  obtains (failed) "v = 1" "ready f' = 0"
    | (found) tb ts x d where "f' = f\<lparr>table_buffer := tb, table_sectors := ts, table_offset := x, dev := d\<rparr>"
      "v = entry bytes f off" "table_ok bytes bs f'" "\<forall>i < fs_table_size f. tbyte bytes f' i = tbyte bytes f i"
proof -
  note g = geometryD [OF table_okD(1) [OF assms(2)]]
  have fin: thesis if "f' = f" "v = entry bytes f off"
    by (rule found [where tb = "table_buffer f" and ts = "table_sectors f" and x = "table_offset f" and d = "dev f"])
      (use that assms(2) in simp_all)
  have lt: "\<not> off \<ge> fs_clusters f + 2" using assms(3) by simp
  consider "type_12 f" | "type_16 f" | "type_32 f" using g(5) by blast
  then show thesis
  proof cases
    case 1
    let ?T = "\<lambda>i. unat (tbyte bytes f i)"
    let ?a = "off + off div 2"
    have "?a + 1 < ((fs_clusters f + 2) * 3 + 1) div 2" unfolding fat12_last by (rule fat12_bound [OF order_refl assms(3)])
    then have le: "LE16 (table_buffer f) ?a = ?T ?a + 256 * ?T (?a + 1)"
      using LE16_tbyte [OF _ assms(2)] g(6,9) [OF 1] by simp
    define w where "w = (if odd off then drop_bit 4 (LE16 (table_buffer f) ?a) else LE16 (table_buffer f) ?a) AND 0x0FFF"
    have "w = (if odd off then drop_bit 4 (LE16 (table_buffer f) ?a) else LE16 (table_buffer f) ?a) mod 4096"
      unfolding w_def by (rule and_mask_nat_eq [of _ 12]) simp_all
    also have "\<dots> = fat12_entry ?T off"
      unfolding le using fat12_get [of ?T off] unat_u8_less by (simp add: drop_bit_eq_div)
    finally have w: "w = fat12_entry ?T off" .
    have "w < 0x1000" unfolding w using fat12_get [of ?T off] unat_u8_less by simp
    moreover have "v = (if w \<ge> 0x0FF8 then w OR 0x0FFFF000 else w)" "f' = f"
      using assms(4) lt 1 by (auto simp: get_table_value_def Let_def w_def drop_bit_eq_div and_one_eq odd_iff_mod_2_eq_one)
    ultimately have "v = entry bytes f off" using 1 w by (simp add: entry_def ext12_def or_high)
    with \<open>f' = f\<close> show thesis by (rule fin)
  next
    case 2
    have "2 * off + 1 < fs_table_size f" using assms(3) g(10) [OF 2] by simp
    then have le: "LE16 (table_buffer f) (2 * off) = unat (tbyte bytes f (2 * off)) + 256 * unat (tbyte bytes f (2 * off + 1))"
      using LE16_tbyte [OF _ assms(2)] g(7) [OF 2] by simp
    have "v = (if LE16 (table_buffer f) (2 * off) \<ge> 0xFFF8 then LE16 (table_buffer f) (2 * off) OR 0x0FFF0000 else LE16 (table_buffer f) (2 * off))"
      "f' = f" using assms(4) lt 2 g(7) by (auto simp: get_table_value_def Let_def mult.commute)
    then have "v = entry bytes f off"
      using 2 g(7) le_bounds(1) [of "table_buffer f" "2 * off"] by (simp add: entry_def ext16_def or_high le)
    with \<open>f' = f\<close> show thesis by (rule fin)
  next
    case 3
    have lt4: "4 * off + 3 < fs_table_size f" using assms(3) g(11) [OF 3] by simp
    obtain r add f1 where rt: "read_table_buffer env f (4 * off) = (r, add, f1)" by (cases "read_table_buffer env f (4 * off)")
    have e: "(v, f') = (if r \<noteq> 0 then (1, f1) else (LE32 (table_buffer f1) add AND 0x0FFFFFFF, f1))"
      using assms(4) lt 3 g(8) rt by (auto simp: get_table_value_def push_bit_eq_mult mult.commute)
    have "4 * off < fs_table_size f" using lt4 by simp
    from assms(1,2) 3 this rt show thesis
    proof (cases rule: read_table_buffer_main)
      case failed
      then show thesis using e that(1) by simp
    next
      case (loaded tb ts d)
      have w: "table_offset f1 = 4 * off - add" "length (table_buffer f1) = 0x20000" "add mod 4 = 0" "add < 0x20000" "add \<le> 4 * off"
        using loaded(2-4) table_okD(4) [OF loaded(4)] 3 by (simp_all add: mod_mod_cancel)
      have q: "add + 3 < 0x20000" using w(3,4) by presburger
      have tb: "table_buffer f1 ! (add + j) = tbyte bytes f (4 * off + j)" if "j \<le> 3" for j
      proof -
        have "tbyte bytes f1 (4 * off + j) = table_buffer f1 ! (4 * off + j - (4 * off - add))"
        proof -
          have "4 * off - add \<le> 4 * off + j" "4 * off + j < 4 * off - add + 0x20000" using w(5) q that by linarith+
          then show ?thesis using w(1,2) by (simp add: tbyte_def)
        qed
        moreover have "4 * off + j - (4 * off - add) = add + j" using w(5) by simp
        ultimately show ?thesis using loaded(5) lt4 that by simp
      qed
      have "LE32 (table_buffer f1) add = word32 (\<lambda>i. unat (tbyte bytes f i)) (4 * off)"
        unfolding LE32_sum word32_def using tb [of 0] tb [of 1] tb [of 2] tb [of 3] by simp
      moreover have "LE32 (table_buffer f1) add AND 0x0FFFFFFF = LE32 (table_buffer f1) add mod 0x10000000"
        by (rule and_mask_nat_eq [of _ 28]) simp_all
      ultimately have "v = entry bytes f off" "f' = f1" using e loaded(1) g(8) [OF 3] by (simp_all add: entry_def)
      then show thesis using found [OF loaded(3) [folded \<open>f' = f1\<close>]] loaded(4,5) by simp
    qed
  qed
qed

subsection \<open>Storing an entry\<close>

text \<open>The fields that the table operations change.\<close>

definition table_step :: "'d fat_instance \<Rightarrow> 'd fat_instance \<Rightarrow> bool" where
  "table_step f f' \<longleftrightarrow> (\<exists>tb ts x d a b. f' = f\<lparr>table_buffer := tb, table_sectors := ts, table_offset := x, dev := d,
    fs_info_free := a, fs_info_next := b\<rparr>)"

lemma table_step_refl [simp]: "table_step f f"
  unfolding table_step_def by (rule exI [of _ "table_buffer f"], rule exI [of _ "table_sectors f"], rule exI [of _ "table_offset f"],
    rule exI [of _ "dev f"], rule exI [of _ "fs_info_free f"], rule exI [of _ "fs_info_next f"]) simp

lemma table_stepI:
  "table_step f (f\<lparr>table_buffer := tb, table_sectors := ts, table_offset := x, dev := d\<rparr>)"
  "table_step f (f\<lparr>dev := d, table_sectors := ts\<rparr>)"
  "table_step f (f\<lparr>table_sectors := ts, table_buffer := tb\<rparr>)"
  "table_step f (f\<lparr>table_buffer := tb\<rparr>)"
  "table_step f (f\<lparr>table_sectors := ts\<rparr>)"
  "table_step f (f\<lparr>fs_info_free := a\<rparr>)" "table_step f (f\<lparr>fs_info_next := b\<rparr>)"
proof -
  have i: "table_step f f'" if "f' = f\<lparr>table_buffer := tb, table_sectors := ts, table_offset := x, dev := d,
    fs_info_free := a, fs_info_next := b\<rparr>" for f' :: "'a fat_instance" and tb ts x d a b
    using that unfolding table_step_def by blast
  show "table_step f (f\<lparr>table_buffer := tb, table_sectors := ts, table_offset := x, dev := d\<rparr>)"
    by (rule i [where tb = tb and ts = ts and x = x and d = d and a = "fs_info_free f" and b = "fs_info_next f"]) simp
  show "table_step f (f\<lparr>dev := d, table_sectors := ts\<rparr>)"
    by (rule i [where tb = "table_buffer f" and ts = ts and x = "table_offset f" and d = d and a = "fs_info_free f" and b = "fs_info_next f"]) simp
  show "table_step f (f\<lparr>table_sectors := ts, table_buffer := tb\<rparr>)"
    by (rule i [where tb = tb and ts = ts and x = "table_offset f" and d = "dev f" and a = "fs_info_free f" and b = "fs_info_next f"]) simp
  show "table_step f (f\<lparr>table_buffer := tb\<rparr>)"
    by (rule i [where tb = tb and ts = "table_sectors f" and x = "table_offset f" and d = "dev f" and a = "fs_info_free f" and b = "fs_info_next f"]) simp
  show "table_step f (f\<lparr>table_sectors := ts\<rparr>)"
    by (rule i [where tb = "table_buffer f" and ts = ts and x = "table_offset f" and d = "dev f" and a = "fs_info_free f" and b = "fs_info_next f"]) simp
  show "table_step f (f\<lparr>fs_info_free := a\<rparr>)"
    by (rule i [where tb = "table_buffer f" and ts = "table_sectors f" and x = "table_offset f" and d = "dev f" and a = a and b = "fs_info_next f"]) simp
  show "table_step f (f\<lparr>fs_info_next := b\<rparr>)"
    by (rule i [where tb = "table_buffer f" and ts = "table_sectors f" and x = "table_offset f" and d = "dev f" and a = "fs_info_free f" and b = b]) simp
qed

lemma table_step_trans: "table_step f g \<Longrightarrow> table_step g h \<Longrightarrow> table_step f h"
proof -
  assume "table_step f g" "table_step g h"
  then obtain tb ts x d a b tb' ts' x' d' a' b' where
    "g = f\<lparr>table_buffer := tb, table_sectors := ts, table_offset := x, dev := d, fs_info_free := a, fs_info_next := b\<rparr>"
    "h = g\<lparr>table_buffer := tb', table_sectors := ts', table_offset := x', dev := d', fs_info_free := a', fs_info_next := b'\<rparr>"
    unfolding table_step_def by blast
  then have "h = f\<lparr>table_buffer := tb', table_sectors := ts', table_offset := x', dev := d', fs_info_free := a', fs_info_next := b'\<rparr>"
    by simp
  then show ?thesis unfolding table_step_def by blast
qed

lemma table_step_simps:
  assumes "table_step f f'"
  shows "fs_clusters f' = fs_clusters f" "fs_table_size f' = fs_table_size f" "fs_bytes_per_sector f' = fs_bytes_per_sector f"
    "type_12 f' = type_12 f" "type_16 f' = type_16 f" "type_32 f' = type_32 f" "ready f' = ready f" "last_allocated f' = last_allocated f"
    "fat_geometry f' = fat_geometry f" "stored f' = stored f" "fat_id f' = fat_id f" "table_base f' = table_base f"
    "fs_total_sectors f' = fs_total_sectors f" "fs_data_sectors f' = fs_data_sectors f" "fs_cluster_sectors f' = fs_cluster_sectors f"
    "io_mul f' = io_mul f" "cluster_size f' = cluster_size f" "cluster_buffer f' = cluster_buffer f" "fs_last_table_sector f' = fs_last_table_sector f"
    "fs_reserved_sectors f' = fs_reserved_sectors f" "fs_table_sectors f' = fs_table_sectors f" "fs_tables f' = fs_tables f"
    "table_entries f' = table_entries f" "cluster_sector f' = cluster_sector f"
proof -
  obtain tb ts x d a b where f': "f' = f\<lparr>table_buffer := tb, table_sectors := ts, table_offset := x, dev := d,
    fs_info_free := a, fs_info_next := b\<rparr>" using assms unfolding table_step_def by blast
  show "fs_clusters f' = fs_clusters f" "fs_table_size f' = fs_table_size f" "fs_bytes_per_sector f' = fs_bytes_per_sector f"
    "type_12 f' = type_12 f" "type_16 f' = type_16 f" "type_32 f' = type_32 f" "ready f' = ready f" "last_allocated f' = last_allocated f"
    "fat_id f' = fat_id f" "table_base f' = table_base f"
    "fs_total_sectors f' = fs_total_sectors f" "fs_data_sectors f' = fs_data_sectors f" "fs_cluster_sectors f' = fs_cluster_sectors f"
    "io_mul f' = io_mul f" "cluster_size f' = cluster_size f" "cluster_buffer f' = cluster_buffer f" "fs_last_table_sector f' = fs_last_table_sector f"
    "fs_reserved_sectors f' = fs_reserved_sectors f" "fs_table_sectors f' = fs_table_sectors f" "fs_tables f' = fs_tables f"
    "table_entries f' = table_entries f" "cluster_sector f' = cluster_sector f"
    unfolding f' by simp_all
  show "fat_geometry f' = fat_geometry f" unfolding f' by (simp add: fat_geometry_def)
  show "stored f' = stored f" unfolding f' by (simp add: stored_def fun_eq_iff)
qed

lemma table_ok_info:
  "table_ok bytes bs (f\<lparr>fs_info_free := a\<rparr>) = table_ok bytes bs f" "table_ok bytes bs (f\<lparr>fs_info_next := b\<rparr>) = table_ok bytes bs f"
  "tbyte bytes (f\<lparr>fs_info_free := a\<rparr>) = tbyte bytes f" "tbyte bytes (f\<lparr>fs_info_next := b\<rparr>) = tbyte bytes f"
  by (simp_all add: table_ok_def fat_geometry_def window_shape_def dirty_inside_def coherent_def tbyte_def dirty_def fun_eq_iff)

text \<open>A change of bytes in sectors that are marked keeps the window coherent.\<close>

lemma coherent_update:
  assumes "coherent bytes f" "window_shape bs f" "length tb = length (table_buffer f)"
    "\<And>k. k < length tb \<Longrightarrow> tb ! k \<noteq> table_buffer f ! k \<Longrightarrow> ts ! (k div fs_bytes_per_sector f) \<noteq> 0"
    "\<And>s. s < table_entries f \<Longrightarrow> table_sectors f ! s \<noteq> 0 \<Longrightarrow> ts ! s \<noteq> 0"
  shows "coherent bytes (f\<lparr>table_sectors := ts, table_buffer := tb\<rparr>)"
  unfolding coherent_def
proof (intro allI impI)
  let ?g = "f\<lparr>table_sectors := ts, table_buffer := tb\<rparr>"
  fix i assume i: "i < fs_table_size ?g" "\<not> (table_offset ?g \<le> i \<and> dirty ?g 0 (i - table_offset ?g))"
  show "tbyte bytes ?g i = bytes (dev ?g) (table_base ?g + i)"
  proof (cases "table_offset f \<le> i \<and> i < table_offset f + length (table_buffer f)")
    case False
    then show ?thesis using assms(3) by (auto simp: tbyte_def)
  next
    case True
    define k where "k = i - table_offset f"
    have k: "k < length tb" using True assms(3) by (auto simp: k_def)
    then have z: "ts ! (k div fs_bytes_per_sector f) = 0" using i(2) True by (auto simp: dirty_def k_def)
    have "k div fs_bytes_per_sector f < table_entries f"
      using k assms(3) shapeD(4) [OF assms(2)] by (simp add: less_mult_imp_div_less)
    then have "table_sectors f ! (k div fs_bytes_per_sector f) = 0" using assms(5) z by blast
    then have "\<not> (table_offset f \<le> i \<and> dirty f 0 (i - table_offset f))" by (simp add: dirty_def k_def)
    then have "tbyte bytes f i = bytes (dev f) (table_base f + i)" using assms(1) i(1) unfolding coherent_def by simp
    moreover have "tb ! k = table_buffer f ! k" using assms(4) [OF k] z by blast
    ultimately show ?thesis using True assms(3) by (simp add: tbyte_def k_def)
  qed
qed

lemma unat_u8_of_nat: "unat (word_of_nat n :: u8) = n mod 256"
  by (simp add: unat_of_nat take_bit_eq_mod)

lemma unat_W_LE16:
  assumes "a + 1 < length buf" "i < length buf"
  shows "unat (W_LE16 buf a w ! i) = (if i = a then w mod 256 else if i = a + 1 then w div 256 mod 256 else unat (buf ! i))"
  using assms by (auto simp: W_LE16_def nth_list_update unat_u8_of_nat drop_bit_eq_div)

lemma unat_W_LE32:
  assumes "a + 3 < length buf" "i < length buf"
  shows "unat (W_LE32 buf a w ! i) = (if i = a then w mod 256 else if i = a + 1 then w div 256 mod 256
    else if i = a + 2 then w div 65536 mod 256 else if i = a + 3 then w div 16777216 mod 256 else unat (buf ! i))"
  using assms by (auto simp: W_LE32_def nth_list_update unat_u8_of_nat drop_bit_eq_div)

lemma length_W_LE [simp]: "length (W_LE16 buf a w) = length buf" "length (W_LE32 buf a w) = length buf"
  by (simp_all add: W_LE16_def W_LE32_def)

lemma table_ok_full_update:
  assumes "table_ok bytes bs f" "\<not> type_32 f" "length tb = length (table_buffer f)" "length ts = table_entries f"
    "\<forall>s < table_entries f. ts ! s \<noteq> 0 \<longrightarrow> table_sectors f ! s \<noteq> 0 \<or> s * fs_bytes_per_sector f < fs_table_size f"
  shows "table_ok bytes bs (f\<lparr>table_sectors := ts, table_buffer := tb\<rparr>)"
    "i < fs_table_size f \<Longrightarrow> tbyte bytes (f\<lparr>table_sectors := ts, table_buffer := tb\<rparr>) i = tb ! i"
    "i < fs_table_size f \<Longrightarrow> tbyte bytes f i = table_buffer f ! i"
    "\<not> i < fs_table_size f \<Longrightarrow> tbyte bytes (f\<lparr>table_sectors := ts, table_buffer := tb\<rparr>) i = tbyte bytes f i"
proof -
  note ok = table_okD [OF assms(1)]
  show "i < fs_table_size f \<Longrightarrow> tbyte bytes (f\<lparr>table_sectors := ts, table_buffer := tb\<rparr>) i = tb ! i"
    "i < fs_table_size f \<Longrightarrow> tbyte bytes f i = table_buffer f ! i"
    "\<not> i < fs_table_size f \<Longrightarrow> tbyte bytes (f\<lparr>table_sectors := ts, table_buffer := tb\<rparr>) i = tbyte bytes f i"
    using ok(5) assms(2,3) by (simp_all add: tbyte_def)
  have "dirty_inside (f\<lparr>table_sectors := ts, table_buffer := tb\<rparr>)"
    using assms(5) ok(3) ok(5) [OF assms(2)] unfolding dirty_inside_def by fastforce
  moreover have "window_shape bs (f\<lparr>table_sectors := ts, table_buffer := tb\<rparr>)"
    using shapeD [OF ok(2)] assms(3,4) unfolding window_shape_def by simp
  moreover have "fat_geometry (f\<lparr>table_sectors := ts, table_buffer := tb\<rparr>)"
    using ok(1) by (simp only: table_step_simps(9) [OF table_stepI(3)])
  ultimately show "table_ok bytes bs (f\<lparr>table_sectors := ts, table_buffer := tb\<rparr>)"
    using ok(5) assms(2,3) by (simp add: table_ok_def)
qed

lemma fat12_word_eq:
  assumes "old < 65536"
  shows "(if off AND 1 \<noteq> 0 then (push_bit 4 val AND 0xFFF0) OR (old AND 0x000F) else (val AND 0x0FFF) OR (old AND 0xF000)) = fat12_word off old val"
proof -
  have m: "x AND 0xF = x mod 16" "x AND 0xFFF = x mod 4096" for x :: nat
    by (rule and_mask_nat_eq [of _ 4], simp_all) (rule and_mask_nat_eq [of _ 12], simp_all)
  have "push_bit 4 val AND push_bit 4 0xFFF = push_bit 4 (val mod 4096)" unfolding and_shifted_mask m by (simp add: drop_bit_eq_div push_bit_eq_mult)
  then have a: "push_bit 4 val AND 0xFFF0 = push_bit 4 (val mod 4096)" by (simp add: push_bit_eq_mult)
  have a2: "(push_bit 4 val AND 0xFFF0) OR (old AND 0x000F) = 16 * (val mod 4096) + old mod 16"
    unfolding a m using or_push_bit [of "old mod 16" 4 "val mod 4096"] by (simp add: or.commute)
  have "old AND push_bit 12 0xF = push_bit 12 (old div 4096 mod 16)" unfolding and_shifted_mask m by (simp add: drop_bit_eq_div)
  moreover have "old div 4096 < 16" using assms by (simp add: less_mult_imp_div_less)
  ultimately have b: "old AND 0xF000 = push_bit 12 (old div 4096)" by (simp add: push_bit_eq_mult)
  have b2: "(val AND 0x0FFF) OR (old AND 0xF000) = val mod 4096 + 4096 * (old div 4096)"
    unfolding b m using or_push_bit [of "val mod 4096" 12 "old div 4096"] by simp
  show ?thesis unfolding a2 b2 by (simp add: fat12_word_def and_one_eq odd_iff_mod_2_eq_one)
qed

lemma set_table_value_12:
  assumes "table_ok bytes bs f" "type_12 f" "off < fs_clusters f + 2" "set_table_value env f off v = (r, f')"
  shows "r = 0" "table_step f f'" "table_ok bytes bs f'"
    "p < fs_clusters f + 2 \<Longrightarrow> entry bytes f' p = (if p = off then stored f v else entry bytes f p)"
proof -
  note ok = table_okD [OF assms(1)] and g = geometryD [OF table_okD(1) [OF assms(1)]]
  have t: "\<not> type_32 f" "\<not> type_16 f" using g(6) assms(2) by auto
  define a where "a = off + off div 2"
  let ?T = "\<lambda>i. unat (tbyte bytes f i)" and ?p = "fs_bytes_per_sector f"
  have "a + 1 < ((fs_clusters f + 2) * 3 + 1) div 2" unfolding a_def fat12_last by (rule fat12_bound [OF order_refl assms(3)])
  then have a1: "a + 1 < fs_table_size f" using g(9) [OF assms(2)] by (rule less_le_trans)
  have len: "length (table_buffer f) = fs_table_size f" using ok(5) t(1) by simp
  have le: "LE16 (table_buffer f) a = ?T a + 256 * ?T (a + 1)" by (rule LE16_tbyte [OF t(1) assms(1) a1])
  define w where "w = fat12_word off (?T a + 256 * ?T (a + 1)) v"
  define ts where "ts = (if a = ?p - 1 then (table_sectors f)[a div ?p + 1 := 1] else table_sectors f)[a div ?p := 1]"
  define tb where "tb = W_LE16 (table_buffer f) a w"
  have f': "f' = f\<lparr>table_sectors := ts, table_buffer := tb\<rparr>" and r: "r = 0"
    using assms(2-4) fat12_word_eq [OF le_bounds(1), of off v "table_buffer f" a]
    by (auto simp: set_table_value_def Let_def a_def [symmetric] drop_bit_eq_div le w_def ts_def tb_def)
  show "r = 0" "table_step f f'" using r unfolding f' by (simp_all add: table_stepI)
  have s1: "a div ?p * ?p < fs_table_size f" using a1 div_times_less_eq_dividend [of a ?p] by linarith
  have ins: "table_sectors f ! s \<noteq> 0 \<or> s * ?p < fs_table_size f" if "s < table_entries f" "ts ! s \<noteq> 0" for s
  proof (cases "s = a div ?p \<or> a = ?p - 1 \<and> s = a div ?p + 1")
    case True
    moreover have "(a div ?p + 1) * ?p < fs_table_size f" if "a = ?p - 1" using that a1 g(4) by simp
    ultimately show ?thesis using s1 by auto
  next
    case False
    then show ?thesis using that(2) by (auto simp: ts_def nth_list_update split: if_splits)
  qed
  have lts: "length ts = table_entries f" "length tb = length (table_buffer f)" using shapeD(3) [OF ok(2)] by (simp_all add: ts_def tb_def)
  have "\<forall>s < table_entries f. ts ! s \<noteq> 0 \<longrightarrow> table_sectors f ! s \<noteq> 0 \<or> s * ?p < fs_table_size f" using ins by blast
  note U = table_ok_full_update [OF assms(1) t(1) lts(2,1) this]
  show "table_ok bytes bs f'" unfolding f' by (rule U(1))
  let ?T' = "\<lambda>i. unat (tbyte bytes f' i)"
  have w2: "w < 65536" by (rule fat12_set(1) [OF _ a_def w_def refl]) (rule unat_u8_less)
  have T': "?T' = ?T(a := w mod 256, a + 1 := w div 256)"
  proof
    fix i
    show "?T' i = (?T(a := w mod 256, a + 1 := w div 256)) i"
    proof (cases "i < fs_table_size f")
      case True
      have "w div 256 mod 256 = w div 256" using w2 by (simp add: less_mult_imp_div_less)
      moreover have "tbyte bytes f' i = tb ! i" unfolding f' by (rule U(2) [OF True])
      ultimately show ?thesis using unat_W_LE16 [of a "table_buffer f" i w] a1 True len U(3) [OF True] by (simp add: tb_def)
    next
      case False
      moreover have "tbyte bytes f' i = tbyte bytes f i" unfolding f' by (rule U(4) [OF False])
      ultimately show ?thesis using a1 by auto
    qed
  qed
  have n: "nib ?T' m = (if m = 3 * off then v mod 16 else if m = 3 * off + 1 then v div 16 mod 16
    else if m = 3 * off + 2 then v div 256 mod 16 else nib ?T m)" for m
    by (rule fat12_set(2) [OF _ a_def w_def T']) (rule unat_u8_less)
  have e: "entry bytes f' q = ext12 (fat12_entry ?T' q)" for q using assms(2) by (simp add: f' entry_def Let_def)
  show "entry bytes f' p = (if p = off then stored f v else entry bytes f p)"
  proof (cases "p = off")
    case True
    have "fat12_entry ?T' off = v mod 4096" unfolding fat12_digits [of v] fat12_entry_def n by simp
    then show ?thesis using True e assms(2) by (simp add: stored_def)
  next
    case False
    then have d: "3 * p + i \<noteq> 3 * off + j" if "i < 3" "j < 3" for i j using that by linarith
    have "fat12_entry ?T' p = fat12_entry ?T p"
      unfolding fat12_entry_def n using d [of 0 0] d [of 0 1] d [of 0 2] d [of 1 0] d [of 1 1] d [of 1 2] d [of 2 0] d [of 2 1] d [of 2 2]
      by simp
    then show ?thesis using False e assms(2) by (simp add: entry_def Let_def)
  qed
qed

lemma set_table_value_16:
  assumes "table_ok bytes bs f" "type_16 f" "off < fs_clusters f + 2" "set_table_value env f off v = (r, f')"
  shows "r = 0" "table_step f f'" "table_ok bytes bs f'"
    "p < fs_clusters f + 2 \<Longrightarrow> entry bytes f' p = (if p = off then stored f v else entry bytes f p)"
proof -
  note ok = table_okD [OF assms(1)] and g = geometryD [OF table_okD(1) [OF assms(1)]]
  have t: "\<not> type_32 f" "\<not> type_12 f" using g(7) assms(2) by auto
  let ?a = "2 * off" and ?p = "fs_bytes_per_sector f"
  have a1: "?a + 1 < fs_table_size f" using assms(3) g(10) [OF assms(2)] by simp
  have len: "length (table_buffer f) = fs_table_size f" using ok(5) t(1) by simp
  define ts where "ts = (table_sectors f)[?a div ?p := 1]"
  define tb where "tb = W_LE16 (table_buffer f) ?a v"
  have f': "f' = f\<lparr>table_sectors := ts, table_buffer := tb\<rparr>" and r: "r = 0"
    using assms(2-4) t(2) by (auto simp: set_table_value_def Let_def ts_def tb_def push_bit_eq_mult mult.commute)
  show "r = 0" "table_step f f'" using r unfolding f' by (simp_all add: table_stepI)
  have s1: "?a div ?p * ?p < fs_table_size f" using a1 div_times_less_eq_dividend [of ?a ?p] by linarith
  have ins: "\<forall>s < table_entries f. ts ! s \<noteq> 0 \<longrightarrow> table_sectors f ! s \<noteq> 0 \<or> s * ?p < fs_table_size f"
  proof (intro allI impI)
    fix s assume "ts ! s \<noteq> 0"
    then show "table_sectors f ! s \<noteq> 0 \<or> s * ?p < fs_table_size f" using s1 by (cases "s = ?a div ?p") (auto simp: ts_def)
  qed
  have lts: "length ts = table_entries f" "length tb = length (table_buffer f)" using shapeD(3) [OF ok(2)] by (simp_all add: ts_def tb_def)
  note U = table_ok_full_update [OF assms(1) t(1) lts(2,1) ins]
  show "table_ok bytes bs f'" unfolding f' by (rule U(1))
  have T': "unat (tbyte bytes f' i) = (if i = ?a then v mod 256 else if i = ?a + 1 then v div 256 mod 256 else unat (tbyte bytes f i))" for i
  proof (cases "i < fs_table_size f")
    case True
    have "tbyte bytes f' i = tb ! i" unfolding f' by (rule U(2) [OF True])
    then show ?thesis using unat_W_LE16 [of ?a "table_buffer f" i v] a1 True len U(3) [OF True] by (simp add: tb_def)
  next
    case False
    have "tbyte bytes f' i = tbyte bytes f i" unfolding f' by (rule U(4) [OF False])
    then show ?thesis using a1 False by auto
  qed
  have e: "entry bytes f' q = ext16 (unat (tbyte bytes f' (2 * q)) + 256 * unat (tbyte bytes f' (2 * q + 1)))" for q
    using assms(2) t(2) by (simp add: f' entry_def)
  show "entry bytes f' p = (if p = off then stored f v else entry bytes f p)"
  proof (cases "p = off")
    case True
    have "v mod (256 * 256) = v mod 256 + 256 * (v div 256 mod 256)" unfolding mod_mult2_eq by simp
    then show ?thesis using True e [of off] T' [of ?a] T' [of "?a + 1"] assms(2) t(2) by (simp add: stored_def)
  next
    case False
    then have d: "2 * p \<noteq> ?a" "2 * p \<noteq> ?a + 1" "2 * p + 1 \<noteq> ?a" "2 * p + 1 \<noteq> ?a + 1" by presburger+
    show ?thesis using False e [of p] T' [of "2 * p"] T' [of "2 * p + 1"] d assms(2) t(2) by (simp add: entry_def)
  qed
qed

text \<open>The bytes of a 32-bit entry.\<close>

lemma word32_digits:
  fixes w :: nat
  assumes "w < 2 ^ 32"
  shows "w mod 256 + 256 * (w div 256 mod 256) + 65536 * (w div 65536 mod 256) + 16777216 * (w div 16777216 mod 256) = w"
proof -
  have d: "w div 256 div 256 = w div 65536" "w div 65536 div 256 = w div 16777216" by (simp_all add: div_mult2_eq [symmetric])
  have "w div 16777216 < 256" using assms by (simp add: less_mult_imp_div_less)
  then have 3: "w div 16777216 mod 256 = w div 16777216" by simp
  have 2: "w div 65536 mod 256 + 256 * (w div 16777216) = w div 65536" unfolding d(2) [symmetric] by (rule mod_mult_div_eq)
  have 1: "w div 256 mod 256 + 256 * (w div 65536) = w div 256" unfolding d(1) [symmetric] by (rule mod_mult_div_eq)
  have 0: "w mod 256 + 256 * (w div 256) = w" by (rule mod_mult_div_eq)
  have e: "w mod 256 + 256 * a + 65536 * b + 16777216 * c = w mod 256 + 256 * (a + 256 * (b + 256 * c))" for a b c :: nat by simp
  show ?thesis unfolding 3 e 2 1 0 ..
qed

lemma fat32_word_eq:
  fixes old val :: nat
  assumes "old < 2 ^ 32"
  shows "(val AND 0x0FFFFFFF) OR (old AND 0xF0000000) = val mod 0x10000000 + 0x10000000 * (old div 0x10000000)"
proof -
  have m: "val AND 0x0FFFFFFF = val mod 0x10000000" by (rule and_mask_nat_eq [of _ 28]) simp_all
  have "old div 0x10000000 AND 0xF = old div 0x10000000 mod 16" by (rule and_mask_nat_eq [of _ 4]) simp_all
  moreover have "old div 0x10000000 < 16" using assms by (simp add: less_mult_imp_div_less)
  ultimately have "old AND push_bit 28 0xF = push_bit 28 (old div 0x10000000)"
    unfolding and_shifted_mask by (simp add: drop_bit_eq_div)
  then have b: "old AND 0xF0000000 = push_bit 28 (old div 0x10000000)" by (simp add: push_bit_eq_mult)
  show ?thesis unfolding m b using or_push_bit [of "val mod 0x10000000" 28 "old div 0x10000000"] by simp
qed

lemma count_free_step: "table_step f (count_free off old val f)" "table_ok bytes bs (count_free off old val f) = table_ok bytes bs f"
  "tbyte bytes (count_free off old val f) = tbyte bytes f" "table_buffer (count_free off old val f) = table_buffer f"
  "table_sectors (count_free off old val f) = table_sectors f"
proof -
  have "table_step f (f\<lparr>fs_info_free := a, fs_info_next := b\<rparr>)" for a b
    using table_stepI(6,7) by (rule table_step_trans)
  then show "table_step f (count_free off old val f)" by (simp add: count_free_def Let_def table_stepI)
  show "table_ok bytes bs (count_free off old val f) = table_ok bytes bs f"
    "tbyte bytes (count_free off old val f) = tbyte bytes f" "table_buffer (count_free off old val f) = table_buffer f"
    "table_sectors (count_free off old val f) = table_sectors f"
    by (simp_all add: count_free_def Let_def table_ok_info)
qed

text \<open>Storing four bytes in the window of a FAT32 table.\<close>

lemma window_store_32:
  assumes "table_ok bytes bs f" "type_32 f" "table_offset f = 4 * off - add" "add \<le> 4 * off" "add mod 4 = 0" "add < 0x20000"
    "4 * off + 3 < fs_table_size f" "w < 2 ^ 32"
  defines "g \<equiv> f\<lparr>table_sectors := (table_sectors f)[add div fs_bytes_per_sector f := 1], table_buffer := W_LE32 (table_buffer f) add w\<rparr>"
  shows "table_ok bytes bs g" "word32 (\<lambda>i. unat (tbyte bytes g i)) (4 * off) = w"
    "\<not> (4 * off \<le> i \<and> i < 4 * off + 4) \<Longrightarrow> tbyte bytes g i = tbyte bytes f i"
    "LE32 (table_buffer f) add = word32 (\<lambda>i. unat (tbyte bytes f i)) (4 * off)"
proof -
  note ok = table_okD [OF assms(1)]
  let ?p = "fs_bytes_per_sector f"
  have len: "length (table_buffer f) = 0x20000" using ok(4) assms(2) by simp
  have q: "add + 3 < 0x20000" using assms(5,6) by presburger
  have win: "table_offset f \<le> 4 * off + j" "4 * off + j < table_offset f + 0x20000" "4 * off + j - table_offset f = add + j" if "j \<le> 3" for j
    using assms(3,4) q that by linarith+
  have tf: "tbyte bytes f (4 * off + j) = table_buffer f ! (add + j)" if "j \<le> 3" for j
    using win [OF that] len unfolding tbyte_def by (metis)
  show "LE32 (table_buffer f) add = word32 (\<lambda>i. unat (tbyte bytes f i)) (4 * off)"
    unfolding LE32_sum word32_def using tf [of 0] tf [of 1] tf [of 2] tf [of 3] by simp
  have lg: "length (table_buffer g) = 0x20000" "table_offset g = table_offset f" using len by (simp_all add: g_def)
  have tg: "tbyte bytes g (4 * off + j) = W_LE32 (table_buffer f) add w ! (add + j)" if "j \<le> 3" for j
  proof -
    have "tbyte bytes g (4 * off + j) = table_buffer g ! (add + j)"
      using win [OF that] lg unfolding tbyte_def by metis
    then show ?thesis by (simp add: g_def)
  qed
  have "word32 (\<lambda>i. unat (tbyte bytes g i)) (4 * off) =
      w mod 256 + 256 * (w div 256 mod 256) + 65536 * (w div 65536 mod 256) + 16777216 * (w div 16777216 mod 256)"
    unfolding word32_def using tg [of 0] tg [of 1] tg [of 2] tg [of 3] unat_W_LE32 [of add "table_buffer f" _ w] q len by simp
  then show "word32 (\<lambda>i. unat (tbyte bytes g i)) (4 * off) = w" unfolding word32_digits [OF assms(8)] .
  have buf: "table_buffer g ! k = table_buffer f ! k" if "\<not> (add \<le> k \<and> k < add + 4)" for k
    using that by (auto simp: g_def W_LE32_def)
  show "tbyte bytes g i = tbyte bytes f i" if i: "\<not> (4 * off \<le> i \<and> i < 4 * off + 4)"
  proof (cases "table_offset f \<le> i \<and> i < table_offset f + 0x20000")
    case True
    then have "\<not> (add \<le> i - table_offset f \<and> i - table_offset f < add + 4)" using i assms(3,4) by linarith
    then show ?thesis using True lg len buf by (simp add: tbyte_def)
  next
    case False
    then show ?thesis using lg len by (auto simp: tbyte_def g_def)
  qed
  obtain k where k: "?p = 2 ^ k" "512 \<le> ?p" using ok(1) unfolding fat_geometry_def by blast
  have "(2::nat) ^ 9 \<le> 2 ^ k" using k by simp
  then have "9 \<le> k" by (simp only: power_increasing_iff [of "2::nat"] one_less_numeral_iff semiring_norm)
  then have "(2::nat) ^ 2 dvd 2 ^ k" by (intro le_imp_power_dvd) simp
  then obtain c where c: "?p = 4 * c" using k(1) by (auto elim: dvdE)
  have same: "(add + j) div ?p = add div ?p" if "j \<le> 3" for j
  proof -
    obtain e where e: "add = 4 * e" using assms(5) by (auto elim: dvdE)
    have "(4 * e + j) div 4 = e" using that by simp
    then have "(4 * e + j) div (4 * c) = 4 * e div (4 * c)" by (simp add: div_mult2_eq)
    then show ?thesis unfolding c e .
  qed
  have ts: "(table_sectors f)[add div ?p := 1] ! s \<noteq> 0 \<longleftrightarrow> table_sectors f ! s \<noteq> 0 \<or> s = add div ?p" if "s < table_entries f" for s
    using that shapeD(3) [OF ok(2)] by (cases "s = add div ?p") auto
  have idx: "k div ?p < table_entries f" if "k < 0x20000" for k
    using that shapeD(4) [OF ok(2)] len by (simp add: less_mult_imp_div_less)
  have "coherent bytes g"
    unfolding g_def
  proof (rule coherent_update [OF _ ok(2)])
    show "coherent bytes f" using ok(4) assms(2) by simp
    fix k assume kl: "k < length (W_LE32 (table_buffer f) add w)" and ne: "W_LE32 (table_buffer f) add w ! k \<noteq> table_buffer f ! k"
    then have "add \<le> k \<and> k < add + 4" using buf [of k] by (auto simp: g_def)
    then have "k - add \<le> 3" "add + (k - add) = k" by linarith+
    then have kd: "k div ?p = add div ?p" using same [of "k - add"] by simp
    have "k < 0x20000" using kl len by simp
    from ts [OF idx [OF this]] kd show "(table_sectors f)[add div ?p := 1] ! (k div ?p) \<noteq> 0" by blast
  qed (use ts in simp_all)
  moreover have "dirty_inside g"
    unfolding dirty_inside_def
  proof (intro allI impI)
    fix s assume s: "s < table_entries g" "table_sectors g ! s \<noteq> 0"
    then have "table_sectors f ! s \<noteq> 0 \<or> s = add div ?p" using ts by (simp add: g_def)
    moreover have "table_offset f + add div ?p * ?p < fs_table_size f"
      using div_times_less_eq_dividend [of add ?p] assms(3,4,7) by linarith
    ultimately show "table_offset g + s * fs_bytes_per_sector g < fs_table_size g"
      using ok(3) s(1) unfolding dirty_inside_def g_def by auto
  qed
  moreover have "window_shape bs g" using shapeD [OF ok(2)] unfolding window_shape_def g_def by simp
  moreover have "fat_geometry g" using ok(1) unfolding g_def by (simp only: table_step_simps(9) [OF table_stepI(3)])
  ultimately show "table_ok bytes bs g" using ok(4) assms(2) by (simp add: table_ok_def g_def)
qed

lemma set_table_value_32:
  assumes "block_device env bytes bs" "table_ok bytes bs f" "type_32 f" "off < fs_clusters f + 2" "set_table_value env f off v = (r, f')"
  obtains (failed) "r \<noteq> 0" "ready f' = 0"
    | (stored) "r = 0" "table_step f f'" "table_ok bytes bs f'"
      "\<forall>p < fs_clusters f + 2. entry bytes f' p = (if p = off then stored f v else entry bytes f p)"
proof -
  note g = geometryD [OF table_okD(1) [OF assms(2)]]
  have t: "\<not> type_12 f" "\<not> type_16 f" using g(8) assms(3) by auto
  have lt: "\<not> off \<ge> fs_clusters f + 2" using assms(4) by simp
  have lt4: "4 * off + 3 < fs_table_size f" using assms(4) g(11) [OF assms(3)] by simp
  have pb: "push_bit 2 off = 4 * off" by (simp add: push_bit_eq_mult)
  obtain r1 add f1 where rt: "read_table_buffer env f (4 * off) = (r1, add, f1)" by (cases "read_table_buffer env f (4 * off)")
  have "4 * off < fs_table_size f" using lt4 by simp
  from assms(1-3) this rt show thesis
  proof (cases rule: read_table_buffer_main)
    case failed
    then show thesis using that(1) assms(5) lt t assms(3) rt pb by (auto simp: set_table_value_def Let_def)
  next
    case (loaded tb ts d)
    have s1: "table_step f f1" unfolding loaded(3) by (rule table_stepI)
    note e1 = table_step_simps [OF s1]
    define old where "old = LE32 (table_buffer f1) add"
    define w where "w = (v AND 0x0FFFFFFF) OR (old AND 0xF0000000)"
    have w: "w = v mod 0x10000000 + 0x10000000 * (old div 0x10000000)"
      unfolding w_def by (rule fat32_word_eq) (use le_bounds(2) in \<open>simp add: old_def\<close>)
    have "old div 0x10000000 < 16" using le_bounds(2) [of "table_buffer f1" add] by (simp add: old_def less_mult_imp_div_less)
    then have w32: "w < 2 ^ 32" "w mod 0x10000000 = v mod 0x10000000" unfolding w by simp_all
    define h where "h = f1\<lparr>table_sectors := (table_sectors f1)[add div fs_bytes_per_sector f1 := 1]\<rparr>"
    define c where "c = count_free off old v h"
    define q where "q = f1\<lparr>table_sectors := (table_sectors f1)[add div fs_bytes_per_sector f1 := 1], table_buffer := W_LE32 (table_buffer f1) add w\<rparr>"
    have f': "r = 0" "f' = c\<lparr>table_buffer := W_LE32 (table_buffer c) add w\<rparr>"
      using assms(5) lt t assms(3) rt pb loaded(1) e1(3)
      by (simp_all add: set_table_value_def Let_def w_def old_def c_def h_def)
    have ad: "add \<le> 4 * off" "add mod 4 = 0" "add < 0x20000" "table_offset f1 = 4 * off - add"
      using loaded(2,3) by (simp_all add: mod_mod_cancel)
    have lt4': "4 * off + 3 < fs_table_size f1" "type_32 f1" using lt4 e1(2,6) assms(3) by simp_all
    note S = window_store_32 [OF loaded(4) lt4'(2) ad(4,1,2,3) lt4'(1) w32(1), folded q_def]
    have st: "table_step f f'"
      unfolding f'(2) by (rule table_step_trans [OF s1], rule table_step_trans [of _ h], unfold h_def, rule table_stepI,
        rule table_step_trans [of _ c], unfold c_def h_def, rule count_free_step, rule table_stepI)
    have comm: "f' = count_free off old v q"
      unfolding f'(2) c_def h_def q_def count_free_def Let_def by simp
    have ok': "table_ok bytes bs f'" "tbyte bytes f' = tbyte bytes q"
      unfolding comm count_free_step(2,3) using S(1) by simp_all
    note e' = table_step_simps [OF st]
    have en: "entry bytes f' p = word32 (\<lambda>i. unat (tbyte bytes q i)) (4 * p) mod 0x10000000" for p
      using t e'(4,5) by (simp add: entry_def ok'(2))
    have "entry bytes f' p = (if p = off then stored f v else entry bytes f p)" if p: "p < fs_clusters f + 2" for p
    proof (cases "p = off")
      case True
      then show ?thesis using en [of off] S(2) w32(2) t by (simp add: stored_def)
    next
      case False
      have "tbyte bytes q (4 * p + j) = tbyte bytes f (4 * p + j)" if "j \<le> 3" for j
      proof -
        have "4 * p + j < fs_table_size f" using p g(11) [OF assms(3)] that by simp
        moreover have "\<not> (4 * off \<le> 4 * p + j \<and> 4 * p + j < 4 * off + 4)" using False that by presburger
        ultimately show ?thesis using S(3) loaded(5) by simp
      qed
      from this [of 0] this [of 1] this [of 2] this [of 3] show ?thesis using False en [of p] t by (simp add: entry_def word32_def)
    qed
    then show thesis using that(2) f'(1) st ok'(1) by blast
  qed
qed

lemma set_table_value_main:
  assumes "block_device env bytes bs" "table_ok bytes bs f" "off < fs_clusters f + 2" "set_table_value env f off v = (r, f')"
  obtains (failed) "r \<noteq> 0" "ready f' = 0"
    | (stored) "r = 0" "table_step f f'" "table_ok bytes bs f'"
      "\<forall>p < fs_clusters f + 2. entry bytes f' p = (if p = off then stored f v else entry bytes f p)"
proof -
  consider "type_12 f" | "type_16 f" | "type_32 f" using geometryD(5) [OF table_okD(1) [OF assms(2)]] by blast
  then show thesis
  proof cases
    case 1
    show thesis using set_table_value_12 [OF assms(2) 1 assms(3,4)] by (intro that(2)) blast+
  next
    case 2
    show thesis using set_table_value_16 [OF assms(2) 2 assms(3,4)] by (intro that(2)) blast+
  next
    case 3
    from assms(1,2) 3 assms(3,4) show thesis
      by (cases rule: set_table_value_32) (use that in blast)+
  qed
qed

text \<open>The instance stays out of service once an operation has failed.\<close>

lemma ready_write_dirty: "ready f = 0 \<Longrightarrow> ready (snd (write_dirty env strict add i f)) = 0"
proof (induction env strict add i f rule: write_dirty.induct)
  case (1 env strict add i f)
  show ?case using 1 by (subst write_dirty.simps) (auto simp: Let_def split: prod.splits)
qed

lemma ready_write_table: "ready f = 0 \<Longrightarrow> ready (snd (write_table env f)) = 0"
proof -
  assume r: "ready f = 0"
  obtain r1 f1 where 1: "write_dirty env True 0 0 f = (r1, f1)" by (cases "write_dirty env True 0 0 f")
  obtain r2 f2 where 2: "write_dirty env False (fs_table_sectors f1) 0 f1 = (r2, f2)"
    by (cases "write_dirty env False (fs_table_sectors f1) 0 f1")
  have "ready f1 = 0" "ready f2 = 0"
    using ready_write_dirty [OF r, of env True 0 0] 1 ready_write_dirty [of f1 env False "fs_table_sectors f1" 0] 2 by auto
  then show ?thesis by (simp add: write_table_def 1 2 clear_sectors_def)
qed

lemma ready_load_window: "ready f = 0 \<Longrightarrow> ready (snd (load_window env off2 f)) = 0"
  by (auto simp: load_window_def Let_def split: prod.splits)

lemma ready_read_table_buffer: "ready f = 0 \<Longrightarrow> ready (snd (snd (read_table_buffer env f toff))) = 0"
proof -
  assume r: "ready f = 0"
  let ?off1 = "toff AND 0x0001FFFF" and ?off2 = "toff AND 0xFFFE0000" and ?n = "0x20000 div fs_bytes_per_sector f"
  define g where "g = f\<lparr>table_buffer := replicate 0x20000 0, table_sectors := replicate ?n 0,
    table_buffer_size := 0x20000, table_entries := ?n, table_offset := 0\<rparr>"
  obtain r1 f1 where w: "write_table env f = (r1, f1)" by (cases "write_table env f")
  obtain r2 f2 where l: "load_window env ?off2 f1 = (r2, f2)" by (cases "load_window env ?off2 f1")
  obtain r3 f3 where k: "load_window env ?off2 g = (r3, f3)" by (cases "load_window env ?off2 g")
  have "ready f1 = 0" using ready_write_table [OF r, of env] w by simp
  moreover from this have "ready f2 = 0" using ready_load_window [of f1 env ?off2] l by simp
  moreover have "ready f3 = 0" using ready_load_window [of g env ?off2] k r by (simp add: g_def)
  ultimately show ?thesis using r by (simp add: read_table_buffer_def Let_def g_def [symmetric] w l k)
qed

lemma ready_get_table_value: "ready f = 0 \<Longrightarrow> ready (snd (get_table_value env f off)) = 0"
  using ready_read_table_buffer [of f env "push_bit 2 off"] by (auto simp: get_table_value_def Let_def split: prod.splits)

lemma ready_set_table_value: "ready f = 0 \<Longrightarrow> ready (snd (set_table_value env f off v)) = 0"
  using ready_read_table_buffer [of f env "push_bit 2 off"]
  by (auto simp: set_table_value_def Let_def count_free_def split: prod.splits)

subsection \<open>Persistence\<close>

lemma write_table_persist:
  assumes "block_device env bytes bs" "table_ok bytes bs f" "coherent bytes f" "write_table env f = (r, f')"
  obtains (failed) "r \<noteq> 0" "ready f' = 0"
    | (written) "r = 0" "table_step f f'" "table_ok bytes bs f'" "coherent bytes f'"
      "\<forall>i < fs_table_size f. tbyte bytes f' i = tbyte bytes f i \<and> bytes (dev f') (table_base f + i) = tbyte bytes f i"
proof -
  note ok = table_okD [OF assms(2)]
  from assms(1) ok(2) geometryD(1) [OF ok(1)] assms(4) show thesis
  proof (cases rule: write_table_main)
    case (failed d)
    then show thesis using that(1) by (simp add: FAT_BLOCK_WRITE_ERROR_def)
  next
    case (written d)
    have fl: "bytes d (table_base f + i) = tbyte bytes f i" if "i < fs_table_size f" for i
      using written(3) flushed_tbyte [OF assms(3) that] that by simp
    have v: "tbyte bytes f' i = tbyte bytes f i" if "i < fs_table_size f" for i
      using fl [OF that] by (simp add: written(2) tbyte_def)
    have st: "table_step f f'" unfolding written(2) by (rule table_stepI)
    have c: "coherent bytes f'" unfolding coherent_def using fl v by (simp add: written(2))
    have "window_shape bs f'" using shapeD [OF ok(2)] by (simp add: written(2) window_shape_def)
    moreover have "dirty_inside f'" by (simp add: written(2) dirty_inside_def)
    moreover have "fat_geometry f'" using ok(1) table_step_simps(9) [OF st] by simp
    ultimately have "table_ok bytes bs f'" using ok(4,5) c unfolding table_ok_def by (simp add: written(2))
    then show thesis using that(2) written(1) st c v fl by (simp add: written(2))
  qed
qed

text \<open>
  An entry of a FAT12 table may straddle two sectors. The source marks the second of them only at
  the first sector boundary; elsewhere the window stops being coherent.
\<close>

definition straddles :: "'d fat_instance \<Rightarrow> nat \<Rightarrow> bool" where
  "straddles f off \<longleftrightarrow> type_12 f \<and> (off + off div 2) mod fs_bytes_per_sector f = fs_bytes_per_sector f - 1 \<and>
    off + off div 2 \<noteq> fs_bytes_per_sector f - 1"

lemma mark_sector: "xs ! s \<noteq> 0 \<or> s = i \<Longrightarrow> s < length xs \<Longrightarrow> xs[i := 1] ! s \<noteq> (0 :: nat)"
  by (cases "s = i") auto

lemma set_coherent_full:
  assumes "table_ok bytes bs f" "\<not> type_32 f" "coherent bytes f" "a + 1 < fs_table_size f"
    "\<forall>s < table_entries f. table_sectors f ! s \<noteq> 0 \<or> s = a div fs_bytes_per_sector f \<or> s = (a + 1) div fs_bytes_per_sector f \<longrightarrow> ts ! s \<noteq> 0"
  shows "coherent bytes (f\<lparr>table_sectors := ts, table_buffer := W_LE16 (table_buffer f) a w\<rparr>)"
proof (rule coherent_update [OF assms(3) table_okD(2) [OF assms(1)]])
  note ok = table_okD [OF assms(1)]
  fix k assume k: "k < length (W_LE16 (table_buffer f) a w)" "W_LE16 (table_buffer f) a w ! k \<noteq> table_buffer f ! k"
  have "k = a \<or> k = a + 1"
  proof (rule ccontr)
    assume "\<not> (k = a \<or> k = a + 1)"
    then show False using k(2) by (simp add: W_LE16_def)
  qed
  moreover have "k div fs_bytes_per_sector f < table_entries f"
    using k(1) shapeD(4) [OF ok(2)] by (simp add: less_mult_imp_div_less)
  ultimately show "ts ! (k div fs_bytes_per_sector f) \<noteq> 0" using assms(5) by blast
qed (use assms(5) in auto)

lemma set_table_value_coherent:
  assumes "block_device env bytes bs" "table_ok bytes bs f" "coherent bytes f" "off < fs_clusters f + 2"
    "set_table_value env f off v = (0, f')" "ready f' \<noteq> 0" "\<not> straddles f off"
  shows "coherent bytes f'"
proof -
  note ok = table_okD [OF assms(2)] and g = geometryD [OF table_okD(1) [OF assms(2)]]
  let ?p = "fs_bytes_per_sector f"
  have lt: "\<not> off \<ge> fs_clusters f + 2" using assms(4) by simp
  have mark: "\<forall>s < table_entries f. table_sectors f ! s \<noteq> 0 \<or> s = a div ?p \<or> s = (a + 1) div ?p \<longrightarrow>
      (if a = ?p - 1 then (table_sectors f)[a div ?p + 1 := 1] else table_sectors f)[a div ?p := 1] ! s \<noteq> 0"
    if a: "a mod ?p \<noteq> ?p - 1 \<or> a = ?p - 1" for a
  proof (intro allI impI)
    fix s assume s: "s < table_entries f" "table_sectors f ! s \<noteq> 0 \<or> s = a div ?p \<or> s = (a + 1) div ?p"
    have l: "length (table_sectors f) = table_entries f" by (rule shapeD(3) [OF ok(2)])
    have "(a + 1) div ?p = a div ?p" if "a \<noteq> ?p - 1"
    proof -
      have "Suc (a mod ?p) \<noteq> ?p" using a that g(4) by auto
      then show ?thesis by (simp add: div_Suc mod_Suc) 
    qed
    moreover have "(a + 1) div ?p = a div ?p + 1" if "a = ?p - 1" using that g(3) by simp
    ultimately consider "a = ?p - 1" "table_sectors f ! s \<noteq> 0 \<or> s = a div ?p \<or> s = a div ?p + 1"
      | "a \<noteq> ?p - 1" "table_sectors f ! s \<noteq> 0 \<or> s = a div ?p" using s(2) by blast
    then show "(if a = ?p - 1 then (table_sectors f)[a div ?p + 1 := 1] else table_sectors f)[a div ?p := 1] ! s \<noteq> 0"
    proof cases
      case 1
      then have "(table_sectors f)[a div ?p + 1 := 1] ! s \<noteq> 0 \<or> s = a div ?p" using mark_sector [of "table_sectors f" s "a div ?p + 1"] s(1) unfolding l by blast
      then show ?thesis using mark_sector [of "(table_sectors f)[a div ?p + 1 := 1]" s "a div ?p"] s(1) l 1(1) by simp
    next
      case 2
      then show ?thesis using mark_sector [of "table_sectors f" s "a div ?p"] s(1) l by simp
    qed
  qed
  consider "type_12 f" | "type_16 f" | "type_32 f" using g(5) by blast
  then show ?thesis
  proof cases
    case 1
    let ?a = "off + off div 2"
    have "?a + 1 < ((fs_clusters f + 2) * 3 + 1) div 2" unfolding fat12_last by (rule fat12_bound [OF order_refl assms(4)])
    then have a1: "?a + 1 < fs_table_size f" using g(9) [OF 1] by (rule less_le_trans)
    have "?a mod ?p \<noteq> ?p - 1 \<or> ?a = ?p - 1" using assms(7) 1 unfolding straddles_def by blast
    note m = mark [OF this]
    have "\<not> type_32 f" using g(6) 1 by blast
    from set_coherent_full [OF assms(2) this assms(3) a1 m] assms(5) 1 lt show ?thesis
      by (auto simp: set_table_value_def Let_def drop_bit_eq_div)
  next
    case 2
    let ?a = "2 * off"
    have a1: "?a + 1 < fs_table_size f" using assms(4) g(10) [OF 2] by simp
    obtain k where k: "?p = 2 ^ k" "512 \<le> ?p" using ok(1) unfolding fat_geometry_def by blast
    have "k \<noteq> 0" using k by (cases k) simp_all
    then have "even ?p" unfolding k(1) by simp
    then have par: "even (?a mod ?p)" by (simp add: dvd_mod_iff)
    then have ne: "?a mod ?p \<noteq> ?p - 1" using \<open>even ?p\<close> g(4) by auto
    then have "(?a + 1) div ?p = ?a div ?p" using g(4) by (simp add: div_Suc mod_Suc)
    then have m: "\<forall>s < table_entries f. table_sectors f ! s \<noteq> 0 \<or> s = ?a div ?p \<or> s = (?a + 1) div ?p \<longrightarrow>
        (table_sectors f)[?a div ?p := 1] ! s \<noteq> 0"
      using shapeD(3) [OF ok(2)] mark_sector by metis
    have t: "\<not> type_32 f" "\<not> type_12 f" using g(7) 2 by blast+
    from set_coherent_full [OF assms(2) t(1) assms(3) a1 m] assms(5) 2 t(2) lt show ?thesis
      by (auto simp: set_table_value_def Let_def push_bit_eq_mult mult.commute)
  next
    case 3
    from assms(1,2,4,5) show ?thesis
    proof (cases rule: set_table_value_main)
      case stored
      then show ?thesis using table_okD(4) [OF stored(3)] table_step_simps(6) [OF stored(2)] 3 by simp
    qed (use assms(6) in simp)
  qed
qed

subsection \<open>Properties\<close>

text \<open>A device in memory with sectors of 512 bytes, and a FAT12 instance on it.\<close>

definition ram_env :: "(nat \<Rightarrow> u8) fat_env" where
  "ram_env = \<lparr>fat_get_size = (\<lambda>_ _. (0, 512, 2880)),
    fat_get_time = (\<lambda>_. (1, [])),
    fat_io_read = (\<lambda>_ lba n d. (0, map (\<lambda>i. d (lba * 512 + i)) [0..<n], d)),
    fat_io_write = (\<lambda>_ lba data d. (0, \<lambda>x. if lba * 512 \<le> x \<and> x < lba * 512 + length data then data ! (x - lba * 512) else d x)),
    malloc_ok = (\<lambda>_. True)\<rparr>"

definition fat12_sample :: "(nat \<Rightarrow> u8) fat_instance" where
  "fat12_sample = \<lparr>ready = FAT_READY, fat_id = 0, fd_entries = 8, fd_special = 8, fd = [], cluster_size = 512, cluster_sector = 0,
    block_buffer = replicate 4096 0, cluster_buffer = replicate 512 0, table_buffer = replicate 1536 0, table_sectors = replicate 3 0,
    table_buffer_size = 0, table_entries = 3, table_offset = 0, fs_bytes_per_sector = 512, fs_cluster_sectors = 1,
    fs_reserved_sectors = 1, fs_tables = 1, fs_directory_entries = 16, fs_directory_sectors = 1, fs_total_sectors = 1005,
    fs_table_sectors = 3, fs_table_size = 1536, fs_data_sectors = 1000, fs_clusters = 1000, fs_root_cluster = 0,
    fs_last_table_sector = 3, fs_info_modified = 0, fs_info_sector = 0, fs_info_free = 0xFFFFFFFF, fs_info_next = 0xFFFFFFFF,
    type_12 = True, type_16 = False, type_32 = False, path_entries = 0, path_buffer = [], block_buffer_lba = 0, cluster_buffer_lba = 0, io_mul = 1,
    maximum_file_size = 0xFFFFFFFF, last_allocated = 0, dev = (\<lambda>_. 0)\<rparr>"

lemma ram_device: "block_device ram_env (\<lambda>d. d) 512"
  unfolding block_device_def ram_env_def by auto

lemma fat12_sample_ok: "table_ok (\<lambda>d. d) 512 fat12_sample" "coherent (\<lambda>d. d) fat12_sample"
proof -
  have "\<exists>k. (512::nat) = 2 ^ k" by (rule exI [of _ 9]) simp
  then show "table_ok (\<lambda>d. d) 512 fat12_sample" unfolding fat12_sample_def
    by (simp add: table_ok_def fat_geometry_def window_shape_def dirty_inside_def)
  show "coherent (\<lambda>d. d) fat12_sample" unfolding coherent_def fat12_sample_def by (simp add: tbyte_def)
qed

lemma fat12_sample_entry: "p < 1002 \<Longrightarrow> entry (\<lambda>d. d) fat12_sample p = 0"
proof -
  have "tbyte (\<lambda>d. d) fat12_sample i = 0" for i unfolding fat12_sample_def by (simp add: tbyte_def)
  then show ?thesis by (simp add: entry_def fat12_entry_def nib_def ext12_def fat12_sample_def)
qed

text \<open>
  C2. The table is a map from cluster numbers to values. Storing a value and reading any entry
  afterwards gives the value as the format holds it, with end-of-chain marks widened, or the old
  value of another entry, for all three formats: the packing of FAT12 entries does not disturb the
  neighbours, and for FAT32 this holds across the loading and writing back of windows. The only
  alternative is a device error, which takes the instance out of service.
\<close>

theorem fat_set_get:
  assumes "block_device env bytes bs" "table_ok bytes bs f" "off < fs_clusters f + 2" "p < fs_clusters f + 2"
    "set_table_value env f off v = (r, f1)" "get_table_value env f1 p = (u, f2)" "ready f2 \<noteq> 0"
  shows "r = 0 \<and> u = (if p = off then stored f v else entry bytes f p) \<and> table_ok bytes bs f2 \<and>
    (\<forall>q < fs_clusters f + 2. entry bytes f2 q = (if q = off then stored f v else entry bytes f q))"
  using assms(1,2,3,5)
proof (cases rule: set_table_value_main)
  case failed
  then show ?thesis using ready_get_table_value [of f1 env p] assms(6,7) by simp
next
  case stored
  note e = table_step_simps [OF stored(2)]
  have p1: "p < fs_clusters f1 + 2" using assms(4) e(1) by simp
  from assms(1) stored(3) p1 assms(6) show ?thesis
  proof (cases rule: get_table_value_main)
    case failed
    then show ?thesis using assms(7) by simp
  next
    case (found tb ts x d)
    have "entry bytes f2 q = entry bytes f1 q" if "q < fs_clusters f + 2" for q
      by (rule entry_cong [OF table_okD(1) [OF stored(3)] _ found(4)]) (use that e(1) in \<open>simp_all add: found(1)\<close>)
    then show ?thesis using stored(1,4) found(2,3) assms(4) by simp
  qed
qed

theorem fat_set_get_witness:
  "\<exists>f1 f2. set_table_value ram_env fat12_sample 7 0xABC = (0, f1) \<and> get_table_value ram_env f1 7 = (0xABC, f2) \<and>
    entry (\<lambda>d. d) f2 6 = 0 \<and> entry (\<lambda>d. d) f2 8 = 0"
proof -
  obtain r f1 where s: "set_table_value ram_env fat12_sample 7 0xABC = (r, f1)" by (cases "set_table_value ram_env fat12_sample 7 0xABC")
  obtain u f2 where g: "get_table_value ram_env f1 7 = (u, f2)" by (cases "get_table_value ram_env f1 7")
  have c: "fs_clusters fat12_sample = 1000" "type_12 fat12_sample" "ready fat12_sample = FAT_READY" by (simp_all add: fat12_sample_def)
  have f1: "ready f1 = FAT_READY" "type_12 f1" "fs_clusters f1 = 1000"
    using s c by (auto simp: set_table_value_def Let_def split: if_splits)
  then have rd: "ready f2 \<noteq> 0" using g by (auto simp: get_table_value_def Let_def FAT_READY_def)
  have lt: "7 < fs_clusters fat12_sample + 2" using c by simp
  from fat_set_get [OF ram_device fat12_sample_ok(1) lt lt s g rd] s g show ?thesis
    by (auto simp: c stored_def ext12_def fat12_sample_entry)
qed

text \<open>
  C25. Storing an entry and writing the table makes it permanent: when both succeed, the primary table
  on the device holds the new map and the window agrees with the device again. This is stated for
  entries that do not straddle a later sector boundary, see the next property.
\<close>

theorem fat_table_persistent:
  assumes "block_device env bytes bs" "table_ok bytes bs f" "coherent bytes f" "off < fs_clusters f + 2" "\<not> straddles f off"
    "set_table_value env f off v = (0, f1)" "write_table env f1 = (0, f2)" "ready f2 \<noteq> 0"
  shows "table_ok bytes bs f2 \<and> coherent bytes f2 \<and>
    (\<forall>q < fs_clusters f + 2. entry bytes f2 q = (if q = off then stored f v else entry bytes f q)) \<and>
    (\<forall>i < fs_table_size f. bytes (dev f2) (table_base f + i) = tbyte bytes f2 i)"
proof -
  have r1: "ready f1 \<noteq> 0" using ready_write_table [of f1 env] assms(7,8) by auto
  have c: "coherent bytes f1" by (rule set_table_value_coherent [OF assms(1-4,6) r1 assms(5)])
  from assms(1,2,4,6) show ?thesis
  proof (cases rule: set_table_value_main)
    case stored
    note e = table_step_simps [OF stored(2)]
    from assms(1) stored(3) c assms(7) show ?thesis
    proof (cases rule: write_table_persist)
      case written
      note e2 = table_step_simps [OF written(2)]
      have "entry bytes f2 q = entry bytes f1 q" if "q < fs_clusters f + 2" for q
        by (rule entry_cong [OF table_okD(1) [OF stored(3)]]) (use that e(1) e2(4,5) written(5) in simp_all)
      moreover have "bytes (dev f2) (table_base f + i) = tbyte bytes f2 i" if "i < fs_table_size f" for i
        using written(5) that e(2,12) by simp
      ultimately show ?thesis using written(3,4) stored(4) by simp
    qed simp
  qed simp
qed

lemma ram_write_dirty: "fst (write_dirty ram_env strict add i f) = 0"
proof (induction "ram_env" strict add i f rule: write_dirty.induct)
  case (1 strict add i f)
  then show ?case by (subst write_dirty.simps) (auto simp: Let_def ram_env_def)
qed

lemma ram_write_table: "fst (write_table ram_env f) = 0"
  using ram_write_dirty [of True 0 0 f] by (auto simp: write_table_def split: prod.splits)

lemma write_table_ready:
  assumes "block_device env bytes bs" "table_ok bytes bs f" "write_table env f = (0, f')"
  shows "ready f' = ready f"
  using assms(1) table_okD(2) [OF assms(2)] assms(3)
  by (cases rule: write_table_cases) (simp_all add: FAT_BLOCK_WRITE_ERROR_def)

theorem fat_table_persistent_witness:
  "\<exists>f1 f2. set_table_value ram_env fat12_sample 7 0xABC = (0, f1) \<and> write_table ram_env f1 = (0, f2) \<and>
    coherent (\<lambda>d. d) f2 \<and> entry (\<lambda>d. d) f2 7 = 0xABC"
proof -
  have c: "fs_clusters fat12_sample = 1000" "type_12 fat12_sample" "ready fat12_sample = FAT_READY" by (simp_all add: fat12_sample_def)
  obtain r f1 where s0: "set_table_value ram_env fat12_sample 7 0xABC = (r, f1)" by (cases "set_table_value ram_env fat12_sample 7 0xABC")
  then have s: "set_table_value ram_env fat12_sample 7 0xABC = (0, f1)" using c by (simp add: set_table_value_def Let_def)
  obtain f2 where w: "write_table ram_env f1 = (0, f2)" using ram_write_table [of f1] by (cases "write_table ram_env f1") simp
  have lt: "7 < fs_clusters fat12_sample + 2" using c by simp
  note S = set_table_value_12 [OF fat12_sample_ok(1) c(2) lt s]
  have rd: "ready f2 \<noteq> 0"
    using write_table_ready [OF ram_device S(3) w] table_step_simps(7) [OF S(2)] c(3) by (simp add: FAT_READY_def)
  have st: "\<not> straddles fat12_sample 7" by (simp add: straddles_def fat12_sample_def)
  from fat_table_persistent [OF ram_device fat12_sample_ok lt st s w rd] s w show ?thesis
    by (auto simp: c stored_def ext12_def)
qed

text \<open>
  C26. An update of the FAT12 table can be lost. The test that marks the second sector of a straddling
  entry compares the byte offset in the whole table with the end of the first sector, so entry
  \<open>682\<close> of a file system with sectors of 512 bytes, at the bytes \<open>1023\<close> and \<open>1024\<close>, marks only its first
  sector: after storing \<open>0xABC\<close> and a successful write of the table the driver reads \<open>0xABC\<close> but
  the device holds \<open>0x0BC\<close>.
\<close>

theorem fat12_lost_update:
  "\<exists>f1 f2. set_table_value ram_env fat12_sample 682 0xABC = (0, f1) \<and> write_table ram_env f1 = (0, f2) \<and>
    entry (\<lambda>d. d) f2 682 = 0xABC \<and> fat12_entry (\<lambda>i. unat (dev f2 (table_base f2 + i))) 682 = 0x0BC"
proof -
  have c: "fs_clusters fat12_sample = 1000" "type_12 fat12_sample" by (simp_all add: fat12_sample_def)
  have lt: "682 < fs_clusters fat12_sample + 2" using c by simp
  define f1 where "f1 = fat12_sample\<lparr>table_sectors := [0, 1, 0], table_buffer := W_LE16 (replicate 1536 0) 1023 0xABC\<rparr>"
  have le: "LE16 (replicate 1536 0) 1023 = 0" by (simp add: LE16_def)
  have "replicate 3 (0::nat) = [0, 0, 0]" by (simp add: numeral_eq_Suc)
  then have s: "set_table_value ram_env fat12_sample 682 0xABC = (0, f1)"
    using le by (simp add: set_table_value_def Let_def f1_def fat12_sample_def)
  note S = set_table_value_12 [OF fat12_sample_ok(1) c(2) lt s]
  obtain f2 where w: "write_table ram_env f1 = (0, f2)" using ram_write_table [of f1] by (cases "write_table ram_env f1") simp
  have len: "length (table_buffer f1) = 1536" by (simp add: f1_def)
  note ok = table_okD [OF S(3)]
  from ram_device ok(2) geometryD(1) [OF ok(1)] w show ?thesis
  proof (cases rule: write_table_main)
    case (written d)
    have t: "tbyte (\<lambda>d. d) f2 i = tbyte (\<lambda>d. d) f1 i" if "i < 1536" for i
      using that len unfolding written(2) by (simp add: tbyte_def f1_def fat12_sample_def)
    have "entry (\<lambda>d. d) f2 682 = entry (\<lambda>d. d) f1 682"
      by (rule entry_cong [OF ok(1)]) (use t in \<open>simp_all add: written(2)\<close>, simp_all add: f1_def fat12_sample_def)
    moreover have "entry (\<lambda>d. d) f1 682 = 0xABC" using S(4) [OF lt] c by (simp add: stored_def ext12_def)
    moreover have d: "unat (dev f2 (table_base f2 + 1023)) = 0xBC" "unat (dev f2 (table_base f2 + 1024)) = 0"
    proof -
      have dirty: "dirty f1 0 1023" "\<not> dirty f1 0 1024" using len by (simp_all add: dirty_def f1_def fat12_sample_def)
      have b: "unat (table_buffer f1 ! 1023) = 0xBC" by (simp add: f1_def unat_W_LE16)
      have f: "table_offset f1 = 0" "fs_table_size f1 = 1536" "dev f1 = (\<lambda>_. 0)" by (simp_all add: f1_def fat12_sample_def)
      show "unat (dev f2 (table_base f2 + 1023)) = 0xBC"
        using written(3) [rule_format, of 1023] dirty(1) b f by (simp add: written(2))
      show "unat (dev f2 (table_base f2 + 1024)) = 0"
        using written(3) [rule_format, of 1024] dirty(2) f by (simp add: written(2))
    qed
    ultimately have "entry (\<lambda>d. d) f2 682 = 0xABC" "fat12_entry (\<lambda>i. unat (dev f2 (table_base f2 + i))) 682 = 0x0BC"
      by (simp_all add: fat12_entry_def nib_def)
    then show ?thesis using s w by blast
  qed (simp add: FAT_BLOCK_WRITE_ERROR_def)
qed

end
