(* ===== verification/Fat_Cluster.thy ===== *)
theory Fat_Cluster
  imports Fat_Table
begin

text \<open>
  Clusters, \<^verbatim>\<open>src/common/fat.c\<close>: the buffered access to sectors and clusters of the data
  area, the allocation of a free cluster, and chains: appending a cluster, deleting a chain, and
  trimming a chain to the size of its file. A chain in a damaged table could run for ever, so the
  deletion is a partial function.
\<close>

definition read_block :: "'d fat_env \<Rightarrow> 'd fat_instance \<Rightarrow> nat \<Rightarrow> int \<times> 'd fat_instance" where
  "read_block env f lba =
    (let sz = fs_bytes_per_sector f in
     if lba = 0 then (1, f)
     else if block_buffer_lba f = lba then (0, f)
     else if cluster_buffer_lba f = lba then
       (0, f\<lparr>block_buffer := overlay (block_buffer f) 0 (take sz (cluster_buffer f)), block_buffer_lba := lba\<rparr>)
     else
       case fat_io_read env (fat_id f) lba sz (dev f) of
         (r, data, d) \<Rightarrow>
       let f = f\<lparr>block_buffer := overlay (block_buffer f) 0 data, dev := d\<rparr> in
       if r \<noteq> 0 then (1, f\<lparr>block_buffer_lba := 0\<rparr>) else (0, f\<lparr>block_buffer_lba := lba\<rparr>))"

definition write_block :: "'d fat_env \<Rightarrow> 'd fat_instance \<Rightarrow> nat \<Rightarrow> int \<times> 'd fat_instance" where
  "write_block env f lba =
    (let sz = fs_bytes_per_sector f; f = f\<lparr>cluster_buffer_lba := 0\<rparr> in
     case fat_io_write env (fat_id f) lba (take sz (block_buffer f)) (dev f) of
       (r, d) \<Rightarrow> if r \<noteq> 0 then (1, f\<lparr>dev := d\<rparr>) else (0, f\<lparr>dev := d\<rparr>))"

definition read_cluster :: "'d fat_env \<Rightarrow> 'd fat_instance \<Rightarrow> nat \<Rightarrow> bool \<Rightarrow> int \<times> 'd fat_instance" where
  "read_cluster env f cluster skip_io =
    (if sub32 cluster 2 \<ge> fs_clusters f then (FAT_INCONSISTENT_STATE, f)
     else
       let lba = fs_total_sectors f - fs_data_sectors f + (cluster - 2) * fs_cluster_sectors f;
           f = f\<lparr>cluster_sector := lba\<rparr>
       in
       if skip_io then (0, f\<lparr>cluster_buffer_lba := 0\<rparr>)
       else
         let lba = lba * io_mul f; sz = cluster_size f in
         if cluster_buffer_lba f = lba then (0, f)
         else
           case fat_io_read env (fat_id f) lba sz (dev f) of
             (r, data, d) \<Rightarrow>
           let f = f\<lparr>cluster_buffer := overlay (cluster_buffer f) 0 data, dev := d\<rparr> in
           if r \<noteq> 0 then
             (FAT_BLOCK_READ_ERROR, f\<lparr>cluster_buffer := overlay (cluster_buffer f) 0 (replicate sz 0), cluster_buffer_lba := 0\<rparr>)
           else (0, f\<lparr>cluster_buffer_lba := lba\<rparr>))"

definition write_cluster :: "'d fat_env \<Rightarrow> 'd fat_instance \<Rightarrow> int \<times> 'd fat_instance" where
  "write_cluster env f =
    (if cluster_sector f \<le> fs_last_table_sector f then (FAT_INCONSISTENT_STATE, f)
     else
       let lba = cluster_sector f * io_mul f; sz = cluster_size f; f = f\<lparr>block_buffer_lba := 0\<rparr> in
       case fat_io_write env (fat_id f) lba (take sz (cluster_buffer f)) (dev f) of
         (r, d) \<Rightarrow> if r \<noteq> 0 then (FAT_BLOCK_WRITE_ERROR, f\<lparr>dev := d\<rparr>) else (0, f\<lparr>dev := d\<rparr>))"

text \<open>The sequence that clears the cluster buffer.\<close>

definition clear_cluster_buffer :: "'d fat_instance \<Rightarrow> 'd fat_instance" where
  "clear_cluster_buffer f = f\<lparr>cluster_buffer := overlay (cluster_buffer f) 0 (replicate (cluster_size f) 0)\<rparr>"

definition get_record :: "'d fat_instance \<Rightarrow> nat \<Rightarrow> u8 list" where
  "get_record f n = fd_record (fd f ! n)"

definition put_record :: "nat \<Rightarrow> u8 list \<Rightarrow> 'd fat_instance \<Rightarrow> 'd fat_instance" where
  "put_record n rec f = f\<lparr>fd := (fd f)[n := (fd f ! n)\<lparr>fd_record := rec\<rparr>]\<rparr>"

definition write_record_buffer :: "'d fat_env \<Rightarrow> 'd fat_instance \<Rightarrow> nat \<Rightarrow> int \<times> 'd fat_instance" where
  "write_record_buffer env f n =
    (let record_offset = fd_record_offset (fd f ! n); record_sector = fd_record_sector (fd f ! n) in
     if record_offset > fs_bytes_per_sector f then (FAT_INCONSISTENT_STATE, f)
     else if record_sector \<le> fs_last_table_sector f then (FAT_INCONSISTENT_STATE, f)
     else
       let lba = record_sector * io_mul f in
       case read_block env f lba of
         (r, f) \<Rightarrow>
       if r \<noteq> 0 then (FAT_BLOCK_READ_ERROR, f)
       else
         case write_block env (f\<lparr>block_buffer := overlay (block_buffer f) record_offset (take 32 (get_record f n))\<rparr>) lba of
           (r, f) \<Rightarrow> if r \<noteq> 0 then (FAT_BLOCK_WRITE_ERROR, f) else (0, f))"

text \<open>The search for a free cluster from \<open>i\<close> on.\<close>

function alloc_loop :: "'d fat_env \<Rightarrow> nat \<Rightarrow> nat \<Rightarrow> 'd fat_instance \<Rightarrow> nat option \<times> 'd fat_instance" where
  "alloc_loop env clusters i f =
    (if i < clusters then
       case get_table_value env f i of
         (v, f) \<Rightarrow> if v = 0 then (Some i, f\<lparr>last_allocated := i\<rparr>) else alloc_loop env clusters (i + 1) f
     else (None, f))"
  by pat_completeness auto
termination
  by (relation "measure (\<lambda>(env, clusters, i, f). clusters - i)") auto

declare alloc_loop.simps [simp del]

definition allocate_cluster :: "'d fat_env \<Rightarrow> 'd fat_instance \<Rightarrow> int \<times> nat \<times> 'd fat_instance" where
  "allocate_cluster env f =
    (let clusters = fs_clusters f + 2 in
     case (if last_allocated f > 2 then alloc_loop env clusters (last_allocated f) f else (None, f)) of
       (Some i, f) \<Rightarrow> (0, i, f)
     | (None, f) \<Rightarrow>
         case alloc_loop env clusters 2 f of
           (Some i, f) \<Rightarrow> (0, i, f)
         | (None, f) \<Rightarrow> (FAT_NOT_ENOUGH_SPACE, 0, f))"

text \<open>Clearing the new cluster, unless \<open>fast\<close>.\<close>

definition clear_cluster :: "'d fat_env \<Rightarrow> bool \<Rightarrow> nat \<Rightarrow> 'd fat_instance \<Rightarrow> int \<times> 'd fat_instance" where
  "clear_cluster env fast cluster f =
    (if \<not> fast then
       case read_cluster env f cluster True of
         (r, f) \<Rightarrow> if r \<noteq> 0 then (r, f) else write_cluster env (clear_cluster_buffer f)
     else (0, f))"

text \<open>Storing an entry and, unless \<open>fast\<close>, writing the table: a step that \<^verbatim>\<open>append_cluster\<close> takes twice.\<close>

definition link_cluster :: "'d fat_env \<Rightarrow> bool \<Rightarrow> nat \<Rightarrow> nat \<Rightarrow> 'd fat_instance \<Rightarrow> int \<times> 'd fat_instance" where
  "link_cluster env fast off val f =
    (case set_table_value env f off val of
       (r, f) \<Rightarrow> if r \<noteq> 0 then (r, f) else if \<not> fast then write_table env f else (0, f))"

definition append_cluster :: "'d fat_env \<Rightarrow> 'd fat_instance \<Rightarrow> nat \<Rightarrow> bool \<Rightarrow> int \<times> 'd fat_instance" where
  "append_cluster env f current_cluster fast =
    (case get_table_value env f current_cluster of
       (cluster, f) \<Rightarrow>
     if cluster > 2 \<and> cluster < 0x0FFFFFF8 then (FAT_INCONSISTENT_STATE, f)
     else
       case allocate_cluster env f of
         (r, cluster, f) \<Rightarrow>
       if r \<noteq> 0 then (FAT_NOT_ENOUGH_SPACE, f)
       else
         case clear_cluster env fast cluster f of
           (r, f) \<Rightarrow>
         if r \<noteq> 0 then (r, f)
         else
           case link_cluster env fast cluster 0x0FFFFFFF f of
             (r, f) \<Rightarrow> if r \<noteq> 0 then (r, f) else link_cluster env fast current_cluster cluster f)"

text \<open>The body of the loop of \<^verbatim>\<open>delete_clusters\<close>: the contents are overwritten if possible.\<close>

definition wipe_cluster :: "'d fat_env \<Rightarrow> nat \<Rightarrow> 'd fat_instance \<Rightarrow> 'd fat_instance" where
  "wipe_cluster env cluster f =
    (case read_cluster env f cluster True of
       (r, f) \<Rightarrow> if r = 0 then snd (write_cluster env (clear_cluster_buffer f)) else f)"

definition delete_step :: "'d fat_env \<Rightarrow> nat \<Rightarrow> 'd fat_instance \<Rightarrow> nat \<times> 'd fat_instance" where
  "delete_step env cluster f =
    (case get_table_value env (wipe_cluster env cluster f) cluster of
       (next_cluster, f) \<Rightarrow> (next_cluster, snd (set_table_value env f cluster 0)))"

partial_function (option) delete_loop :: "'d fat_env \<Rightarrow> nat \<Rightarrow> 'd fat_instance \<Rightarrow> 'd fat_instance option" where
  "delete_loop env cluster f =
    (if cluster \<ge> 2 \<and> cluster < 0x0FFFFFF8 then
       (case delete_step env cluster f of (next_cluster, f) \<Rightarrow> delete_loop env next_cluster f)
     else Some f)"

definition delete_clusters :: "'d fat_env \<Rightarrow> 'd fat_instance \<Rightarrow> nat \<Rightarrow> 'd fat_instance option" where
  "delete_clusters env f start_cluster =
    (case delete_loop env start_cluster f of
       None \<Rightarrow> None
     | Some f \<Rightarrow> Some (snd (write_table env (f\<lparr>last_allocated := 0\<rparr>))))"

text \<open>Clearing the part of the last cluster that is behind the end of the file.\<close>

definition zero_tail :: "'d fat_env \<Rightarrow> nat \<Rightarrow> nat \<Rightarrow> 'd fat_instance \<Rightarrow> 'd fat_instance" where
  "zero_tail env file_size cluster f =
    (let used = file_size mod cluster_size f in
     if used \<noteq> 0 then
       case read_cluster env f cluster False of
         (r, f) \<Rightarrow>
       if r = 0 then
         snd (write_cluster env (f\<lparr>cluster_buffer := overlay (cluster_buffer f) used (replicate (cluster_size f - used) 0)\<rparr>))
       else f
     else f)"

text \<open>
  The loop of \<^verbatim>\<open>delete_extra_clusters\<close> that finds the last cluster of the file and ends the
  chain there; \<^const>\<open>None\<close> is the early return.
\<close>

function trim_loop :: "'d fat_env \<Rightarrow> nat \<Rightarrow> nat \<Rightarrow> nat \<Rightarrow> nat \<Rightarrow> 'd fat_instance \<Rightarrow> nat option \<times> 'd fat_instance" where
  "trim_loop env file_size clusters i cluster f =
    (if i < clusters then
       case get_table_value env f cluster of
         (next_cluster, f) \<Rightarrow>
       if \<not> i + 1 < clusters then
         case set_table_value env f cluster 0x0FFFFFFF of
           (r, f) \<Rightarrow>
         if r \<noteq> 0 then (None, f)
         else
           trim_loop env file_size clusters (i + 1) next_cluster (zero_tail env file_size cluster f)
       else trim_loop env file_size clusters (i + 1) next_cluster f
     else (Some cluster, f))"
  by pat_completeness auto
termination
  by (relation "measure (\<lambda>(env, file_size, clusters, i, cluster, f). clusters - i)") auto

declare trim_loop.simps [simp del]

definition delete_extra_clusters :: "'d fat_env \<Rightarrow> 'd fat_instance \<Rightarrow> nat \<Rightarrow> 'd fat_instance option" where
  "delete_extra_clusters env f n =
    (let rec = get_record f n;
         cluster = push_bit 16 (LE16 rec 20) OR LE16 rec 26;
         file_size = LE32 rec 28;
         f = f\<lparr>fd := (fd f)[n := (fd f ! n)\<lparr>fd_cluster_idx := 0, fd_cluster_val := 0\<rparr>]\<rparr>
     in
     if file_size = 0 then
       case write_record_buffer env (put_record n (W_LE16 (W_LE16 rec 20 0) 26 0) f) n of
         (r, f) \<Rightarrow>
       if r \<noteq> 0 then
         Some (put_record n (W_LE16 (W_LE16 (get_record f n) 20 (drop_bit 16 cluster)) 26 (cluster AND 0xFFFF)) f)
       else delete_clusters env f cluster
     else
       let clusters = file_size div cluster_size f;
           clusters = (if file_size mod cluster_size f \<noteq> 0 then clusters + 1 else clusters)
       in
       case trim_loop env file_size clusters 0 cluster f of
         (None, f) \<Rightarrow> Some f
       | (Some cluster, f) \<Rightarrow>
           if cluster \<ge> 2 \<and> cluster < 0x0FFFFFF8 then delete_clusters env f cluster else Some f)"

subsection \<open>Frames\<close>

text \<open>The part of an instance that never changes after mounting.\<close>

definition layout :: "'d fat_instance \<Rightarrow> nat list \<times> bool \<times> bool \<times> bool" where
  "layout f = ([fs_bytes_per_sector f, fs_cluster_sectors f, fs_reserved_sectors f, fs_tables f, fs_table_size f, fs_table_sectors f,
    fs_total_sectors f, fs_directory_sectors f, fs_data_sectors f, fs_clusters f, fs_last_table_sector f, cluster_size f, io_mul f],
    type_12 f, type_16 f, type_32 f)"

lemma layout_simps:
  assumes "layout f' = layout f"
  shows "fs_bytes_per_sector f' = fs_bytes_per_sector f" "fs_cluster_sectors f' = fs_cluster_sectors f"
    "fs_reserved_sectors f' = fs_reserved_sectors f" "fs_tables f' = fs_tables f" "fs_table_size f' = fs_table_size f"
    "fs_table_sectors f' = fs_table_sectors f" "fs_total_sectors f' = fs_total_sectors f"
    "fs_directory_sectors f' = fs_directory_sectors f" "fs_data_sectors f' = fs_data_sectors f" "fs_clusters f' = fs_clusters f"
    "fs_last_table_sector f' = fs_last_table_sector f" "cluster_size f' = cluster_size f" "io_mul f' = io_mul f"
    "type_12 f' = type_12 f" "type_16 f' = type_16 f" "type_32 f' = type_32 f" "stored f' = stored f"
  using assms by (simp_all add: layout_def stored_def fun_eq_iff)

lemma layout_step: "table_step f f' \<Longrightarrow> layout f' = layout f"
  unfolding table_step_def layout_def by auto

text \<open>
  A step that does not concern the table: the fields of the window are kept, and so are the bytes of
  the primary table on the device.
\<close>

definition data_step :: "('d \<Rightarrow> nat \<Rightarrow> u8) \<Rightarrow> 'd fat_instance \<Rightarrow> 'd fat_instance \<Rightarrow> bool" where
  "data_step bytes f f' \<longleftrightarrow> layout f' = layout f \<and> ready f' = ready f \<and> table_buffer f' = table_buffer f \<and>
    table_sectors f' = table_sectors f \<and> table_entries f' = table_entries f \<and> table_offset f' = table_offset f \<and>
    length (cluster_buffer f') = length (cluster_buffer f) \<and>
    (\<forall>i < fs_table_size f. bytes (dev f') (table_base f + i) = bytes (dev f) (table_base f + i))"

lemma data_step_refl [simp]: "data_step bytes f f"
  by (simp add: data_step_def)

lemma data_step_trans: "data_step bytes f g \<Longrightarrow> data_step bytes g h \<Longrightarrow> data_step bytes f h"
proof -
  assume a: "data_step bytes f g" and b: "data_step bytes g h"
  note a = a[unfolded data_step_def] and b = b[unfolded data_step_def]
  have l: "layout g = layout f" using a by blast
  have t: "table_base g = table_base f" "fs_table_size g = fs_table_size f" by (simp_all only: layout_simps [OF l])
  show ?thesis using a b unfolding data_step_def t by metis
qed

lemma data_step_table:
  assumes "data_step bytes f f'" "table_ok bytes bs f"
  shows "table_ok bytes bs f'" "i < fs_table_size f \<Longrightarrow> tbyte bytes f' i = tbyte bytes f i"
    "coherent bytes f \<Longrightarrow> coherent bytes f'" "ready f' = ready f" "layout f' = layout f"
proof -
  note d = assms(1)[unfolded data_step_def] and ok = table_okD [OF assms(2)]
  have l: "layout f' = layout f" using d by blast
  note L = layout_simps [OF l]
  show "ready f' = ready f" "layout f' = layout f" using d by blast+
  have t: "tbyte bytes f' i = tbyte bytes f i" if "i < fs_table_size f" for i using d that by (simp add: tbyte_def L)
  then show "i < fs_table_size f \<Longrightarrow> tbyte bytes f' i = tbyte bytes f i" .
  have dy: "dirty f' 0 k = dirty f 0 k" for k using d by (simp add: dirty_def L)
  show c: "coherent bytes f \<Longrightarrow> coherent bytes f'" using d t dy unfolding coherent_def by (simp add: L)
  have T: "table_buffer f' = table_buffer f" "table_sectors f' = table_sectors f" "table_entries f' = table_entries f"
    "table_offset f' = table_offset f" "length (cluster_buffer f') = length (cluster_buffer f)" using d by blast+
  have "fat_geometry f' = fat_geometry f" by (simp only: fat_geometry_def L T)
  then have "fat_geometry f'" using ok(1) by blast
  moreover have "window_shape bs f' = window_shape bs f" by (simp only: window_shape_def L T)
  then have "window_shape bs f'" using ok(2) by blast
  moreover have "dirty_inside f' = dirty_inside f" by (simp only: dirty_inside_def L T)
  then have "dirty_inside f'" using ok(3) by blast
  ultimately show "table_ok bytes bs f'" using ok(4,5) c unfolding table_ok_def T L by simp
qed

lemma data_step_entry:
  assumes "data_step bytes f f'" "table_ok bytes bs f" "p < fs_clusters f + 2"
  shows "entry bytes f' p = entry bytes f p"
  by (rule entry_cong [OF table_okD(1) [OF assms(2)] assms(3)])
    (use data_step_table [OF assms(1,2)] layout_simps(14,15) in blast)+

lemma read_cluster_skip: "read_cluster env f cluster True = (r, f') \<Longrightarrow> data_step bytes f f'"
  by (auto simp: read_cluster_def Let_def data_step_def layout_def split: if_splits)

lemma write_cluster_step:
  assumes "block_device env bytes bs" "table_ok bytes bs f" "write_cluster env f = (r, f')"
  shows "data_step bytes f f'"
proof (cases "cluster_sector f \<le> fs_last_table_sector f")
  case True
  then show ?thesis using assms(3) by (auto simp: write_cluster_def)
next
  case False
  note g = geometryD [OF table_okD(1) [OF assms(2)]] and s = shapeD [OF table_okD(2) [OF assms(2)]]
  let ?lba = "cluster_sector f * io_mul f" and ?data = "take (cluster_size f) (cluster_buffer f)"
  obtain r1 d where w: "fat_io_write env (fat_id f) ?lba ?data (dev f) = (r1, d)" by (cases "fat_io_write env (fat_id f) ?lba ?data (dev f)")
  have f': "f' = f\<lparr>block_buffer_lba := 0, dev := d\<rparr>"
    using assms(3) False w by (auto simp: write_cluster_def Let_def split: if_splits)
  have "fs_tables f = 1 \<or> fs_tables f = 2" "fs_last_table_sector f = fs_reserved_sectors f + fs_tables f * fs_table_sectors f - 1"
    using table_okD(1) [OF assms(2)] unfolding fat_geometry_def by blast+
  then have "fs_reserved_sectors f + fs_table_sectors f \<le> cluster_sector f" using False by auto
  then have "(fs_reserved_sectors f + fs_table_sectors f) * fs_bytes_per_sector f \<le> cluster_sector f * fs_bytes_per_sector f" by simp
  moreover have "?lba * bs = cluster_sector f * fs_bytes_per_sector f" using s(2) by (simp add: mult.assoc)
  ultimately have le: "table_base f + fs_table_size f \<le> ?lba * bs" using g(1) distrib_right by metis
  have "bytes d (table_base f + i) = bytes (dev f) (table_base f + i)" if "i < fs_table_size f" for i
    by (rule block_device_write(1) [OF assms(1) w]) (use le that in linarith)
  then show ?thesis unfolding f' data_step_def by (simp add: layout_def)
qed

lemma clear_cluster_buffer_step:
  assumes "table_ok bytes bs f"
  shows "data_step bytes f (clear_cluster_buffer f)"
proof -
  have "length (cluster_buffer f) = cluster_size f" using table_okD(1) [OF assms] unfolding fat_geometry_def by blast
  then show ?thesis by (simp add: data_step_def clear_cluster_buffer_def overlay_def layout_def)
qed

lemma wipe_cluster_step:
  assumes "block_device env bytes bs" "table_ok bytes bs f"
  shows "data_step bytes f (wipe_cluster env cluster f)"
proof -
  obtain r f1 where 1: "read_cluster env f cluster True = (r, f1)" by (cases "read_cluster env f cluster True")
  have s1: "data_step bytes f f1" by (rule read_cluster_skip [OF 1])
  have ok1: "table_ok bytes bs f1" by (rule data_step_table(1) [OF s1 assms(2)])
  have s2: "data_step bytes f1 (clear_cluster_buffer f1)" by (rule clear_cluster_buffer_step [OF ok1])
  have ok2: "table_ok bytes bs (clear_cluster_buffer f1)" by (rule data_step_table(1) [OF s2 ok1])
  obtain r3 f3 where 3: "write_cluster env (clear_cluster_buffer f1) = (r3, f3)" by (cases "write_cluster env (clear_cluster_buffer f1)")
  have s3: "data_step bytes (clear_cluster_buffer f1) f3" by (rule write_cluster_step [OF assms(1) ok2 3])
  show ?thesis using s1 data_step_trans [OF s1 data_step_trans [OF s2 s3]] by (simp add: wipe_cluster_def 1 3)
qed

subsection \<open>The abstract table\<close>

text \<open>
  The instance \<open>f\<close> has the layout of \<open>f0\<close> and a table that stands for the map \<open>m\<close> from cluster numbers
  to entries. The operations of the driver are simulated by updates of the map, unless a device error
  takes the instance out of service.
\<close>

definition tracks :: "('d \<Rightarrow> nat \<Rightarrow> u8) \<Rightarrow> nat \<Rightarrow> 'd fat_instance \<Rightarrow> (nat \<Rightarrow> nat) \<Rightarrow> 'd fat_instance \<Rightarrow> bool" where
  "tracks bytes bs f0 m f \<longleftrightarrow> layout f = layout f0 \<and> table_ok bytes bs f \<and> (\<forall>q < fs_clusters f0 + 2. entry bytes f q = m q)"

lemma tracksI: "table_ok bytes bs f \<Longrightarrow> tracks bytes bs f (entry bytes f) f"
  by (simp add: tracks_def)

lemma tracksD:
  assumes "tracks bytes bs f0 m f"
  shows "layout f = layout f0" "table_ok bytes bs f" "q < fs_clusters f0 + 2 \<Longrightarrow> entry bytes f q = m q" "fs_clusters f = fs_clusters f0"
    "stored f = stored f0"
  using assms unfolding tracks_def by (blast intro: layout_simps)+

lemma tracks_data:
  assumes "data_step bytes f f'" "tracks bytes bs f0 m f"
  shows "tracks bytes bs f0 m f'"
proof -
  note t = tracksD [OF assms(2)] and d = data_step_table [OF assms(1) tracksD(2) [OF assms(2)]]
  have "entry bytes f' q = m q" if "q < fs_clusters f0 + 2" for q
    using data_step_entry [OF assms(1) t(2)] t(3) [OF that] t(4) that by simp
  then show ?thesis unfolding tracks_def using d(1,5) t(1) by simp
qed

lemma tracks_last_allocated: "tracks bytes bs f0 m f \<Longrightarrow> tracks bytes bs f0 m (f\<lparr>last_allocated := i\<rparr>)"
proof (rule tracks_data)
  show "data_step bytes f (f\<lparr>last_allocated := i\<rparr>)" by (simp add: data_step_def layout_def)
qed

lemma tracks_get:
  assumes "block_device env bytes bs" "tracks bytes bs f0 m f" "off < fs_clusters f0 + 2" "get_table_value env f off = (v, f')"
  obtains (failed) "v = 1" "ready f' = 0" | (found) "v = m off" "tracks bytes bs f0 m f'" "ready f' = ready f"
proof -
  note t = tracksD [OF assms(2)]
  have lt: "off < fs_clusters f + 2" using assms(3) t(4) by simp
  from assms(1) t(2) lt assms(4) show thesis
  proof (cases rule: get_table_value_main)
    case (found tb ts x d)
    have st: "table_step f f'" unfolding found(1) by (rule table_stepI)
    have "entry bytes f' q = m q" if "q < fs_clusters f0 + 2" for q
      using entry_cong [OF table_okD(1) [OF t(2)] _ found(4), of q] t(3) [OF that] t(4) that table_step_simps(4,5) [OF st] by simp
    then have "tracks bytes bs f0 m f'" unfolding tracks_def using found(3) layout_step [OF st] t(1) by simp
    then show thesis using that(2) found(2) t(3) [OF assms(3)] table_step_simps(7) [OF st] by simp
  qed (rule that(1))
qed

lemma tracks_set:
  assumes "block_device env bytes bs" "tracks bytes bs f0 m f" "off < fs_clusters f0 + 2" "set_table_value env f off v = (r, f')"
  obtains (failed) "r \<noteq> 0" "ready f' = 0" | (updated) "r = 0" "tracks bytes bs f0 (m(off := stored f0 v)) f'" "ready f' = ready f"
proof -
  note t = tracksD [OF assms(2)]
  have lt: "off < fs_clusters f + 2" using assms(3) t(4) by simp
  from assms(1) t(2) lt assms(4) show thesis
  proof (cases rule: set_table_value_main)
    case stored
    have "entry bytes f' q = (m(off := stored f0 v)) q" if "q < fs_clusters f0 + 2" for q
      using stored(4) that t(3) [OF that] t(4,5) by simp
    then have "tracks bytes bs f0 (m(off := stored f0 v)) f'" unfolding tracks_def
      using stored(3) layout_step [OF stored(2)] t(1) by simp
    then show thesis using that(2) stored(1) table_step_simps(7) [OF stored(2)] by simp
  qed (rule that(1))
qed

lemma tracks_write:
  assumes "block_device env bytes bs" "tracks bytes bs f0 m f" "write_table env f = (r, f')"
  obtains (failed) "r \<noteq> 0" "ready f' = 0" | (flushed) "r = 0" "tracks bytes bs f0 m f'" "ready f' = ready f"
proof -
  note t = tracksD [OF assms(2)] and flushed = that(2)
  note ok = table_okD [OF t(2)]
  have fin: thesis if w: "r = 0" "f' = f\<lparr>dev := d, table_sectors := replicate (table_entries f) 0\<rparr>"
    and ok': "table_ok bytes bs f'" and v: "\<forall>i < fs_table_size f. tbyte bytes f' i = tbyte bytes f i" for d
  proof -
    have st: "table_step f f'" unfolding w(2) by (rule table_stepI)
    have "entry bytes f' q = m q" if "q < fs_clusters f0 + 2" for q
      using entry_cong [OF ok(1) _ v, of q] t(3) [OF that] t(4) that table_step_simps(4,5) [OF st] by simp
    then have "tracks bytes bs f0 m f'" unfolding tracks_def using ok' layout_step [OF st] t(1) by simp
    then show thesis using flushed w(1) table_step_simps(7) [OF st] by simp
  qed
  from assms(1) ok(2) geometryD(1) [OF ok(1)] assms(3) show thesis
  proof (cases rule: write_table_main)
    case (failed d)
    then show thesis using that(1) by (simp add: FAT_BLOCK_WRITE_ERROR_def)
  next
    case (written d)
    show thesis
    proof (cases "type_32 f")
      case True
      from assms(1) t(2) conjunct2 [OF conjunct2 [OF ok(4) [OF True]]] assms(3) show thesis
      proof (cases rule: write_table_persist)
        case written2: written
        then show thesis using fin [OF written(1,2) written2(3)] by blast
      qed (rule that(1))
    next
      case False
      have v: "\<forall>i < fs_table_size f. tbyte bytes f' i = tbyte bytes f i"
        using ok(5) [OF False] by (simp add: written(2) tbyte_def)
      have st: "table_step f f'" unfolding written(2) by (rule table_stepI)
      have "window_shape bs f'" using shapeD [OF ok(2)] by (simp add: written(2) window_shape_def)
      moreover have "dirty_inside f'" by (simp add: written(2) dirty_inside_def)
      moreover have "fat_geometry f'" using ok(1) table_step_simps(9) [OF st] by simp
      ultimately have "table_ok bytes bs f'" using ok(5) [OF False] False unfolding table_ok_def by (simp add: written(2))
      then show thesis by (rule fin [OF written(1,2) _ v])
    qed
  qed
qed

lemma ready_alloc_loop: "ready f = 0 \<Longrightarrow> ready (snd (alloc_loop env n i f)) = 0"
proof (induction env n i f rule: alloc_loop.induct)
  case (1 env n i f)
  obtain v g where g: "get_table_value env f i = (v, g)" by (cases "get_table_value env f i")
  have "ready g = 0" using ready_get_table_value [OF 1(2), of env i] g by simp
  then show ?case using 1 g by (subst alloc_loop.simps) auto
qed

lemma alloc_loop_main:
  assumes "block_device env bytes bs" "tracks bytes bs f0 m f" "n = fs_clusters f0 + 2" "alloc_loop env n i f = (c, f')"
  obtains (failed) "ready f' = 0"
    | (some) k where "c = Some k" "i \<le> k" "k < n" "m k = 0" "tracks bytes bs f0 m f'" "ready f' = ready f"
    | (none) "c = None" "\<forall>k. i \<le> k \<longrightarrow> k < n \<longrightarrow> m k \<noteq> 0" "tracks bytes bs f0 m f'" "ready f' = ready f"
proof -
  have "ready f' = 0 \<or> tracks bytes bs f0 m f' \<and> ready f' = ready f \<and>
    (case c of None \<Rightarrow> \<forall>k. i \<le> k \<longrightarrow> k < n \<longrightarrow> m k \<noteq> 0 | Some k \<Rightarrow> i \<le> k \<and> k < n \<and> m k = 0)"
    using assms
  proof (induction env n i f rule: alloc_loop.induct)
    case (1 env n i f)
    show ?case
    proof (cases "i < n")
      case False
      then show ?thesis using 1(3,5) by (subst (asm) alloc_loop.simps) auto
    next
      case True
      obtain v g where g: "get_table_value env f i = (v, g)" by (cases "get_table_value env f i")
      have i: "i < fs_clusters f0 + 2" using True 1(4) by simp
      have e: "(if v = 0 then (Some i, g\<lparr>last_allocated := i\<rparr>) else alloc_loop env n (i + 1) g) = (c, f')"
        using 1(5) True g by (subst (asm) alloc_loop.simps) simp
      from 1(2,3) i g show ?thesis
      proof (cases rule: tracks_get)
        case failed
        then show ?thesis using e ready_alloc_loop [of g env n "i + 1"] by simp
      next
        case found
        show ?thesis
        proof (cases "v = 0")
          case True
          then have "c = Some i" "f' = g\<lparr>last_allocated := i\<rparr>" using e by auto
          then show ?thesis using found True \<open>i < n\<close> tracks_last_allocated [OF found(2), of i] by simp
        next
          case False
          then have e: "alloc_loop env n (i + 1) g = (c, f')" using e by simp
          have IH: "ready f' = 0 \<or> tracks bytes bs f0 m f' \<and> ready f' = ready g \<and>
            (case c of None \<Rightarrow> \<forall>k. i + 1 \<le> k \<longrightarrow> k < n \<longrightarrow> m k \<noteq> 0 | Some k \<Rightarrow> i + 1 \<le> k \<and> k < n \<and> m k = 0)"
            by (rule "1.IH" [OF True g [symmetric] False 1(2) found(2) 1(4) e])
          have "m k \<noteq> 0" if "\<forall>k. i + 1 \<le> k \<longrightarrow> k < n \<longrightarrow> m k \<noteq> 0" "i \<le> k" "k < n" for k
            using that False found(1) by (cases "k = i") auto
          then show ?thesis using IH found(3) by (auto split: option.splits)
        qed
      qed
    qed
  qed
  then show thesis using that by (cases c) auto
qed

lemma allocate_cluster_main:
  assumes "block_device env bytes bs" "tracks bytes bs f0 m f" "allocate_cluster env f = (r, c, f')"
  obtains (failed) "ready f' = 0"
    | (allocated) "r = 0" "c < fs_clusters f0 + 2" "2 \<le> c" "m c = 0" "tracks bytes bs f0 m f'" "ready f' = ready f"
    | (full) "r = FAT_NOT_ENOUGH_SPACE" "\<forall>k. 2 \<le> k \<longrightarrow> k < fs_clusters f0 + 2 \<longrightarrow> m k \<noteq> 0" "tracks bytes bs f0 m f'" "ready f' = ready f"
proof -
  define n where "n = fs_clusters f0 + 2"
  have n: "fs_clusters f + 2 = n" using tracksD(4) [OF assms(2)] by (simp add: n_def)
  define start where "start = (if last_allocated f > 2 then alloc_loop env n (last_allocated f) f else (None, f))"
  obtain o1 f1 where 1: "start = (o1, f1)" by (cases start)
  obtain o2 f2 where 2: "alloc_loop env n 2 f1 = (o2, f2)" by (cases "alloc_loop env n 2 f1")
  have e: "(case o1 of Some i \<Rightarrow> (0, i, f1) | None \<Rightarrow> (case o2 of Some i \<Rightarrow> (0, i, f2) | None \<Rightarrow> (FAT_NOT_ENOUGH_SPACE, 0, f2))) = (r, c, f')"
    using assms(3) 1 2 unfolding allocate_cluster_def Let_def n start_def [symmetric] by (auto split: option.splits)
  have "ready f1 = 0 \<or> tracks bytes bs f0 m f1 \<and> ready f1 = ready f \<and> (\<forall>i. o1 = Some i \<longrightarrow> 2 \<le> i \<and> i < n \<and> m i = 0)"
  proof (cases "last_allocated f > 2")
    case False
    then show ?thesis using 1 assms(2) by (auto simp: start_def)
  next
    case True
    then have "alloc_loop env n (last_allocated f) f = (o1, f1)" using 1 by (simp add: start_def)
    from assms(1,2) n_def this show ?thesis using True by (cases rule: alloc_loop_main) auto
  qed
  then consider (bad) "ready f1 = 0"
    | (good) "tracks bytes bs f0 m f1" "ready f1 = ready f" "\<forall>i. o1 = Some i \<longrightarrow> 2 \<le> i \<and> i < n \<and> m i = 0" by blast
  then show thesis
  proof cases
    case bad
    then have "ready f2 = 0" using ready_alloc_loop [of f1 env n 2] 2 by simp
    then have "ready f' = 0" using bad e by (auto split: option.splits)
    then show thesis by (rule failed)
  next
    case good
    show thesis
    proof (cases o1)
      case (Some i)
      then have "r = 0" "c = i" "f' = f1" using e by auto
      then show thesis using allocated good Some by (simp add: n_def)
    next
      case None
      from assms(1) good(1) n_def 2 show thesis
      proof (cases rule: alloc_loop_main)
        case failed
        then have "ready f' = 0" using e None by (auto split: option.splits)
        then show thesis by (rule that(1))
      next
        case (some k)
        then have "r = 0" "c = k" "f' = f2" using e None by auto
        then show thesis using allocated some good(2) by (simp add: n_def)
      next
        case none
        then have "r = FAT_NOT_ENOUGH_SPACE" "f' = f2" using e None by auto
        then show thesis using full none good(2) by (simp add: n_def)
      qed
    qed
  qed
qed

lemma link_cluster_main:
  assumes "block_device env bytes bs" "tracks bytes bs f0 m f" "off < fs_clusters f0 + 2" "link_cluster env fast off v f = (r, f')"
  obtains (failed) "ready f' = 0" | (linked) "r = 0" "tracks bytes bs f0 (m(off := stored f0 v)) f'" "ready f' = ready f"
proof -
  obtain r1 f1 where 1: "set_table_value env f off v = (r1, f1)" by (cases "set_table_value env f off v")
  from assms(1-3) 1 show thesis
  proof (cases rule: tracks_set)
    case failed
    then show thesis using that(1) assms(4) 1 by (simp add: link_cluster_def)
  next
    case updated
    show thesis
    proof (cases fast)
      case True
      then show thesis using that(2) assms(4) 1 updated by (simp add: link_cluster_def)
    next
      case False
      then have "write_table env f1 = (r, f')" using assms(4) 1 updated by (simp add: link_cluster_def)
      from assms(1) updated(2) this show thesis by (cases rule: tracks_write) (use that updated(3) in simp_all)
    qed
  qed
qed

lemma ready_link_cluster: "ready f = 0 \<Longrightarrow> ready (snd (link_cluster env fast off v f)) = 0"
proof -
  assume r: "ready f = 0"
  obtain r1 f1 where 1: "set_table_value env f off v = (r1, f1)" by (cases "set_table_value env f off v")
  have r1: "ready f1 = 0" using ready_set_table_value [OF r, of env off v] 1 by simp
  then show ?thesis using ready_write_table [OF r1, of env] by (simp add: link_cluster_def 1)
qed

lemma ready_read_cluster: "ready (snd (read_cluster env f c s)) = ready f"
  by (auto simp: read_cluster_def Let_def split: prod.splits)

lemma ready_write_cluster: "ready (snd (write_cluster env f)) = ready f"
  by (auto simp: write_cluster_def Let_def split: prod.splits)

lemma clear_cluster_step:
  assumes "block_device env bytes bs" "table_ok bytes bs f" "clear_cluster env fast cluster f = (r, f')"
  shows "data_step bytes f f'"
proof -
  obtain r1 f1 where 1: "read_cluster env f cluster True = (r1, f1)" by (cases "read_cluster env f cluster True")
  have s1: "data_step bytes f f1" by (rule read_cluster_skip [OF 1])
  have ok1: "table_ok bytes bs f1" by (rule data_step_table(1) [OF s1 assms(2)])
  have s2: "data_step bytes f1 (clear_cluster_buffer f1)" by (rule clear_cluster_buffer_step [OF ok1])
  have ok2: "table_ok bytes bs (clear_cluster_buffer f1)" by (rule data_step_table(1) [OF s2 ok1])
  obtain r3 f3 where 3: "write_cluster env (clear_cluster_buffer f1) = (r3, f3)" by (cases "write_cluster env (clear_cluster_buffer f1)")
  have s3: "data_step bytes (clear_cluster_buffer f1) f3" by (rule write_cluster_step [OF assms(1) ok2 3])
  show ?thesis using assms(3) s1 data_step_trans [OF s1 data_step_trans [OF s2 s3]]
    by (auto simp: clear_cluster_def 1 3 split: if_splits)
qed

end
