(* ===== verification/Fat_Chain.thy ===== *)
theory Fat_Chain
  imports Fat_Cluster
begin

text \<open>
  Chains of clusters, \<^verbatim>\<open>src/common/fat.c\<close>: what \<^verbatim>\<open>append_cluster\<close> and
  \<^verbatim>\<open>delete_clusters\<close> do to the lists of clusters that the entries of the table link
  together.
\<close>

subsection \<open>Chains\<close>

text \<open>
  The clusters of a file: from the first cluster, each entry is the number of the next one, and the
  last entry is an end mark.
\<close>

fun chain :: "nat \<Rightarrow> (nat \<Rightarrow> nat) \<Rightarrow> nat \<Rightarrow> nat list \<Rightarrow> bool" where
  "chain n m c [] \<longleftrightarrow> 0x0FFFFFF8 \<le> c"
| "chain n m c (x # xs) \<longleftrightarrow> c = x \<and> 2 \<le> c \<and> c < n \<and> c < 0x0FFFFFF8 \<and> chain n m (m c) xs"

lemma chain_bound: "chain n m c xs \<Longrightarrow> x \<in> set xs \<Longrightarrow> 2 \<le> x \<and> x < n \<and> m x \<noteq> 0"
proof (induction xs arbitrary: c)
  case (Cons a xs)
  have "m a \<noteq> 0" using Cons.prems(1) by (cases xs) auto
  then show ?case using Cons by auto
qed simp

lemma chain_unique: "chain n m c xs \<Longrightarrow> chain n m c ys \<Longrightarrow> xs = ys"
proof (induction xs arbitrary: c ys)
  case Nil
  then show ?case by (cases ys) auto
next
  case (Cons a xs)
  then show ?case by (cases ys) auto
qed

lemma chain_suffix: "chain n m c (xs @ y # ys) \<Longrightarrow> chain n m y (y # ys)"
  by (induction xs arbitrary: c) auto

lemma chain_distinct: "chain n m c xs \<Longrightarrow> distinct xs"
proof (induction xs arbitrary: c)
  case (Cons a xs)
  have "a \<notin> set xs"
  proof
    assume "a \<in> set xs"
    then obtain ys zs where xs: "xs = ys @ a # zs" by (auto dest: split_list)
    have "chain n m (m a) xs" "chain n m a (a # xs)" using Cons.prems by auto
    moreover have "chain n m a (a # zs)" using chain_suffix [of n m "m a" ys a zs] calculation(1) xs by simp
    ultimately have "a # xs = a # zs" using chain_unique by blast
    then show False using xs by simp
  qed
  then show ?case using Cons by auto
qed simp

lemma chain_cong: "\<forall>x \<in> set xs. m' x = m x \<Longrightarrow> chain n m' c xs = chain n m c xs"
  by (induction xs arbitrary: c) auto

lemma chain_snoc:
  "chain n m s (xs @ [a]) \<Longrightarrow> c \<notin> set (xs @ [a]) \<Longrightarrow> 2 \<le> c \<Longrightarrow> c < n \<Longrightarrow> c < 0x0FFFFFF8 \<Longrightarrow> 0x0FFFFFF8 \<le> e \<Longrightarrow>
    chain n (m(c := e, a := c)) s (xs @ [a, c])"
proof (induction xs arbitrary: s)
  case (Cons b xs)
  have "b \<noteq> a" using chain_distinct [OF Cons.prems(1)] by auto
  then show ?case using Cons by auto
qed auto

lemma chain_entry: "chain n m s (xs @ [a]) \<Longrightarrow> 0x0FFFFFF8 \<le> m a \<and> 2 \<le> a \<and> a < n"
  by (induction xs arbitrary: s) auto

lemma stored_next:
  assumes "fat_geometry f" "c < fs_clusters f + 2"
  shows "stored f c = c" "c < 0x0FFFFFF8" "stored f 0x0FFFFFFF = 0x0FFFFFFF" "stored f 0 = 0"
proof -
  have g: "type_12 f \<longleftrightarrow> fs_clusters f < 4085" "type_16 f \<longleftrightarrow> 4085 \<le> fs_clusters f \<and> fs_clusters f < 65525"
    "type_32 f \<longleftrightarrow> 65525 \<le> fs_clusters f" "type_32 f \<longrightarrow> fs_clusters f + 2 \<le> 0x0FFFFFF8"
    using assms(1) unfolding fat_geometry_def by blast+
  show "stored f c = c" "c < 0x0FFFFFF8" using assms(2) g by (auto simp: stored_def ext12_def ext16_def)
  show "stored f 0x0FFFFFFF = 0x0FFFFFFF" "stored f 0 = 0" by (simp_all add: stored_def ext12_def ext16_def)
qed

lemma ready_allocate_cluster: "ready f = 0 \<Longrightarrow> ready (snd (snd (allocate_cluster env f))) = 0"
proof -
  assume r: "ready f = 0"
  let ?n = "fs_clusters f + 2"
  define start where "start = (if last_allocated f > 2 then alloc_loop env ?n (last_allocated f) f else (None, f))"
  obtain o1 f1 where 1: "start = (o1, f1)" by (cases start)
  have r1: "ready f1 = 0" using r 1 ready_alloc_loop [OF r, of env ?n "last_allocated f"] by (auto simp: start_def split: if_splits)
  obtain o2 f2 where 2: "alloc_loop env ?n 2 f1 = (o2, f2)" by (cases "alloc_loop env ?n 2 f1")
  have r2: "ready f2 = 0" using ready_alloc_loop [OF r1, of env ?n 2] 2 by simp
  show ?thesis unfolding allocate_cluster_def Let_def start_def [symmetric] 1 using r1 r2 2 by (auto split: option.splits)
qed

lemma ready_clear_cluster: "ready (snd (clear_cluster env fast c f)) = ready f"
  using ready_read_cluster [of env f c True] ready_write_cluster [of env]
  by (auto simp: clear_cluster_def clear_cluster_buffer_def split: prod.splits)

lemma clear_cluster_result: "fst (clear_cluster env fast c f) \<in> {0, FAT_INCONSISTENT_STATE, FAT_BLOCK_WRITE_ERROR}"
  by (auto simp: clear_cluster_def read_cluster_def write_cluster_def Let_def split: prod.splits)

lemma append_cluster_main:
  assumes "block_device env bytes bs" "tracks bytes bs f0 m f" "cur < fs_clusters f0 + 2" "0x0FFFFFF8 \<le> m cur"
    "append_cluster env f cur fast = (r, f')"
  obtains (failed) "ready f' = 0"
    | (full) "r = FAT_NOT_ENOUGH_SPACE" "\<forall>k. 2 \<le> k \<longrightarrow> k < fs_clusters f0 + 2 \<longrightarrow> m k \<noteq> 0" "tracks bytes bs f0 m f'"
    | (unchanged) "r = FAT_INCONSISTENT_STATE \<or> r = FAT_BLOCK_WRITE_ERROR" "\<not> fast" "tracks bytes bs f0 m f'"
    | (appended) c where "r = 0" "2 \<le> c" "c < fs_clusters f0 + 2" "m c = 0"
      "tracks bytes bs f0 (m(c := 0x0FFFFFFF, cur := c)) f'"
proof -
  have cl: "fs_clusters f = fs_clusters f0" "stored f = stored f0" using tracksD [OF assms(2)] by blast+
  have geo: "fat_geometry f" using table_okD(1) tracksD(2) [OF assms(2)] by blast
  obtain v f1 where 1: "get_table_value env f cur = (v, f1)" by (cases "get_table_value env f cur")
  obtain r2 c f2 where 2: "allocate_cluster env f1 = (r2, c, f2)" by (cases "allocate_cluster env f1")
  obtain r3 f3 where 3: "clear_cluster env fast c f2 = (r3, f3)" by (cases "clear_cluster env fast c f2")
  obtain r4 f4 where 4: "link_cluster env fast c 0x0FFFFFFF f3 = (r4, f4)" by (cases "link_cluster env fast c 0x0FFFFFFF f3")
  obtain r5 f5 where 5: "link_cluster env fast cur c f4 = (r5, f5)" by (cases "link_cluster env fast cur c f4")
  have k2: "ready f1 = 0 \<Longrightarrow> ready f2 = 0" using ready_allocate_cluster [of f1 env] 2 by simp
  have k3: "ready f3 = ready f2" using ready_clear_cluster [of env fast c f2] 3 by simp
  have k4: "ready f3 = 0 \<Longrightarrow> ready f4 = 0" using ready_link_cluster [of f3 env fast c "0x0FFFFFFF"] 4 by simp
  have k5: "ready f4 = 0 \<Longrightarrow> ready f5 = 0" using ready_link_cluster [of f4 env fast cur c] 5 by simp
  have e: "(if v > 2 \<and> v < 0x0FFFFFF8 then (FAT_INCONSISTENT_STATE, f1)
    else if r2 \<noteq> 0 then (FAT_NOT_ENOUGH_SPACE, f2) else if r3 \<noteq> 0 then (r3, f3)
    else if r4 \<noteq> 0 then (r4, f4) else (r5, f5)) = (r, f')"
    using assms(5) unfolding append_cluster_def 1 2 3 4 5 prod.case by simp
  have f': "f' \<in> {f1, f2, f3, f4, f5}" using e by (auto split: if_splits)
  have bad: thesis if "ready f1 = 0" 
    by (rule failed) (use f' k2 k3 k4 k5 that in auto)
  from assms(1-3) 1 show thesis
  proof (cases rule: tracks_get)
    case failed
    then show thesis using bad by blast
  next
    case found
    have v: "\<not> (v > 2 \<and> v < 0x0FFFFFF8)" using found(1) assms(4) by simp
    from assms(1) found(2) 2 show thesis
    proof (cases rule: allocate_cluster_main)
      case failed
      show thesis by (rule that(1)) (use e v k3 k4 k5 failed in \<open>auto split: if_splits\<close>)
    next
      case full
      then have "r = FAT_NOT_ENOUGH_SPACE" "f' = f2" using e v by (auto simp: FAT_NOT_ENOUGH_SPACE_def)
      then show thesis using that(2) full by blast
    next
      case allocated
      have t3: "tracks bytes bs f0 m f3"
        by (rule tracks_data [OF clear_cluster_step [OF assms(1) tracksD(2) [OF allocated(5)] 3] allocated(5)])
      note sn = stored_next [OF geo, unfolded cl]
      show thesis
      proof (cases "r3 = 0")
        case False
        then have u: "r = r3" "f' = f3" "\<not> fast" using e v allocated(1) 3 by (auto simp: clear_cluster_def)
        moreover have "r = FAT_INCONSISTENT_STATE \<or> r = FAT_BLOCK_WRITE_ERROR"
          using clear_cluster_result [of env fast c f2] 3 False u(1) by simp
        ultimately show thesis using that(3) t3 by blast
      next
        case True
        from assms(1) t3 allocated(2) 4 show thesis
        proof (cases rule: link_cluster_main)
          case failed
          show thesis by (rule that(1)) (use e v allocated True k5 failed in \<open>auto split: if_splits\<close>)
        next
          case l1: linked
          from assms(1) l1(2) assms(3) 5 show thesis
          proof (cases rule: link_cluster_main)
            case failed
            show thesis by (rule that(1)) (use e v allocated True l1 failed in \<open>auto split: if_splits\<close>)
          next
            case linked
            then have "r = 0" "f' = f5" using e v allocated True l1 by auto
            then show thesis using that(4) allocated linked(2) sn(1) [OF allocated(2)] sn(3) [OF allocated(2)] by simp
          qed
        qed
      qed
    qed
  qed
qed


lemma tracks_chain: "tracks bytes bs f0 m f \<Longrightarrow> chain (fs_clusters f0 + 2) (entry bytes f) s xs = chain (fs_clusters f0 + 2) m s xs"
proof -
  assume t: "tracks bytes bs f0 m f"
  let ?n = "fs_clusters f0 + 2"
  have "chain ?n (entry bytes f) s xs" if "chain ?n m s xs"
    using chain_cong [of xs "entry bytes f" m ?n s] chain_bound [OF that] tracksD(3) [OF t] that by blast
  moreover have "chain ?n m s xs" if "chain ?n (entry bytes f) s xs"
    using chain_cong [of xs m "entry bytes f" ?n s] chain_bound [OF that] tracksD(3) [OF t] that by simp
  ultimately show ?thesis by blast
qed

text \<open>
  C6. Appending to a chain. When \<^verbatim>\<open>append_cluster\<close> returns 0 for the last cluster of a file, a
  cluster that was free has become the new end of the chain, and every chain without the old last
  cluster, so every other file, is what it was. When it fails, no entry has changed, and the failure is
  that no cluster is free or, unless \<open>fast\<close>, that the new cluster could not be cleared. This holds for
  all three formats as long as the device has not taken the instance out of service; a device error after an
  entry has been set can leave it changed.
\<close>

theorem append_cluster_correct:
  assumes "block_device env bytes bs" "table_ok bytes bs f" "chain (fs_clusters f + 2) (entry bytes f) s (xs @ [cur])"
    "append_cluster env f cur fast = (r, f')" "ready f' \<noteq> 0"
  shows "table_ok bytes bs f' \<and>
    (if r = 0 then
       (\<exists>c. entry bytes f c = 0 \<and> chain (fs_clusters f + 2) (entry bytes f') s (xs @ [cur, c])) \<and>
       (\<forall>t ys. chain (fs_clusters f + 2) (entry bytes f) t ys \<and> cur \<notin> set ys \<longrightarrow> chain (fs_clusters f + 2) (entry bytes f') t ys)
     else
       (\<forall>q < fs_clusters f + 2. entry bytes f' q = entry bytes f q) \<and>
       (r = FAT_NOT_ENOUGH_SPACE \<and> (\<forall>c. 2 \<le> c \<longrightarrow> c < fs_clusters f + 2 \<longrightarrow> entry bytes f c \<noteq> 0) \<or>
        \<not> fast \<and> r \<in> {FAT_INCONSISTENT_STATE, FAT_BLOCK_WRITE_ERROR}))"
proof -
  let ?n = "fs_clusters f + 2" and ?m = "entry bytes f"
  have e: "0x0FFFFFF8 \<le> ?m cur" "cur < ?n" using chain_entry [OF assms(3)] by auto
  from assms(1) tracksI [OF assms(2)] e(2,1) assms(4) show ?thesis
  proof (cases rule: append_cluster_main)
    case failed
    then show ?thesis using assms(5) by simp
  next
    case full
    then show ?thesis using tracksD [OF full(3)] by (simp add: FAT_NOT_ENOUGH_SPACE_def)
  next
    case unchanged
    then show ?thesis using tracksD [OF unchanged(3)] by (auto simp: FAT_INCONSISTENT_STATE_def FAT_BLOCK_WRITE_ERROR_def)
  next
    case (appended c)
    note ch = tracks_chain [OF appended(5)]
    have c: "c < 0x0FFFFFF8" using stored_next(2) [OF table_okD(1) [OF assms(2)] appended(3)] .
    have "c \<notin> set (xs @ [cur])" using chain_bound [OF assms(3), of c] appended(4) by blast
    then have "chain ?n (entry bytes f') s (xs @ [cur, c])"
      unfolding ch by (rule chain_snoc [OF assms(3) _ appended(2,3) c]) simp
    moreover have "chain ?n (entry bytes f') t ys" if a: "chain ?n ?m t ys" "cur \<notin> set ys" for t ys
    proof -
      have "c \<notin> set ys" using chain_bound [OF a(1), of c] appended(4) by blast
      then have "\<forall>x \<in> set ys. (?m(c := 0x0FFFFFFF, cur := c)) x = ?m x" using a(2) by auto
      then show ?thesis unfolding ch using chain_cong a(1) by metis
    qed
    ultimately show ?thesis using tracksD(2) [OF appended(5)] appended(1,4) by auto
  qed
qed

subsection \<open>Deleting\<close>

lemma load_window_offset: "load_window env off2 f = (r, f') \<Longrightarrow> table_offset f' = off2"
  by (auto simp: load_window_def Let_def split: if_splits prod.splits)

lemma read_table_buffer_offset:
  assumes "read_table_buffer env f toff = (0, off, f')"
  shows "table_offset f' = toff AND 0xFFFE0000"
  using assms by (auto simp: read_table_buffer_def Let_def FAT_INCONSISTENT_STATE_def FAT_BLOCK_WRITE_ERROR_def
    dest: load_window_offset split: if_splits prod.splits)

text \<open>Storing the entry that has just been read cannot fail: its window is there.\<close>

lemma set_after_get:
  assumes "get_table_value env f off = (v, f1)" "v \<noteq> 1" "layout f1 = layout f" "set_table_value env f1 off w = (r, f2)"
  shows "r = 0"
proof -
  note l = layout_simps(10,14,15,16) [OF assms(3)]
  have off: "off < fs_clusters f + 2" using assms(1,2) by (auto simp: get_table_value_def split: if_splits)
  consider "type_12 f" | "\<not> type_12 f" "type_16 f" | "\<not> type_12 f" "\<not> type_16 f" "type_32 f" | "\<not> type_12 f" "\<not> type_16 f" "\<not> type_32 f"
    by blast
  then show ?thesis
  proof cases
    case 1
    then show ?thesis using assms(4) off by (auto simp: set_table_value_def Let_def l)
  next
    case 2
    then show ?thesis using assms(4) off by (auto simp: set_table_value_def Let_def l)
  next
    case 4
    then have "v = 1" using assms(1) by (auto simp: get_table_value_def split: if_splits)
    with assms(2) show ?thesis by simp
  next
    case 3
    obtain r1 a g where g: "read_table_buffer env f (push_bit 2 off) = (r1, a, g)" by (cases "read_table_buffer env f (push_bit 2 off)")
    have "r1 = 0" "f1 = g" using assms(1,2) off 3 g by (auto simp: get_table_value_def split: if_splits)
    then have "table_offset f1 = push_bit 2 off AND 0xFFFE0000" using g read_table_buffer_offset [of env f "push_bit 2 off" a g] by simp
    then have "read_table_buffer env f1 (push_bit 2 off) = (0, push_bit 2 off AND 0x0001FFFF, f1)"
      by (simp add: read_table_buffer_def Let_def)
    then show ?thesis using assms(4) off 3 by (simp add: set_table_value_def Let_def l)
  qed
qed

lemma delete_step_main:
  assumes "block_device env bytes bs" "tracks bytes bs f0 m f" "delete_step env c f = (v, f')"
  obtains (failed) "v < 2" "ready f' = 0"
    | (outside) "\<not> c < fs_clusters f0 + 2" "v < 2" "tracks bytes bs f0 m f'" "ready f' = ready f"
    | (deleted) "c < fs_clusters f0 + 2" "v = m c" "tracks bytes bs f0 (m(c := 0)) f'" "ready f' = ready f"
proof -
  define f1 where "f1 = wipe_cluster env c f"
  obtain v2 f2 where 2: "get_table_value env f1 c = (v2, f2)" by (cases "get_table_value env f1 c")
  obtain r3 f3 where 3: "set_table_value env f2 c 0 = (r3, f3)" by (cases "set_table_value env f2 c 0")
  have v: "v = v2" "f' = f3" using assms(3) unfolding delete_step_def f1_def [symmetric] 2 prod.case 3 by auto
  note t = tracksD [OF assms(2)]
  have s1: "data_step bytes f f1" unfolding f1_def by (rule wipe_cluster_step [OF assms(1) t(2)])
  have t1: "tracks bytes bs f0 m f1" by (rule tracks_data [OF s1 assms(2)])
  have r1: "ready f1 = ready f" using s1 by (simp add: data_step_def)
  show thesis
  proof (cases "c < fs_clusters f0 + 2")
    case False
    then have "v2 = 1" "f2 = f1" using 2 tracksD(4) [OF t1] by (auto simp: get_table_value_def)
    moreover from this have "f3 = f2" using 3 False tracksD(4) [OF t1] by (auto simp: set_table_value_def Let_def)
    ultimately show thesis using outside [OF False] v t1 r1 by simp
  next
    case True
    from assms(1) t1 True 2 show thesis
    proof (cases rule: tracks_get)
      case failed
      then show thesis using that(1) v ready_set_table_value [of f2 env c 0] 3 by simp
    next
      case found
      have st: "stored f0 0 = 0" by (simp add: stored_def ext12_def ext16_def)
      from assms(1) found(2) True 3 show thesis
      proof (cases rule: tracks_set)
        case failed
        have "layout f2 = layout f1" using tracksD(1) [OF found(2)] tracksD(1) [OF t1] by simp
        then have "v2 = 1" using set_after_get [OF 2 _ _ 3] failed(1) by blast
        then show thesis using that(1) v failed(2) by simp
      next
        case updated
        then show thesis using that(3) True v found r1 st by simp
      qed
    qed
  qed
qed

lemma delete_loop_main:
  assumes "block_device env bytes bs" "tracks bytes bs f0 m f"
  shows "\<exists>f'. delete_loop env c f = Some f'"
  using assms(2)
proof (induction "card {q. q < fs_clusters f0 + 2 \<and> m q \<noteq> 0}" arbitrary: m c f rule: less_induct)
  case less
  let ?S = "\<lambda>m. {q. q < fs_clusters f0 + 2 \<and> m q \<noteq> (0 :: nat)}"
  obtain v g where g: "delete_step env c f = (v, g)" by (cases "delete_step env c f")
  have e: "delete_loop env c f = (if c \<ge> 2 \<and> c < 0x0FFFFFF8 then delete_loop env v g else Some f)"
    by (subst delete_loop.simps) (simp add: g)
  have small: "delete_loop env v g = Some g" if "v < 2" using that by (subst delete_loop.simps) simp
  have "\<exists>f'. delete_loop env v g = Some f'"
    using assms(1) less(2) g
  proof (cases rule: delete_step_main)
    case deleted
    show ?thesis
    proof (cases "m c = 0")
      case True
      then show ?thesis using small deleted(2) by simp
    next
      case False
      have "?S (m(c := 0)) \<subset> ?S m" using False deleted(1) by auto
      then have "card (?S (m(c := 0))) < card (?S m)" by (intro psubset_card_mono) simp_all
      then show ?thesis by (rule less(1) [OF _ deleted(3)])
    qed
  qed (use small in blast)+
  then show ?case using e by simp
qed

lemma delete_loop_chain:
  assumes "block_device env bytes bs" "tracks bytes bs f0 m f" "chain (fs_clusters f0 + 2) m c xs" "delete_loop env c f = Some f'"
  shows "ready f' = 0 \<or> ready f' = ready f \<and> tracks bytes bs f0 (\<lambda>q. if q \<in> set xs then 0 else m q) f'"
  using assms(2-4)
proof (induction xs arbitrary: c m f)
  case Nil
  then have "f' = f" by (subst (asm) delete_loop.simps) simp
  then show ?case using Nil by simp
next
  case (Cons x xs)
  obtain v g where g: "delete_step env c f = (v, g)" by (cases "delete_step env c f")
  have e: "delete_loop env v g = Some f'" using Cons.prems(2,3) g by (subst (asm) delete_loop.simps) simp
  have small: "f' = g" if "v < 2" using e that by (subst (asm) delete_loop.simps) simp
  have x: "x = c" "c \<notin> set xs" using Cons.prems(2) chain_distinct [OF Cons.prems(2)] by auto
  from assms(1) Cons.prems(1) g show ?case
  proof (cases rule: delete_step_main)
    case failed
    then show ?thesis using small by simp
  next
    case outside
    then show ?thesis using Cons.prems(2) by simp
  next
    case deleted
    have ch: "chain (fs_clusters f0 + 2) (m(c := 0)) v xs"
      using Cons.prems(2) x chain_cong [of xs "m(c := 0)" m] deleted(2) by auto
    have "(\<lambda>q. if q \<in> set xs then 0 else (m(c := 0)) q) = (\<lambda>q. if q \<in> set (x # xs) then 0 else m q)"
      using x by auto
    then show ?thesis using Cons.IH [OF deleted(3) ch e] deleted(4) by simp
  qed
qed

lemma write_dirty_last: "last_allocated (snd (write_dirty env strict add i f)) = last_allocated f"
proof (induction env strict add i f rule: write_dirty.induct)
  case (1 env strict add i f)
  show ?case using 1 by (subst write_dirty.simps) (auto simp: Let_def split: prod.splits)
qed

lemma write_table_last: "last_allocated (snd (write_table env f)) = last_allocated f"
proof -
  obtain r1 f1 where 1: "write_dirty env True 0 0 f = (r1, f1)" by (cases "write_dirty env True 0 0 f")
  obtain r2 f2 where 2: "write_dirty env False (fs_table_sectors f1) 0 f1 = (r2, f2)"
    by (cases "write_dirty env False (fs_table_sectors f1) 0 f1")
  have "last_allocated f1 = last_allocated f" "last_allocated f2 = last_allocated f1"
    using write_dirty_last [of env True 0 0 f] 1 write_dirty_last [of env False "fs_table_sectors f1" 0 f1] 2 by simp_all
  then show ?thesis by (simp add: write_table_def 1 2 clear_sectors_def)
qed

text \<open>
  C27. Deleting always ends: for every table content, chains that run in a circle or leave the table
  included, and whatever errors the device reports, since a step that continues has made a used
  entry free.
\<close>

theorem delete_clusters_terminates:
  assumes "block_device env bytes bs" "table_ok bytes bs f"
  shows "\<exists>f'. delete_clusters env f start = Some f'"
  using delete_loop_main [OF assms(1) tracksI [OF assms(2)], of start] by (auto simp: delete_clusters_def)

text \<open>
  C28. Deleting a chain frees exactly its clusters: their entries are 0 afterwards, every other entry
  and every chain disjoint from the deleted one are what they were, and the search for free clusters
  starts at the first cluster again.
\<close>

theorem delete_clusters_correct:
  assumes "block_device env bytes bs" "table_ok bytes bs f" "chain (fs_clusters f + 2) (entry bytes f) start xs"
    "delete_clusters env f start = Some f'" "ready f' \<noteq> 0"
  shows "table_ok bytes bs f' \<and> last_allocated f' = 0 \<and>
    (\<forall>q < fs_clusters f + 2. entry bytes f' q = (if q \<in> set xs then 0 else entry bytes f q)) \<and>
    (\<forall>t ys. chain (fs_clusters f + 2) (entry bytes f) t ys \<and> set ys \<inter> set xs = {} \<longrightarrow> chain (fs_clusters f + 2) (entry bytes f') t ys)"
proof -
  let ?m = "\<lambda>q. if q \<in> set xs then 0 else entry bytes f q"
  obtain g where g: "delete_loop env start f = Some g" "f' = snd (write_table env (g\<lparr>last_allocated := 0\<rparr>))"
    using assms(4) by (auto simp: delete_clusters_def split: option.splits)
  obtain r where w: "write_table env (g\<lparr>last_allocated := 0\<rparr>) = (r, f')" using g(2) by (cases "write_table env (g\<lparr>last_allocated := 0\<rparr>)") simp
  have "ready (g\<lparr>last_allocated := 0\<rparr>) \<noteq> 0" using ready_write_table [of "g\<lparr>last_allocated := 0\<rparr>" env] assms(5) g(2) by auto
  then have "tracks bytes bs f ?m g" using delete_loop_chain [OF assms(1) tracksI [OF assms(2)] assms(3) g(1)] by simp
  then have t: "tracks bytes bs f ?m (g\<lparr>last_allocated := 0\<rparr>)" by (rule tracks_last_allocated)
  from assms(1) t w show ?thesis
  proof (cases rule: tracks_write)
    case failed
    then show ?thesis using assms(5) by simp
  next
    case flushed
    have la: "last_allocated f' = 0" using write_table_last [of env "g\<lparr>last_allocated := 0\<rparr>"] w by simp
    have ch: "chain (fs_clusters f + 2) (entry bytes f') t ys" if "chain (fs_clusters f + 2) (entry bytes f) t ys" "set ys \<inter> set xs = {}" for t ys
    proof -
      have "\<forall>x \<in> set ys. ?m x = entry bytes f x" using that(2) by auto
      then show ?thesis unfolding tracks_chain [OF flushed(2)] by (rule chain_cong [THEN iffD2]) (rule that(1))
    qed
    show ?thesis
    proof (intro conjI allI impI)
      show "entry bytes f' q = (if q \<in> set xs then 0 else entry bytes f q)" if "q < fs_clusters f + 2" for q
        by (rule tracksD(3) [OF flushed(2) that])
    qed (use tracksD(2) [OF flushed(2)] la ch in blast)+
  qed
qed

subsection \<open>An example\<close>

text \<open>A FAT12 instance with a file of the clusters 5 and 6, on a device that never fails.\<close>

definition fat12_file :: "(nat \<Rightarrow> u8) fat_instance" where
  "fat12_file = snd (set_table_value ram_env (snd (set_table_value ram_env fat12_sample 5 6)) 6 0x0FFFFFFF)"

lemma full_table_ready:
  assumes "\<not> type_32 f"
  shows "snd (get_table_value env f off) = f" "ready (snd (set_table_value env f off v)) = ready f" "type_32 (snd (set_table_value env f off v)) = type_32 f"
    "ready (wipe_cluster env off f) = ready f" "type_32 (wipe_cluster env off f) = type_32 f"
  using assms by (auto simp: get_table_value_def set_table_value_def wipe_cluster_def read_cluster_def write_cluster_def
    clear_cluster_buffer_def Let_def split: prod.splits)

lemma full_alloc_loop:
  assumes "\<not> type_32 f"
  shows "ready (snd (alloc_loop env n i f)) = ready f \<and> \<not> type_32 (snd (alloc_loop env n i f))"
  using assms
proof (induction env n i f rule: alloc_loop.induct)
  case (1 env n i f)
  obtain v where g: "get_table_value env f i = (v, f)" using full_table_ready(1) [OF 1(2), of env i]
    by (cases "get_table_value env f i") simp
  show ?case using 1(1) [OF _ g [symmetric]] 1(2) g by (subst (1 2) alloc_loop.simps) simp
qed

lemma full_append_ready:
  assumes "\<not> type_32 f"
  shows "ready (snd (append_cluster env f cur True)) = ready f"
proof -
  obtain v where g: "get_table_value env f cur = (v, f)" using full_table_ready(1) [OF assms, of env cur]
    by (cases "get_table_value env f cur") simp
  define n where "n = fs_clusters f + 2"
  define start where "start = (if last_allocated f > 2 then alloc_loop env n (last_allocated f) f else (None, f))"
  obtain o1 f1 where 1: "start = (o1, f1)" by (cases start)
  have f1: "ready f1 = ready f" "\<not> type_32 f1"
    using full_alloc_loop [OF assms, of env n "last_allocated f"] 1 assms by (auto simp: start_def split: if_splits)
  obtain o2 f2 where 2: "alloc_loop env n 2 f1 = (o2, f2)" by (cases "alloc_loop env n 2 f1")
  have f2: "ready f2 = ready f" "\<not> type_32 f2" using full_alloc_loop [OF f1(2), of env n 2] 2 f1(1) by auto
  obtain r3 c f3 where 3: "allocate_cluster env f = (r3, c, f3)" by (cases "allocate_cluster env f")
  have f3: "ready f3 = ready f" "\<not> type_32 f3"
    using 3 f1 f2 unfolding allocate_cluster_def Let_def n_def [symmetric] start_def [symmetric] 1 prod.case 2
    by (auto split: option.splits)
  obtain r4 f4 where 4: "set_table_value env f3 c 0x0FFFFFFF = (r4, f4)" by (cases "set_table_value env f3 c 0x0FFFFFFF")
  have f4: "ready f4 = ready f" "\<not> type_32 f4" using full_table_ready(2,3) [OF f3(2), of env c "0x0FFFFFFF"] 4 f3 by auto
  obtain r5 f5 where 5: "set_table_value env f4 cur c = (r5, f5)" by (cases "set_table_value env f4 cur c")
  have f5: "ready f5 = ready f" using full_table_ready(2) [OF f4(2), of env cur c] 5 f4 by auto
  show ?thesis using f3 f4 f5 unfolding append_cluster_def g prod.case 3 clear_cluster_def link_cluster_def by (simp add: 4 5)
qed

lemma full_delete_loop_ready:
  assumes "delete_loop env c f = Some f'" "\<not> type_32 f"
  shows "ready f' = ready f"
  using assms(2)
proof (induction rule: delete_loop.raw_induct [OF _ assms(1)])
  case (1 loop env c f f')
  let ?g = "wipe_cluster env c f"
  have g: "ready ?g = ready f" "\<not> type_32 ?g" using full_table_ready(4,5) [OF 1(3)] 1(3) by auto
  obtain v where v: "get_table_value env ?g c = (v, ?g)" using full_table_ready(1) [OF g(2), of env c]
    by (cases "get_table_value env ?g c") simp
  have s: "ready (snd (set_table_value env ?g c 0)) = ready f" "\<not> type_32 (snd (set_table_value env ?g c 0))"
    using full_table_ready(2,3) [OF g(2), of env c 0] g by auto
  have d: "delete_step env c f = (v, snd (set_table_value env ?g c 0))" by (simp add: delete_step_def v)
  show ?case using 1(1) [of env v "snd (set_table_value env ?g c 0)" f'] 1(2) s d by (auto split: if_splits)
qed

lemma fat12_file_ok:
  "table_ok (\<lambda>d. d) 512 fat12_file" "fs_clusters fat12_file = 1000" "\<not> type_32 fat12_file" "ready fat12_file = FAT_READY"
  "q < 1002 \<Longrightarrow> entry (\<lambda>d. d) fat12_file q = (if q = 5 then 6 else if q = 6 then 0x0FFFFFFF else 0)"
  "chain 1002 (entry (\<lambda>d. d) fat12_file) 5 [5, 6]"
proof -
  let ?b = "\<lambda>d :: nat \<Rightarrow> u8. d"
  have s: "fs_clusters fat12_sample = 1000" "type_12 fat12_sample" "\<not> type_32 fat12_sample" "ready fat12_sample = FAT_READY"
    by (simp_all add: fat12_sample_def)
  obtain r1 f1 where 1: "set_table_value ram_env fat12_sample 5 6 = (r1, f1)" by (cases "set_table_value ram_env fat12_sample 5 6")
  obtain r2 f2 where 2: "set_table_value ram_env f1 6 0x0FFFFFFF = (r2, f2)" by (cases "set_table_value ram_env f1 6 0x0FFFFFFF")
  have f: "fat12_file = f2" by (simp add: fat12_file_def 1 2)
  have l1: "5 < fs_clusters fat12_sample + 2" using s by simp
  note A = set_table_value_12 [OF fat12_sample_ok(1) s(2) l1 1]
  note e1 = table_step_simps [OF A(2)]
  have c1: "fs_clusters f1 = 1000" "type_12 f1" "ready f1 = FAT_READY" "\<not> type_32 f1" using s e1(1,4,6,7) by simp_all
  have l2: "6 < fs_clusters f1 + 2" using c1 by simp
  note B = set_table_value_12 [OF A(3) c1(2) l2 2]
  note e2 = table_step_simps [OF B(2)]
  show "table_ok ?b 512 fat12_file" unfolding f by (rule B(3))
  show "fs_clusters fat12_file = 1000" "\<not> type_32 fat12_file" "ready fat12_file = FAT_READY" using c1 e2(1,6,7) by (simp_all add: f)
  have en: "entry ?b fat12_file q = (if q = 5 then 6 else if q = 6 then 0x0FFFFFFF else 0)" if "q < 1002" for q
  proof -
    have "stored fat12_sample 6 = 6" "stored f1 0x0FFFFFFF = 0x0FFFFFFF" using s c1 by (simp_all add: stored_def ext12_def)
    then have "entry ?b f1 q = (if q = 5 then 6 else 0)" "entry ?b f2 q = (if q = 6 then 0x0FFFFFFF else entry ?b f1 q)"
      using A(4) [of q] B(4) [of q] that s c1 fat12_sample_entry [of q] by simp_all
    then show ?thesis unfolding f by (cases "q = 5"; cases "q = 6") simp_all
  qed
  then show "q < 1002 \<Longrightarrow> entry ?b fat12_file q = (if q = 5 then 6 else if q = 6 then 0x0FFFFFFF else 0)" .
  show "chain 1002 (entry ?b fat12_file) 5 [5, 6]" using en [of 5] en [of 6] by simp
qed

theorem append_cluster_correct_witness:
  "\<exists>c f'. append_cluster ram_env fat12_file 6 True = (0, f') \<and> c \<notin> {5, 6} \<and> chain 1002 (entry (\<lambda>d. d) f') 5 [5, 6, c]"
proof -
  obtain r f' where a: "append_cluster ram_env fat12_file 6 True = (r, f')" by (cases "append_cluster ram_env fat12_file 6 True")
  have "ready f' \<noteq> 0" using full_append_ready [OF fat12_file_ok(3), of ram_env 6] a fat12_file_ok(4) by (simp add: FAT_READY_def)
  from append_cluster_correct [OF ram_device fat12_file_ok(1) _ a this, of 5 "[5]"]
  have c: "if r = 0 then \<exists>c. entry (\<lambda>d. d) fat12_file c = 0 \<and> chain 1002 (entry (\<lambda>d. d) f') 5 [5, 6, c]
    else \<forall>c. 2 \<le> c \<longrightarrow> c < 1002 \<longrightarrow> entry (\<lambda>d. d) fat12_file c \<noteq> 0"
    using fat12_file_ok(2,6) by (auto split: if_splits)
  have z: "entry (\<lambda>d. d) fat12_file 2 = 0" "entry (\<lambda>d. d) fat12_file 5 \<noteq> 0" "entry (\<lambda>d. d) fat12_file 6 \<noteq> 0"
    using fat12_file_ok(5) [of 2] fat12_file_ok(5) [of 5] fat12_file_ok(5) [of 6] by auto
  have "r = 0" using c z(1) by (cases "r = 0") (auto dest: spec [of _ 2])
  then obtain c where "entry (\<lambda>d. d) fat12_file c = 0" "chain 1002 (entry (\<lambda>d. d) f') 5 [5, 6, c]" using c by auto
  moreover have "c \<noteq> 5" "c \<noteq> 6" using calculation(1) z by auto
  ultimately show ?thesis using a \<open>r = 0\<close> by (intro exI [of _ c] exI [of _ f']) (simp del: chain.simps)
qed

theorem delete_clusters_terminates_witness: "\<exists>f'. delete_clusters ram_env fat12_file 5 = Some f'"
  by (rule delete_clusters_terminates [OF ram_device fat12_file_ok(1)])

theorem delete_clusters_correct_witness:
  "\<exists>f'. delete_clusters ram_env fat12_file 5 = Some f' \<and> entry (\<lambda>d. d) f' 5 = 0 \<and> entry (\<lambda>d. d) f' 6 = 0 \<and> last_allocated f' = 0"
proof -
  let ?b = "\<lambda>d :: nat \<Rightarrow> u8. d"
  have n: "fs_clusters fat12_file + 2 = 1002" using fat12_file_ok(2) by simp
  have ch: "chain (fs_clusters fat12_file + 2) (entry ?b fat12_file) 5 [5, 6]" using fat12_file_ok(6) unfolding n .
  obtain g where g: "delete_loop ram_env 5 fat12_file = Some g"
    using delete_loop_main [OF ram_device tracksI [OF fat12_file_ok(1)]] by blast
  have rg: "ready g = FAT_READY" using full_delete_loop_ready [OF g fat12_file_ok(3)] fat12_file_ok(4) by simp
  then have "ready g \<noteq> 0" by (simp add: FAT_READY_def)
  then have t: "table_ok ?b 512 (g\<lparr>last_allocated := 0\<rparr>)"
    using delete_loop_chain [OF ram_device tracksI [OF fat12_file_ok(1)] ch g] tracks_last_allocated tracksD(2) by blast
  obtain f' where w: "write_table ram_env (g\<lparr>last_allocated := 0\<rparr>) = (0, f')"
    using ram_write_table [of "g\<lparr>last_allocated := 0\<rparr>"] by (cases "write_table ram_env (g\<lparr>last_allocated := 0\<rparr>)") simp
  have rd: "ready f' \<noteq> 0" using write_table_ready [OF ram_device t w] rg by (simp add: FAT_READY_def)
  have d: "delete_clusters ram_env fat12_file 5 = Some f'" by (simp add: delete_clusters_def g w)
  have q: "5 < fs_clusters fat12_file + 2" "6 < fs_clusters fat12_file + 2" using fat12_file_ok(2) by simp_all
  have "entry ?b f' 5 = 0 \<and> entry ?b f' 6 = 0 \<and> last_allocated f' = 0"
    using delete_clusters_correct [OF ram_device fat12_file_ok(1) ch d rd] q by simp
  then show ?thesis using d by blast
qed

end
