(* ===== verification/Fat_Name.thy ===== *)
theory Fat_Name
  imports Fat_Table
begin

text \<open>
  Names and time stamps, \<^verbatim>\<open>src/common/fat.c\<close>: the split of a path into the 11-byte names of
  directory records, the check for reserved names, the mode string of \<^verbatim>\<open>fat_open\<close>, and the packed date
  and time of a record. A C string is the list of its bytes before the terminator; the character
  beyond the end of a list is the terminator.
\<close>

subsection \<open>Time stamps\<close>

text \<open>The loop over the digits \<open>i\<close> to \<open>len\<close> of the string that starts at \<open>off\<close>; \<open>-1\<close> if one is no digit.\<close>

function number_loop :: "u8 list \<Rightarrow> nat \<Rightarrow> nat \<Rightarrow> nat \<Rightarrow> int \<Rightarrow> int" where
  "number_loop str off len i val =
    (if i < len then
       let c = str ! (off + i) in
       if c < 48 \<or> c > 57 then -1
       else number_loop str off len (i + 1) (val * 10 + (uint c - 48))
     else val)"
  by pat_completeness auto
termination
  by (relation "measure (\<lambda>(str, off, len, i, val). len - i)") auto

declare number_loop.simps [simp del]

definition parse_number :: "u8 list \<Rightarrow> nat \<Rightarrow> nat \<Rightarrow> int" where
  "parse_number str off len = number_loop str off len 0 0"

text \<open>The date and time words of the current time, or of 1980-01-01 if it is not valid.\<close>

definition time_words :: "int \<times> u8 list \<Rightarrow> nat \<times> nat" where
  "time_words now =
    (case now of
       (r, stamp) \<Rightarrow>
     let stamp = (if r \<noteq> 0 then replicate 19 0 else stamp);
         err = (r \<noteq> 0 \<or> stamp ! 4 \<noteq> 45 \<or> stamp ! 7 \<noteq> 45 \<or> stamp ! 10 \<noteq> 84 \<or> stamp ! 13 \<noteq> 58 \<or> stamp ! 16 \<noteq> 58);
         year = parse_number stamp 0 4; mon = parse_number stamp 5 2; day = parse_number stamp 8 2;
         hour = parse_number stamp 11 2; mn = parse_number stamp 14 2; sec = parse_number stamp 17 2;
         (year, mon, day, hour, mn, sec) =
           (if year > 2099 then (2099, 12, 31, 23, 59, 58) else (year, mon, day, hour, mn, sec));
         err = (err \<or> \<not> (mon \<ge> 1 \<and> mon \<le> 12) \<or> \<not> (day \<ge> 1 \<and> day \<le> 31) \<or> \<not> (hour \<ge> 0 \<and> hour \<le> 23) \<or>
           \<not> (mn \<ge> 0 \<and> mn \<le> 59) \<or> \<not> (sec \<ge> 0 \<and> sec \<le> 59));
         (year, mon, day, hour, mn, sec) =
           (if err \<or> year < 1980 then (1980, 1, 1, 0, 0, 0) else (year, mon, day, hour, mn, sec));
         fat_date = (day AND 0x1F) OR push_bit 5 (mon AND 0x0F) OR push_bit 9 ((year - 1980) AND 0x7F);
         fat_time = (drop_bit 1 sec AND 0x1F) OR push_bit 5 (mn AND 0x3F) OR push_bit 11 (hour AND 0x1F)
     in (nat fat_date, nat fat_time))"

definition write_timestamps :: "int \<times> u8 list \<Rightarrow> u8 list \<Rightarrow> bool \<Rightarrow> bool \<Rightarrow> u8 list" where
  "write_timestamps now ent created modified =
    (case time_words now of
       (fat_date, fat_time) \<Rightarrow>
     let ent = W_LE16 ent 18 fat_date;
         ent = (if created then W_LE16 (W_LE16 ent 14 fat_time) 16 fat_date else ent)
     in (if modified then W_LE16 (W_LE16 ent 22 fat_time) 24 fat_date else ent))"

subsection \<open>Names\<close>

definition head_char :: "u8 list \<Rightarrow> u8" where
  "head_char s = (case s of [] \<Rightarrow> 0 | c # _ \<Rightarrow> c)"

fun fat_strncmp :: "u8 list \<Rightarrow> u8 list \<Rightarrow> nat \<Rightarrow> int" where
  "fat_strncmp s1 s2 0 = 0"
| "fat_strncmp s1 s2 (Suc n) =
    (let c1 = head_char s1; c2 = head_char s2 in
     if n = 0 \<or> c1 = 0 \<or> c1 \<noteq> c2 then
       if c1 = 0 \<and> c2 = 0 then 0
       else if c1 < c2 then -1
       else if c1 > c2 then 1
       else fat_strncmp (tl s1) (tl s2) n
     else fat_strncmp (tl s1) (tl s2) n)"

definition ascii :: "string \<Rightarrow> u8 list" where
  "ascii s = map (\<lambda>c. word_of_nat (of_char c)) s"

text \<open>The lengths in the source's table are those of the strings.\<close>

definition reserved_names :: "u8 list list" where
  "reserved_names = map ascii [''AUX '', ''COM1 '', ''COM2 '', ''COM3 '', ''COM4 '', ''COM5 '', ''COM6 '', ''COM7 '', ''COM8 '',
    ''COM9 '', ''CON '', ''LPT1 '', ''LPT2 '', ''LPT3 '', ''LPT4 '', ''LPT5 '', ''LPT6 '', ''LPT7 '', ''LPT8 '', ''LPT9 '', ''NUL '', ''PRN '']"

definition check_reserved_name :: "u8 list \<Rightarrow> bool" where
  "check_reserved_name name \<longleftrightarrow>
    name ! 8 = 32 \<and> (\<exists>n \<in> set reserved_names. fat_strncmp name n (length n) = 0)"

definition empty_name :: fat_name where
  "empty_name = \<lparr>nm_name = replicate 12 0, nm_length = 0, nm_is_dir = False\<rparr>"

definition upper :: "u8 \<Rightarrow> u8" where
  "upper c = (if c \<ge> 0x61 \<and> c \<le> 0x7A then c - 32 else c)"

datatype 'a path_result = Path_error | Path_overrun | Path_ok 'a

definition parent_dir :: "fat_name list \<Rightarrow> nat \<Rightarrow> fat_name list \<times> nat \<times> nat" where
  "parent_dir path entries =
    (let path = path[entries := empty_name] in
     if entries > 0 then (path[entries - 1 := empty_name], entries - 1, 0) else (path, entries, 0))"

text \<open>
  One character of the path: \<open>state\<close> is 0 at the start of a name, 1 and 2 after one and two
  periods, and 3 inside a name; \<open>eos\<close> says whether the terminator follows. \<^const>\<open>Path_error\<close> is the
  error return, \<^const>\<open>Path_overrun\<close> an access outside of the buffer or of the twelve characters of a name, which
  C leaves undefined. The \<^verbatim>\<open>break\<close> of the source leaves a loop that ends there anyway.
\<close>

definition path_step :: "u8 \<Rightarrow> bool \<Rightarrow> fat_name list \<times> nat \<times> nat \<Rightarrow> (fat_name list \<times> nat \<times> nat) path_result" where
  "path_step c0 eos s =
    (case s of
       (path, entries, state) \<Rightarrow>
     if length path \<le> entries then Path_overrun
     else let len = nm_length (path ! entries) in
     if c0 \<le> 0x20 \<or> c0 > 0x7E \<or> entries \<ge> 255 then Path_error
     else
       let c = upper c0 in
       if c \<in> set (ascii ''<>:'') \<or> c = 34 then Path_error
       else if c = 92 \<or> c \<in> set (ascii ''|?*'') then Path_error
       else if c \<noteq> 47 \<and> len > 11 then Path_error
       else if c \<noteq> 47 \<and> length (nm_name (path ! entries)) \<le> len then Path_overrun
       else
         let path = (if c \<noteq> 47 then path[entries := (path ! entries)\<lparr>nm_name := (nm_name (path ! entries))[len := c], nm_length := len + 1\<rparr>] else path);
             len = (if c \<noteq> 47 then len + 1 else len)
         in
         if state = 0 \<and> c = 46 then
           if \<not> eos then Path_ok (path, entries, 1) else Path_ok (path[entries := empty_name], entries, 0)
         else if state = 1 \<and> c = 47 then Path_ok (path[entries := empty_name], entries, 0)
         else if state = 1 \<and> c = 46 then
           if \<not> eos then Path_ok (path, entries, 2) else Path_ok (parent_dir path entries)
         else if state = 2 \<and> c = 47 then Path_ok (parent_dir path entries)
         else if c = 47 then
           if len > 0 then
             if length path \<le> entries + 1 then Path_overrun
             else Path_ok (path[entries := (path ! entries)\<lparr>nm_is_dir := True\<rparr>, entries + 1 := empty_name], entries + 1, 0)
           else Path_ok (path, entries, 0)
         else Path_ok (path, if eos then entries + 1 else entries, 3))"

fun path_loop :: "u8 list \<Rightarrow> fat_name list \<times> nat \<times> nat \<Rightarrow> (fat_name list \<times> nat \<times> nat) path_result" where
  "path_loop [] s = Path_ok s"
| "path_loop (c # cs) s =
    (case path_step c (cs = []) s of
       Path_error \<Rightarrow> Path_error
     | Path_overrun \<Rightarrow> Path_overrun
     | Path_ok s \<Rightarrow> path_loop cs s)"

text \<open>The position of the last period, 0 if there is none behind the first character.\<close>

fun dot_pos :: "u8 list \<Rightarrow> nat \<Rightarrow> nat" where
  "dot_pos name 0 = 0"
| "dot_pos name (Suc j) = (if name ! Suc j = 46 then Suc j else dot_pos name j)"

text \<open>The name in the form of a directory record: eight bytes, three bytes, padded with spaces.\<close>

definition record_name :: "fat_name \<Rightarrow> fat_name option" where
  "record_name p =
    (let name = nm_name p; len = nm_length p; j = dot_pos name 11 in
     if j > 8 \<or> j = 0 \<and> len > 8 then None
     else if j \<noteq> 0 \<and> len > j + 4 then None
     else
       let name = (if j \<noteq> 0 then (name[j := 0, j + 1 := 0, j + 2 := 0, j + 3 := 0])
                     [8 := name ! (j + 1), 9 := name ! (j + 2), 10 := name ! (j + 3)] else name);
           name = map (\<lambda>c. if c = 0 then 32 else c) (take 11 name) @ [0]
       in
       if \<forall>c \<in> set (take 8 name). c = 32 \<or> c = 46 then None
       else if check_reserved_name name then None
       else Some (p\<lparr>nm_name := name\<rparr>))"

fun record_names :: "fat_name list \<Rightarrow> fat_name list option" where
  "record_names [] = Some []"
| "record_names (p # ps) =
    (case record_name p of
       None \<Rightarrow> None
     | Some p \<Rightarrow> (case record_names ps of None \<Rightarrow> None | Some ps \<Rightarrow> Some (p # ps)))"

text \<open>
  An error leaves \<^verbatim>\<open>path_entries\<close> 0; what it leaves in the buffer is not kept, since every use of the
  buffer follows a call that succeeds. The result -1 stands for undefined behaviour.
\<close>

definition fill_path_buffer :: "'d fat_instance \<Rightarrow> u8 list \<Rightarrow> int \<times> 'd fat_instance" where
  "fill_path_buffer f name =
    (case path_loop name ((path_buffer f)[0 := empty_name], 0, 0) of
       Path_error \<Rightarrow> (1, f\<lparr>path_entries := 0\<rparr>)
     | Path_overrun \<Rightarrow> (-1, f)
     | Path_ok (path, entries, state) \<Rightarrow>
         case record_names (take entries path) of
           None \<Rightarrow> (1, f\<lparr>path_entries := 0\<rparr>)
         | Some names \<Rightarrow>
             (if entries = 0 then 1 else 0, f\<lparr>path_buffer := names @ drop entries path, path_entries := entries\<rparr>))"

subsection \<open>Modes\<close>

definition mode_bits :: "u8 \<Rightarrow> nat option" where
  "mode_bits c =
    (if c = 97 then Some (MODE_APPEND OR MODE_CREATE OR MODE_MODIFY)
     else if c = 98 then Some 0
     else if c = 114 then Some MODE_READ
     else if c = 119 then Some (MODE_CREATE OR MODE_MODIFY OR MODE_WRITE)
     else if c = 43 then Some MODE_MODIFY
     else None)"

text \<open>The loop over the letters: each at most once; \<open>seen\<close> holds the earlier ones.\<close>

fun mode_loop :: "u8 list \<Rightarrow> u8 list \<Rightarrow> nat \<Rightarrow> (nat \<times> u8 list) option" where
  "mode_loop [] seen mode = Some (mode, seen)"
| "mode_loop (c # cs) seen mode =
    (case mode_bits c of
       None \<Rightarrow> None
     | Some bits \<Rightarrow> if c \<in> set seen then None else mode_loop cs (c # seen) (mode OR bits))"

text \<open>The mode of the descriptor, 0 with the error return.\<close>

definition parse_mode :: "u8 list \<Rightarrow> int \<times> nat" where
  "parse_mode mode =
    (case mode_loop mode [] 0 of
       None \<Rightarrow> (1, 0)
     | Some (bits, seen) \<Rightarrow>
         let mode_a = (if 97 \<in> set seen then 1 else 0 :: nat);
             mode_r = (if 114 \<in> set seen then 1 else 0);
             mode_w = (if 119 \<in> set seen then 1 else 0)
         in if mode_a + mode_r + mode_w \<noteq> 1 then (1, 0) else (0, bits))"

subsection \<open>The packed date and time\<close>

lemma pack_int:
  fixes a b :: int
  assumes "0 \<le> a" "a < 2 ^ n" "0 \<le> b"
  shows "a OR push_bit n b = a + 2 ^ n * b"
  using or_disjoint_add [OF assms(1,2), of b] by (simp add: or.commute mult.commute)

lemma pack_date:
  assumes "1980 \<le> year" "year \<le> 2099" "0 \<le> mon" "mon < 16" "0 \<le> day" "day < 32"
  shows "nat ((day AND 0x1F) OR push_bit 5 (mon AND 0x0F) OR push_bit 9 ((year - 1980) AND 0x7F)) =
    nat day + 32 * nat mon + 512 * nat (year - 1980)"
proof -
  have 1: "day AND 0x1F = day" "mon AND 0x0F = mon" "(year - 1980) AND 0x7F = year - 1980"
    using assms by (simp_all add: and_mask_int)
  have 2: "day OR push_bit 5 mon = day + 32 * mon" using pack_int [of day 5 mon] assms by simp
  have 3: "(day + 32 * mon) OR push_bit 9 (year - 1980) = day + 32 * mon + 512 * (year - 1980)"
    using pack_int [of "day + 32 * mon" 9 "year - 1980"] assms by simp
  show ?thesis unfolding 1 or.assoc [symmetric] 2 3 using assms by (simp add: nat_add_distrib nat_mult_distrib)
qed

lemma pack_time:
  assumes "0 \<le> hour" "hour < 32" "0 \<le> mn" "mn < 64" "0 \<le> sec" "sec < 64"
  shows "nat ((drop_bit 1 sec AND 0x1F) OR push_bit 5 (mn AND 0x3F) OR push_bit 11 (hour AND 0x1F)) =
    nat sec div 2 + 32 * nat mn + 2048 * nat hour"
proof -
  have s: "drop_bit 1 sec = sec div 2" by (simp add: drop_bit_eq_div)
  have 1: "sec div 2 AND 0x1F = sec div 2" "mn AND 0x3F = mn" "hour AND 0x1F = hour"
    using assms by (simp_all add: and_mask_int)
  have 2: "sec div 2 OR push_bit 5 mn = sec div 2 + 32 * mn" using pack_int [of "sec div 2" 5 mn] assms by simp
  have 3: "(sec div 2 + 32 * mn) OR push_bit 11 hour = sec div 2 + 32 * mn + 2048 * hour"
    using pack_int [of "sec div 2 + 32 * mn" 11 hour] assms by simp
  show ?thesis unfolding s 1 or.assoc [symmetric] 2 3 using assms by (simp add: nat_add_distrib nat_mult_distrib nat_div_distrib)
qed

text \<open>The numbers of a time stamp and their check.\<close>

definition valid_time :: "nat \<Rightarrow> nat \<Rightarrow> nat \<Rightarrow> nat \<Rightarrow> nat \<Rightarrow> nat \<Rightarrow> bool" where
  "valid_time year mon day hour mn sec \<longleftrightarrow> 1980 \<le> year \<and> year \<le> 2099 \<and> 1 \<le> mon \<and> mon \<le> 12 \<and> 1 \<le> day \<and> day \<le> 31 \<and>
    hour \<le> 23 \<and> mn \<le> 59 \<and> sec \<le> 59"

definition date_word :: "nat \<Rightarrow> nat \<Rightarrow> nat \<Rightarrow> nat" where
  "date_word year mon day = day + 32 * mon + 512 * (year - 1980)"

definition time_word :: "nat \<Rightarrow> nat \<Rightarrow> nat \<Rightarrow> nat" where
  "time_word hour mn sec = sec div 2 + 32 * mn + 2048 * hour"

definition digit :: "nat \<Rightarrow> u8" where
  "digit n = word_of_nat (48 + n mod 10)"

definition time_stamp :: "nat \<Rightarrow> nat \<Rightarrow> nat \<Rightarrow> nat \<Rightarrow> nat \<Rightarrow> nat \<Rightarrow> u8 list" where
  "time_stamp year mon day hour mn sec =
    [digit (year div 1000), digit (year div 100), digit (year div 10), digit year, 45, digit (mon div 10), digit mon, 45,
     digit (day div 10), digit day, 84, digit (hour div 10), digit hour, 58, digit (mn div 10), digit mn, 58,
     digit (sec div 10), digit sec]"

lemma digit_simps: "\<not> digit n < 48" "\<not> digit n > 57" "uint (digit n) - 48 = int (n mod 10)"
proof -
  have k: "unat (word_of_nat k :: u8) = k mod 256" for k by (simp add: unat_of_nat)
  have "n mod 10 < 10" by simp
  then have u: "unat (digit n) = 48 + n mod 10" unfolding digit_def k by simp
  show "\<not> digit n < 48" "\<not> digit n > 57" by (simp_all add: word_less_nat_alt u)
  show "uint (digit n) - 48 = int (n mod 10)" using u by (metis add_diff_cancel_left' of_nat_add of_nat_numeral uint_nat)
qed

lemma parse_2: "parse_number s off 2 =
    (if s ! off < 48 \<or> s ! off > 57 then -1 else if s ! (off + 1) < 48 \<or> s ! (off + 1) > 57 then -1
     else 10 * (uint (s ! off) - 48) + (uint (s ! (off + 1)) - 48))"
  unfolding parse_number_def by (simp add: number_loop.simps [of s off 2] Let_def)

lemma number_loop_step: "i < len \<Longrightarrow> \<not> str ! (off + i) < 48 \<Longrightarrow> \<not> str ! (off + i) > 57 \<Longrightarrow>
    number_loop str off len i v = number_loop str off len (Suc i) (v * 10 + (uint (str ! (off + i)) - 48))"
  by (subst number_loop.simps) (simp add: Let_def)

lemma number_loop_end: "\<not> i < len \<Longrightarrow> number_loop str off len i v = v"
  by (subst number_loop.simps) simp

lemma parse_two:
  assumes "s ! off = digit (n div 10)" "s ! (off + 1) = digit n" "n < 100"
  shows "parse_number s off 2 = int n"
proof -
  have "n div 10 * 10 + n mod 10 = n" by simp
  then have "10 * int (n div 10) + int (n mod 10) = int n" by (metis of_nat_add of_nat_mult of_nat_numeral mult.commute)
  moreover have "n div 10 mod 10 = n div 10" using assms(3) by simp
  ultimately show ?thesis unfolding parse_2 assms(1,2) by (simp add: digit_simps)
qed

lemma parse_stamp:
  assumes "year < 10000" "mon < 100" "day < 100" "hour < 100" "mn < 100" "sec < 100"
  shows "parse_number (time_stamp year mon day hour mn sec) 0 4 = int year" "parse_number (time_stamp year mon day hour mn sec) 5 2 = int mon"
    "parse_number (time_stamp year mon day hour mn sec) 8 2 = int day" "parse_number (time_stamp year mon day hour mn sec) 11 2 = int hour"
    "parse_number (time_stamp year mon day hour mn sec) 14 2 = int mn" "parse_number (time_stamp year mon day hour mn sec) 17 2 = int sec"
proof -
  have four: "((int (year div 1000) * 10 + int (year div 100 mod 10)) * 10 + int (year div 10 mod 10)) * 10 + int (year mod 10) = int year"
  proof -
    have aux: "((x3 * 10 + m2) * 10 + m1) * 10 + m0 = x0" if "x2 = 10 * x3 + m2" "x1 = 10 * x2 + m1" "x0 = 10 * x1 + m0"
      for x0 x1 x2 x3 m0 m1 m2 :: nat using that by simp
    have "((year div 1000 * 10 + year div 100 mod 10) * 10 + year div 10 mod 10) * 10 + year mod 10 = year"
    proof (rule aux)
      show "year div 100 = 10 * (year div 1000) + year div 100 mod 10" using div_mult2_eq [of year 100 10] by simp
      show "year div 10 = 10 * (year div 100) + year div 10 mod 10" using div_mult2_eq [of year 10 10] by simp
      show "year = 10 * (year div 10) + year mod 10" by simp
    qed
    then show ?thesis by (metis of_nat_add of_nat_mult of_nat_numeral)
  qed
  show "parse_number (time_stamp year mon day hour mn sec) 0 4 = int year"
    using four assms(1) by (simp add: mod_less [of "year div 1000" 10] parse_number_def number_loop_step number_loop_end time_stamp_def digit_simps numeral_2_eq_2 numeral_3_eq_3)
  show "parse_number (time_stamp year mon day hour mn sec) 5 2 = int mon" by (rule parse_two) (simp_all add: time_stamp_def assms)
  show "parse_number (time_stamp year mon day hour mn sec) 8 2 = int day" by (rule parse_two) (simp_all add: time_stamp_def assms)
  show "parse_number (time_stamp year mon day hour mn sec) 11 2 = int hour" by (rule parse_two) (simp_all add: time_stamp_def assms)
  show "parse_number (time_stamp year mon day hour mn sec) 14 2 = int mn" by (rule parse_two) (simp_all add: time_stamp_def assms)
  show "parse_number (time_stamp year mon day hour mn sec) 17 2 = int sec" by (rule parse_two) (simp_all add: time_stamp_def assms)
qed


text \<open>Any clock gives a valid date and time, a valid stamp its own.\<close>

lemma time_words_valid:
  "\<exists>year mon day hour mn sec. valid_time year mon day hour mn sec \<and> time_words now = (date_word year mon day, time_word hour mn sec)"
proof -
  obtain r st where now: "now = (r, st)" by (cases now)
  define stamp where "stamp = (if r \<noteq> 0 then replicate 19 0 else st)"
  define e1 where "e1 = (r \<noteq> 0 \<or> stamp ! 4 \<noteq> 45 \<or> stamp ! 7 \<noteq> 45 \<or> stamp ! 10 \<noteq> 84 \<or> stamp ! 13 \<noteq> 58 \<or> stamp ! 16 \<noteq> 58)"
  obtain y mo d h mi s where a: "(if parse_number stamp 0 4 > 2099 then (2099, 12, 31, 23, 59, 58)
    else (parse_number stamp 0 4, parse_number stamp 5 2, parse_number stamp 8 2, parse_number stamp 11 2, parse_number stamp 14 2, parse_number stamp 17 2))
    = (y, mo, d, h, mi, s)" by (metis prod_cases6)
  have ymax: "y \<le> 2099" using a by (auto split: if_splits)
  define e2 where "e2 = (e1 \<or> \<not> (mo \<ge> 1 \<and> mo \<le> 12) \<or> \<not> (d \<ge> 1 \<and> d \<le> 31) \<or> \<not> (h \<ge> 0 \<and> h \<le> 23) \<or> \<not> (mi \<ge> 0 \<and> mi \<le> 59) \<or> \<not> (s \<ge> 0 \<and> s \<le> 59))"
  obtain Y M D H I S where b: "(if e2 \<or> y < 1980 then (1980, 1, 1, 0, 0, 0) else (y, mo, d, h, mi, s)) = (Y, M, D, H, I, S)" by (metis prod_cases6)
  have v: "1980 \<le> Y" "Y \<le> 2099" "1 \<le> M" "M \<le> 12" "1 \<le> D" "D \<le> 31" "0 \<le> H" "H \<le> 23" "0 \<le> I" "I \<le> 59" "0 \<le> S" "S \<le> 59"
    using b ymax by (auto simp: e2_def split: if_splits)
  have "time_words now = (nat ((D AND 0x1F) OR push_bit 5 (M AND 0x0F) OR push_bit 9 ((Y - 1980) AND 0x7F)),
    nat ((drop_bit 1 S AND 0x1F) OR push_bit 5 (I AND 0x3F) OR push_bit 11 (H AND 0x1F)))"
    unfolding time_words_def now prod.case Let_def stamp_def [symmetric] a prod.case
    unfolding e1_def [symmetric] e2_def [symmetric] b prod.case ..
  also have "\<dots> = (date_word (nat Y) (nat M) (nat D), time_word (nat H) (nat I) (nat S))"
    using v pack_date [of Y M D] pack_time [of H I S] by (simp add: date_word_def time_word_def nat_diff_distrib)
  finally show ?thesis using v by (intro exI conjI) (auto simp: valid_time_def)
qed

lemma time_words_stamp:
  assumes "valid_time year mon day hour mn sec"
  shows "time_words (0, time_stamp year mon day hour mn sec) = (date_word year mon day, time_word hour mn sec)"
proof -
  let ?s = "time_stamp year mon day hour mn sec"
  note v = assms[unfolded valid_time_def]
  have p: "parse_number ?s 0 4 = int year" "parse_number ?s 5 2 = int mon" "parse_number ?s 8 2 = int day"
    "parse_number ?s 11 2 = int hour" "parse_number ?s 14 2 = int mn" "parse_number ?s 17 2 = int sec"
    using v by (intro parse_stamp; simp)+
  have c: "?s ! 4 = 45" "?s ! 7 = 45" "?s ! 10 = 84" "?s ! 13 = 58" "?s ! 16 = 58" by (simp_all add: time_stamp_def)
  have "time_words (0, ?s) = (nat ((int day AND 0x1F) OR push_bit 5 (int mon AND 0x0F) OR push_bit 9 ((int year - 1980) AND 0x7F)),
    nat ((drop_bit 1 (int sec) AND 0x1F) OR push_bit 5 (int mn AND 0x3F) OR push_bit 11 (int hour AND 0x1F)))"
    using v by (simp add: time_words_def Let_def p c del: drop_bit_of_nat push_bit_of_nat)
  also have "\<dots> = (date_word year mon day, time_word hour mn sec)"
    using v pack_date [of "int year" "int mon" "int day"] pack_time [of "int hour" "int mn" "int sec"] by (simp add: date_word_def time_word_def nat_diff_distrib)
  finally show ?thesis .
qed

text \<open>The fields are recovered from the words, the seconds to the even number below.\<close>

lemma word_fields:
  assumes "valid_time year mon day hour mn sec"
  shows "date_word year mon day mod 32 = day" "date_word year mon day div 32 mod 16 = mon" "date_word year mon day div 512 = year - 1980"
    "time_word hour mn sec mod 32 = sec div 2" "time_word hour mn sec div 32 mod 64 = mn" "time_word hour mn sec div 2048 = hour"
    "date_word year mon day < 65536" "time_word hour mn sec < 65536"
proof -
  note v = assms[unfolded valid_time_def]
  have a: "(d + 32 * m + 512 * y) mod 32 = d" "(d + 32 * m + 512 * y) div 32 mod 16 = m" "(d + 32 * m + 512 * y) div 512 = y"
    if "d < 32" "m < 16" for d m y :: nat
  proof -
    have e: "d + 32 * m + 512 * y = d + 32 * (m + 16 * y)" by simp
    show "(d + 32 * m + 512 * y) mod 32 = d" unfolding e mod_mult_self2 using that by simp
    have "(d + 32 * (m + 16 * y)) div 32 = m + 16 * y" using that by (subst div_mult_self2) simp_all
    then show "(d + 32 * m + 512 * y) div 32 mod 16 = m" unfolding e using that by (simp only: mod_mult_self2 mod_less)
    show "(d + 32 * m + 512 * y) div 512 = y" using that by (intro div_nat_eqI) auto
  qed
  have b: "(d + 32 * m + 2048 * y) mod 32 = d" "(d + 32 * m + 2048 * y) div 32 mod 64 = m" "(d + 32 * m + 2048 * y) div 2048 = y"
    if "d < 32" "m < 64" for d m y :: nat
  proof -
    have e: "d + 32 * m + 2048 * y = d + 32 * (m + 64 * y)" by simp
    show "(d + 32 * m + 2048 * y) mod 32 = d" unfolding e mod_mult_self2 using that by simp
    have "(d + 32 * (m + 64 * y)) div 32 = m + 64 * y" using that by (subst div_mult_self2) simp_all
    then show "(d + 32 * m + 2048 * y) div 32 mod 64 = m" unfolding e using that by (simp only: mod_mult_self2 mod_less)
    show "(d + 32 * m + 2048 * y) div 2048 = y" using that by (intro div_nat_eqI) auto
  qed
  show "date_word year mon day mod 32 = day" "date_word year mon day div 32 mod 16 = mon" "date_word year mon day div 512 = year - 1980"
    unfolding date_word_def using a [of day mon "year - 1980"] v by simp_all
  have s: "sec div 2 < 32" using v by (intro less_mult_imp_div_less) simp
  show "time_word hour mn sec mod 32 = sec div 2" "time_word hour mn sec div 32 mod 64 = mn" "time_word hour mn sec div 2048 = hour"
    unfolding time_word_def using b [OF s, of mn hour] v by simp_all
  show "date_word year mon day < 65536" "time_word hour mn sec < 65536" using v s unfolding date_word_def time_word_def by auto
qed

lemma LE16_store:
  assumes "a + 1 < length buf" "w < 65536"
  shows "LE16 (W_LE16 buf a w) a = w"
  using assms by (simp add: LE16_sum unat_W_LE16)

lemma LE16_other: "b + 1 < a \<or> a + 1 < b \<Longrightarrow> LE16 (W_LE16 buf a w) b = LE16 buf b"
  by (auto simp: LE16_def W_LE16_def)

lemma W_LE16_other: "i \<noteq> a \<Longrightarrow> i \<noteq> a + 1 \<Longrightarrow> W_LE16 buf a w ! i = buf ! i"
  by (simp add: W_LE16_def)

lemma time_stamp_inj:
  assumes "valid_time y mo d h mi s" "valid_time y' mo' d' h' mi' s'" "time_stamp y mo d h mi s = time_stamp y' mo' d' h' mi' s'"
  shows "(y, mo, d, h, mi, s) = (y', mo', d', h', mi', s')"
proof -
  have a: "y < 10000" "mo < 100" "d < 100" "h < 100" "mi < 100" "s < 100" using assms(1) by (auto simp: valid_time_def)
  have b: "y' < 10000" "mo' < 100" "d' < 100" "h' < 100" "mi' < 100" "s' < 100" using assms(2) by (auto simp: valid_time_def)
  show ?thesis using parse_stamp [OF a] parse_stamp [OF b] unfolding assms(3) by simp
qed

text \<open>What a record holds after the time has been stored, and what it has kept of the old one.\<close>

definition time_recorded :: "u8 list \<Rightarrow> u8 list \<Rightarrow> bool \<Rightarrow> bool \<Rightarrow> nat \<Rightarrow> nat \<Rightarrow> nat \<Rightarrow> nat \<Rightarrow> nat \<Rightarrow> nat \<Rightarrow> bool" where
  "time_recorded rec ent created modified year mon day hour mn sec \<longleftrightarrow>
    (LE16 rec 18 div 512 + 1980, LE16 rec 18 div 32 mod 16, LE16 rec 18 mod 32) = (year, mon, day) \<and>
    (created \<longrightarrow> LE16 rec 16 = LE16 rec 18 \<and> (LE16 rec 14 div 2048, LE16 rec 14 div 32 mod 64, LE16 rec 14 mod 32) = (hour, mn, sec div 2)) \<and>
    (modified \<longrightarrow> LE16 rec 24 = LE16 rec 18 \<and> (LE16 rec 22 div 2048, LE16 rec 22 div 32 mod 64, LE16 rec 22 mod 32) = (hour, mn, sec div 2)) \<and>
    (\<forall>i. i \<notin> {18, 19} \<and> \<not> (created \<and> 14 \<le> i \<and> i \<le> 17) \<and> \<not> (modified \<and> 22 \<le> i \<and> i \<le> 25) \<longrightarrow> rec ! i = ent ! i)"

text \<open>
  C31. Time stamps. Whatever the clock returns, \<^verbatim>\<open>write_timestamps\<close> stores a valid date between 1980 and
  2099 and a valid time, and when the clock returns a valid time of these years it is that time, the
  seconds rounded down to an even number. The accessed date is always written, the fields for creation and
  modification exactly when asked for, and every other byte of the record is kept.
\<close>

theorem write_timestamps_correct:
  assumes "length ent = 32"
  shows "\<exists>year mon day hour mn sec. valid_time year mon day hour mn sec \<and>
    (\<forall>y mo d h mi s. valid_time y mo d h mi s \<and> now = (0, time_stamp y mo d h mi s) \<longrightarrow> (y, mo, d, h, mi, s) = (year, mon, day, hour, mn, sec)) \<and>
    time_recorded (write_timestamps now ent created modified) ent created modified year mon day hour mn sec"
proof -
  obtain year mon day hour mn sec where v: "valid_time year mon day hour mn sec"
    and w: "time_words now = (date_word year mon day, time_word hour mn sec)"
    and u: "\<forall>y mo d h mi s. valid_time y mo d h mi s \<and> now = (0, time_stamp y mo d h mi s) \<longrightarrow> (y, mo, d, h, mi, s) = (year, mon, day, hour, mn, sec)"
  proof (cases "\<exists>y mo d h mi s. valid_time y mo d h mi s \<and> now = (0, time_stamp y mo d h mi s)")
    case True
    then obtain y mo d h mi s where t: "valid_time y mo d h mi s" "now = (0, time_stamp y mo d h mi s)" by blast
    show thesis
    proof (rule that [OF t(1)])
      show "time_words now = (date_word y mo d, time_word h mi s)" unfolding t(2) by (rule time_words_stamp [OF t(1)])
      show "\<forall>y' mo' d' h' mi' s'. valid_time y' mo' d' h' mi' s' \<and> now = (0, time_stamp y' mo' d' h' mi' s') \<longrightarrow>
        (y', mo', d', h', mi', s') = (y, mo, d, h, mi, s)" using time_stamp_inj [OF _ t(1)] t(2) by blast
    qed
  next
    case False
    then show thesis using that time_words_valid [of now] by blast
  qed
  define D where "D = date_word year mon day"
  define T where "T = time_word hour mn sec"
  note f = word_fields [OF v, folded D_def T_def]
  define r1 where "r1 = W_LE16 ent 18 D"
  define r2 where "r2 = (if created then W_LE16 (W_LE16 r1 14 T) 16 D else r1)"
  define r3 where "r3 = (if modified then W_LE16 (W_LE16 r2 22 T) 24 D else r2)"
  have e: "write_timestamps now ent created modified = r3"
    by (simp add: write_timestamps_def w Let_def D_def [symmetric] T_def [symmetric] r1_def r2_def r3_def)
  have len: "length r1 = 32" "length r2 = 32" using assms by (simp_all add: r1_def r2_def)
  have "LE16 r1 18 = D" unfolding r1_def by (rule LE16_store [OF _ f(7)]) (simp add: assms)
  then have "LE16 r2 18 = D" by (simp add: r2_def LE16_other)
  then have a: "LE16 r3 18 = D" by (simp add: r3_def LE16_other)
  have "LE16 r2 16 = D \<and> LE16 r2 14 = T" if created
    using that len f(7,8) by (simp add: r2_def LE16_other LE16_store)
  then have b: "LE16 r3 16 = D \<and> LE16 r3 14 = T" if created using that by (simp add: r3_def LE16_other)
  have c: "LE16 r3 24 = D \<and> LE16 r3 22 = T" if modified
    using that len f(7,8) by (simp add: r3_def LE16_other LE16_store)
  have g: "r3 ! i = ent ! i" if "i \<notin> {18, 19}" "\<not> (created \<and> 14 \<le> i \<and> i \<le> 17)" "\<not> (modified \<and> 22 \<le> i \<and> i \<le> 25)" for i
    using that by (auto simp: r3_def r2_def r1_def W_LE16_other)
  have y: "D div 512 + 1980 = year" using f(3) v by (simp add: valid_time_def)
  have m1: "(LE16 r3 18 div 512 + 1980, LE16 r3 18 div 32 mod 16, LE16 r3 18 mod 32) = (year, mon, day)"
    unfolding a using y f(1,2) by simp
  have m2: "LE16 r3 16 = LE16 r3 18 \<and> (LE16 r3 14 div 2048, LE16 r3 14 div 32 mod 64, LE16 r3 14 mod 32) = (hour, mn, sec div 2)" if created
    using b [OF that] a f(4-6) by simp
  have m3: "LE16 r3 24 = LE16 r3 18 \<and> (LE16 r3 22 div 2048, LE16 r3 22 div 32 mod 64, LE16 r3 22 mod 32) = (hour, mn, sec div 2)" if modified
    using c [OF that] a f(4-6) by simp
  have "time_recorded r3 ent created modified year mon day hour mn sec"
    unfolding time_recorded_def using m1 m2 m3 g by blast
  then show ?thesis unfolding e using v u by blast
qed

theorem write_timestamps_correct_witness:
  "\<exists>year mon day hour mn sec. (2024, 2, 29, 13, 5, 59) = (year, mon, day, hour, mn, sec) \<and>
    time_recorded (write_timestamps (0, time_stamp 2024 2 29 13 5 59) (replicate 32 0) True True) (replicate 32 0) True True year mon day hour mn sec"
proof -
  have v: "valid_time 2024 2 29 13 5 59" by (simp add: valid_time_def)
  have "length (replicate 32 (0 :: u8)) = 32" by simp
  from write_timestamps_correct [OF this, of "(0, time_stamp 2024 2 29 13 5 59)" True True] v show ?thesis by blast
qed

subsection \<open>Valid names\<close>

definition ok_char :: "u8 \<Rightarrow> bool" where
  "ok_char c \<longleftrightarrow> 0x20 < c \<and> c \<le> 0x7E \<and> \<not> (0x61 \<le> c \<and> c \<le> 0x7A) \<and> c \<notin> {34, 42, 47, 58, 60, 62, 63, 92, 124}"

text \<open>A name under construction: the characters so far, and zeros behind them.\<close>

definition good_name :: "fat_name \<Rightarrow> bool" where
  "good_name p \<longleftrightarrow> length (nm_name p) = 12 \<and> nm_length p \<le> 12 \<and>
    (\<forall>k < nm_length p. ok_char (nm_name p ! k)) \<and> (\<forall>k. nm_length p \<le> k \<longrightarrow> k < 12 \<longrightarrow> nm_name p ! k = 0)"

subsection \<open>What a path means\<close>

text \<open>
  The components of a path in upper case, each with the information whether a slash follows it; the first
  argument is the part of the current component that has been read.
\<close>

fun components :: "u8 list \<Rightarrow> u8 list \<Rightarrow> (u8 list \<times> bool) list" where
  "components cur [] = [(cur, False)]"
| "components cur (c # cs) =
    (if c = 47 then (cur, True) # components [] cs else components (cur @ [upper c]) cs)"

text \<open>Entering a component: nothing and the current directory stay, the parent directory goes up, but not above the root.\<close>

definition enter :: "(u8 list \<times> bool) list \<Rightarrow> u8 list \<times> bool \<Rightarrow> (u8 list \<times> bool) list" where
  "enter dirs x =
    (if fst x = [] \<or> fst x = [46] then dirs else if fst x = [46, 46] then butlast dirs else dirs @ [x])"

definition path_names :: "u8 list \<Rightarrow> (u8 list \<times> bool) list" where
  "path_names name = foldl enter [] (components [] name)"

definition path_char :: "u8 \<Rightarrow> bool" where
  "path_char c \<longleftrightarrow> 0x20 < c \<and> c \<le> 0x7E \<and> c \<notin> {34, 42, 58, 60, 62, 63, 92, 124}"

text \<open>The paths that can be split: allowed characters, components of at most twelve of them, not too many components.\<close>

definition path_fits :: "nat \<Rightarrow> u8 list \<Rightarrow> u8 list \<Rightarrow> bool" where
  "path_fits n cur cs \<longleftrightarrow> (\<forall>c \<in> set cs. path_char c) \<and> (\<forall>x \<in> set (components cur cs). length (fst x) \<le> 12) \<and>
    n + length (components cur cs) \<le> 255"

abbreviation name_chars :: "fat_name \<Rightarrow> u8 list" where
  "name_chars p \<equiv> take (nm_length p) (nm_name p)"

definition stored_names :: "fat_name list \<Rightarrow> (u8 list \<times> bool) list \<Rightarrow> bool" where
  "stored_names path dirs \<longleftrightarrow> length path = 256 \<and> length dirs \<le> 255 \<and>
    (\<forall>i < length dirs. good_name (path ! i) \<and> name_chars (path ! i) = fst (dirs ! i) \<and> nm_is_dir (path ! i) = snd (dirs ! i) \<and>
      nm_length (path ! i) \<noteq> 0)"

definition path_rel :: "fat_name list \<times> nat \<times> nat \<Rightarrow> (u8 list \<times> bool) list \<Rightarrow> u8 list \<Rightarrow> bool" where
  "path_rel s dirs cur \<longleftrightarrow> (case s of (path, entries, state) \<Rightarrow>
    stored_names path dirs \<and> entries = length dirs \<and> good_name (path ! entries) \<and> name_chars (path ! entries) = cur \<and>
    \<not> nm_is_dir (path ! entries) \<and> state = (if cur = [] then 0 else if cur = [46] then 1 else if cur = [46, 46] then 2 else 3))"

lemma good_empty: "good_name empty_name" "name_chars empty_name = []" "\<not> nm_is_dir empty_name"
  by (simp_all add: good_name_def empty_name_def)

lemma good_append:
  assumes "good_name p" "nm_length p \<le> 11" "ok_char c"
  defines "q \<equiv> p\<lparr>nm_name := (nm_name p)[nm_length p := c], nm_length := nm_length p + 1\<rparr>"
  shows "good_name q" "name_chars q = name_chars p @ [c]" "nm_length q = nm_length p + 1" "nm_is_dir q = nm_is_dir p"
  using assms by (auto simp: good_name_def nth_list_update less_Suc_eq take_Suc_conv_app_nth)

lemma name_length: "good_name p \<Longrightarrow> length (name_chars p) = nm_length p"
  by (simp add: good_name_def)

lemma components_first: "\<exists>x \<in> set (components cur cs). length cur \<le> length (fst x)"
proof (induction cur cs rule: components.induct)
  case (2 cur c cs)
  show ?case
  proof (cases "c = 47")
    case False
    then obtain x where "x \<in> set (components cur (c # cs))" "length (cur @ [upper c]) \<le> length (fst x)"
      using "2.IH"(2) by auto
    then show ?thesis by (metis length_append_singleton Suc_leD)
  qed simp
qed simp

lemma components_nonempty: "1 \<le> length (components cur cs)"
  by (induction cur cs rule: components.induct) auto

text \<open>Changes behind the names of the directories entered do not matter.\<close>

lemma stored_names_cong:
  assumes "stored_names path dirs" "length path' = 256" "\<And>i. i < length dirs \<Longrightarrow> path' ! i = path ! i"
  shows "stored_names path' dirs"
  using assms by (simp add: stored_names_def)

lemma stored_names_butlast: "stored_names path dirs \<Longrightarrow> stored_names path (butlast dirs)"
  by (auto simp: stored_names_def nth_butlast)

lemma stored_names_snoc:
  assumes "stored_names path dirs" "length dirs < 255" "good_name (path ! length dirs)" "name_chars (path ! length dirs) = n" "n \<noteq> []"
    "nm_is_dir (path ! length dirs) = d"
  shows "stored_names path (dirs @ [(n, d)])"
  using assms by (auto simp: stored_names_def nth_append less_Suc_eq)

lemma enter_simps:
  "enter dirs ([], d) = dirs" "enter dirs ([46], d) = dirs" "enter dirs ([46, 46], d) = butlast dirs"
  "n \<noteq> [] \<Longrightarrow> n \<noteq> [46] \<Longrightarrow> n \<noteq> [46, 46] \<Longrightarrow> enter dirs (n, d) = dirs @ [(n, d)]"
  by (auto simp: enter_def)

lemma parent_rel:
  assumes "stored_names path dirs" "parent_dir path (length dirs) = (path', entries, state)"
  shows "path_rel (path', entries, state) (butlast dirs) []"
proof (cases "dirs = []")
  case True
  then show ?thesis using assms good_empty
    by (auto simp: parent_dir_def path_rel_def stored_names_def)
next
  case False
  then have p: "path' = path[length dirs := empty_name, length dirs - 1 := empty_name]" "entries = length dirs - 1" "state = 0"
    using assms(2) by (auto simp: parent_dir_def Let_def)
  have l: "length path = 256" "length dirs \<le> 255" using assms(1) by (simp_all add: stored_names_def)
  have "stored_names path' (butlast dirs)"
    by (rule stored_names_cong [OF stored_names_butlast [OF assms(1)]]) (simp_all add: p l)
  then show ?thesis using l False good_empty by (simp add: path_rel_def p)
qed

text \<open>The effect of one character.\<close>

lemma path_step_main:
  assumes rel: "path_rel s dirs cur" and short: "length cur \<le> 12"
  shows "case path_step c0 eos s of
      Path_overrun \<Rightarrow> False
    | Path_error \<Rightarrow> length dirs \<ge> 255 \<or> \<not> path_char c0 \<or> c0 \<noteq> 47 \<and> length cur = 12
    | Path_ok s' \<Rightarrow> path_char c0 \<and> length dirs < 255 \<and>
        (if c0 = 47 then path_rel s' (enter dirs (cur, True)) []
         else length cur < 12 \<and>
           (if eos then (case s' of (path, entries, state) \<Rightarrow>
              stored_names path (enter dirs (cur @ [upper c0], False)) \<and> entries = length (enter dirs (cur @ [upper c0], False)))
            else path_rel s' dirs (cur @ [upper c0])))"
proof -
  let ?n = "length dirs"
  obtain path where s: "s = (path, ?n, if cur = [] then 0 else if cur = [46] then 1 else if cur = [46, 46] then 2 else 3)"
    and st: "stored_names path dirs" and g: "good_name (path ! ?n)" "name_chars (path ! ?n) = cur" "\<not> nm_is_dir (path ! ?n)"
    using rel by (cases s) (auto simp: path_rel_def)
  define state :: nat where "state = (if cur = [] then 0 else if cur = [46] then 1 else if cur = [46, 46] then 2 else 3)"
  define c where "c = upper c0"
  have l: "length path = 256" "?n \<le> 255" using st by (simp_all add: stored_names_def)
  have len: "nm_length (path ! ?n) = length cur" "length (nm_name (path ! ?n)) = 12" using g name_length [OF g(1)] by (simp_all add: good_name_def)
  have slash: "c = 47 \<longleftrightarrow> c0 = 47"
    unfolding c_def upper_def by (auto simp: word_le_nat_alt word_unat_eq_iff unat_sub)
  have bad: "c \<in> set (ascii ''<>:'') \<or> c = 34 \<or> c = 92 \<or> c \<in> set (ascii ''|?*'') \<longleftrightarrow> c0 \<in> {34, 42, 58, 60, 62, 63, 92, 124}"
  proof (cases "0x61 \<le> c0 \<and> c0 \<le> 0x7A")
    case True
    then have r: "97 \<le> unat c0" "unat c0 \<le> 122" "unat c = unat c0 - 32"
      unfolding c_def upper_def by (simp_all add: word_le_nat_alt unat_sub)
    then have u: "65 \<le> unat c \<and> unat c \<le> 90" by linarith
    have "c \<notin> {34, 42, 58, 60, 62, 63, 92, 124}" using u by auto
    moreover have "c0 \<notin> {34, 42, 58, 60, 62, 63, 92, 124}" using r(1,2) by auto
    ultimately show ?thesis by (auto simp: ascii_def)
  next
    case False
    then have "c = c0" by (simp add: c_def upper_def)
    then show ?thesis by (auto simp: ascii_def)
  qed
  show ?thesis
  proof (cases "?n \<ge> 255 \<or> \<not> path_char c0 \<or> c0 \<noteq> 47 \<and> length cur = 12")
    case True
    have A: "(length path \<le> ?n) = False" "(c \<noteq> 47 \<and> length cur > 11) = (c0 \<noteq> 47 \<and> length cur = 12)" "c0 \<le> 0x7E \<longleftrightarrow> \<not> c0 > 0x7E"
      "0x20 < c0 \<longleftrightarrow> \<not> c0 \<le> 0x20" using l slash short by auto
    have B: "\<not> path_char c0 \<longleftrightarrow> c0 \<le> 0x20 \<or> c0 > 0x7E \<or> (c \<in> set (ascii ''<>:'') \<or> c = 34) \<or> (c = 92 \<or> c \<in> set (ascii ''|?*''))"
      unfolding path_char_def A(3,4) using bad by blast
    have "path_step c0 eos s = Path_error"
      unfolding s path_step_def prod.case Let_def c_def [symmetric] len A(1,2) if_False using True B by argo
    then show ?thesis using True by simp
  next
    case False
    then have ok: "?n < 255" "path_char c0" "c0 \<noteq> 47 \<Longrightarrow> length cur < 12" using short by auto
    have okc: "ok_char c" if "c \<noteq> 47"
    proof -
      have "c \<notin> {34, 42, 47, 58, 60, 62, 63, 92, 124}" using ok(2) bad that by (auto simp: ascii_def path_char_def)
      moreover have "0x20 < c \<and> c \<le> 0x7E \<and> \<not> (0x61 \<le> c \<and> c \<le> 0x7A)"
        using ok(2) unfolding c_def upper_def path_char_def by (auto simp: word_less_nat_alt word_le_nat_alt unat_sub split: if_splits)
      ultimately show ?thesis by (simp add: ok_char_def)
    qed
    define path1 where "path1 = (if c \<noteq> 47 then path[?n := (path ! ?n)\<lparr>nm_name := (nm_name (path ! ?n))[length cur := c], nm_length := length cur + 1\<rparr>] else path)"
    define len1 where "len1 = (if c \<noteq> 47 then length cur + 1 else length cur)"
    define cur1 where "cur1 = (if c \<noteq> 47 then cur @ [c] else cur)"
    have p1: "stored_names path1 dirs" "good_name (path1 ! ?n)" "name_chars (path1 ! ?n) = cur1" "\<not> nm_is_dir (path1 ! ?n)" "length path1 = 256"
    proof -
      show "length path1 = 256" using l by (simp add: path1_def)
      show "stored_names path1 dirs" by (rule stored_names_cong [OF st]) (simp_all add: path1_def l)
      have a: "good_name ((path ! ?n)\<lparr>nm_name := (nm_name (path ! ?n))[length cur := c], nm_length := length cur + 1\<rparr>)"
        "take (length cur + 1) ((nm_name (path ! ?n))[length cur := c]) = cur @ [c]" if "c \<noteq> 47"
        using good_append(1,2) [OF g(1), of c] ok(3) slash okc that g(2) by (simp_all add: len)
      show "good_name (path1 ! ?n)" "name_chars (path1 ! ?n) = cur1" "\<not> nm_is_dir (path1 ! ?n)"
        using g a ok(1) l by (simp_all add: path1_def cur1_def)
    qed
    have step: "path_step c0 eos s =
       (if state = 0 \<and> c = 46 then
           if \<not> eos then Path_ok (path1, ?n, 1) else Path_ok (path1[?n := empty_name], ?n, 0)
         else if state = 1 \<and> c = 47 then Path_ok (path1[?n := empty_name], ?n, 0)
         else if state = 1 \<and> c = 46 then
           if \<not> eos then Path_ok (path1, ?n, 2) else Path_ok (parent_dir path1 ?n)
         else if state = 2 \<and> c = 47 then Path_ok (parent_dir path1 ?n)
         else if c = 47 then
           if len1 > 0 then Path_ok (path1[?n := (path1 ! ?n)\<lparr>nm_is_dir := True\<rparr>, ?n + 1 := empty_name], ?n + 1, 0)
           else Path_ok (path1, ?n, 0)
         else Path_ok (path1, if eos then ?n + 1 else ?n, 3))"
    proof -
      have "(length path \<le> ?n) = False" "(c0 \<le> 0x20 \<or> c0 > 0x7E \<or> ?n \<ge> 255) = False" "(c \<in> set (ascii ''<>:'') \<or> c = 34) = False"
        "(c = 92 \<or> c \<in> set (ascii ''|?*'')) = False" "(c \<noteq> 47 \<and> length cur > 11) = False" "(c \<noteq> 47 \<and> 12 \<le> length cur) = False"
        using l ok bad slash by (auto simp: path_char_def not_le not_less)
      moreover have "(length path1 \<le> ?n + 1) = False" using p1(5) ok(1) by simp
      ultimately show ?thesis
        unfolding s state_def [symmetric] path_step_def prod.case Let_def len c_def [symmetric] path1_def [symmetric] len1_def [symmetric]
        by (simp only: if_False)
    qed
    have rel1: "path_rel (path1, ?n, if cur1 = [] then 0 else if cur1 = [46] then 1 else if cur1 = [46, 46] then 2 else 3) dirs cur1"
      using p1 by (simp add: path_rel_def)
    have rel0: "path_rel (path1[?n := empty_name], ?n, 0) dirs []"
      using p1 good_empty ok(1) by (auto simp: path_rel_def intro: stored_names_cong [OF p1(1)])
    obtain path2 n2 st2 where par: "parent_dir path1 ?n = (path2, n2, st2)" by (cases "parent_dir path1 ?n")
    have rel2: "path_rel (parent_dir path1 ?n) (butlast dirs) []" unfolding par by (rule parent_rel [OF p1(1) par])
    have rel3: "path_rel (path1[?n := (path1 ! ?n)\<lparr>nm_is_dir := True\<rparr>, ?n + 1 := empty_name], ?n + 1, 0) (dirs @ [(cur, True)]) []"
      if "cur1 = cur" "cur \<noteq> []"
    proof -
      let ?p = "path1[?n := (path1 ! ?n)\<lparr>nm_is_dir := True\<rparr>, ?n + 1 := empty_name]"
      have dir: "good_name (p\<lparr>nm_is_dir := b\<rparr>) = good_name p" for p b by (simp add: good_name_def)
      have "stored_names ?p dirs" by (rule stored_names_cong [OF p1(1)]) (simp_all add: p1(5))
      then have "stored_names ?p (dirs @ [(cur, True)])"
        by (rule stored_names_snoc) (use p1 ok(1) that in \<open>simp_all add: dir\<close>)
      then show ?thesis using good_empty p1(5) ok(1) by (simp add: path_rel_def)
    qed
    show ?thesis
    proof (cases "c0 = 47")
      case True
      then have c: "c = 47" "cur1 = cur" "len1 = length cur" using slash by (simp_all add: cur1_def len1_def)
      consider "cur = []" | "cur = [46]" | "cur = [46, 46]" | "cur \<noteq> []" "cur \<noteq> [46]" "cur \<noteq> [46, 46]" by blast
      then show ?thesis
        unfolding step state_def by cases (use ok True c rel0 rel1 rel2 rel3 in \<open>simp_all add: enter_simps\<close>)
    next
      case False
      then have c: "c \<noteq> 47" "cur1 = cur @ [c]" "len1 = length cur + 1" "length cur < 12" using slash ok(3) by (simp_all add: cur1_def len1_def)
      have last: "stored_names path1 (dirs @ [(cur @ [c], False)])"
        using p1 ok(1) c by (intro stored_names_snoc) simp_all
      have up: "upper c0 = c" by (simp add: c_def)
      have par': "stored_names path2 (butlast dirs)" "n2 = length (butlast dirs)" using rel2 unfolding par path_rel_def by simp_all
      consider "cur = []" | "cur = [46]" | "cur = [46, 46]" | "cur \<noteq> []" "cur \<noteq> [46]" "cur \<noteq> [46, 46]" by blast
      then show ?thesis
      proof cases
        case 1
        then show ?thesis unfolding step state_def using ok False c rel0 rel1 last by (cases eos; cases "c = 46") (simp_all add: enter_simps up path_rel_def)
      next
        case 2
        then show ?thesis unfolding step state_def using ok False c rel1 last par' by (cases eos; cases "c = 46") (simp_all add: enter_simps up par)
      next
        case 3
        then show ?thesis unfolding step state_def using ok False c rel1 last by (cases eos) (simp_all add: enter_simps up)
      next
        case 4
        then have "cur @ [c] \<noteq> [46]" "cur @ [c] \<noteq> []" "cur \<noteq> [] \<and> cur \<noteq> [46]" by auto
        show ?thesis
        proof (cases "cur @ [c] = [46, 46]")
          case True
          then show ?thesis using 4 by (auto simp: append_eq_Cons_conv)
        next
          case notpar: False
          then show ?thesis unfolding step state_def using 4 ok False c rel1 last by (cases eos) (simp_all add: enter_simps up)
        qed
      qed
    qed
  qed
qed

text \<open>The whole path.\<close>

lemma path_loop_main:
  assumes "path_rel s dirs cur" "length cur \<le> 12" "name \<noteq> []"
  shows "case path_loop name s of
      Path_overrun \<Rightarrow> False
    | Path_error \<Rightarrow> \<not> path_fits (length dirs) cur name
    | Path_ok (path, entries, state) \<Rightarrow> stored_names path (foldl enter dirs (components cur name)) \<and>
        entries = length (foldl enter dirs (components cur name)) \<and>
        (\<forall>c \<in> set name. path_char c) \<and> (\<forall>x \<in> set (components cur name). length (fst x) \<le> 12)"
  using assms
proof (induction name arbitrary: s dirs cur)
  case (Cons c cs)
  note m = path_step_main [OF Cons.prems(1,2), of c "cs = []"]
  show ?case
  proof (cases "path_step c (cs = []) s")
    case Path_error
    have "length dirs < 255" if "path_fits (length dirs) cur (c # cs)"
      using that components_nonempty [of cur "c # cs"] components_nonempty [of "[]" cs] components_nonempty [of "cur @ [upper c]" cs]
      by (auto simp: path_fits_def split: if_splits)
    moreover have "length cur < 12" if "path_fits (length dirs) cur (c # cs)" "c \<noteq> 47"
      using that components_first [of "cur @ [upper c]" cs] by (fastforce simp: path_fits_def)
    ultimately show ?thesis using m Path_error by (auto simp: path_fits_def)
  next
    case Path_overrun
    then show ?thesis using m by simp
  next
    case (Path_ok s')
    note r = m [unfolded Path_ok path_result.case]
    have pc: "path_char c" "length dirs < 255" using r by simp_all
    show ?thesis
    proof (cases "cs = []")
      case True
      show ?thesis
      proof (cases "c = 47")
        case c: True
        then have "path_rel s' (enter dirs (cur, True)) []" using r by simp
        then show ?thesis using True c pc Cons.prems(2) Path_ok by (cases s') (simp add: path_rel_def enter_simps)
      next
        case False
        then show ?thesis using True pc r Path_ok by (cases s') (simp add: Suc_le_eq)
      qed
    next
      case ne: False
      show ?thesis
      proof (cases "c = 47")
        case c: True
        then have "path_rel s' (enter dirs (cur, True)) []" using r by simp
        note ih = Cons.IH [OF this _ ne]
        have "length (enter dirs (cur, True)) \<le> Suc (length dirs)" by (auto simp: enter_def)
        then have "\<not> path_fits (length dirs) cur (c # cs)" if "\<not> path_fits (length (enter dirs (cur, True))) [] cs"
          using that Cons.prems(2) c by (auto simp: path_fits_def)
        then show ?thesis using ih c pc Cons.prems(2) ne Path_ok
          by (simp split: path_result.splits prod.splits)
      next
        case c: False
        then have "path_rel s' dirs (cur @ [upper c])" "length cur < 12" using r ne by simp_all
        note ih = Cons.IH [OF this(1) _ ne]
        have "\<not> path_fits (length dirs) cur (c # cs)" if "\<not> path_fits (length dirs) (cur @ [upper c]) cs"
          using that c pc by (auto simp: path_fits_def)
        then show ?thesis using ih c pc \<open>length cur < 12\<close> ne Path_ok
          by (simp split: path_result.splits prod.splits)
      qed
    qed
  qed
qed simp

subsection \<open>The form of a name in a directory record\<close>

text \<open>A name is split at its last period, but not at a period that starts it.\<close>

definition split_ext :: "u8 list \<Rightarrow> u8 list \<times> u8 list" where
  "split_ext n =
    (if 46 \<in> set (tl n) then
       let e = rev (takeWhile (\<lambda>c. c \<noteq> 46) (rev n)) in (take (length n - length e - 1) n, e)
     else (n, []))"

definition device_names :: "u8 list list" where
  "device_names = map ascii [''AUX'', ''COM1'', ''COM2'', ''COM3'', ''COM4'', ''COM5'', ''COM6'', ''COM7'', ''COM8'', ''COM9'', ''CON'',
    ''LPT1'', ''LPT2'', ''LPT3'', ''LPT4'', ''LPT5'', ''LPT6'', ''LPT7'', ''LPT8'', ''LPT9'', ''NUL'', ''PRN'']"

definition pad :: "nat \<Rightarrow> u8 \<Rightarrow> u8 list \<Rightarrow> u8 list" where
  "pad k w xs = xs @ replicate (k - length xs) w"

text \<open>The eight and three characters, padded with spaces, and a terminator.\<close>

definition short_name :: "u8 list \<Rightarrow> u8 list option" where
  "short_name n =
    (case split_ext n of
       (b, e) \<Rightarrow>
     if length b \<le> 8 \<and> length e \<le> 3 \<and> (\<exists>x \<in> set b. x \<noteq> 46) \<and> \<not> (e = [] \<and> b \<in> set device_names)
     then Some (pad 8 32 b @ pad 3 32 e @ [0])
     else None)"

lemma split_ext_period: "b \<noteq> [] \<Longrightarrow> 46 \<notin> set e \<Longrightarrow> split_ext (b @ 46 # e) = (b, e)"
proof -
  assume a: "b \<noteq> []" "46 \<notin> set e"
  then have "46 \<in> set (tl (b @ 46 # e))" by (cases b) auto
  moreover have "takeWhile (\<lambda>c. c \<noteq> 46) (rev (b @ 46 # e)) = rev e"
  proof -
    have "takeWhile (\<lambda>c. c \<noteq> 46) (rev e @ 46 # rev b) = rev e" using a(2) by (subst takeWhile_append2) auto
    then show ?thesis by simp
  qed
  ultimately show ?thesis by (simp add: split_ext_def)
qed

lemma split_ext_plain: "46 \<notin> set (tl n) \<Longrightarrow> split_ext n = (n, [])"
  by (simp add: split_ext_def)

lemma dot_pos_spec:
  "dot_pos n j \<le> j" "dot_pos n j \<noteq> 0 \<Longrightarrow> n ! dot_pos n j = 46" "dot_pos n j < k \<Longrightarrow> k \<le> j \<Longrightarrow> n ! k \<noteq> 46"
proof -
  show "dot_pos n j \<le> j" by (induction j) auto
  show "dot_pos n j \<noteq> 0 \<Longrightarrow> n ! dot_pos n j = 46" by (induction j) (auto split: if_splits)
  show "dot_pos n j < k \<Longrightarrow> k \<le> j \<Longrightarrow> n ! k \<noteq> 46" by (induction j) (auto split: if_splits simp: le_Suc_eq)
qed

lemma fat_strncmp_prefix: "length s2 \<le> length s1 \<Longrightarrow> 0 \<notin> set s2 \<Longrightarrow> fat_strncmp s1 s2 (length s2) = 0 \<longleftrightarrow> take (length s2) s1 = s2"
proof (induction s2 arbitrary: s1)
  case (Cons c s2)
  obtain d s where s1: "s1 = d # s" using Cons.prems(1) by (cases s1) auto
  show ?case using Cons by (auto simp: s1 Let_def head_char_def)
qed simp

lemma takeWhile_space: "32 \<notin> set b \<Longrightarrow> takeWhile (\<lambda>c. c \<noteq> 32) (b @ 32 # x) = (b :: u8 list)"
  by (subst takeWhile_append2) auto

lemma devices: "reserved_names = map (\<lambda>d. d @ [32]) device_names" "d \<in> set device_names \<Longrightarrow> length d \<le> 4 \<and> 0 \<notin> set d \<and> 32 \<notin> set d"
  by (auto simp: reserved_names_def device_names_def ascii_def)

lemma reserved_device:
  assumes "length b \<le> 8" "length e \<le> 3" "32 \<notin> set b" "32 \<notin> set e"
  shows "check_reserved_name (pad 8 32 b @ pad 3 32 e @ [0]) \<longleftrightarrow> e = [] \<and> b \<in> set device_names"
proof (cases "e = []")
  case False
  then have "(pad 8 32 b @ pad 3 32 e @ [0]) ! 8 = hd e" using assms(1) by (cases e) (simp_all add: pad_def nth_append)
  moreover have "hd e \<noteq> 32" using assms(4) False by (metis list.set_sel(1))
  ultimately show ?thesis using False by (simp add: check_reserved_name_def)
next
  case True
  let ?n = "pad 8 32 b @ pad 3 32 e @ [0]"
  have n: "?n = b @ 32 # (replicate (10 - length b) 32 @ [0])"
  proof -
    have "8 - length b + 3 = Suc (10 - length b)" using assms(1) by simp
    then have "replicate (8 - length b) 32 @ replicate 3 (32 :: u8) = 32 # replicate (10 - length b) 32"
      by (metis replicate_add replicate_Suc)
    then show ?thesis using True by (simp add: pad_def)
  qed
  have "fat_strncmp ?n (d @ [32]) (length (d @ [32])) = 0 \<longleftrightarrow> b = d" if d: "d \<in> set device_names" for d
  proof -
    note dd = devices(2) [OF d]
    have "length (d @ [32]) \<le> length ?n" using dd [THEN conjunct1] by (simp add: pad_def)
    then have "fat_strncmp ?n (d @ [32]) (length (d @ [32])) = 0 \<longleftrightarrow> take (length (d @ [32])) ?n = d @ [32]"
      using dd by (intro fat_strncmp_prefix) auto
    also have "\<dots> \<longleftrightarrow> b = d"
    proof
      assume "take (length (d @ [32])) ?n = d @ [32]"
      then have "?n = d @ 32 # drop (length (d @ [32])) ?n" by (metis append.assoc append_Cons append_Nil append_take_drop_id)
      then show "b = d" using takeWhile_space [of b] takeWhile_space [of d] assms(3) dd n by metis
    next
      show "take (length (d @ [32])) ?n = d @ [32]" if "b = d" by (subst n) (simp add: that)
    qed
    finally show ?thesis .
  qed
  moreover have "?n ! 8 = 32" using assms(1) True by (simp add: pad_def nth_append)
  ultimately show ?thesis using True by (auto simp: check_reserved_name_def devices(1))
qed


lemma good_split:
  assumes "good_name p"
  shows "nm_name p = name_chars p @ replicate (12 - nm_length p) 0"
proof (rule nth_equalityI)
  show "length (nm_name p) = length (name_chars p @ replicate (12 - nm_length p) 0)" using assms by (simp add: good_name_def)
  show "nm_name p ! i = (name_chars p @ replicate (12 - nm_length p) 0) ! i" if "i < length (nm_name p)" for i
    using assms that by (auto simp: good_name_def nth_append)
qed

lemma good_chars: "good_name p \<Longrightarrow> c \<in> set (name_chars p) \<Longrightarrow> ok_char c"
  by (auto simp: good_name_def in_set_conv_nth)

lemma ok_char_not: "ok_char c \<Longrightarrow> c \<noteq> 0 \<and> c \<noteq> 32"
  by (auto simp: ok_char_def)

text \<open>The bytes of the record for both kinds of names.\<close>

definition spaced :: "u8 list \<Rightarrow> u8 list" where
  "spaced n = map (\<lambda>c. if c = 0 then 32 else c) (take 11 n) @ [0]"

lemma spaced_plain:
  assumes "length n \<le> 8" "\<forall>c \<in> set n. c \<noteq> 0"
  shows "spaced (n @ replicate (12 - length n) 0) = pad 8 32 n @ pad 3 32 [] @ [0]"
proof -
  have "map (\<lambda>c. if c = 0 then 32 else c) n = n" using assms(2) by (simp add: map_idI)
  moreover have "replicate (11 - length n) (32 :: u8) = replicate (8 - length n) 32 @ replicate 3 32"
    using assms(1) by (simp flip: replicate_add)
  ultimately show ?thesis using assms(1) by (simp add: spaced_def pad_def)
qed

lemma pad_first:
  assumes "k < 8"
  shows "length b \<le> 8 \<Longrightarrow> (pad 8 w b @ x) ! k = (if k < length b then b ! k else w)"
  using assms by (cases "k < length b") (simp_all add: pad_def nth_append diff_less_mono not_less)

lemma spaced_split:
  assumes "length b \<le> 8" "length e \<le> 3" "\<forall>c \<in> set b. c \<noteq> 0" "\<forall>c \<in> set e. c \<noteq> 0" "length b + length e + 1 \<le> 12"
  defines "n \<equiv> b @ 46 # e @ replicate (12 - (length b + length e + 1)) 0" and "j \<equiv> length b"
  shows "spaced (n[j := 0, j + 1 := 0, j + 2 := 0, j + 3 := 0, 8 := n ! (j + 1), 9 := n ! (j + 2), 10 := n ! (j + 3)]) =
    pad 8 32 b @ pad 3 32 e @ [0]"
proof -
  let ?n = "n[j := 0, j + 1 := 0, j + 2 := 0, j + 3 := 0, 8 := n ! (j + 1), 9 := n ! (j + 2), 10 := n ! (j + 3)]"
  have len: "length n = 12" "j \<le> 8" using assms(1,5) by (simp_all add: n_def j_def)
  have ext: "n ! (j + 1 + i) = (if i < length e then e ! i else 0)" if "i < 3" for i
    using that assms(1,2,5) by (simp add: n_def j_def nth_append)
  have base: "n ! k = b ! k" if "k < j" for k using that by (simp add: n_def j_def nth_append)
  have rest: "n ! k = 0" if "j + 3 < k" "k < 12" for k
  proof -
    have "length (b @ 46 # e) \<le> k" using that(1) assms(2) by (simp add: j_def)
    then obtain d where d: "k = length (b @ 46 # e) + d" using le_Suc_ex by blast
    have "n = (b @ 46 # e) @ replicate (12 - (length b + length e + 1)) 0" by (simp add: n_def)
    then show ?thesis using that(2) unfolding d by (simp only: nth_append_length_plus) simp
  qed
  have low: "?n ! k = (if k < j then b ! k else 0)" if "k < 8" for k
    using that len base rest by (auto simp: nth_list_update)
  have high: "?n ! (8 + i) = (if i < length e then e ! i else 0)" if "i < 3" for i
  proof -
    have "i = 0 \<or> i = 1 \<or> i = 2" using that by auto
    then show ?thesis using ext [of 0] ext [of 1] ext [of 2] len by (auto simp: nth_list_update numeral_2_eq_2 numeral_3_eq_3)
  qed
  have "map (\<lambda>c. if c = 0 then 32 else c) (take 11 ?n) = pad 8 32 b @ pad 3 32 e"
  proof (rule nth_equalityI)
    show "length (map (\<lambda>c. if c = 0 then 32 else c) (take 11 ?n)) = length (pad 8 32 b @ pad 3 32 e)" using len assms(1,2) by (simp add: pad_def)
    fix k assume "k < length (map (\<lambda>c. if c = 0 then 32 else c) (take 11 ?n))"
    then have k: "k < 11" using len by simp
    then have m: "map (\<lambda>c. if c = 0 then 32 else c) (take 11 ?n) ! k = (if ?n ! k = 0 then 32 else ?n ! k)" using len by simp
    have nz: "k < length b \<Longrightarrow> b ! k \<noteq> 0" using assms(3) nth_mem by blast
    show "map (\<lambda>c. if c = 0 then 32 else c) (take 11 ?n) ! k = (pad 8 32 b @ pad 3 32 e) ! k"
    proof (cases "k < 8")
      case True
      then show ?thesis unfolding m low [OF True] pad_first [OF True assms(1)] unfolding j_def using nz by (cases "k < length b") auto
    next
      case False
      then have "8 \<le> k" by simp
      then obtain i where i: "k = 8 + i" using le_Suc_ex by blast
      then have i3: "i < 3" using k by simp
      have "(pad 8 32 b @ pad 3 32 e) ! (8 + i) = pad 3 32 e ! i"
        using nth_append_length_plus [of "pad 8 32 b" "pad 3 32 e" i] assms(1) by (simp add: pad_def)
      also have "\<dots> = (if i < length e then e ! i else 32)"
        using i3 assms(2) by (cases "i < length e") (simp_all add: pad_def nth_append diff_less_mono not_less)
      finally have r: "(pad 8 32 b @ pad 3 32 e) ! (8 + i) = (if i < length e then e ! i else 32)" .
      have "i < length e \<Longrightarrow> e ! i \<noteq> 0" using assms(4) nth_mem by blast
      then show ?thesis unfolding i r m [unfolded i] high [OF i3] by simp
    qed
  qed
  then show ?thesis by (simp add: spaced_def)
qed


text \<open>The loop over a name computes its form in the record, or finds that there is none.\<close>

lemma record_name_short:
  assumes g: "good_name p" and ne: "name_chars p \<noteq> []"
  shows "record_name p = map_option (\<lambda>r. p\<lparr>nm_name := r\<rparr>) (short_name (name_chars p))"
proof -
  let ?n = "name_chars p" and ?N = "nm_name p"
  define j where "j = dot_pos ?N 11"
  have split: "?N = ?n @ replicate (12 - nm_length p) 0" by (rule good_split [OF g])
  have l: "nm_length p = length ?n" "length ?n \<le> 12" using name_length [OF g] g by (simp_all add: good_name_def)
  have ok: "\<forall>c \<in> set ?n. c \<noteq> 0 \<and> c \<noteq> 32" using good_chars [OF g] ok_char_not by blast
  define F where "F r = (if \<forall>c \<in> set (take 8 r). c = 32 \<or> c = 46 then None else if check_reserved_name r then None else Some (p\<lparr>nm_name := r\<rparr>))" for r
  have fin: "F (pad 8 32 b @ pad 3 32 e @ [0]) =
    (if (\<exists>x \<in> set b. x \<noteq> 46) \<and> \<not> (e = [] \<and> b \<in> set device_names) then Some (p\<lparr>nm_name := pad 8 32 b @ pad 3 32 e @ [0]\<rparr>) else None)"
    if "length b \<le> 8" "length e \<le> 3" "32 \<notin> set b" "32 \<notin> set e" for b e
  proof -
    have "take 8 (pad 8 32 b @ pad 3 32 e @ [0]) = pad 8 32 b" using that(1) by (simp add: pad_def)
    moreover have "(\<forall>c \<in> set (pad 8 32 b). c = 32 \<or> c = 46) \<longleftrightarrow> \<not> (\<exists>x \<in> set b. x \<noteq> 46)"
    proof -
      have "set b \<subseteq> set (pad 8 32 b)" "set (pad 8 32 b) \<subseteq> set b \<union> {32}" by (auto simp: pad_def)
      moreover have "x \<noteq> 32" if "x \<in> set b" for x using that \<open>32 \<notin> set b\<close> by metis
      ultimately show ?thesis by fast
    qed
    ultimately show ?thesis unfolding F_def reserved_device [OF that] by simp
  qed
  have rn: "record_name p =
    (if j > 8 \<or> j = 0 \<and> length ?n > 8 then None else if j \<noteq> 0 \<and> length ?n > j + 4 then None
     else F (spaced (if j \<noteq> 0 then ?N[j := 0, j + 1 := 0, j + 2 := 0, j + 3 := 0, 8 := ?N ! (j + 1), 9 := ?N ! (j + 2), 10 := ?N ! (j + 3)] else ?N)))"
    unfolding record_name_def Let_def j_def [symmetric] l(1) [symmetric] spaced_def [symmetric] F_def ..
  show ?thesis
  proof (cases "j = 0")
    case True
    have "46 \<notin> set (tl ?n)"
    proof
      assume "46 \<in> set (tl ?n)"
      then obtain k where "k < length (tl ?n)" "tl ?n ! k = 46" by (auto simp: in_set_conv_nth)
      then have k: "?n ! Suc k = 46" "Suc k < length ?n" by (simp_all add: nth_tl del: length_take nth_take)
      have "?N ! Suc k = 46" using k by simp
      moreover have "Suc k \<le> 11" using less_le_trans [OF k(2) l(2)] by linarith
      ultimately
      show False using dot_pos_spec(3) [of ?N 11 "Suc k"] True by (simp add: j_def)
    qed
    note sp = split_ext_plain [OF this]
    show ?thesis
    proof (cases "length ?n \<le> 8")
      case short: True
      have "spaced ?N = pad 8 32 ?n @ pad 3 32 [] @ [0]" using spaced_plain [OF short] ok l(1) split by simp
      moreover have "F (pad 8 32 ?n @ pad 3 32 [] @ [0]) =
        (if (\<exists>x \<in> set ?n. x \<noteq> 46) \<and> \<not> ([] = ([] :: u8 list) \<and> ?n \<in> set device_names) then Some (p\<lparr>nm_name := pad 8 32 ?n @ pad 3 32 [] @ [0]\<rparr>) else None)"
        by (rule fin) (use short ok in auto)
      ultimately show ?thesis using short True unfolding rn short_name_def sp by (simp del: length_take)
    next
      case False
      then show ?thesis using True unfolding rn short_name_def sp by (simp del: length_take)
    qed
  next
    case False
    have j: "?N ! j = 46" "j \<le> 11" using dot_pos_spec(1,2) [of ?N 11] False by (simp_all add: j_def)
    have jl: "j < length ?n"
    proof (rule ccontr)
      assume "\<not> j < length ?n"
      then have "?N ! j = 0" using g j(2) l by (simp add: good_name_def)
      then show False using j(1) by simp
    qed
    define b where "b = take j ?n"
    define e where "e = drop (Suc j) ?n"
    have n: "?n = b @ 46 # e" using id_take_nth_drop [OF jl] j(1) split jl by (simp add: b_def e_def nth_append)
    have lb: "length b = j" "b \<noteq> []" using jl False by (auto simp: b_def)
    have "46 \<notin> set e"
    proof
      assume "46 \<in> set e"
      then obtain k where "k < length e" "e ! k = 46" by (auto simp: in_set_conv_nth)
      then have k: "?N ! (j + 1 + k) = 46" "j + 1 + k < length ?n" using split n lb by (simp_all add: nth_append)
      have "j + 1 + k \<le> 11" using less_le_trans [OF k(2) l(2)] by linarith
      then show False using dot_pos_spec(3) [of ?N 11 "j + 1 + k"] k(1) by (simp add: j_def)
    qed
    note sp = split_ext_period [OF lb(2) this, folded n]
    have okb: "\<forall>c \<in> set b. c \<noteq> 0 \<and> c \<noteq> 32" "\<forall>c \<in> set e. c \<noteq> 0 \<and> c \<noteq> 32" using ok unfolding n by auto
    have ln: "length ?n = j + 1 + length e" using arg_cong [OF n, of length] lb by (simp del: length_take)
    show ?thesis
    proof (cases "length b \<le> 8 \<and> length e \<le> 3")
      case True
      have N: "?N = b @ 46 # e @ replicate (12 - (length b + length e + 1)) 0" using split n l ln lb by simp
      have "spaced (?N[j := 0, j + 1 := 0, j + 2 := 0, j + 3 := 0, 8 := ?N ! (j + 1), 9 := ?N ! (j + 2), 10 := ?N ! (j + 3)]) =
        pad 8 32 b @ pad 3 32 e @ [0]"
        using spaced_split [of b e] True okb ln l(2) lb unfolding N by simp
      moreover have "F (pad 8 32 b @ pad 3 32 e @ [0]) =
        (if (\<exists>x \<in> set b. x \<noteq> 46) \<and> \<not> (e = [] \<and> b \<in> set device_names) then Some (p\<lparr>nm_name := pad 8 32 b @ pad 3 32 e @ [0]\<rparr>) else None)"
        by (rule fin) (use True okb in auto)
      ultimately show ?thesis using True lb ln False unfolding rn short_name_def sp by (simp del: length_take)
    next
      case long: False
      then show ?thesis using False lb ln unfolding rn short_name_def sp by (auto simp del: length_take)
    qed
  qed
qed


text \<open>What the bytes are: eleven allowed characters and spaces, the first of them allowed, and a terminator.\<close>

definition valid_record_name :: "u8 list \<Rightarrow> bool" where
  "valid_record_name name \<longleftrightarrow> length name = 12 \<and> name ! 11 = 0 \<and> (\<forall>k < 11. name ! k = 32 \<or> ok_char (name ! k)) \<and>
    ok_char (name ! 0) \<and> (\<exists>k < 8. name ! k \<noteq> 32 \<and> name ! k \<noteq> 46) \<and> \<not> check_reserved_name name"

lemma split_ext_set: "split_ext n = (b, e) \<Longrightarrow> set b \<subseteq> set n \<and> set e \<subseteq> set n"
proof (cases "46 \<in> set (tl n)")
  case True
  assume "split_ext n = (b, e)"
  then have "b \<in> {take k n | k. True}" "e = rev (takeWhile (\<lambda>c. c \<noteq> 46) (rev n))" using True by (auto simp: split_ext_def Let_def)
  then show ?thesis using set_takeWhileD [of _ _ "rev n"] by (auto dest: in_set_takeD)
qed (auto simp: split_ext_def)

lemma short_name_valid:
  assumes "\<forall>c \<in> set n. ok_char c" "short_name n = Some r"
  shows "valid_record_name r"
proof -
  obtain b e where be: "split_ext n = (b, e)" by (cases "split_ext n")
  then have s: "length b \<le> 8" "length e \<le> 3" "\<exists>x \<in> set b. x \<noteq> 46" "\<not> (e = [] \<and> b \<in> set device_names)" "r = pad 8 32 b @ pad 3 32 e @ [0]"
    using assms(2) by (auto simp: short_name_def split: if_splits)
  have ok: "\<forall>c \<in> set b. ok_char c" "\<forall>c \<in> set e. ok_char c" using assms(1) split_ext_set [OF be] by auto
  have ns: "32 \<notin> set b" "32 \<notin> set e" using ok ok_char_not by blast+
  have len: "length (pad 8 32 b @ pad 3 32 e) = 11" using s(1,2) by (simp add: pad_def)
  have r: "r = (pad 8 32 b @ pad 3 32 e) @ [0]" using s(5) by simp
  have "c = 32 \<or> ok_char c" if "c \<in> set (pad 8 32 b @ pad 3 32 e)" for c using that ok by (auto simp: pad_def)
  then have all: "r ! k = 32 \<or> ok_char (r ! k)" if "k < 11" for k
    using that len nth_mem [of k "pad 8 32 b @ pad 3 32 e"] unfolding r by (simp only: nth_append if_True)
  have low: "r ! k = b ! k" if "k < length b" for k using that by (simp add: s(5) pad_def nth_append)
  obtain k where k: "k < length b" "b ! k \<noteq> 46" using s(3) by (auto simp: in_set_conv_nth)
  have "\<exists>k < 8. r ! k \<noteq> 32 \<and> r ! k \<noteq> 46"
  proof (intro exI conjI)
    show "k < 8" using k(1) s(1) by simp
    show "r ! k \<noteq> 32" using nth_mem [OF k(1)] ns(1) unfolding low [OF k(1)] by metis
    show "r ! k \<noteq> 46" using k by (simp add: low)
  qed
  moreover have "ok_char (r ! 0)"
  proof -
    have "0 < length b" using k(1) by (rule le_less_trans [OF le0])
    then show ?thesis using low nth_mem [of 0 b] ok(1) by simp
  qed
  moreover have "\<not> check_reserved_name r" unfolding s(5) using reserved_device [OF s(1,2) ns] s(4) by simp
  moreover have "length r = 12" "r ! 11 = 0" using len unfolding r by (simp, metis nth_append_length)
  ultimately show ?thesis using all by (simp add: valid_record_name_def)
qed

lemma record_names_short:
  assumes "\<forall>p \<in> set ps. good_name p \<and> name_chars p \<noteq> []"
  shows "case record_names ps of
      None \<Rightarrow> \<exists>p \<in> set ps. short_name (name_chars p) = None
    | Some qs \<Rightarrow> list_all2 (\<lambda>p q. short_name (name_chars p) = Some (nm_name q) \<and> nm_is_dir q = nm_is_dir p) ps qs"
  using assms
proof (induction ps)
  case (Cons p ps)
  have r: "record_name p = map_option (\<lambda>r. p\<lparr>nm_name := r\<rparr>) (short_name (name_chars p))"
    using Cons.prems by (intro record_name_short) simp_all
  show ?case using Cons r by (auto split: option.splits)
qed simp

text \<open>
  C30. Paths. A path is read as its components in upper case: empty ones and \<^verbatim>\<open>.\<close> are skipped, \<^verbatim>\<open>..\<close> drops the
  name before it, and the other ones are the names the path goes through, each with the information whether a
  slash follows. \<^verbatim>\<open>fill_path_buffer\<close> never accesses anything beyond the twelve characters of a name or the
  buffer of 256 names (the result -1 of the model), and never changes its size. When it succeeds the buffer holds between one and 255
  names, exactly those of the path in their order: in each, the eight and three characters are the name
  before and behind its last period, padded with spaces, and nothing but allowed signs, never only periods and
  never the name of a device. A period inside the first part is kept, as in \<^verbatim>\<open>A.B.C\<close>. When it fails it reports the error 1 and
  no entries, and then the path has a character that is not allowed, a component of more than twelve characters or more
  than 255 components, or no name, or a name without such a form.
\<close>

theorem fill_path_buffer_valid:
  assumes "length (path_buffer f) = 256" "fill_path_buffer f name = (r, f')"
  shows "length (path_buffer f') = 256 \<and>
    (if r = 0 then path_entries f' = length (path_names name) \<and> 1 \<le> path_entries f' \<and> path_entries f' \<le> 255 \<and>
      (\<forall>i < path_entries f'. short_name (fst (path_names name ! i)) = Some (nm_name (path_buffer f' ! i)) \<and>
        nm_is_dir (path_buffer f' ! i) = snd (path_names name ! i) \<and> valid_record_name (nm_name (path_buffer f' ! i)))
    else r = 1 \<and> path_entries f' = 0 \<and>
      (path_names name = [] \<or> \<not> path_fits 0 [] name \<or> (\<exists>x \<in> set (path_names name). short_name (fst x) = None)))"
proof (cases "name = []")
  case True
  then show ?thesis using assms by (auto simp: fill_path_buffer_def path_names_def enter_simps)
next
  case ne: False
  let ?s = "((path_buffer f)[0 := empty_name], 0, 0)"
  have "path_rel ?s [] []" using assms(1) good_empty by (auto simp: path_rel_def stored_names_def)
  note m = path_loop_main [OF this _ ne]
  show ?thesis
  proof (cases "path_loop name ?s")
    case Path_error
    then show ?thesis using m assms by (auto simp: fill_path_buffer_def)
  next
    case Path_overrun
    then show ?thesis using m by simp
  next
    case (Path_ok s)
    obtain path entries state where s: "s = (path, entries, state)" by (cases s)
    have st: "stored_names path (path_names name)" and n: "entries = length (path_names name)"
      using m Path_ok by (simp_all add: s path_names_def)
    note d = st [unfolded stored_names_def]
    have le: "entries \<le> 255" "length path = 256" using d n by simp_all
    have at: "i < entries \<Longrightarrow> good_name (path ! i) \<and> name_chars (path ! i) = fst (path_names name ! i) \<and> nm_is_dir (path ! i) = snd (path_names name ! i) \<and> name_chars (path ! i) \<noteq> []" for i
      using d n name_length by fastforce
    have ps: "\<forall>p \<in> set (take entries path). good_name p \<and> name_chars p \<noteq> []"
    proof
      fix p assume "p \<in> set (take entries path)"
      then obtain i where "i < entries" "p = path ! i" by (auto simp: in_set_conv_nth)
      then show "good_name p \<and> name_chars p \<noteq> []" using at by blast
    qed
    show ?thesis
    proof (cases "record_names (take entries path)")
      case None
      then obtain p where "p \<in> set (take entries path)" and no: "short_name (name_chars p) = None"
        using record_names_short [OF ps] by auto
      then obtain i where "i < entries" "p = path ! i" by (auto simp: in_set_conv_nth)
      then have "short_name (fst (path_names name ! i)) = None" "path_names name ! i \<in> set (path_names name)"
        using at [of i] no n by simp_all
      then show ?thesis using assms Path_ok s None by (auto simp: fill_path_buffer_def)
    next
      case N: (Some names)
      have f': "r = (if entries = 0 then 1 else 0)" "f' = f\<lparr>path_buffer := names @ drop entries path, path_entries := entries\<rparr>"
        using assms(2) Path_ok s N by (auto simp: fill_path_buffer_def)
      have all: "list_all2 (\<lambda>p q. short_name (name_chars p) = Some (nm_name q) \<and> nm_is_dir q = nm_is_dir p) (take entries path) names"
        using record_names_short [OF ps] N by simp
      have len: "length names = entries" using list_all2_lengthD [OF all] le by simp
      have "short_name (fst (path_names name ! i)) = Some (nm_name ((names @ drop entries path) ! i)) \<and>
        nm_is_dir ((names @ drop entries path) ! i) = snd (path_names name ! i) \<and> valid_record_name (nm_name ((names @ drop entries path) ! i))"
        if i: "i < entries" for i
      proof -
        have e: "(names @ drop entries path) ! i = names ! i" using i len by (simp add: nth_append)
        have a: "short_name (name_chars (path ! i)) = Some (nm_name (names ! i))" "nm_is_dir (names ! i) = nm_is_dir (path ! i)"
          using list_all2_nthD2 [OF all, of i] i len by simp_all
        have "valid_record_name (nm_name (names ! i))"
          by (rule short_name_valid [OF _ a(1)]) (use at [OF i] good_chars in blast)
        then show ?thesis unfolding e using a at [OF i] by simp
      qed
      moreover have "entries = 0 \<Longrightarrow> path_names name = []" using n by simp
      moreover have "entries \<noteq> 0 \<Longrightarrow> 1 \<le> entries" by linarith
      ultimately show ?thesis using f' len le unfolding n [symmetric] by auto
    qed
  qed
qed


lemma path_example:
  "path_names (ascii ''./a/../bin/x.txt'') = [(ascii ''BIN'', True), (ascii ''X.TXT'', False)]"
  "path_fits 0 [] (ascii ''./a/../bin/x.txt'')"
  "short_name (ascii ''BIN'') = Some (ascii ''BIN        '' @ [0])" "short_name (ascii ''X.TXT'') = Some (ascii ''X       TXT'' @ [0])"
proof -
  have a: "ascii ''./a/../bin/x.txt'' = [46, 47, 97, 47, 46, 46, 47, 98, 105, 110, 47, 120, 46, 116, 120, 116]"
    "ascii ''BIN'' = [66, 73, 78]" "ascii ''X.TXT'' = [88, 46, 84, 88, 84]" by (simp_all add: ascii_def)
  show "path_names (ascii ''./a/../bin/x.txt'') = [(ascii ''BIN'', True), (ascii ''X.TXT'', False)]"
    unfolding a path_names_def by (simp add: upper_def enter_def)
  show "path_fits 0 [] (ascii ''./a/../bin/x.txt'')"
    unfolding a path_fits_def by (simp add: upper_def path_char_def)
  have d: "[66, 73, 78] \<notin> set device_names" by (simp add: device_names_def ascii_def)
  have r: "replicate 5 (32 :: u8) = [32, 32, 32, 32, 32]" "replicate 7 (32 :: u8) = [32, 32, 32, 32, 32, 32, 32]" "replicate 3 (32 :: u8) = [32, 32, 32]"
    by (simp_all add: numeral_nat)
  have s: "split_ext [66, 73, 78] = ([66, 73, 78], [])" "split_ext [88, 46, 84, 88, 84] = ([88], [84, 88, 84])"
    by (simp_all add: split_ext_def)
  have b: "pad 8 32 [66, 73, 78] @ pad 3 32 [] @ [0] = ascii ''BIN        '' @ [0]" "pad 8 32 [88] @ pad 3 32 [84, 88, 84] @ [0] = ascii ''X       TXT'' @ [0]"
    by (simp_all add: pad_def r ascii_def)
  show "short_name (ascii ''BIN'') = Some (ascii ''BIN        '' @ [0])"
    unfolding a short_name_def s prod.case b using d by simp
  show "short_name (ascii ''X.TXT'') = Some (ascii ''X       TXT'' @ [0])"
    unfolding a short_name_def s prod.case b by simp
qed

theorem fill_path_buffer_valid_witness:
  "(\<exists>f'. fill_path_buffer (fat12_sample\<lparr>path_buffer := replicate 256 empty_name\<rparr>) (ascii ''./a/../bin/x.txt'') = (0, f') \<and>
    path_entries f' = 2 \<and> nm_name (path_buffer f' ! 0) = ascii ''BIN        '' @ [0] \<and> nm_is_dir (path_buffer f' ! 0) \<and>
    nm_name (path_buffer f' ! 1) = ascii ''X       TXT'' @ [0] \<and> \<not> nm_is_dir (path_buffer f' ! 1)) \<and>
   fst (fill_path_buffer (fat12_sample\<lparr>path_buffer := replicate 256 empty_name\<rparr>) (ascii ''/../'')) = 1"
proof
  let ?f = "fat12_sample\<lparr>path_buffer := replicate 256 empty_name\<rparr>" and ?n = "ascii ''./a/../bin/x.txt''" and ?m = "ascii ''/../''"
  have l: "length (path_buffer ?f) = 256" by simp
  obtain r f' where f': "fill_path_buffer ?f ?n = (r, f')" by (cases "fill_path_buffer ?f ?n")
  note t = fill_path_buffer_valid [OF l f', unfolded path_example(1)]
  have "r = 0" using t path_example by (auto split: if_splits)
  then show "\<exists>f'. fill_path_buffer ?f ?n = (0, f') \<and> path_entries f' = 2 \<and> nm_name (path_buffer f' ! 0) = ascii ''BIN        '' @ [0] \<and>
    nm_is_dir (path_buffer f' ! 0) \<and> nm_name (path_buffer f' ! 1) = ascii ''X       TXT'' @ [0] \<and> \<not> nm_is_dir (path_buffer f' ! 1)"
    using f' t path_example(3,4) by (auto simp: less_Suc_eq numeral_2_eq_2)
  obtain r2 f2 where f2: "fill_path_buffer ?f ?m = (r2, f2)" by (cases "fill_path_buffer ?f ?m")
  have "path_names ?m = []" by (simp add: path_names_def ascii_def enter_def upper_def)
  then show "fst (fill_path_buffer ?f ?m) = 1" using fill_path_buffer_valid [OF l f2] f2 by (auto split: if_splits)
qed

end
