(* ===== verification/Fat.thy ===== *)
theory Fat
  imports Fat_Chain Fat_Name
begin

text \<open>
  The life of an instance, \<^verbatim>\<open>src/common/fat.c\<close>: \<^verbatim>\<open>fat_create\<close> mounts a device, and
  \<^verbatim>\<open>fat_delete\<close> updates the information sector of a FAT32 file system before the buffers
  are released. The three allocations that \<^verbatim>\<open>fat_create\<close> makes itself succeed or fail by an
  argument, since their sizes depend on the platform.
\<close>

text \<open>The loop of \<^verbatim>\<open>compute_fs_info\<close>; \<^const>\<open>None\<close> is the early return.\<close>

function info_loop :: "'d fat_env \<Rightarrow> nat \<Rightarrow> nat \<Rightarrow> nat \<Rightarrow> nat \<Rightarrow> nat \<Rightarrow> nat \<Rightarrow> nat \<Rightarrow> 'd fat_instance \<Rightarrow> (nat \<times> nat) option \<times> 'd fat_instance" where
  "info_loop env entries i offset total_offset prev info_free info_next f =
    (if i < entries then
       let val = LE32 (table_buffer f) offset AND 0x0FFFFFFF;
           info_next = (if val = 0 \<and> prev \<ge> 2 \<and> (prev \<le> 0x0FFFFFEF \<or> prev \<ge> 0x0FFFFFF8) then (i + 2) - 1 else info_next);
           info_free = (if val = 0 then info_free + 1 else info_free);
           offset = offset + 4;
           total_offset = total_offset + 4
       in
       if offset \<ge> table_buffer_size f then
         case read_table_buffer env f total_offset of
           (r, offset, f) \<Rightarrow>
             if r \<noteq> 0 then (None, f) else info_loop env entries (i + 1) offset total_offset val info_free info_next f
       else info_loop env entries (i + 1) offset total_offset val info_free info_next f
     else (Some (info_free, info_next), f))"
  by pat_completeness auto
termination
  by (relation "measure (\<lambda>(env, entries, i, offset, total_offset, prev, info_free, info_next, f). entries - i)") auto

declare info_loop.simps [simp del]

definition compute_fs_info :: "'d fat_env \<Rightarrow> 'd fat_instance \<Rightarrow> 'd fat_instance" where
  "compute_fs_info env f =
    (case read_table_buffer env f 0 of
       (r, offset, f) \<Rightarrow>
     if r \<noteq> 0 then f
     else
       case info_loop env (fs_clusters f + 2) 0 offset 0 0 0 0xFFFFFFFF f of
         (None, f) \<Rightarrow> f
       | (Some (info_free, info_next), f) \<Rightarrow> f\<lparr>fs_info_free := info_free, fs_info_next := info_next\<rparr>)"

function next_loop :: "'d fat_env \<Rightarrow> nat \<Rightarrow> 'd fat_instance \<Rightarrow> nat \<times> 'd fat_instance" where
  "next_loop env val_next f =
    (if val_next > 2 \<and> val_next < fs_clusters f + 2 then
       case get_table_value env f val_next of
         (val, f) \<Rightarrow> if val \<ge> 2 \<and> val \<le> 0x0FFFFFEF then (val_next, f) else next_loop env (val_next - 1) f
     else (val_next, f))"
  by pat_completeness auto
termination
  by (relation "measure (\<lambda>(env, val_next, f). val_next)") auto

declare next_loop.simps [simp del]

definition write_fs_info :: "'d fat_env \<Rightarrow> 'd fat_instance \<Rightarrow> 'd fat_instance" where
  "write_fs_info env f =
    (let lba = fs_info_sector f * io_mul f; val_free = fs_info_free f; val_next = fs_info_next f;
         f = f\<lparr>fs_info_free := 0xFFFFFFFF, fs_info_next := 0xFFFFFFFF\<rparr>
     in
     case read_block env f lba of
       (r, f) \<Rightarrow>
     if r \<noteq> 0 then f
     else if LE32 (block_buffer f) 0 \<noteq> 0x41615252 then f
     else if LE32 (block_buffer f) 484 \<noteq> 0x61417272 then f
     else if LE32 (block_buffer f) 508 \<noteq> 0xAA550000 then f
     else
       let old_free = LE32 (block_buffer f) 488;
           old_next = LE32 (block_buffer f) 492;
           f = (if old_free \<noteq> 0 \<and> old_free \<le> fs_clusters f \<and> old_next \<ge> 2 \<and> old_next < fs_clusters f + 2
                then f\<lparr>fs_info_free := old_free, fs_info_next := old_next\<rparr> else f)
       in
       case next_loop env val_next f of
         (val_next, f) \<Rightarrow>
           snd (write_block env (f\<lparr>block_buffer := W_LE32 (W_LE32 (block_buffer f) 488 val_free) 492 val_next\<rparr>) lba))"

text \<open>The update of the device before the memory is released; the result is always zero.\<close>

definition fat_delete :: "'d fat_env \<Rightarrow> 'd fat_instance \<Rightarrow> int \<times> 'd fat_instance" where
  "fat_delete env f =
    (let f = (if fs_info_modified f \<noteq> 0 then
                write_fs_info env (if fs_info_free f = 0xFFFFFFFF then compute_fs_info env f else f)
              else f)
     in (0, f\<lparr>ready := 0\<rparr>))"

definition empty_fd :: fat_fd where
  "empty_fd = \<lparr>fd_opened = 0, fd_mode = 0, fd_record = replicate 32 0, fd_record_offset = 0, fd_record_sector = 0,
    fd_eof = 0, fd_offset = 0, fd_cluster_idx = 0, fd_cluster_val = 0\<rparr>"

text \<open>The instance after the allocations and the calls of \<^verbatim>\<open>memset\<close>.\<close>

definition fresh_fat :: "int \<Rightarrow> 'd \<Rightarrow> 'd fat_instance" where
  "fresh_fat fid d = \<lparr>ready = 0, fat_id = fid, fd_entries = 9, fd_special = 0, fd = replicate 9 empty_fd, cluster_size = 0,
    cluster_sector = 0, block_buffer = replicate 4096 0, cluster_buffer = [], table_buffer = [], table_sectors = [],
    table_buffer_size = 0, table_entries = 0, table_offset = 0, fs_bytes_per_sector = 0, fs_cluster_sectors = 0,
    fs_reserved_sectors = 0, fs_tables = 0, fs_directory_entries = 0, fs_directory_sectors = 0, fs_total_sectors = 0,
    fs_table_sectors = 0, fs_table_size = 0, fs_data_sectors = 0, fs_clusters = 0, fs_root_cluster = 0,
    fs_last_table_sector = 0, fs_info_modified = 0, fs_info_sector = 0, fs_info_free = 0, fs_info_next = 0,
    type_12 = False, type_16 = False, type_32 = False, path_entries = 0, path_buffer = replicate 256 empty_name, block_buffer_lba = 0, cluster_buffer_lba = 0, io_mul = 0,
    maximum_file_size = 0, last_allocated = 0, dev = d\<rparr>"

definition fat_create :: "'d fat_env \<Rightarrow> bool \<Rightarrow> int \<Rightarrow> 'd \<Rightarrow> int \<times> 'd fat_instance option" where
  "fat_create env alloc_ok fid d =
    (if \<not> alloc_ok then (1, None)
     else
       case read_bios_parameter_block env (fresh_fat fid d) fid of
         (r, f) \<Rightarrow>
       if r \<noteq> 0 then (1, None)
       else
         case (if type_32 f then
                 case read_table_buffer env (f\<lparr>table_offset := 0xF0000000\<rparr>) 0 of (r, off, f) \<Rightarrow> (r, f)
               else read_full_table env f) of
           (r, f) \<Rightarrow>
         if r \<noteq> 0 then (1, None)
         else
           let f = f\<lparr>fd_entries := fd_entries f - 1\<rparr>
           in (0, Some (f\<lparr>fd_special := fd_entries f, maximum_file_size := 0xFFFFFFFF, ready := FAT_READY\<rparr>)))"

lemma geometry_frame:
  assumes "layout f' = layout f" "length (cluster_buffer f') = length (cluster_buffer f)"
  shows "fat_geometry f' = fat_geometry f"
  by (simp only: fat_geometry_def layout_simps [OF assms(1)] assms(2))

lemma ready_fresh [simp]:
  "table_buffer (fresh_fat fid d) = []" "table_sectors (fresh_fat fid d) = []" "table_offset (fresh_fat fid d) = 0"
  "dev (fresh_fat fid d) = d" "fat_id (fresh_fat fid d) = fid"
  by (simp_all add: fresh_fat_def)

lemma table_ok_loaded:
  assumes "fat_geometry f" "io_mul f * bs = fs_bytes_per_sector f" "table_sectors f = replicate (table_entries f) 0"
    "length (table_buffer f) = table_entries f * fs_bytes_per_sector f" "table_offset f = 0"
    "length (table_buffer f) = (if type_32 f then 0x20000 else fs_table_size f)"
    "\<forall>i < fs_table_size f. tbyte bytes f i = bytes (dev f) (table_base f + i)"
  shows "table_ok bytes bs f" "coherent bytes f"
proof -
  show c: "coherent bytes f" using assms(7) by (simp add: coherent_def)
  have "window_shape bs f" using assms(2-5) geometryD(4) [OF assms(1)] by (simp add: window_shape_def)
  moreover have "dirty_inside f" using assms(3) by (simp add: dirty_inside_def)
  ultimately show "table_ok bytes bs f" using assms(1,5,6) c by (simp add: table_ok_def)
qed

lemma read_full_table_main:
  assumes "block_device env bytes bs" "fat_geometry f" "io_mul f * bs = fs_bytes_per_sector f" "\<not> type_32 f" "table_offset f = 0"
    "read_full_table env f = (0, f')"
  shows "table_ok bytes bs f'" "coherent bytes f'" "bytes (dev f') = bytes (dev f)"
    "\<forall>i < fs_table_size f'. tbyte bytes f' i = bytes (dev f) (table_base f' + i)"
proof -
  let ?n = "fs_table_sectors f" and ?sz = "fs_table_size f" and ?lba = "io_mul f * fs_reserved_sectors f"
  obtain r data d where rd: "fat_io_read env (fat_id f) ?lba ?sz (dev f) = (r, data, d)" by (cases "fat_io_read env (fat_id f) ?lba ?sz (dev f)")
  have f': "r = 0" "f' = f\<lparr>table_buffer := overlay (replicate ?sz 0) 0 data, table_sectors := replicate ?n 0, table_entries := ?n, dev := d\<rparr>"
    using assms(6) rd by (auto simp: read_full_table_def Let_def split: if_splits)
  note D = block_device_read [OF assms(1) rd]
  have data: "data = map (\<lambda>i. bytes (dev f) (?lba * bs + i)) [0..<?sz]" by (rule D(3) [OF f'(1)])
  have lba: "?lba * bs = table_base f" using assms(3) by (simp add: mult.commute mult.left_commute)
  have tb: "overlay (replicate ?sz 0) 0 data = data" using data by (simp add: overlay_def)
  have geo: "fat_geometry f'" using assms(2) geometry_frame [of f' f] by (simp add: f'(2) layout_def)
  show dv: "bytes (dev f') = bytes (dev f)" using D(1) by (simp add: f'(2))
  have len: "length data = ?sz" using data by simp
  have nth: "data ! i = bytes (dev f) (table_base f + i)" if "i < ?sz" for i using that data lba by simp
  show t: "\<forall>i < fs_table_size f'. tbyte bytes f' i = bytes (dev f) (table_base f' + i)"
    using nth assms(5) len by (simp add: f'(2) tb tbyte_def)
  have eq: "fs_table_size f = ?n * fs_bytes_per_sector f" by (rule geometryD(1) [OF assms(2)])
  have P: "io_mul f' * bs = fs_bytes_per_sector f'" "table_sectors f' = replicate (table_entries f') 0"
    "length (table_buffer f') = table_entries f' * fs_bytes_per_sector f'" "table_offset f' = 0"
    "length (table_buffer f') = (if type_32 f' then 0x20000 else fs_table_size f')"
    unfolding f'(2) tb using assms(3-5) len eq by simp_all
  have t2: "\<forall>i < fs_table_size f'. tbyte bytes f' i = bytes (dev f') (table_base f' + i)" using t dv by simp
  show "table_ok bytes bs f'" "coherent bytes f'" by (rule table_ok_loaded [OF geo P t2])+
qed

lemma first_window_main:
  assumes "block_device env bytes bs" "fat_geometry f" "io_mul f * bs = fs_bytes_per_sector f" "type_32 f" "table_buffer f = []"
    "table_offset f = 0xF0000000" "read_table_buffer env f 0 = (0, off, f')"
  shows "table_ok bytes bs f'" "coherent bytes f'" "bytes (dev f') = bytes (dev f)"
    "\<forall>i < fs_table_size f'. tbyte bytes f' i = bytes (dev f) (table_base f' + i)"
proof -
  let ?n = "0x20000 div fs_bytes_per_sector f"
  define g where "g = f\<lparr>table_buffer := replicate 0x20000 0, table_sectors := replicate ?n 0,
    table_buffer_size := 0x20000, table_entries := ?n, table_offset := 0\<rparr>"
  have l: "load_window env 0 g = (0, f')"
    using assms(5-7) by (auto simp: read_table_buffer_def Let_def g_def FAT_INCONSISTENT_STATE_def split: if_splits prod.splits)
  have n: "?n * fs_bytes_per_sector f = 0x20000" using geometry_sector_dvd [OF assms(2)] by (rule dvd_div_mult_self)
  have geo: "fat_geometry g" using assms(2) geometry_frame [of g f] by (simp add: g_def layout_def)
  have sh: "io_mul g * bs = fs_bytes_per_sector g" "length (table_buffer g) = 0x20000" using assms(3) by (simp_all add: g_def)
  have sz: "0 < fs_table_size g" using geometryD(11) [OF geo] assms(4) by (simp add: g_def)
  have "0x20000 dvd (0::nat)" by simp
  from assms(1) geo sh this sz l have "table_ok bytes bs f' \<and> coherent bytes f' \<and> bytes (dev f') = bytes (dev f) \<and>
    (\<forall>i < fs_table_size f'. tbyte bytes f' i = bytes (dev f) (table_base f' + i))"
  proof (cases rule: load_window_main)
    case (loaded tb d)
    have e: "dev g = dev f" "fs_table_size g = fs_table_size f" "table_base g = table_base f" by (simp_all add: g_def)
    have dv: "bytes (dev f') = bytes (dev f)" using loaded(3) e(1) by (simp add: loaded(2))
    have t: "\<forall>i < fs_table_size f'. tbyte bytes f' i = bytes (dev f) (table_base f' + i)"
      using loaded(3-5) by (auto simp: loaded(2) tbyte_def g_def)
    have geo': "fat_geometry f'" using geo geometry_frame [of f' g] by (simp add: loaded(2) layout_def)
    have P: "io_mul f' * bs = fs_bytes_per_sector f'" "table_sectors f' = replicate (table_entries f') 0"
      "length (table_buffer f') = table_entries f' * fs_bytes_per_sector f'" "table_offset f' = 0"
      "length (table_buffer f') = (if type_32 f' then 0x20000 else fs_table_size f')"
      unfolding loaded(2) g_def using assms(3,4) loaded(4) n by simp_all
    have t2: "\<forall>i < fs_table_size f'. tbyte bytes f' i = bytes (dev f') (table_base f' + i)" using t dv by simp
    have "table_ok bytes bs f'" "coherent bytes f'" by (rule table_ok_loaded [OF geo' P t2])+
    then show ?thesis using dv t by blast
  qed simp
  then show "table_ok bytes bs f'" "coherent bytes f'" "bytes (dev f') = bytes (dev f)"
    "\<forall>i < fs_table_size f'. tbyte bytes f' i = bytes (dev f) (table_base f' + i)" by blast+
qed

lemma fat_create_main:
  assumes "block_device env bytes bs" "\<forall>r b t. fat_get_size env fid d = (r, b, t) \<longrightarrow> b = bs" "fat_create env alloc_ok fid d = (0, Some f)"
  shows "table_ok bytes bs f \<and> coherent bytes f \<and> ready f = FAT_READY \<and> fd_special f = fd_entries f \<and>
    bytes (dev f) = bytes d \<and> (\<forall>i < fs_table_size f. tbyte bytes f i = bytes d (table_base f + i))"
proof -
  let ?m = "fresh_fat fid d"
  obtain g where g: "read_bios_parameter_block env ?m fid = (0, g)"
    using assms(3) by (auto simp: fat_create_def split: if_splits prod.splits)
  note B = read_bios_parameter_block_main [OF g]
  have io: "io_mul g * bs = fs_bytes_per_sector g" using B(2) assms(2) by auto
  obtain n r data where "fat_io_read env fid 0 n d = (r, data, dev g)" using B(6) by auto
  then have dg: "bytes (dev g) = bytes d" by (rule block_device_read(1) [OF assms(1)])
  obtain h where h: "(if type_32 g then case read_table_buffer env (g\<lparr>table_offset := 0xF0000000\<rparr>) 0 of (r, off, f) \<Rightarrow> (r, f)
      else read_full_table env g) = (0, h)"
    and f: "f = h\<lparr>fd_entries := fd_entries h - 1, fd_special := fd_entries h - 1, maximum_file_size := 0xFFFFFFFF, ready := FAT_READY\<rparr>"
    using assms(3) g by (auto simp: fat_create_def Let_def split: if_split_asm prod.splits)
  have H: "table_ok bytes bs h \<and> coherent bytes h \<and> bytes (dev h) = bytes d \<and>
    (\<forall>i < fs_table_size h. tbyte bytes h i = bytes d (table_base h + i))"
  proof (cases "type_32 g")
    case True
    let ?g = "g\<lparr>table_offset := 0xF0000000\<rparr>"
    obtain off where rt: "read_table_buffer env ?g 0 = (0, off, h)" using h True by (auto split: prod.splits)
    have "fat_geometry ?g" using B(1) geometry_frame [of ?g g] by (simp add: layout_def)
    from first_window_main [OF assms(1) this _ _ _ _ rt] io True B(3) dg show ?thesis by auto
  next
    case False
    then have rt: "read_full_table env g = (0, h)" using h by simp
    from read_full_table_main [OF assms(1) B(1) io False _ rt] B(7) dg show ?thesis by auto
  qed
  have "data_step bytes h (f\<lparr>ready := ready h\<rparr>)" by (simp add: data_step_def f layout_def)
  note D = data_step_table [OF this conjunct1 [OF H]]
  have "table_ok bytes bs f = table_ok bytes bs (f\<lparr>ready := ready h\<rparr>)" "coherent bytes f = coherent bytes (f\<lparr>ready := ready h\<rparr>)"
    by (simp_all add: table_ok_def coherent_def fat_geometry_def window_shape_def dirty_inside_def tbyte_def dirty_def)
  then have "table_ok bytes bs f" "coherent bytes f" using D(1,3) H by simp_all
  moreover have "tbyte bytes f i = tbyte bytes h i" for i by (simp add: f tbyte_def)
  moreover have "fs_table_size f = fs_table_size h" "table_base f = table_base h" "dev f = dev h" "fd_special f = fd_entries f"
    "ready f = FAT_READY" by (simp_all add: f)
  ultimately show ?thesis using H by simp
qed

text \<open>A boot sector of a FAT12 volume with 1008 sectors on the device that never fails.\<close>

definition boot_disk :: "nat \<Rightarrow> u8" where
  "boot_disk x = (if x = 0 then 0xEB else if x = 1 then 0x3C else if x = 2 then 0x90 else if x = 12 then 2
    else if x = 13 then 1 else if x = 14 then 1 else if x = 16 then 1 else if x = 17 then 16
    else if x = 19 then 0xF0 else if x = 20 then 3 else if x = 22 then 3 else if x = 510 then 0x55 else if x = 511 then 0xAA
    else 0)"

lemma boot_disk_read: "i < 512 \<Longrightarrow> overlay (replicate 4096 0) 0 (map boot_disk [0..<512]) ! i = boot_disk i"
  by (simp add: overlay_def nth_append)

lemma boot_disk_mounts: "\<exists>f. fat_create ram_env True 0 boot_disk = (0, Some f) \<and> fs_clusters f = 1003 \<and> type_12 f"
proof -
  define buf where "buf = overlay (replicate 4096 0) 0 (map boot_disk [0..<512])"
  have b: "buf ! i = boot_disk i" if "i < 512" for i unfolding buf_def by (rule boot_disk_read [OF that])
  have v: "bpb_signature buf" "LE16 buf 11 = 512" "buf ! 13 = 1" "LE16 buf 14 = 1" "buf ! 16 = 1" "LE16 buf 17 = 16" "LE16 buf 19 = 1008"
    "LE32 buf 32 = 0" "LE16 buf 22 = 3"
    by (simp_all add: bpb_signature_def LE16_def LE32_def b boot_disk_def)
  have p: "is_pow2 512" "is_pow2 (Suc 0)" by (simp_all add: is_pow2_def)
  have sz: "pad_size 512 = 512" by (subst pad_size.simps) simp
  show ?thesis
    by (simp add: fat_create_def read_bios_parameter_block_def ram_env_def p sz fresh_fat_def Let_def buf_def [symmetric] v bpb_sizes_def bpb_clusters_def bpb_type_def read_full_table_def)
qed


text \<open>
  C13. A mounted instance is sound. When \<^verbatim>\<open>fat_create\<close> accepts a device, whatever is in its boot
  sector, the geometry is consistent (the table holds all entries, the data clusters lie inside the
  volume and behind the tables, the type fits the number of clusters), the window holds the bytes of the
  primary table, no sector is marked as modified, the device has not been changed, and the instance is
  ready with one file descriptor kept back.
\<close>

theorem fat_create_correct:
  assumes "block_device env bytes bs" "\<forall>r b t. fat_get_size env fid d = (r, b, t) \<longrightarrow> b = bs" "fat_create env alloc_ok fid d = (0, Some f)"
  shows "table_ok bytes bs f \<and> coherent bytes f \<and> ready f = FAT_READY \<and> fd_special f = fd_entries f \<and>
    bytes (dev f) = bytes d \<and> (\<forall>i < fs_table_size f. tbyte bytes f i = bytes d (table_base f + i))"
  by (rule fat_create_main [OF assms])

theorem fat_create_correct_witness:
  "\<exists>f. fat_create ram_env True 0 boot_disk = (0, Some f) \<and> table_ok (\<lambda>d. d) 512 f \<and> dev f = boot_disk"
proof -
  obtain f where f: "fat_create ram_env True 0 boot_disk = (0, Some f)" using boot_disk_mounts by blast
  have "\<forall>r b t. fat_get_size ram_env 0 boot_disk = (r, b, t) \<longrightarrow> b = 512" by (simp add: ram_env_def)
  from fat_create_correct [OF ram_device this f] f show ?thesis by blast
qed

end
