(* ===== verification/Fat_Reach.thy ===== *)
theory Fat_Reach
  imports Fat
begin

text \<open>
  What every operation keeps: unless a device error has taken the instance out of service, its table is
  well formed.
\<close>

definition sound :: "('d \<Rightarrow> nat \<Rightarrow> u8) \<Rightarrow> nat \<Rightarrow> 'd fat_instance \<Rightarrow> bool" where
  "sound bytes bs f \<longleftrightarrow> ready f = 0 \<or> table_ok bytes bs f"

lemma soundI [intro]: "table_ok bytes bs f \<Longrightarrow> sound bytes bs f"
  by (simp add: sound_def)

lemma sound_data:
  assumes "sound bytes bs f" "ready f' = ready f" "table_ok bytes bs f \<Longrightarrow> data_step bytes f f'"
  shows "sound bytes bs f'"
  using assms data_step_table(1) [of bytes f f' bs] by (auto simp: sound_def)

lemma sound_get:
  assumes "block_device env bytes bs" "sound bytes bs f"
  shows "sound bytes bs (snd (get_table_value env f off))"
proof (cases "ready f = 0 \<or> \<not> off < fs_clusters f + 2")
  case True
  then show ?thesis using assms(2) ready_get_table_value [of f env off] by (auto simp: sound_def get_table_value_def)
next
  case False
  then have t: "table_ok bytes bs f" "off < fs_clusters f + 2" using assms(2) by (auto simp: sound_def)
  obtain v f' where g: "get_table_value env f off = (v, f')" by (cases "get_table_value env f off")
  from assms(1) t g show ?thesis by (cases rule: get_table_value_main) (auto simp: g sound_def)
qed

lemma sound_set:
  assumes "block_device env bytes bs" "sound bytes bs f"
  shows "sound bytes bs (snd (set_table_value env f off v))"
proof (cases "ready f = 0 \<or> \<not> off < fs_clusters f + 2")
  case True
  then show ?thesis using assms(2) ready_set_table_value [of f env off v] by (auto simp: sound_def set_table_value_def Let_def)
next
  case False
  then have t: "table_ok bytes bs f" "off < fs_clusters f + 2" using assms(2) by (auto simp: sound_def)
  obtain r f' where g: "set_table_value env f off v = (r, f')" by (cases "set_table_value env f off v")
  from assms(1) t g show ?thesis by (cases rule: set_table_value_main) (auto simp: g sound_def)
qed

lemma sound_write_table:
  assumes "block_device env bytes bs" "sound bytes bs f"
  shows "sound bytes bs (snd (write_table env f))"
proof (cases "ready f = 0")
  case True
  then show ?thesis using ready_write_table [of f env] by (simp add: sound_def)
next
  case False
  then have t: "table_ok bytes bs f" using assms(2) by (auto simp: sound_def)
  obtain r f' where g: "write_table env f = (r, f')" by (cases "write_table env f")
  from assms(1) tracksI [OF t] g show ?thesis by (cases rule: tracks_write) (auto simp: g sound_def tracksD)
qed

lemma sound_last_allocated: "sound bytes bs f \<Longrightarrow> sound bytes bs (f\<lparr>last_allocated := i\<rparr>)"
  by (rule sound_data [where f = f]) (simp_all add: data_step_def layout_def)

lemma sound_alloc_loop:
  assumes "block_device env bytes bs" "sound bytes bs f"
  shows "sound bytes bs (snd (alloc_loop env n i f))"
  using assms
proof (induction env n i f rule: alloc_loop.induct)
  case (1 env n i f)
  obtain v g where g: "get_table_value env f i = (v, g)" by (cases "get_table_value env f i")
  have "sound bytes bs g" using sound_get [OF 1(2,3), of i] g by simp
  then show ?case using 1(1) [OF _ g [symmetric] _ 1(2)] 1(3) g sound_last_allocated by (subst alloc_loop.simps) auto
qed

lemma sound_allocate_cluster:
  assumes "block_device env bytes bs" "sound bytes bs f"
  shows "sound bytes bs (snd (snd (allocate_cluster env f)))"
proof -
  define n where "n = fs_clusters f + 2"
  define start where "start = (if last_allocated f > 2 then alloc_loop env n (last_allocated f) f else (None, f))"
  obtain o1 f1 where 1: "start = (o1, f1)" by (cases start)
  have f1: "sound bytes bs f1"
    using sound_alloc_loop [OF assms, of n "last_allocated f"] 1 assms by (auto simp: start_def split: if_splits)
  obtain o2 f2 where 2: "alloc_loop env n 2 f1 = (o2, f2)" by (cases "alloc_loop env n 2 f1")
  have f2: "sound bytes bs f2" using sound_alloc_loop [OF assms(1) f1, of n 2] 2 by simp
  show ?thesis using f1 f2 unfolding allocate_cluster_def Let_def n_def [symmetric] start_def [symmetric] 1 prod.case 2
    by (auto split: option.splits)
qed

lemma sound_clear_cluster:
  assumes "block_device env bytes bs" "sound bytes bs f"
  shows "sound bytes bs (snd (clear_cluster env fast c f))"
proof (rule sound_data [OF assms(2) ready_clear_cluster])
  obtain r f' where g: "clear_cluster env fast c f = (r, f')" by (cases "clear_cluster env fast c f")
  show "table_ok bytes bs f \<Longrightarrow> data_step bytes f (snd (clear_cluster env fast c f))"
    using clear_cluster_step [OF assms(1) _ g] g by simp
qed

lemma sound_link_cluster:
  assumes "block_device env bytes bs" "sound bytes bs f"
  shows "sound bytes bs (snd (link_cluster env fast off v f))"
proof -
  obtain r1 f1 where 1: "set_table_value env f off v = (r1, f1)" by (cases "set_table_value env f off v")
  have "sound bytes bs f1" using sound_set [OF assms, of off v] 1 by simp
  then show ?thesis using sound_write_table [OF assms(1)] by (simp add: link_cluster_def 1)
qed

lemma sound_append_cluster:
  assumes "block_device env bytes bs" "sound bytes bs f"
  shows "sound bytes bs (snd (append_cluster env f cur fast))"
proof -
  obtain v f1 where 1: "get_table_value env f cur = (v, f1)" by (cases "get_table_value env f cur")
  obtain r2 c f2 where 2: "allocate_cluster env f1 = (r2, c, f2)" by (cases "allocate_cluster env f1")
  obtain r3 f3 where 3: "clear_cluster env fast c f2 = (r3, f3)" by (cases "clear_cluster env fast c f2")
  obtain r4 f4 where 4: "link_cluster env fast c 0x0FFFFFFF f3 = (r4, f4)" by (cases "link_cluster env fast c 0x0FFFFFFF f3")
  have s1: "sound bytes bs f1" using sound_get [OF assms, of cur] 1 by simp
  have s2: "sound bytes bs f2" using sound_allocate_cluster [OF assms(1) s1] 2 by simp
  have s3: "sound bytes bs f3" using sound_clear_cluster [OF assms(1) s2, of fast c] 3 by simp
  have s4: "sound bytes bs f4" using sound_link_cluster [OF assms(1) s3, of fast c "0x0FFFFFFF"] 4 by simp
  show ?thesis using s1 s2 s3 s4 sound_link_cluster [OF assms(1) s4, of fast cur c]
    unfolding append_cluster_def 1 2 3 4 prod.case by simp
qed

lemma sound_delete_step:
  assumes "block_device env bytes bs" "sound bytes bs f"
  shows "sound bytes bs (snd (delete_step env c f))"
proof -
  have r: "ready (wipe_cluster env c f) = ready f"
    using ready_read_cluster [of env f c True] ready_write_cluster [of env]
    by (auto simp: wipe_cluster_def clear_cluster_buffer_def split: prod.splits)
  have s1: "sound bytes bs (wipe_cluster env c f)" by (rule sound_data [OF assms(2) r wipe_cluster_step [OF assms(1)]])
  obtain v f2 where 2: "get_table_value env (wipe_cluster env c f) c = (v, f2)" by (cases "get_table_value env (wipe_cluster env c f) c")
  have "sound bytes bs f2" using sound_get [OF assms(1) s1, of c] 2 by simp
  then show ?thesis using sound_set [OF assms(1)] by (simp add: delete_step_def 2)
qed

lemma sound_delete_loop:
  assumes "block_device env bytes bs" "sound bytes bs f" "delete_loop env c f = Some f'"
  shows "sound bytes bs f'"
  using assms(1,2)
proof (induction rule: delete_loop.raw_induct [OF _ assms(3)])
  case (1 loop env c f f')
  obtain v g where d: "delete_step env c f = (v, g)" by (cases "delete_step env c f")
  have "sound bytes bs g" using sound_delete_step [OF 1(3,4), of c] d by simp
  then show ?case using 1 d by (auto split: if_splits)
qed

lemma sound_delete_clusters:
  assumes "block_device env bytes bs" "sound bytes bs f" "delete_clusters env f c = Some f'"
  shows "sound bytes bs f'"
proof -
  obtain g where g: "delete_loop env c f = Some g" "f' = snd (write_table env (g\<lparr>last_allocated := 0\<rparr>))"
    using assms(3) by (auto simp: delete_clusters_def split: option.splits)
  show ?thesis unfolding g(2)
    by (rule sound_write_table [OF assms(1) sound_last_allocated [OF sound_delete_loop [OF assms(1,2) g(1)]]])
qed

lemma read_block_step:
  assumes "block_device env bytes bs"
  shows "data_step bytes f (snd (read_block env f lba))"
proof -
  obtain r data d where rd: "fat_io_read env (fat_id f) lba (fs_bytes_per_sector f) (dev f) = (r, data, d)"
    by (cases "fat_io_read env (fat_id f) lba (fs_bytes_per_sector f) (dev f)")
  show ?thesis using block_device_read(1) [OF assms rd] by (simp add: read_block_def Let_def rd data_step_def layout_def)
qed

lemma read_cluster_step:
  assumes "block_device env bytes bs" "table_ok bytes bs f"
  shows "data_step bytes f (snd (read_cluster env f cluster skip_io))"
proof -
  let ?lba = "(fs_total_sectors f - fs_data_sectors f + (cluster - 2) * fs_cluster_sectors f)"
  obtain r data d where rd: "fat_io_read env (fat_id f) (?lba * io_mul f) (cluster_size f) (dev f) = (r, data, d)"
    by (cases "fat_io_read env (fat_id f) (?lba * io_mul f) (cluster_size f) (dev f)")
  have "length (cluster_buffer f) = cluster_size f" using table_okD(1) [OF assms(2)] unfolding fat_geometry_def by blast
  then show ?thesis using block_device_read(1,2) [OF assms(1) rd]
    by (simp add: read_cluster_def Let_def rd data_step_def layout_def overlay_def)
qed

lemma beyond_tables:
  assumes "table_ok bytes bs f" "\<not> sector \<le> fs_last_table_sector f"
  shows "table_base f + fs_table_size f \<le> sector * io_mul f * bs"
proof -
  note s = shapeD [OF table_okD(2) [OF assms(1)]]
  have t: "fs_tables f = 1 \<or> fs_tables f = 2" "fs_last_table_sector f = fs_reserved_sectors f + fs_tables f * fs_table_sectors f - 1"
    "fs_table_size f = fs_table_sectors f * fs_bytes_per_sector f"
    using table_okD(1) [OF assms(1)] unfolding fat_geometry_def by blast+
  have "fs_reserved_sectors f + fs_table_sectors f \<le> sector" using t(1,2) assms(2) by auto
  then have "(fs_reserved_sectors f + fs_table_sectors f) * fs_bytes_per_sector f \<le> sector * fs_bytes_per_sector f" by simp
  then show ?thesis unfolding t(3) by (simp only: mult.assoc s(2) distrib_right)
qed

lemma write_block_step:
  assumes "block_device env bytes bs" "table_base f + fs_table_size f \<le> lba * bs"
  shows "data_step bytes f (snd (write_block env f lba))"
proof -
  let ?data = "take (fs_bytes_per_sector f) (block_buffer f)"
  obtain r d where w: "fat_io_write env (fat_id f) lba ?data (dev f) = (r, d)" by (cases "fat_io_write env (fat_id f) lba ?data (dev f)")
  have "bytes d (table_base f + i) = bytes (dev f) (table_base f + i)" if "i < fs_table_size f" for i
    by (rule block_device_write(1) [OF assms(1) w]) (use assms(2) that in linarith)
  then show ?thesis by (simp add: write_block_def Let_def w data_step_def layout_def)
qed

lemma put_record_step: "data_step bytes f (put_record n rec f)"
  by (simp add: put_record_def data_step_def layout_def)

lemma write_record_buffer_step:
  assumes "block_device env bytes bs" "table_ok bytes bs f"
  shows "data_step bytes f (snd (write_record_buffer env f n))"
proof (cases "fd_record_offset (fd f ! n) > fs_bytes_per_sector f \<or> fd_record_sector (fd f ! n) \<le> fs_last_table_sector f")
  case True
  then show ?thesis by (auto simp: write_record_buffer_def Let_def)
next
  case False
  let ?lba = "fd_record_sector (fd f ! n) * io_mul f"
  obtain r1 f1 where 1: "read_block env f ?lba = (r1, f1)" by (cases "read_block env f ?lba")
  define f2 where "f2 = f1\<lparr>block_buffer := overlay (block_buffer f1) (fd_record_offset (fd f ! n)) (take 32 (get_record f1 n))\<rparr>"
  obtain r3 f3 where 3: "write_block env f2 ?lba = (r3, f3)" by (cases "write_block env f2 ?lba")
  have s1: "data_step bytes f f1" using read_block_step [OF assms(1), of f ?lba] 1 by simp
  have s2: "data_step bytes f1 f2" by (simp add: f2_def data_step_def layout_def)
  have s12: "data_step bytes f f2" by (rule data_step_trans [OF s1 s2])
  have l: "layout f2 = layout f" using s12 by (simp add: data_step_def)
  have le: "table_base f2 + fs_table_size f2 \<le> ?lba * bs"
    using beyond_tables [OF assms(2)] False by (simp add: layout_simps [OF l])
  have s3: "data_step bytes f2 f3" using write_block_step [OF assms(1) le] 3 by simp
  show ?thesis using False s1 data_step_trans [OF s12 s3]
    by (simp add: write_record_buffer_def Let_def 1 3 f2_def [symmetric])
qed

lemma ready_write_record_buffer: "ready (snd (write_record_buffer env f n)) = ready f"
  by (auto simp: write_record_buffer_def read_block_def write_block_def Let_def split: prod.splits if_splits)

lemma sound_write_record_buffer:
  "block_device env bytes bs \<Longrightarrow> sound bytes bs f \<Longrightarrow> sound bytes bs (snd (write_record_buffer env f n))"
  using sound_data [OF _ ready_write_record_buffer write_record_buffer_step] by blast

lemma sound_read_cluster:
  "block_device env bytes bs \<Longrightarrow> sound bytes bs f \<Longrightarrow> sound bytes bs (snd (read_cluster env f c s))"
  using sound_data [OF _ ready_read_cluster read_cluster_step] by blast

lemma sound_write_cluster:
  "block_device env bytes bs \<Longrightarrow> sound bytes bs f \<Longrightarrow> sound bytes bs (snd (write_cluster env f))"
  using sound_data [OF _ ready_write_cluster write_cluster_step [where f' = "snd (write_cluster env f)" and r = "fst (write_cluster env f)"]]
  by simp

lemma sound_put_record: "sound bytes bs f \<Longrightarrow> sound bytes bs (put_record n rec f)"
  using sound_data [OF _ _ put_record_step] by (simp add: put_record_def)

lemma sound_fd: "sound bytes bs f \<Longrightarrow> sound bytes bs (f\<lparr>fd := l\<rparr>)"
  by (rule sound_data [where f = f]) (simp_all add: data_step_def layout_def)

lemma sound_cluster_buffer:
  assumes "sound bytes bs f" "used + length data = cluster_size f"
  shows "sound bytes bs (f\<lparr>cluster_buffer := overlay (cluster_buffer f) used data\<rparr>)"
proof (rule sound_data [OF assms(1)])
  assume "table_ok bytes bs f"
  then have "length (cluster_buffer f) = cluster_size f" using table_okD(1) unfolding fat_geometry_def by blast
  then show "data_step bytes f (f\<lparr>cluster_buffer := overlay (cluster_buffer f) used data\<rparr>)"
    using assms(2) by (simp add: data_step_def layout_def overlay_def)
qed simp

lemma sound_zero_tail:
  assumes "block_device env bytes bs" "sound bytes bs f"
  shows "sound bytes bs (zero_tail env file_size c f)"
proof (cases "file_size mod cluster_size f \<noteq> 0")
  case True
  let ?used = "file_size mod cluster_size f"
  obtain r g where g: "read_cluster env f c False = (r, g)" by (cases "read_cluster env f c False")
  have sg: "sound bytes bs g" using sound_read_cluster [OF assms, of c False] g by simp
  have cs: "cluster_size g = cluster_size f" using g by (auto simp: read_cluster_def Let_def split: if_splits prod.splits)
  let ?h = "g\<lparr>cluster_buffer := overlay (cluster_buffer g) ?used (replicate (cluster_size g - ?used) 0)\<rparr>"
  have "sound bytes bs ?h"
  proof (cases "ready f = 0")
    case True
    then show ?thesis using ready_read_cluster [of env f c False] g by (simp add: sound_def)
  next
    case False
    then have "fat_geometry f" using assms(2) table_okD(1) by (auto simp: sound_def)
    then have "0 < cluster_size f" unfolding fat_geometry_def by auto
    then have "?used \<le> cluster_size f" by (simp add: less_imp_le)
    then show ?thesis using sound_cluster_buffer [OF sg, of ?used "replicate (cluster_size g - ?used) 0"] cs by simp
  qed
  then have "sound bytes bs (snd (write_cluster env ?h))" by (rule sound_write_cluster [OF assms(1)])
  then show ?thesis using True sg by (simp add: zero_tail_def Let_def g cs)
qed (simp add: zero_tail_def assms(2))

lemma sound_trim_loop:
  assumes "block_device env bytes bs" "sound bytes bs f"
  shows "sound bytes bs (snd (trim_loop env file_size n i c f))"
  using assms
proof (induction env file_size n i c f rule: trim_loop.induct)
  case (1 env file_size n i c f)
  obtain v g where g: "get_table_value env f c = (v, g)" by (cases "get_table_value env f c")
  obtain r h where h: "set_table_value env g c 0x0FFFFFFF = (r, h)" by (cases "set_table_value env g c 0x0FFFFFFF")
  have sg: "sound bytes bs g" using sound_get [OF 1(3,4), of c] g by simp
  have sh: "sound bytes bs h" using sound_set [OF 1(3) sg, of c "0x0FFFFFFF"] h by simp
  have sz: "sound bytes bs (zero_tail env file_size c h)" by (rule sound_zero_tail [OF 1(3) sh])
  show ?case
    by (subst trim_loop.simps) (use 1(1) [OF _ g [symmetric] _ h [symmetric] _ 1(3) sz] 1(2) [OF _ g [symmetric] _ 1(3) sg] 1(4) sh in \<open>auto simp: g h\<close>)
qed

lemma sound_delete_extra_clusters:
  assumes "block_device env bytes bs" "sound bytes bs f" "delete_extra_clusters env f n = Some f'"
  shows "sound bytes bs f'"
proof -
  define rec where "rec = get_record f n"
  define cl where "cl = (push_bit 16 (LE16 rec 20) OR LE16 rec 26)"
  define f1 where "f1 = f\<lparr>fd := (fd f)[n := (fd f ! n)\<lparr>fd_cluster_idx := 0, fd_cluster_val := 0\<rparr>]\<rparr>"
  have s1: "sound bytes bs f1" unfolding f1_def by (rule sound_fd [OF assms(2)])
  note e = assms(3)[unfolded delete_extra_clusters_def Let_def, folded rec_def, folded cl_def, folded f1_def]
  show ?thesis
  proof (cases "LE32 rec 28 = 0")
    case True
    define f2 where "f2 = put_record n (W_LE16 (W_LE16 rec 20 0) 26 0) f1"
    obtain r f3 where 3: "write_record_buffer env f2 n = (r, f3)" by (cases "write_record_buffer env f2 n")
    have "sound bytes bs f2" unfolding f2_def by (rule sound_put_record [OF s1])
    from this have s3: "sound bytes bs f3" using sound_write_record_buffer [OF assms(1) \<open>sound bytes bs f2\<close>, of n] 3 by simp
    show ?thesis using e True 3 s3 sound_put_record [OF s3] sound_delete_clusters [OF assms(1) s3]
      by (auto simp: f2_def split: if_splits)
  next
    case False
    obtain k where k: "(case trim_loop env (LE32 rec 28) k 0 cl f1 of (None, f) \<Rightarrow> Some f
       | (Some cluster, f) \<Rightarrow> if cluster \<ge> 2 \<and> cluster < 0x0FFFFFF8 then delete_clusters env f cluster else Some f) = Some f'"
      using e False by (metis (no_types, lifting))
    obtain o3 f3 where 3: "trim_loop env (LE32 rec 28) k 0 cl f1 = (o3, f3)" by (cases "trim_loop env (LE32 rec 28) k 0 cl f1")
    have s3: "sound bytes bs f3" using sound_trim_loop [OF assms(1) s1, of "LE32 rec 28" k 0 cl] 3 by simp
    show ?thesis using k s3 sound_delete_clusters [OF assms(1) s3] by (auto simp: 3 split: option.splits if_splits)
  qed
qed

text \<open>
  The states of a mounted instance under every sequence of the operations on the table, the clusters and
  the records. The last two rules stand for the file layer, which fills the descriptors and the cluster
  buffer.
\<close>

inductive fat_reach :: "'d fat_env \<Rightarrow> bool \<Rightarrow> int \<Rightarrow> 'd \<Rightarrow> 'd fat_instance \<Rightarrow> bool"
  for env alloc_ok fid d where
  mount: "fat_create env alloc_ok fid d = (0, Some f) \<Longrightarrow> fat_reach env alloc_ok fid d f"
| get: "fat_reach env alloc_ok fid d f \<Longrightarrow> fat_reach env alloc_ok fid d (snd (get_table_value env f off))"
| set: "fat_reach env alloc_ok fid d f \<Longrightarrow> fat_reach env alloc_ok fid d (snd (set_table_value env f off v))"
| flush: "fat_reach env alloc_ok fid d f \<Longrightarrow> fat_reach env alloc_ok fid d (snd (write_table env f))"
| append: "fat_reach env alloc_ok fid d f \<Longrightarrow> fat_reach env alloc_ok fid d (snd (append_cluster env f c fast))"
| delete: "fat_reach env alloc_ok fid d f \<Longrightarrow> delete_clusters env f c = Some g \<Longrightarrow> fat_reach env alloc_ok fid d g"
| trim: "fat_reach env alloc_ok fid d f \<Longrightarrow> delete_extra_clusters env f n = Some g \<Longrightarrow> fat_reach env alloc_ok fid d g"
| read: "fat_reach env alloc_ok fid d f \<Longrightarrow> fat_reach env alloc_ok fid d (snd (read_cluster env f c skip_io))"
| put: "fat_reach env alloc_ok fid d f \<Longrightarrow> fat_reach env alloc_ok fid d (snd (write_cluster env f))"
| store: "fat_reach env alloc_ok fid d f \<Longrightarrow> fat_reach env alloc_ok fid d (snd (write_record_buffer env f n))"
| fds: "fat_reach env alloc_ok fid d f \<Longrightarrow> fat_reach env alloc_ok fid d (f\<lparr>fd := l\<rparr>)"
| fill: "fat_reach env alloc_ok fid d f \<Longrightarrow> used + length data = cluster_size f \<Longrightarrow>
    fat_reach env alloc_ok fid d (f\<lparr>cluster_buffer := overlay (cluster_buffer f) used data\<rparr>)"

text \<open>
  C12. Every reachable state is well formed. Whatever sequence of table, cluster and record operations
  is run on a mounted instance, with whatever arguments and device errors, the geometry and the window
  stay consistent, and for FAT32 the unmodified part of the window agrees with the device; the only
  exception is an instance that a device error has taken out of service.
\<close>

theorem fat_reachable_ok:
  assumes "block_device env bytes bs" "\<forall>r b t. fat_get_size env fid d = (r, b, t) \<longrightarrow> b = bs"
    "fat_reach env alloc_ok fid d f" "ready f \<noteq> 0"
  shows "table_ok bytes bs f"
proof -
  have "sound bytes bs f" using assms(3)
  proof induction
    case (mount f)
    have "table_ok bytes bs f" by (rule fat_create_main [OF assms(1,2) mount, THEN conjunct1])
    then show ?case ..
  next
    case (get f off)
    show ?case by (rule sound_get [OF assms(1) get.IH])
  next
    case (set f off v)
    show ?case by (rule sound_set [OF assms(1) set.IH])
  next
    case (flush f)
    show ?case by (rule sound_write_table [OF assms(1) flush.IH])
  next
    case (append f c fast)
    show ?case by (rule sound_append_cluster [OF assms(1) append.IH])
  next
    case (delete f c g)
    show ?case by (rule sound_delete_clusters [OF assms(1) delete.IH delete.hyps(2)])
  next
    case (trim f n g)
    show ?case by (rule sound_delete_extra_clusters [OF assms(1) trim.IH trim.hyps(2)])
  next
    case (read f c skip_io)
    show ?case by (rule sound_read_cluster [OF assms(1) read.IH])
  next
    case (put f)
    show ?case by (rule sound_write_cluster [OF assms(1) put.IH])
  next
    case (store f n)
    show ?case by (rule sound_write_record_buffer [OF assms(1) store.IH])
  next
    case (fds f l)
    show ?case by (rule sound_fd [OF fds.IH])
  next
    case (fill f used data)
    show ?case by (rule sound_cluster_buffer [OF fill.IH fill.hyps(2)])
  qed
  with assms(4) show ?thesis by (simp add: sound_def)
qed

theorem fat_reachable_ok_witness:
  "\<exists>f g. fat_create ram_env True 0 boot_disk = (0, Some f) \<and> g = snd (set_table_value ram_env f 5 6) \<and>
    table_ok (\<lambda>d. d) 512 (snd (append_cluster ram_env g 2 True))"
proof -
  obtain f where f: "fat_create ram_env True 0 boot_disk = (0, Some f)" "type_12 f" using boot_disk_mounts by blast
  let ?g = "snd (set_table_value ram_env f 5 6)" let ?h = "snd (append_cluster ram_env ?g 2 True)"
  have sz: "\<forall>r b t. fat_get_size ram_env 0 boot_disk = (r, b, t) \<longrightarrow> b = 512" by (simp add: ram_env_def)
  note C = fat_create_main [OF ram_device sz f(1)]
  have t: "\<not> type_32 f" "ready f = FAT_READY"
    using geometryD(6) [OF table_okD(1) f(2)] C by blast+
  then have "ready ?h = FAT_READY"
    using full_table_ready(2) [OF t(1), of ram_env 5 6] full_table_ready(3) [OF t(1), of ram_env 5 6] full_append_ready [of ?g ram_env 2] by simp
  moreover have "fat_reach ram_env True 0 boot_disk ?h" by (intro fat_reach.append fat_reach.set fat_reach.mount f(1))
  ultimately have "table_ok (\<lambda>d. d) 512 ?h" using fat_reachable_ok [OF ram_device sz] by (simp add: FAT_READY_def)
  then show ?thesis using f(1) by blast
qed

end
