(* ===== verification/Fat_File.thy ===== *)
theory Fat_File
  imports Fat_Reach
begin

text \<open>
  Descriptors and the reading of files, \<^verbatim>\<open>src/common/fat.c\<close>: the table of descriptors grows on
  demand and keeps its last entry for the driver; a descriptor holds the record of its file, the
  offset, and the last cluster reached. The requested size is 0 where the source passes a null pointer for it.
\<close>

subsection \<open>Descriptors\<close>

definition upd_fd :: "nat \<Rightarrow> (fat_fd \<Rightarrow> fat_fd) \<Rightarrow> 'd fat_instance \<Rightarrow> 'd fat_instance" where
  "upd_fd n g f = f\<lparr>fd := (fd f)[n := g (fd f ! n)]\<rparr>"

text \<open>The size of \<^verbatim>\<open>struct fat_fd\<close> is 64 bytes.\<close>

definition grow_fds :: "'d fat_env \<Rightarrow> int \<Rightarrow> 'd fat_instance \<Rightarrow> 'd fat_instance option" where
  "grow_fds env n f =
    (let entries = int (fd_entries f);
         new_entries = n + 2;
         new_entries = (if new_entries - entries < 8 then entries + 8 else new_entries);
         new_entries = (if new_entries > 65536 + 1 then 65536 + 1 else new_entries)
     in
     if \<not> malloc_ok env (nat new_entries * 64) then None
     else Some (f\<lparr>fd := take (fd_entries f) (fd f) @ replicate (nat new_entries - fd_entries f) empty_fd,
       fd_entries := nat (new_entries - 1), fd_special := nat (new_entries - 1)\<rparr>))"

definition check_fd :: "'d fat_env \<Rightarrow> 'd fat_instance \<Rightarrow> int \<Rightarrow> bool \<Rightarrow> bool \<times> 'd fat_instance" where
  "check_fd env f n opened =
    (if n < 0 \<or> n \<ge> 65536 then (True, f)
     else
       case (if n \<ge> int (fd_entries f) then grow_fds env n f else Some f) of
         None \<Rightarrow> (True, f)
       | Some f \<Rightarrow> ((fd_opened (fd f ! nat n) \<noteq> 0) \<noteq> opened, f))"

definition init_fat_fd :: "nat \<Rightarrow> 'd fat_instance \<Rightarrow> 'd fat_instance" where
  "init_fat_fd n f = upd_fd n (\<lambda>_. empty_fd) f"

definition fat_close :: "'d fat_env \<Rightarrow> 'd fat_instance \<Rightarrow> int \<Rightarrow> int \<times> 'd fat_instance" where
  "fat_close env f n =
    (if ready f \<noteq> FAT_READY then (FAT_NOT_READY, f)
     else
       case check_fd env f n True of
         (e1, f) \<Rightarrow>
       case (if e1 then check_fd env f n False else (False, f)) of
         (e2, f) \<Rightarrow>
       if e1 \<and> e2 then (FAT_INVALID_PARAMETERS, f)
       else (0, upd_fd (nat n) (\<lambda>e. e\<lparr>fd_opened := 0\<rparr>) f))"

definition fat_eof :: "'d fat_env \<Rightarrow> 'd fat_instance \<Rightarrow> int \<Rightarrow> int \<times> 'd fat_instance" where
  "fat_eof env f n =
    (if ready f \<noteq> FAT_READY then (0, f)
     else
       case check_fd env f n True of
         (e, f) \<Rightarrow> if e then (0, f) else (if fd_eof (fd f ! nat n) \<noteq> 0 then 1 else 0, f))"

text \<open>The offset is stored only when the result is 0.\<close>

definition fat_tell :: "'d fat_env \<Rightarrow> 'd fat_instance \<Rightarrow> int \<Rightarrow> int \<times> nat option \<times> 'd fat_instance" where
  "fat_tell env f n =
    (if ready f \<noteq> FAT_READY then (FAT_NOT_READY, None, f)
     else
       case check_fd env f n True of
         (e, f) \<Rightarrow> if e then (FAT_INVALID_PARAMETERS, None, f) else (0, Some (fd_offset (fd f ! nat n)), f))"

text \<open>The loop over \<open>extra_sub\<close>; \<^const>\<open>None\<close> is the error return.\<close>

fun sub_loop :: "nat \<Rightarrow> nat \<Rightarrow> nat option" where
  "sub_loop 0 off = Some off"
| "sub_loop (Suc extra) off = (if off = 0 then None else sub_loop extra (off - 1))"

definition fat_seek :: "'d fat_env \<Rightarrow> 'd fat_instance \<Rightarrow> int \<Rightarrow> int \<Rightarrow> int \<Rightarrow> int \<times> 'd fat_instance" where
  "fat_seek env f n offset whence =
    (let maximum_offset = sub32 (maximum_file_size f) 1 in
     if ready f \<noteq> FAT_READY then (FAT_NOT_READY, f)
     else
       case check_fd env f n True of
         (e, f) \<Rightarrow>
       if e then (FAT_INVALID_PARAMETERS, f)
       else
         let val = 2147483647 + offset;
             (offset, extra_sub) = (if offset < 0 \<and> val < 0 then (offset + (- val), nat (- val)) else (offset, 0));
             set_offset = (\<lambda>off. upd_fd (nat n) (\<lambda>e. e\<lparr>fd_offset := off, fd_eof := 0\<rparr>) f)
         in
         if whence = 0 then
           if offset < 0 then (FAT_SEEK_ERROR, f)
           else if nat offset > maximum_offset then (FAT_SEEK_ERROR, f)
           else (0, set_offset (nat offset))
         else if whence = 1 \<or> whence = 2 then
           let off = (if whence = 2 then LE32 (get_record f (nat n)) 28 else fd_offset (fd f ! nat n)) in
           if offset < 0 then
             let val = nat (- offset) in
             if off < val then (FAT_SEEK_ERROR, f)
             else
               case sub_loop extra_sub (off - val) of
                 None \<Rightarrow> (FAT_SEEK_ERROR, f)
               | Some off \<Rightarrow> (0, set_offset off)
           else if fd_eof (fd f ! nat n) = 2 then (FAT_SEEK_ERROR, f)
           else
             let val = nat offset in
             if \<not> off \<le> 4294967295 - val then (FAT_SEEK_ERROR, f)
             else
               let off = off + val in
               if off > maximum_offset then (FAT_SEEK_ERROR, f) else (0, set_offset off)
         else (FAT_SEEK_ERROR, f))"

subsection \<open>Reading\<close>

text \<open>
  The inner loop that copies from a sector or cluster buffer of \<open>sz\<close> bytes until its end or the
  limit; the loop for a null destination counts in the same way.
\<close>

function copy_span :: "u8 list \<Rightarrow> nat \<Rightarrow> nat \<Rightarrow> nat \<Rightarrow> nat \<Rightarrow> u8 list \<times> nat" where
  "copy_span buf sz limit offset n =
    (if offset < sz then
       if \<not> n + 1 < limit then ([buf ! offset], n + 1)
       else case copy_span buf sz limit (offset + 1) (n + 1) of (data, n) \<Rightarrow> (buf ! offset # data, n)
     else ([], n))"
  by pat_completeness auto
termination
  by (relation "measure (\<lambda>(buf, sz, limit, offset, n). sz - offset)") auto

declare copy_span.simps [simp del]

text \<open>The loop of \<^verbatim>\<open>read_fixed_root_dir\<close> over the sectors.\<close>

partial_function (option) fixed_loop :: "'d fat_env \<Rightarrow> nat \<Rightarrow> nat \<Rightarrow> nat \<Rightarrow> nat \<Rightarrow> u8 list \<Rightarrow> 'd fat_instance \<Rightarrow> (int \<times> nat \<times> u8 list \<times> 'd fat_instance) option" where
  "fixed_loop env limit sector offset n out f =
    (if n < limit then
       if sector < fs_last_table_sector f then Some (FAT_INCONSISTENT_STATE, n, out, f)
       else
         (case read_block env f (sector * io_mul f) of
            (r, f) \<Rightarrow>
          if r \<noteq> 0 then Some (FAT_BLOCK_READ_ERROR, n, out, f)
          else
            (case copy_span (block_buffer f) (fs_bytes_per_sector f) limit offset n of
               (data, n) \<Rightarrow> fixed_loop env limit (sector + 1) 0 n (out @ data) f))
     else Some (0, n, out, f))"

text \<open>The result, the number of bytes read, the contents of the destination, and the instance.\<close>

definition read_fixed_root_dir :: "'d fat_env \<Rightarrow> 'd fat_instance \<Rightarrow> nat \<Rightarrow> nat \<Rightarrow> (int \<times> nat \<times> u8 list \<times> 'd fat_instance) option" where
  "read_fixed_root_dir env f n requested =
    (let dir_size = fs_directory_entries f * 32; offset = fd_offset (fd f ! n) in
     if offset \<ge> dir_size then Some (0, 0, replicate requested 0, upd_fd n (\<lambda>e. e\<lparr>fd_eof := 1\<rparr>) f)
     else
       let limit = (if requested > dir_size - offset then dir_size - offset else requested);
           sector = fs_reserved_sectors f + fs_tables f * fs_table_sectors f + offset div fs_bytes_per_sector f
       in
       case fixed_loop env limit sector (offset mod fs_bytes_per_sector f) 0 [] f of
         None \<Rightarrow> None
       | Some (r, k, out, f) \<Rightarrow>
           let f = upd_fd n (\<lambda>e. e\<lparr>fd_offset := fd_offset e + k\<rparr>) f;
               f = (if fd_offset (fd f ! n) \<ge> dir_size then upd_fd n (\<lambda>e. e\<lparr>fd_eof := 1\<rparr>) f else f)
           in Some (r, k, out @ replicate (requested - k) 0, f))"

text \<open>The walk along the chain to the cluster with index \<open>read_index\<close>.\<close>

function seek_loop :: "'d fat_env \<Rightarrow> bool \<Rightarrow> nat \<Rightarrow> nat \<Rightarrow> nat \<Rightarrow> nat \<Rightarrow> 'd fat_instance \<Rightarrow> int \<times> nat \<times> 'd fat_instance" where
  "seek_loop env is_dir read_index file_clusters i cluster f =
    (if i < file_clusters then
       if i = read_index then (0, cluster, f)
       else
         case get_table_value env f cluster of
           (cluster, f) \<Rightarrow>
         if is_dir \<and> cluster \<ge> 0x0FFFFFF8 then (0, cluster, f)
         else if cluster < 2 \<or> cluster \<ge> 0x0FFFFFF8 then (FAT_INCONSISTENT_STATE, cluster, f)
         else seek_loop env is_dir read_index file_clusters (i + 1) cluster f
     else (FAT_INCONSISTENT_STATE, cluster, f))"
  by pat_completeness auto
termination
  by (relation "measure (\<lambda>(env, is_dir, read_index, file_clusters, i, cluster, f). file_clusters - i)") auto

declare seek_loop.simps [simp del]

text \<open>The loop over the clusters, which remembers the last one in the descriptor.\<close>

partial_function (option) read_loop :: "'d fat_env \<Rightarrow> nat \<Rightarrow> nat \<Rightarrow> nat \<Rightarrow> nat \<Rightarrow> nat \<Rightarrow> u8 list \<Rightarrow> 'd fat_instance \<Rightarrow>
    (int \<times> nat \<times> nat \<times> u8 list \<times> 'd fat_instance) option" where
  "read_loop env n limit cluster offset k out f =
    (if k < limit then
       (case read_cluster env f cluster False of
          (r, f) \<Rightarrow>
        if r \<noteq> 0 then Some (r, cluster, k, out, f)
        else
          (case copy_span (cluster_buffer f) (cluster_size f) limit offset k of
             (data, k') \<Rightarrow>
           (case get_table_value env (upd_fd n (\<lambda>e. e\<lparr>fd_cluster_idx := (fd_offset e + k) div cluster_size f, fd_cluster_val := cluster\<rparr>) f) cluster of
              (cluster, f) \<Rightarrow>
            if cluster \<ge> 0x0FFFFFF8 then Some (0, cluster, k', out @ data, f)
            else read_loop env n limit cluster 0 k' (out @ data) f)))
     else Some (0, cluster, k, out, f))"

definition fat_read :: "'d fat_env \<Rightarrow> 'd fat_instance \<Rightarrow> int \<Rightarrow> nat \<Rightarrow> (int \<times> nat \<times> u8 list \<times> 'd fat_instance) option" where
  "fat_read env f fd_no requested =
    (if ready f \<noteq> FAT_READY then Some (FAT_NOT_READY, 0, replicate requested 0, f)
     else
       case check_fd env f fd_no True of
         (e, f) \<Rightarrow>
       if e then Some (FAT_INVALID_PARAMETERS, 0, replicate requested 0, f)
       else if requested = 0 then Some (0, 0, [], f)
       else
         let n = nat fd_no; csize = cluster_size f; file_offset = fd_offset (fd f ! n);
             root = (fd_mode (fd f ! n) AND MODE_ROOT_DIR \<noteq> 0)
         in
         if root \<and> \<not> type_32 f then read_fixed_root_dir env f n requested
         else
           let rec = get_record f n;
               is_dir = (root \<or> rec ! 11 AND 0x10 \<noteq> 0);
               cluster = (if root then fs_root_cluster f else push_bit 16 (LE16 rec 20) OR LE16 rec 26);
               file_size = (if is_dir then 2097152 else LE32 rec 28)
           in
           if fd_eof (fd f ! n) \<noteq> 0 \<or> file_size \<le> file_offset then
             Some (0, 0, replicate requested 0, upd_fd n (\<lambda>e. e\<lparr>fd_eof := 1\<rparr>) f)
           else
             let file_clusters = file_size div csize;
                 file_clusters = (if file_size mod csize \<noteq> 0 then file_clusters + 1 else file_clusters);
                 read_index = file_offset div csize;
                 known = (fd_cluster_idx (fd f ! n) \<noteq> 0 \<and> fd_cluster_idx (fd f ! n) \<le> read_index);
                 i = (if known then fd_cluster_idx (fd f ! n) else 0);
                 cluster = (if known then fd_cluster_val (fd f ! n) else cluster)
             in
             case seek_loop env is_dir read_index file_clusters i cluster f of
               (r, cluster, f) \<Rightarrow>
             if r \<noteq> 0 then Some (r, 0, [], f)
             else
               let limit = file_size - file_offset;
                   limit = (if limit > requested then requested else limit);
                   limit = (if is_dir \<and> cluster \<ge> 0x0FFFFFF8 then 0 else limit)
               in
               case read_loop env n limit cluster (file_offset mod csize) 0 [] f of
                 None \<Rightarrow> None
               | Some (r, cluster, k, out, f) \<Rightarrow>
                   let f = (if is_dir then
                              let f = (if cluster \<ge> 0x0FFFFFF8 \<and> (fd_offset (fd f ! n) + k) mod csize = 0
                                       then upd_fd n (\<lambda>e. e\<lparr>fd_eof := 1\<rparr>) f else f)
                              in (if r = 0 \<and> k = 0 then upd_fd n (\<lambda>e. e\<lparr>fd_eof := 1\<rparr>) f else f)
                            else f);
                       f = upd_fd n (\<lambda>e. e\<lparr>fd_offset := fd_offset e + k\<rparr>) f;
                       f = (if fd_offset (fd f ! n) \<ge> file_size then upd_fd n (\<lambda>e. e\<lparr>fd_eof := 1\<rparr>) f else f)
                   in Some (r, k, out @ replicate (requested - k) 0, f))"

subsection \<open>Positions\<close>

lemma sub_loop_eq: "sub_loop e off = (if e \<le> off then Some (off - e) else None)"
  by (induction e arbitrary: off) auto

text \<open>The position a call of \<^verbatim>\<open>fat_seek\<close> asks for, as an integer.\<close>

definition seek_target :: "fat_fd \<Rightarrow> int \<Rightarrow> int \<Rightarrow> int" where
  "seek_target e offset whence =
    (if whence = 0 then 0 else if whence = 1 then int (fd_offset e) else int (LE32 (fd_record e) 28)) + offset"

text \<open>
  C29. Seeking. For an open descriptor and every 32-bit offset, \<^verbatim>\<open>fat_seek\<close> moves to the position that exact
  integer arithmetic gives, or reports an error without moving: when the origin is unknown, when the
  position is negative, or when a move that is not backwards goes beyond the largest offset. In particular no
  intermediate result wraps, the most negative offset included. (The descriptor's \<^verbatim>\<open>eof\<close> is not 2, a
  value that no function stores.)
\<close>

theorem fat_seek_correct:
  assumes "ready f = FAT_READY" "check_fd env f n True = (False, g)" "maximum_file_size f = 0xFFFFFFFF"
    "- (2 ^ 31) \<le> offset" "offset < 2 ^ 31" "fd_offset (fd g ! nat n) < 2 ^ 32" "fd_eof (fd g ! nat n) \<noteq> 2"
  shows "fat_seek env f n offset whence =
    (let pos = seek_target (fd g ! nat n) offset whence in
     if whence \<in> {0, 1, 2} \<and> 0 \<le> pos \<and> (offset < 0 \<or> pos \<le> 0xFFFFFFFE)
     then (0, upd_fd (nat n) (\<lambda>e. e\<lparr>fd_offset := nat pos, fd_eof := 0\<rparr>) g)
     else (FAT_SEEK_ERROR, g))"
proof -
  let ?e = "fd g ! nat n"
  have max: "sub32 (maximum_file_size f) 1 = 0xFFFFFFFE" by (simp add: assms(3) sub32_def)
  have rec: "LE32 (get_record g (nat n)) 28 = LE32 (fd_record ?e) 28" "LE32 (fd_record ?e) 28 < 2 ^ 32"
    using le_bounds(2) by (simp_all add: get_record_def)
  define base where "base = (if whence = 2 then LE32 (fd_record ?e) 28 else fd_offset ?e)"
  have b: "base < 2 ^ 32" using rec(2) assms(6) by (simp add: base_def)
  define ex where "ex = (if offset < 0 \<and> 2147483647 + offset < 0 then 1 else 0 :: nat)"
  define off where "off = offset + int ex"
  have ex: "(if offset < 0 \<and> 2147483647 + offset < 0 then (offset + (- (2147483647 + offset)), nat (- (2147483647 + offset))) else (offset, 0)) = (off, ex)"
    using assms(4) by (auto simp: ex_def off_def)
  have neg: "off < 0 \<longleftrightarrow> offset < 0" using assms(4) by (auto simp: ex_def off_def)
  have seek: "fat_seek env f n offset whence =
    (if whence = 0 then
       if off < 0 then (FAT_SEEK_ERROR, g)
       else if nat off > 0xFFFFFFFE then (FAT_SEEK_ERROR, g)
       else (0, upd_fd (nat n) (\<lambda>e. e\<lparr>fd_offset := nat off, fd_eof := 0\<rparr>) g)
     else if whence = 1 \<or> whence = 2 then
       if off < 0 then
         if base < nat (- off) then (FAT_SEEK_ERROR, g)
         else case sub_loop ex (base - nat (- off)) of
             None \<Rightarrow> (FAT_SEEK_ERROR, g)
           | Some o2 \<Rightarrow> (0, upd_fd (nat n) (\<lambda>e. e\<lparr>fd_offset := o2, fd_eof := 0\<rparr>) g)
       else if \<not> base \<le> 4294967295 - nat off then (FAT_SEEK_ERROR, g)
       else if base + nat off > 0xFFFFFFFE then (FAT_SEEK_ERROR, g)
       else (0, upd_fd (nat n) (\<lambda>e. e\<lparr>fd_offset := base + nat off, fd_eof := 0\<rparr>) g)
     else (FAT_SEEK_ERROR, g))"
    unfolding fat_seek_def Let_def max assms(1,2) prod.case ex rec(1) base_def [symmetric]
    by (simp only: assms(7) not_True_eq_False if_False simp_thms cong: if_cong)
  show ?thesis
  proof (cases "whence = 0")
    case True
    have pos: "seek_target ?e offset whence = offset" using True by (simp add: seek_target_def)
    show ?thesis unfolding seek pos Let_def using True neg assms(5) by (auto simp: ex_def off_def)
  next
    case False
    show ?thesis
    proof (cases "whence = 1 \<or> whence = 2")
      case w: True
      have pos: "seek_target ?e offset whence = int base + offset" using w by (auto simp: seek_target_def base_def)
      show ?thesis
      proof (cases "offset < 0")
        case True
        have n: "off < 0" using True neg by simp
        have step: "(if base < nat (- off) then (FAT_SEEK_ERROR, g)
            else case sub_loop ex (base - nat (- off)) of None \<Rightarrow> (FAT_SEEK_ERROR, g) | Some o2 \<Rightarrow> k o2) =
            (if 0 \<le> int base + offset then k (nat (int base + offset)) else (FAT_SEEK_ERROR, g))" for k
        proof (cases "0 \<le> int base + offset")
          case c: True
          have l: "\<not> base < nat (- off)" "ex \<le> base - nat (- off)" using c n by (simp_all add: off_def)
          moreover have "base - nat (- off) - ex = nat (int base + offset)" using c n l by (simp add: off_def)
          ultimately show ?thesis using c by (simp add: sub_loop_eq)
        next
          case c: False
          then have l: "\<not> base < nat (- off) \<Longrightarrow> \<not> ex \<le> base - nat (- off)" using n by (simp add: off_def)
          show ?thesis using c l by (simp add: sub_loop_eq)
        qed
        show ?thesis using False w True n unfolding seek pos Let_def step by auto
      next
        case False2: False
        then have o: "off = offset" by (simp add: off_def ex_def)
        show ?thesis using False w False2 neg assms(5) b unfolding seek pos Let_def o
          by (auto simp: nat_add_distrib)
      qed
    next
      case False2: False
      then show ?thesis using False by (simp add: seek)
    qed
  qed
qed

theorem fat_seek_correct_witness:
  "\<exists>g. fat_seek ram_env (fat12_sample\<lparr>fd := replicate 9 (empty_fd\<lparr>fd_opened := 1, fd_offset := 100\<rparr>)\<rparr>) 3 (-40) 1 = (0, g) \<and>
    fd_offset (fd g ! 3) = 60"
proof -
  let ?f = "fat12_sample\<lparr>fd := replicate 9 (empty_fd\<lparr>fd_opened := 1, fd_offset := 100\<rparr>)\<rparr>"
  have c: "check_fd ram_env ?f 3 True = (False, ?f)" by (simp add: check_fd_def fat12_sample_def)
  have r: "ready ?f = FAT_READY" "maximum_file_size ?f = 0xFFFFFFFF" by (simp_all add: fat12_sample_def)
  have e: "fd_eof (fd ?f ! nat 3) \<noteq> 2" "fd_offset (fd ?f ! nat 3) < 2 ^ 32" by (simp_all add: empty_fd_def)
  show ?thesis
    using fat_seek_correct [OF r(1) c r(2) _ _ e(2,1), of "-40" 1] by (simp add: seek_target_def upd_fd_def)
qed

end
