(* ===== verification/Fat_Dir.thy ===== *)
theory Fat_Dir
  imports Fat_File
begin

text \<open>
  Directories, \<^verbatim>\<open>src/common/fat.c\<close>: the search for a record in the fixed root directory and in a
  chain of clusters, the walk along a path with the creation of missing records, and the operations
  on names: opening, removing, renaming, and the access to records. The operations that can delete
  clusters are optional, see \<^const>\<open>delete_clusters\<close>.
\<close>

subsection \<open>Searching\<close>

datatype scan_result = Scan_found nat | Scan_end | Scan_more

text \<open>
  The loop over the records of a sector or cluster buffer of \<open>sz\<close> bytes; the search is for a name, or
  for a free record when no name is given.
\<close>

definition record_matches :: "u8 list \<Rightarrow> u8 list option \<Rightarrow> nat \<Rightarrow> bool" where
  "record_matches buf name j =
    (case name of
       None \<Rightarrow> buf ! j = 0 \<or> buf ! j = 0xE5
     | Some name1 \<Rightarrow> (\<forall>k < 11. name1 ! k = buf ! (j + k)) \<and> buf ! (j + 11) AND 0x08 = 0)"

function scan_records :: "u8 list \<Rightarrow> nat \<Rightarrow> u8 list option \<Rightarrow> nat \<Rightarrow> scan_result" where
  "scan_records buf sz name j =
    (if j < sz then
       if record_matches buf name j then Scan_found j
       else if buf ! j = 0 then Scan_end
       else scan_records buf sz name (j + 32)
     else Scan_more)"
  by pat_completeness auto
termination
  by (relation "measure (\<lambda>(buf, sz, name, j). sz - j)") auto

declare scan_records.simps [simp del]

definition take_record :: "nat \<Rightarrow> u8 list \<Rightarrow> nat \<Rightarrow> nat \<Rightarrow> nat \<Rightarrow> 'd fat_instance \<Rightarrow> 'd fat_instance" where
  "take_record n buf j offset sector f =
    upd_fd n (\<lambda>e. e\<lparr>fd_record := take 32 (drop j buf), fd_record_offset := offset, fd_record_sector := sector\<rparr>) f"

fun fixed_root_loop :: "'d fat_env \<Rightarrow> nat \<Rightarrow> u8 list option \<Rightarrow> nat \<Rightarrow> nat \<Rightarrow> 'd fat_instance \<Rightarrow> int \<times> 'd fat_instance" where
  "fixed_root_loop env n name 0 sector f = (-1, f)"
| "fixed_root_loop env n name (Suc i) sector f =
    (case read_block env f (sector * io_mul f) of
       (r, f) \<Rightarrow>
     if r \<noteq> 0 then (FAT_BLOCK_READ_ERROR, f)
     else
       case scan_records (block_buffer f) (fs_bytes_per_sector f) name 0 of
         Scan_found j \<Rightarrow> (0, take_record n (block_buffer f) j j sector f)
       | Scan_end \<Rightarrow> (-1, f)
       | Scan_more \<Rightarrow> fixed_root_loop env n name i (sector + 1) f)"

definition iterate_fixed_root_dir :: "'d fat_env \<Rightarrow> 'd fat_instance \<Rightarrow> nat \<Rightarrow> bool \<Rightarrow> int \<times> 'd fat_instance" where
  "iterate_fixed_root_dir env f n find_empty =
    (let f = upd_fd n (\<lambda>e. e\<lparr>fd_record_offset := 0, fd_record_sector := 0\<rparr>) f;
         name = (if find_empty then None else Some (nm_name (path_buffer f ! 0)))
     in fixed_root_loop env n name (fs_directory_sectors f) (fs_reserved_sectors f + fs_tables f * fs_table_sectors f) f)"

text \<open>
  The loop over the clusters of a directory, bounded by the source's \<^verbatim>\<open>iterate_limit\<close>; when the
  chain ends without a free record, a cluster is appended and the caller has to search again.
\<close>

fun dir_loop :: "'d fat_env \<Rightarrow> nat \<Rightarrow> u8 list option \<Rightarrow> nat \<Rightarrow> nat \<Rightarrow> 'd fat_instance \<Rightarrow> int \<times> 'd fat_instance" where
  "dir_loop env n name 0 cluster f = (-1, f)"
| "dir_loop env n name (Suc iterate_limit) cluster f =
    (case read_cluster env f cluster False of
       (r, f) \<Rightarrow>
     if r \<noteq> 0 then (r, f)
     else
       case scan_records (cluster_buffer f) (cluster_size f) name 0 of
         Scan_found j \<Rightarrow>
           (0, take_record n (cluster_buffer f) j (j mod fs_bytes_per_sector f) (j div fs_bytes_per_sector f + cluster_sector f) f)
       | Scan_end \<Rightarrow> (-1, f)
       | Scan_more \<Rightarrow>
           case get_table_value env f cluster of
             (next_cluster, f) \<Rightarrow>
           if next_cluster < 2 \<or> next_cluster \<ge> 0x0FFFFFF8 then
             (-1, if name = None then snd (append_cluster env f cluster False) else f)
           else dir_loop env n name iterate_limit next_cluster f)"

definition iterate_dir :: "'d fat_env \<Rightarrow> 'd fat_instance \<Rightarrow> nat \<Rightarrow> int \<Rightarrow> nat \<Rightarrow> int \<times> 'd fat_instance" where
  "iterate_dir env f n path_i cluster =
    (let name = (if path_i < 0 then None else Some (nm_name (path_buffer f ! nat path_i)))
     in dir_loop env n name (65536 * 32 div cluster_size f) cluster f)"

subsection \<open>Walking a path\<close>

text \<open>The two records of a new directory, in the cleared cluster buffer.\<close>

definition dir_records :: "int \<times> u8 list \<Rightarrow> nat \<Rightarrow> nat \<Rightarrow> u8 list \<Rightarrow> u8 list" where
  "dir_records now new_cluster parent dir =
    (let dir = W_LE32 (W_LE32 (W_LE32 dir 0 0x2020202E) 4 0x20202020) 8 0x10202020;
         dir = write_timestamps now dir True True;
         dir = W_LE16 (W_LE16 dir 20 (drop_bit 16 new_cluster)) 26 (new_cluster AND 0xFFFF);
         dir = overlay dir 32 (take 32 dir);
         dir = W_LE16 dir 32 0x2E2E
     in W_LE16 (W_LE16 dir 52 (drop_bit 16 parent)) 58 (parent AND 0xFFFF))"

text \<open>The result, the first cluster of the new directory and the instance.\<close>

definition create_dir :: "'d fat_env \<Rightarrow> nat \<Rightarrow> nat \<Rightarrow> 'd fat_instance \<Rightarrow> int \<times> nat \<times> 'd fat_instance" where
  "create_dir env n parent f =
    (case allocate_cluster env f of
       (r, new_cluster, f) \<Rightarrow>
     if r \<noteq> 0 then (FAT_NOT_ENOUGH_SPACE, new_cluster, f)
     else
       case read_cluster env f new_cluster True of
         (r, f) \<Rightarrow>
       if r \<noteq> 0 then (r, new_cluster, f)
       else
         let f = clear_cluster_buffer f;
             f = f\<lparr>cluster_buffer := dir_records (fat_get_time env (dev f)) new_cluster parent (cluster_buffer f)\<rparr>
         in
         case write_cluster env f of
           (r, f) \<Rightarrow>
         if r \<noteq> 0 then (r, new_cluster, f)
         else
           case link_cluster env False new_cluster 0x0FFFFFFF f of
             (r, f) \<Rightarrow>
           if r \<noteq> 0 then (r, new_cluster, f)
           else (0, new_cluster, put_record n (take 32 (cluster_buffer f)) f))"

definition create_record :: "'d fat_env \<Rightarrow> nat \<Rightarrow> nat \<Rightarrow> nat \<Rightarrow> fat_name \<Rightarrow> 'd fat_instance \<Rightarrow> int \<times> 'd fat_instance" where
  "create_record env n i cluster p f =
    (let f = upd_fd n (\<lambda>e. e\<lparr>fd_mode := fd_mode e OR 0x80000000\<rparr>) f in
     case (if nm_is_dir p then create_dir env n (if i \<noteq> 0 then cluster else 0) f
           else (0, 0, put_record n ((write_timestamps (fat_get_time env (dev f)) (get_record f n) True True)[11 := 0]) f)) of
       (r, new_cluster, f) \<Rightarrow>
     if r \<noteq> 0 then (r, f)
     else
       let rec = overlay ((get_record f n)[12 := 0]) 0 (take 11 (nm_name p));
           rec = W_LE16 (W_LE16 rec 20 (drop_bit 16 new_cluster)) 26 (new_cluster AND 0xFFFF)
       in write_record_buffer env (put_record n (W_LE32 rec 28 0) f) n)"

definition already_open :: "nat \<Rightarrow> 'd fat_instance \<Rightarrow> bool" where
  "already_open n f \<longleftrightarrow>
    (\<exists>j < fd_entries f. j \<noteq> n \<and> fd_opened (fd f ! j) \<noteq> 0 \<and>
      fd_record_offset (fd f ! j) = fd_record_offset (fd f ! n) \<and> fd_record_sector (fd f ! j) = fd_record_sector (fd f ! n))"

text \<open>
  Finding the record of component \<open>i\<close>, or a free record if files may be created: the result, whether a record has
  to be created, and the instance.
\<close>

definition find_record :: "'d fat_env \<Rightarrow> nat \<Rightarrow> bool \<Rightarrow> nat \<Rightarrow> nat \<Rightarrow> 'd fat_instance \<Rightarrow> int \<times> bool \<times> 'd fat_instance" where
  "find_record env n mode_create i cluster f =
    (if i = 0 \<and> \<not> type_32 f then
       case iterate_fixed_root_dir env f n False of
         (r, f) \<Rightarrow>
       if r \<noteq> -1 then (r, False, f)
       else if \<not> mode_create then (FAT_FILE_NOT_FOUND, False, f)
       else case iterate_fixed_root_dir env f n True of (r, f) \<Rightarrow> (r, True, f)
     else
       case iterate_dir env f n (int i) cluster of
         (r, f) \<Rightarrow>
       if r \<noteq> -1 then (r, False, f)
       else if \<not> mode_create then (FAT_FILE_NOT_FOUND, False, f)
       else
         case iterate_dir env f n (-1) cluster of
           (r, f) \<Rightarrow>
         case (if r \<noteq> 0 then iterate_dir env f n (-1) cluster else (r, f)) of (r, f) \<Rightarrow> (r, True, f))"

text \<open>
  The loop over the components, with the remaining ones as a list. As in the source, the result \<open>-1\<close> of a search for
  a free record that found none is not an error here.
\<close>

fun fill_loop :: "'d fat_env \<Rightarrow> nat \<Rightarrow> bool \<Rightarrow> nat \<Rightarrow> fat_name list \<Rightarrow> nat \<Rightarrow> 'd fat_instance \<Rightarrow> int \<times> 'd fat_instance" where
  "fill_loop env n mode_create i [] cluster f = (0, f)"
| "fill_loop env n mode_create i (p # ps) cluster f =
    (case find_record env n mode_create i cluster f of
       (r, create, f) \<Rightarrow>
     if r > 0 then (r, f)
     else if ps = [] \<and> already_open n f then (FAT_FILE_ALREADY_OPEN, f)
     else
       case (if create then create_record env n i cluster p f else (0, f)) of
         (r, f) \<Rightarrow>
       if r \<noteq> 0 then (r, f)
       else
         let rec = get_record f n in
         if ps \<noteq> [] \<and> rec ! 11 AND 0x10 = 0 then (FAT_INVALID_FILE_NAME, f)
         else fill_loop env n mode_create (i + 1) ps (push_bit 16 (LE16 rec 20) OR LE16 rec 26) f)"

definition fill_record_buffer :: "'d fat_env \<Rightarrow> 'd fat_instance \<Rightarrow> nat \<Rightarrow> int \<times> 'd fat_instance" where
  "fill_record_buffer env f n =
    fill_loop env n (fd_mode (fd f ! n) AND MODE_CREATE \<noteq> 0) 0 (take (path_entries f) (path_buffer f)) (fs_root_cluster f) f"

subsection \<open>Operations on names\<close>

text \<open>The truncation of an existing file by \<^verbatim>\<open>fat_open\<close>.\<close>

definition truncate_file :: "'d fat_env \<Rightarrow> 'd fat_instance \<Rightarrow> nat \<Rightarrow> (int \<times> 'd fat_instance) option" where
  "truncate_file env f n =
    (let rec = get_record f n;
         rec = rec[11 := rec ! 11 OR 0x20];
         cluster = push_bit 16 (LE16 rec 20) OR LE16 rec 26;
         rec = W_LE32 (W_LE16 (W_LE16 rec 20 0) 26 0) 28 0;
         rec = write_timestamps (fat_get_time env (dev f)) rec False True
     in
     case write_record_buffer env (put_record n rec f) n of
       (r, f) \<Rightarrow>
     if r \<noteq> 0 then Some (FAT_BLOCK_WRITE_ERROR, f)
     else if cluster \<noteq> 0 then (case delete_clusters env f cluster of None \<Rightarrow> None | Some f \<Rightarrow> Some (0, f))
     else Some (0, f))"

text \<open>A null pointer for the name or the mode is \<^const>\<open>None\<close>.\<close>

definition fat_open :: "'d fat_env \<Rightarrow> 'd fat_instance \<Rightarrow> int \<Rightarrow> u8 list option \<Rightarrow> u8 list option \<Rightarrow> (int \<times> 'd fat_instance) option" where
  "fat_open env f fd_no name mode =
    (if ready f \<noteq> FAT_READY then Some (FAT_NOT_READY, f)
     else
       case check_fd env f fd_no False of
         (e, f) \<Rightarrow>
       if e \<or> mode = None then Some (FAT_INVALID_PARAMETERS, f)
       else
         let n = nat fd_no; f = init_fat_fd n f in
         if name = None \<or> name = Some [] then Some (FAT_INVALID_FILE_NAME, f)
         else
           case parse_mode (the mode) of
             (r, bits) \<Rightarrow>
           let f = upd_fd n (\<lambda>e. e\<lparr>fd_mode := bits\<rparr>) f in
           if r \<noteq> 0 then Some (FAT_INVALID_PARAMETERS, f)
           else
             case fill_path_buffer f (the name) of
               (r, f) \<Rightarrow>
             if r \<noteq> 0 \<and> the name \<noteq> [47, 46] then Some (FAT_INVALID_FILE_NAME, f)
             else
               let f = (if r \<noteq> 0 then upd_fd n (\<lambda>e. e\<lparr>fd_mode := MODE_ROOT_DIR\<rparr>) f else f);
                   f = (if fd_mode (fd f ! n) AND MODE_MODIFY \<noteq> 0 \<and> type_32 f \<and> fs_info_modified f = 0
                        then (write_fs_info env f)\<lparr>fs_info_modified := 1\<rparr> else f)
               in
               case (if fd_mode (fd f ! n) AND MODE_ROOT_DIR = 0 then fill_record_buffer env f n else (0, f)) of
                 (r, f) \<Rightarrow>
               if r \<noteq> 0 then Some (r, f)
               else
                 let md = fd_mode (fd f ! n); rec = get_record f n in
                 if md AND MODE_MODIFY \<noteq> 0 \<and> rec ! 11 AND 0x05 \<noteq> 0 then Some (FAT_READ_ONLY_FILE, f)
                 else
                   case (if md AND MODE_MODIFY \<noteq> 0 \<and> md AND MODE_WRITE \<noteq> 0 \<and> rec ! 11 AND 0x10 = 0 \<and> md AND 0x80000000 = 0
                         then truncate_file env f n else Some (0, f)) of
                     None \<Rightarrow> None
                   | Some (r, f) \<Rightarrow> if r \<noteq> 0 then Some (r, f) else Some (0, upd_fd n (\<lambda>e. e\<lparr>fd_opened := 1\<rparr>) f))"

text \<open>The test that a directory holds nothing but free records behind its first two.\<close>

function empty_scan :: "u8 list \<Rightarrow> nat \<Rightarrow> nat \<Rightarrow> scan_result" where
  "empty_scan buf sz i =
    (if i < sz then
       if buf ! i = 0 then Scan_end
       else if buf ! i \<noteq> 0xE5 then Scan_found i
       else empty_scan buf sz (i + 32)
     else Scan_more)"
  by pat_completeness auto
termination
  by (relation "measure (\<lambda>(buf, sz, i). sz - i)") auto

declare empty_scan.simps [simp del]

fun empty_loop :: "'d fat_env \<Rightarrow> nat \<Rightarrow> nat \<Rightarrow> nat \<Rightarrow> 'd fat_instance \<Rightarrow> int \<times> 'd fat_instance" where
  "empty_loop env 0 i dir_cluster f = (FAT_INCONSISTENT_STATE, f)"
| "empty_loop env (Suc iterate_limit) i dir_cluster f =
    (case read_cluster env f dir_cluster False of
       (r, f) \<Rightarrow>
     if r \<noteq> 0 then (r, f)
     else
       case empty_scan (cluster_buffer f) (cluster_size f) i of
         Scan_end \<Rightarrow> (0, f)
       | Scan_found j \<Rightarrow> (FAT_DIRECTORY_NOT_EMPTY, f)
       | Scan_more \<Rightarrow>
           case get_table_value env f dir_cluster of
             (dir_cluster, f) \<Rightarrow>
           if dir_cluster < 2 \<or> dir_cluster \<ge> 0x0FFFFFF8 then (0, f) else empty_loop env iterate_limit 0 dir_cluster f)"

definition fat_remove :: "'d fat_env \<Rightarrow> 'd fat_instance \<Rightarrow> u8 list \<Rightarrow> (int \<times> 'd fat_instance) option" where
  "fat_remove env f name =
    (if ready f \<noteq> FAT_READY then Some (FAT_NOT_READY, f)
     else
       let n = fd_special f; f = upd_fd n (\<lambda>e. e\<lparr>fd_mode := MODE_READ\<rparr>) (init_fat_fd n f) in
       case fill_path_buffer f name of
         (r, f) \<Rightarrow>
       if r \<noteq> 0 then Some (FAT_INVALID_FILE_NAME, f)
       else
         case fill_record_buffer env f n of
           (r, f) \<Rightarrow>
         if r \<noteq> 0 then Some (r, f)
         else
           let rec = get_record f n; cluster = push_bit 16 (LE16 rec 20) OR LE16 rec 26 in
           if path_entries f = 0 then Some (FAT_INVALID_PARAMETERS, f)
           else if nm_is_dir (path_buffer f ! (path_entries f - 1)) \<and> rec ! 11 AND 0x10 = 0 then Some (FAT_FILE_RECORD, f)
           else if \<not> nm_is_dir (path_buffer f ! (path_entries f - 1)) \<and> rec ! 11 AND 0x10 \<noteq> 0 then Some (FAT_DIRECTORY_RECORD, f)
           else if rec ! 11 AND 0x0C \<noteq> 0 then Some (FAT_READ_ONLY_RECORD, f)
           else
             case (if rec ! 11 AND 0x10 \<noteq> 0 \<and> cluster \<noteq> 0 then empty_loop env (65536 * 32 div cluster_size f) 64 cluster f
                   else (0, f)) of
               (r, f) \<Rightarrow>
             if r \<noteq> 0 then Some (r, f)
             else
               case write_record_buffer env (put_record n (0xE5 # replicate 10 0x20 @ replicate 21 0) f) n of
                 (r, f) \<Rightarrow>
               if r \<noteq> 0 then Some (r, f)
               else case delete_clusters env f cluster of None \<Rightarrow> None | Some f \<Rightarrow> Some (0, f))"

text \<open>
  The comparison of the directories of both names, from component \<open>i\<close> on: the source fills the path
  buffer with the new and the old name in turn.
\<close>

fun same_dir :: "u8 list \<Rightarrow> u8 list \<Rightarrow> nat \<Rightarrow> nat \<Rightarrow> 'd fat_instance \<Rightarrow> int \<times> 'd fat_instance" where
  "same_dir old_name new_name i 0 f = (0, f)"
| "same_dir old_name new_name i (Suc k) f =
    (case (if i > 0 then fill_path_buffer f new_name else (0, f)) of
       (r, f) \<Rightarrow>
     if r \<noteq> 0 then (FAT_INVALID_FILE_NAME, f)
     else
       let buf = take 12 (nm_name (path_buffer f ! i)) in
       case fill_path_buffer f old_name of
         (r, f) \<Rightarrow>
       if r \<noteq> 0 then (FAT_INVALID_FILE_NAME, f)
       else if fat_strncmp (nm_name (path_buffer f ! i)) buf 11 \<noteq> 0 then (FAT_INVALID_PARAMETERS, f)
       else same_dir old_name new_name (i + 1) k f)"

definition fat_rename :: "'d fat_env \<Rightarrow> 'd fat_instance \<Rightarrow> u8 list \<Rightarrow> u8 list \<Rightarrow> int \<times> 'd fat_instance" where
  "fat_rename env f old_name new_name =
    (if ready f \<noteq> FAT_READY then (FAT_NOT_READY, f)
     else
       let n = fd_special f; f = upd_fd n (\<lambda>e. e\<lparr>fd_opened := 0, fd_offset := 0, fd_mode := MODE_READ, fd_eof := 0\<rparr>) f in
       case fill_path_buffer f old_name of
         (r, f) \<Rightarrow>
       if r \<noteq> 0 then (FAT_INVALID_FILE_NAME, f)
       else
         let entries = path_entries f in
         if entries = 0 then (FAT_INVALID_PARAMETERS, f)
         else
           let is_dir = nm_is_dir (path_buffer f ! (entries - 1)) in
           case fill_record_buffer env f n of
             (r, f) \<Rightarrow>
           if r \<noteq> 0 then (r, f)
           else
             case fill_path_buffer f new_name of
               (r, f) \<Rightarrow>
             if r \<noteq> 0 then (FAT_INVALID_FILE_NAME, f)
             else if entries \<noteq> path_entries f then (FAT_INVALID_PARAMETERS, f)
             else if nm_is_dir (path_buffer f ! (entries - 1)) \<and> \<not> is_dir then (FAT_INVALID_PARAMETERS, f)
             else
               case fill_record_buffer env f n of
                 (r, f) \<Rightarrow>
               if r \<noteq> FAT_FILE_NOT_FOUND then (if r = 0 then FAT_INVALID_PARAMETERS else r, f)
               else
                 let fat_new_name = nm_name (path_buffer f ! (entries - 1)) in
                 case same_dir old_name new_name 0 (entries - 1) f of
                   (r, f) \<Rightarrow>
                 if r \<noteq> 0 then (r, f)
                 else
                   case fill_path_buffer f old_name of
                     (r, f) \<Rightarrow>
                   if r \<noteq> 0 then (FAT_INVALID_FILE_NAME, f)
                   else
                     case fill_record_buffer env f n of
                       (r, f) \<Rightarrow>
                     if r \<noteq> 0 then (r, f)
                     else write_record_buffer env (put_record n (overlay (get_record f n) 0 (take 11 fat_new_name)) f) n)"

end
