(* ===== verification/Fat_Write.thy ===== *)
theory Fat_Write
  imports Fat_Dir
begin

text \<open>
  Changing files, \<^verbatim>\<open>src/common/fat.c\<close>: the access to the record of a file with
  \<^verbatim>\<open>fat_control\<close>, which can shorten it, and \<^verbatim>\<open>fat_write\<close>.
\<close>

subsection \<open>Records and volume information\<close>

text \<open>The number of free entries from \<open>i\<close> on.\<close>

function free_loop :: "'d fat_env \<Rightarrow> nat \<Rightarrow> nat \<Rightarrow> nat \<Rightarrow> 'd fat_instance \<Rightarrow> nat \<times> 'd fat_instance" where
  "free_loop env clusters i val f =
    (if i < clusters then
       case get_table_value env f i of
         (v, f) \<Rightarrow> free_loop env clusters (i + 1) (if v = 0 then val + 1 else val) f
     else (val, f))"
  by pat_completeness auto
termination
  by (relation "measure (\<lambda>(env, clusters, i, val, f). clusters - i)") auto

declare free_loop.simps [simp del]

text \<open>The label, serial number, sizes and use of the volume as a record of 32 bytes.\<close>

definition volume_info :: "'d fat_env \<Rightarrow> 'd fat_instance \<Rightarrow> int \<times> u8 list \<times> 'd fat_instance" where
  "volume_info env f =
    (let val = fs_bytes_per_sector f; f = f\<lparr>block_buffer_lba := 0\<rparr> in
     case fat_io_read env (fat_id f) 0 val (dev f) of
       (r, data, d) \<Rightarrow>
     let f = f\<lparr>block_buffer := overlay (block_buffer f) 0 data, dev := d\<rparr>; buf = block_buffer f in
     if r \<noteq> 0 then (FAT_BLOCK_READ_ERROR, replicate 32 0, f)
     else
       let label = take 11 (drop (if \<not> type_32 f then 0x2B else 0x47) buf);
           serial = take 4 (drop (if \<not> type_32 f then 0x27 else 0x43) buf);
           rec = map (\<lambda>c. if c < 0x20 \<or> c > 0x7E then 0x20 else c) label @ [0] @ serial @ replicate 16 0;
           rec = W_LE32 (W_LE32 rec 0x10 val) 0x14 (cluster_size f)
       in
       case (if \<not> type_32 f then free_loop env (fs_clusters f + 2) 2 0 f
             else let f = (if fs_info_free f = 0xFFFFFFFF then compute_fs_info env f else f) in (fs_info_free f, f)) of
         (val, f) \<Rightarrow>
       if val > fs_clusters f then (FAT_INCONSISTENT_STATE, replicate 32 0, f)
       else (0, W_LE32 (W_LE32 rec 0x18 (fs_clusters f - val)) 0x1C (fs_clusters f), f))"

text \<open>The part that writes the attributes, the times and a smaller size given in \<open>record\<close>.\<close>

definition set_record :: "'d fat_env \<Rightarrow> 'd fat_instance \<Rightarrow> nat \<Rightarrow> u8 list \<Rightarrow> (int \<times> 'd fat_instance) option" where
  "set_record env f n record =
    (let rec = get_record f n;
         rec = rec[11 := (rec ! 11 AND 0xD8) OR (record ! 11 AND 0x27)];
         rec = overlay rec 13 (take 7 (drop 13 record));
         rec = overlay rec 22 (take 4 (drop 22 record))
     in
     case write_record_buffer env (put_record n rec f) n of
       (r, f) \<Rightarrow>
     if r \<noteq> 0 then Some (FAT_BLOCK_WRITE_ERROR, f)
     else
       let rec = get_record f n; old_size = LE32 rec 28; new_size = LE32 record 28 in
       if rec ! 11 AND 0x10 = 0 \<and> new_size < old_size then
         case write_record_buffer env
             (put_record n (W_LE32 (write_timestamps (fat_get_time env (dev f)) rec False True) 28 new_size) f) n of
           (r, f) \<Rightarrow>
         if r \<noteq> 0 then Some (FAT_BLOCK_WRITE_ERROR, put_record n (W_LE32 (get_record f n) 28 old_size) f)
         else (case delete_extra_clusters env f n of None \<Rightarrow> None | Some f \<Rightarrow> Some (0, f))
       else Some (0, f))"

text \<open>The result, the contents of \<open>record\<close> after the call, and the instance.\<close>

definition fat_control :: "'d fat_env \<Rightarrow> 'd fat_instance \<Rightarrow> int \<Rightarrow> bool \<Rightarrow> u8 list \<Rightarrow> (int \<times> u8 list \<times> 'd fat_instance) option" where
  "fat_control env f fd_no wr record =
    (if ready f \<noteq> FAT_READY then Some (FAT_NOT_READY, record, f)
     else if fd_no = -1 \<and> \<not> wr then Some (volume_info env f)
     else
       case check_fd env f fd_no True of
         (e, f) \<Rightarrow>
       if e then Some (FAT_INVALID_PARAMETERS, record, f)
       else if fd_mode (fd f ! nat fd_no) AND MODE_ROOT_DIR \<noteq> 0 then Some (FAT_INVALID_PARAMETERS, record, f)
       else if \<not> wr then Some (0, take 32 (get_record f (nat fd_no)), f)
       else case set_record env f (nat fd_no) record of None \<Rightarrow> None | Some (r, f) \<Rightarrow> Some (r, record, f))"

subsection \<open>Writing\<close>

text \<open>The new size of the file, with the source's checks for overflow of 32-bit integers.\<close>

definition new_size :: "nat \<Rightarrow> nat \<Rightarrow> nat \<Rightarrow> nat \<Rightarrow> nat" where
  "new_size max_size offset requested file_size =
    (let big = (\<not> requested \<le> max_size \<or> \<not> requested mod 2 ^ 32 \<le> 4294967295 - offset \<or>
           \<not> requested + offset \<le> max_size);
         sz = (if big then max_size else 0);
         sz = (if sz = 0 then (requested + offset) mod 2 ^ 32 else sz)
     in (if file_size < sz then sz else file_size))"

text \<open>The first cluster of an empty file; the result is the cluster in the record.\<close>

definition first_cluster :: "'d fat_env \<Rightarrow> nat \<Rightarrow> 'd fat_instance \<Rightarrow> int \<times> nat \<times> 'd fat_instance" where
  "first_cluster env n f =
    (case allocate_cluster env f of
       (r, record_cluster, f) \<Rightarrow>
     if r \<noteq> 0 then (r, record_cluster, f)
     else
       case link_cluster env False record_cluster 0x0FFFFFFF f of
         (r, f) \<Rightarrow>
       if r \<noteq> 0 then (r, record_cluster, f)
       else
         let rec = W_LE16 (W_LE16 (get_record f n) 20 (drop_bit 16 record_cluster)) 26 (record_cluster AND 0xFFFF) in
         case write_record_buffer env (put_record n rec f) n of
           (r, f) \<Rightarrow>
         if r \<noteq> 0 then
           let f = snd (set_table_value env f record_cluster 0);
               f = snd (write_table env f)
           in (r, record_cluster, put_record n (W_LE16 (W_LE16 (get_record f n) 20 0) 26 0) f)
         else (0, record_cluster, f))"

text \<open>
  The walk along the chain that finds the first cluster to be written and appends what is missing:
  the result, the cluster with index \<open>write_index\<close> (0 if it was not reached) and the instance.
\<close>

function extend_loop :: "'d fat_env \<Rightarrow> nat \<Rightarrow> bool \<Rightarrow> nat \<Rightarrow> nat \<Rightarrow> nat \<Rightarrow> nat \<Rightarrow> nat \<Rightarrow> 'd fat_instance \<Rightarrow> int \<times> nat \<times> 'd fat_instance" where
  "extend_loop env write_index same_size file_clusters iterate_limit i cluster offset_cluster f =
    (if i < iterate_limit then
       let offset_cluster = (if i = write_index then cluster else offset_cluster) in
       if i = write_index \<and> same_size then (0, offset_cluster, f)
       else
         case get_table_value env f cluster of
           (next, f) \<Rightarrow>
         if next \<ge> 0x0FFFFFF8 then
           if i + 1 \<ge> file_clusters then (0, offset_cluster, f)
           else
             case append_cluster env f cluster True of
               (r, f) \<Rightarrow>
             if r \<noteq> 0 then (r, offset_cluster, f)
             else
               case get_table_value env f cluster of
                 (next, f) \<Rightarrow>
               if next < 2 then (FAT_INCONSISTENT_STATE, offset_cluster, f)
               else extend_loop env write_index same_size file_clusters iterate_limit (i + 1) next offset_cluster f
         else if next < 2 then (FAT_INCONSISTENT_STATE, offset_cluster, f)
         else extend_loop env write_index same_size file_clusters iterate_limit (i + 1) next offset_cluster f
     else (0, offset_cluster, f))"
  by pat_completeness auto
termination
  by (relation "measure (\<lambda>(env, write_index, same_size, file_clusters, iterate_limit, i, cluster, offset_cluster, f). iterate_limit - i)") auto

declare extend_loop.simps [simp del]

text \<open>
  The three inner loops over the cluster buffer: zeros for the bytes skipped by a seek, the data
  (zeros for a null source), and zeros behind the end of the file.
\<close>

definition fill_cluster :: "u8 list option \<Rightarrow> nat \<Rightarrow> nat \<Rightarrow> nat \<Rightarrow> nat \<Rightarrow> nat \<Rightarrow> nat \<Rightarrow> nat \<Rightarrow> u8 list \<Rightarrow> u8 list \<times> nat \<times> nat" where
  "fill_cluster data csize requested fd_off original_size offset seek_bytes written buf =
    (let skip = min seek_bytes (csize - offset);
         buf = overlay buf offset (replicate skip 0);
         offset = offset + skip;
         n = min (csize - offset) (requested - written);
         bytes = (case data of None \<Rightarrow> replicate n 0 | Some d \<Rightarrow> take n (drop written d));
         buf = overlay buf offset bytes;
         offset = offset + n;
         written = written + n;
         buf = (if fd_off + written \<ge> original_size then overlay buf offset (replicate (csize - offset) 0) else buf)
     in (buf, seek_bytes - skip, written))"

text \<open>
  The loop over the clusters: \<open>limit\<close> is the source's \<^verbatim>\<open>end\<close>, \<open>written_bytes\<close> counts what has
  reached the device. The result is this count.
\<close>

partial_function (option) write_loop :: "'d fat_env \<Rightarrow> nat \<Rightarrow> u8 list option \<Rightarrow> nat \<Rightarrow> nat \<Rightarrow> nat \<Rightarrow> nat \<Rightarrow> nat \<Rightarrow> nat \<Rightarrow> nat \<Rightarrow> nat \<Rightarrow>
    'd fat_instance \<Rightarrow> (nat \<times> 'd fat_instance) option" where
  "write_loop env n data requested limit original_size offset_cluster offset seek_bytes written written_bytes f =
    (if written < limit then
       (case read_cluster env f offset_cluster (fd_offset (fd f ! n) + written \<ge> original_size \<and> offset = 0) of
          (r, f) \<Rightarrow>
        if r \<noteq> 0 then Some (written_bytes, f)
        else
          (case fill_cluster data (cluster_size f) requested (fd_offset (fd f ! n)) original_size offset seek_bytes written (cluster_buffer f) of
             (buf, seek_bytes, written) \<Rightarrow>
           (case write_cluster env ((upd_fd n (\<lambda>e. e\<lparr>fd_cluster_idx := (fd_offset e + written_bytes) div cluster_size f,
                fd_cluster_val := offset_cluster\<rparr>) f)\<lparr>cluster_buffer := buf\<rparr>) of
              (r, f) \<Rightarrow>
            if r \<noteq> 0 then Some (written_bytes, f)
            else
              (case get_table_value env f offset_cluster of
                 (offset_cluster, f) \<Rightarrow>
               if offset_cluster \<ge> 0x0FFFFFF8 then Some (written, f)
               else write_loop env n data requested limit original_size offset_cluster 0 seek_bytes written written f))))
     else Some (written_bytes, f))"

text \<open>The update of the record after the data, and of the descriptor.\<close>

definition finish_write :: "'d fat_env \<Rightarrow> nat \<Rightarrow> nat \<Rightarrow> nat \<Rightarrow> nat \<Rightarrow> 'd fat_instance \<Rightarrow> (int \<times> nat \<times> 'd fat_instance) option" where
  "finish_write env n requested original_file_size written_bytes f =
    (let offset = fd_offset (fd f ! n);
         rec = get_record f n;
         rec = (if written_bytes \<noteq> 0
                then W_LE32 (rec[11 := rec ! 11 OR 0x20]) 28
                  (if original_file_size < offset + written_bytes then offset + written_bytes else original_file_size)
                else rec);
         rec = write_timestamps (fat_get_time env (dev f)) rec False True
     in
     case write_record_buffer env (put_record n rec f) n of
       (r, f) \<Rightarrow>
     let new_off = offset + written_bytes;
         f = (if r \<noteq> 0 then put_record n (W_LE32 (get_record f n) 28 original_file_size) f else f);
         written_bytes =
           (if r \<noteq> 0 then
              if offset \<ge> original_file_size then 0
              else if original_file_size < new_off then original_file_size - offset
              else written_bytes
            else written_bytes)
     in
     case (if written_bytes \<noteq> requested then delete_extra_clusters env f n else Some f) of
       None \<Rightarrow> None
     | Some f \<Rightarrow>
         let r = (if written_bytes \<noteq> requested \<and> r = 0 then FAT_NOT_ENOUGH_SPACE else r);
             f = upd_fd n (\<lambda>e. e\<lparr>fd_offset := fd_offset e + written_bytes\<rparr>) f;
             f = (if written_bytes \<noteq> 0 \<and> fd_offset (fd f ! n) \<ge> maximum_file_size f then upd_fd n (\<lambda>e. e\<lparr>fd_eof := 1\<rparr>) f else f)
         in Some (r, written_bytes, f))"

text \<open>The result, the number of bytes written and the instance; a null source is \<^const>\<open>None\<close>.\<close>

definition fat_write :: "'d fat_env \<Rightarrow> 'd fat_instance \<Rightarrow> int \<Rightarrow> nat \<Rightarrow> u8 list option \<Rightarrow> (int \<times> nat \<times> 'd fat_instance) option" where
  "fat_write env f fd_no requested data =
    (if ready f \<noteq> FAT_READY then Some (FAT_NOT_READY, 0, f)
     else
       case check_fd env f fd_no True of
         (e, f) \<Rightarrow>
       if e then Some (FAT_INVALID_PARAMETERS, 0, f)
       else
         let n = nat fd_no; rec = get_record f n in
         if rec ! 11 AND 0x10 \<noteq> 0 then Some (FAT_READ_ONLY_RECORD, 0, f)
         else if fd_mode (fd f ! n) AND MODE_MODIFY = 0 then Some (FAT_READ_ONLY_FILE, 0, f)
         else
           let record_cluster = push_bit 16 (LE16 rec 20) OR LE16 rec 26;
               original = LE32 rec 28;
               f = (if fd_mode (fd f ! n) AND MODE_APPEND \<noteq> 0 then upd_fd n (\<lambda>e. e\<lparr>fd_offset := original\<rparr>) f else f);
               offset = fd_offset (fd f ! n);
               seek_bytes = (if offset > original then offset - original else 0);
               file_size = new_size (maximum_file_size f) offset requested original
           in
           case (if requested \<noteq> 0 \<and> record_cluster = 0 then first_cluster env n f else (0, record_cluster, f)) of
             (r, record_cluster, f) \<Rightarrow>
           if r \<noteq> 0 then Some (r, 0, f)
           else
             let csize = cluster_size f;
                 file_clusters = file_size div csize;
                 file_clusters = (if file_size mod csize \<noteq> 0 then file_clusters + 1 else file_clusters);
                 write_index = (offset - seek_bytes) div csize;
                 known = (fd_cluster_idx (fd f ! n) \<noteq> 0 \<and> fd_cluster_idx (fd f ! n) \<le> write_index);
                 i = (if known then fd_cluster_idx (fd f ! n) else 0);
                 cluster = (if known then fd_cluster_val (fd f ! n) else record_cluster)
             in
             case (if requested \<noteq> 0
                   then extend_loop env write_index (file_size = original) file_clusters (fs_clusters f + 2) i cluster 0 f
                   else (0, 0, f)) of
               (r, offset_cluster, f) \<Rightarrow>
             case (if requested \<noteq> 0 then write_table env f else (0, f)) of
               (r2, f) \<Rightarrow>
             if r2 \<noteq> 0 then Some (FAT_BLOCK_WRITE_ERROR, 0, f)
             else if r > 0 \<and> r \<noteq> FAT_NOT_ENOUGH_SPACE then
               (case delete_extra_clusters env f n of None \<Rightarrow> None | Some f \<Rightarrow> Some (r, 0, f))
             else
               case (if offset_cluster \<ge> 2
                     then write_loop env n data requested (if requested > maximum_file_size f then maximum_file_size f else requested)
                       original offset_cluster ((offset - seek_bytes) mod csize) seek_bytes 0 0 f
                     else Some (0, f)) of
                 None \<Rightarrow> None
               | Some (written_bytes, f) \<Rightarrow> finish_write env n requested original written_bytes f)"

end
