(* ===== verification/Fat_Read.thy ===== *)
theory Fat_Read
  imports Fat_File
begin

text \<open>
  The correctness of \<^verbatim>\<open>fat_read\<close>, \<^verbatim>\<open>src/common/fat.c\<close>: the contents of a file
  are the bytes of the clusters of its chain, cut at the size in its record, and a read returns a part of
  them whatever is in the buffers.
\<close>

subsection \<open>The data area\<close>

text \<open>The first byte behind the tables, and the bytes of a cluster.\<close>

definition table_end :: "'d fat_instance \<Rightarrow> nat" where
  "table_end f = (fs_reserved_sectors f + fs_tables f * fs_table_sectors f) * fs_bytes_per_sector f"

definition cluster_lba :: "'d fat_instance \<Rightarrow> nat \<Rightarrow> nat" where
  "cluster_lba f c = (fs_total_sectors f - fs_data_sectors f + (c - 2) * fs_cluster_sectors f) * io_mul f"

definition device_span :: "('d \<Rightarrow> nat \<Rightarrow> u8) \<Rightarrow> 'd fat_instance \<Rightarrow> nat \<Rightarrow> u8 list" where
  "device_span bytes f a = map (\<lambda>i. bytes (dev f) (a + i)) [0..<cluster_size f]"

definition cluster_data :: "('d \<Rightarrow> nat \<Rightarrow> u8) \<Rightarrow> nat \<Rightarrow> 'd fat_instance \<Rightarrow> nat \<Rightarrow> u8 list" where
  "cluster_data bytes bs f c = device_span bytes f (cluster_lba f c * bs)"

text \<open>The cluster buffer holds what the device holds at its address, unless it is marked invalid.\<close>

definition buffered :: "('d \<Rightarrow> nat \<Rightarrow> u8) \<Rightarrow> nat \<Rightarrow> 'd fat_instance \<Rightarrow> bool" where
  "buffered bytes bs f \<longleftrightarrow> cluster_buffer_lba f = 0 \<or>
    table_end f \<le> cluster_buffer_lba f * bs \<and> cluster_buffer f = device_span bytes f (cluster_buffer_lba f * bs)"

lemma length_device_span [simp]: "length (device_span bytes f a) = cluster_size f"
  by (simp add: device_span_def)

lemma length_cluster_data [simp]: "length (cluster_data bytes bs f c) = cluster_size f"
  by (simp add: cluster_data_def)

lemma table_end_le_lba:
  assumes "table_ok bytes bs f"
  shows "table_end f \<le> cluster_lba f c * bs"
proof -
  have t: "fs_total_sectors f = fs_reserved_sectors f + fs_table_sectors f * fs_tables f + fs_directory_sectors f + fs_data_sectors f"
    using table_okD(1) [OF assms] unfolding fat_geometry_def by blast
  have "cluster_lba f c * bs = (fs_total_sectors f - fs_data_sectors f + (c - 2) * fs_cluster_sectors f) * fs_bytes_per_sector f"
    using shapeD(2) [OF table_okD(2) [OF assms]] by (simp add: cluster_lba_def mult.assoc)
  moreover have "fs_reserved_sectors f + fs_tables f * fs_table_sectors f \<le> fs_total_sectors f - fs_data_sectors f + (c - 2) * fs_cluster_sectors f"
    using t by (simp add: mult.commute)
  ultimately show ?thesis unfolding table_end_def by simp
qed

lemma span_frame:
  assumes "cluster_size f' = cluster_size f" "\<forall>x \<ge> b. bytes (dev f') x = bytes (dev f) x" "b \<le> a"
  shows "device_span bytes f' a = device_span bytes f a"
  using assms by (simp add: device_span_def)

subsection \<open>Table operations and the data area\<close>

lemma dirty_below:
  assumes "fat_geometry f" "window_shape bs f" "dirty_inside f" "dirty f 0 k"
  shows "table_offset f + k < fs_table_size f"
proof -
  let ?p = "fs_bytes_per_sector f"
  note ok = assms(1-3) and sh = shapeD [OF assms(2)]
  have k: "k < table_entries f * ?p" "table_sectors f ! (k div ?p) \<noteq> 0" using assms(4) sh(4) by (simp_all add: dirty_def)
  have "k div ?p < table_entries f" using k(1) by (simp add: less_mult_imp_div_less)
  then have lt: "table_offset f + k div ?p * ?p < fs_table_size f" using ok(3) k(2) unfolding dirty_inside_def by blast
  obtain q where q: "table_offset f = q * ?p" using sh(5) by (metis dvdE mult.commute)
  have sz: "fs_table_size f = fs_table_sectors f * ?p" using geometryD(1) [OF ok(1)] .
  have "(q + k div ?p) * ?p < fs_table_sectors f * ?p" using lt unfolding q sz by (simp add: distrib_right)
  then have "q + k div ?p + 1 \<le> fs_table_sectors f" using sh(1) by simp
  then have "(q + k div ?p + 1) * ?p \<le> fs_table_size f" unfolding sz by (rule mult_le_mono1)
  moreover have "k < k div ?p * ?p + ?p" using mod_less_divisor [OF sh(1), of k] div_mult_mod_eq [of k ?p] by linarith
  ultimately show ?thesis unfolding q by (simp add: distrib_right)
qed

lemma write_dirty_frame:
  assumes "block_device env bytes bs" "fat_geometry f" "window_shape bs f" "dirty_inside f" "write_dirty env strict add i f = (r, f')"
    "add \<le> (fs_tables f - 1) * fs_table_sectors f" "table_end f \<le> x"
  shows "bytes (dev f') x = bytes (dev f) x"
proof -
  have "x \<noteq> (fs_reserved_sectors f + add) * fs_bytes_per_sector f + table_offset f + k" if "dirty f i k" for k
  proof -
    have "dirty f 0 k" using that by (simp add: dirty_def)
    then have "table_offset f + k < fs_table_sectors f * fs_bytes_per_sector f"
      using dirty_below [OF assms(2-4)] geometryD(1) [OF assms(2)] by simp
    moreover have t: "fs_tables f = 1 \<or> fs_tables f = 2" using assms(2) unfolding fat_geometry_def by blast
    then have "fs_reserved_sectors f + add + fs_table_sectors f \<le> fs_reserved_sectors f + fs_tables f * fs_table_sectors f"
      using assms(6) by auto
    then have "(fs_reserved_sectors f + add + fs_table_sectors f) * fs_bytes_per_sector f \<le> table_end f"
      unfolding table_end_def by (rule mult_le_mono1)
    ultimately show ?thesis using assms(7) by (simp add: distrib_right)
  qed
  then show ?thesis
    using write_dirty_main [OF assms(1,3,5) refl] by blast
qed

lemma write_table_frame:
  assumes "block_device env bytes bs" "fat_geometry f" "window_shape bs f" "dirty_inside f" "write_table env f = (0, f')" "table_end f \<le> x"
  shows "bytes (dev f') x = bytes (dev f) x"
proof -
  obtain r1 f1 where 1: "write_dirty env True 0 0 f = (r1, f1)" by (cases "write_dirty env True 0 0 f")
  obtain r2 f2 where 2: "write_dirty env False (fs_table_sectors f1) 0 f1 = (r2, f2)"
    by (cases "write_dirty env False (fs_table_sectors f1) 0 f1")
  have r1: "r1 = 0" using assms(5) by (auto simp: write_table_def 1 split: if_splits prod.splits)
  then obtain d where f1: "f1 = f\<lparr>dev := d\<rparr>" using write_dirty_main [OF assms(1,3) 1 refl] by (auto simp: FAT_BLOCK_WRITE_ERROR_def)
  have a: "bytes d x = bytes (dev f) x" using write_dirty_frame [OF assms(1-4) 1 _ assms(6)] by (simp add: f1)
  have f': "dev f' = (if fs_tables f < 2 then d else dev f2)"
    using assms(5) 2 by (auto simp: write_table_def 1 r1 f1 clear_sectors_def split: if_splits prod.splits)
  have "bytes (dev f2) x = bytes (dev f1) x" if "\<not> fs_tables f < 2"
  proof (rule write_dirty_frame [OF assms(1) _ _ _ 2])
    have "fat_geometry f1 = fat_geometry f" "window_shape bs f1 = window_shape bs f" "dirty_inside f1 = dirty_inside f"
      unfolding f1 fat_geometry_def window_shape_def dirty_inside_def by simp_all
    then show "fat_geometry f1" "window_shape bs f1" "dirty_inside f1" using assms(2-4) by blast+
    have "1 \<le> fs_tables f - 1" using that by simp
    then have "1 * fs_table_sectors f \<le> (fs_tables f - 1) * fs_table_sectors f" by (rule mult_le_mono1)
    then show "fs_table_sectors f1 \<le> (fs_tables f1 - 1) * fs_table_sectors f1" by (simp add: f1)
    show "table_end f1 \<le> x" using assms(6) by (simp add: f1 table_end_def)
  qed
  then show ?thesis using a f' by (simp add: f1)
qed

lemma load_window_frame:
  assumes "block_device env bytes bs"
  shows "bytes (dev (snd (load_window env off2 f))) = bytes (dev f)"
proof -
  have "bytes d = bytes (dev f)" if "fat_io_read env fid lba n (dev f) = (r, data, d)" for fid lba n r data d
    using block_device_read(1) [OF assms that] .
  then show ?thesis by (auto simp: load_window_def Let_def split: prod.splits)
qed

lemma get_table_value_frame:
  assumes "block_device env bytes bs" "table_ok bytes bs f" "get_table_value env f off = (v, f')" "v \<noteq> 1" "table_end f \<le> x"
  shows "bytes (dev f') x = bytes (dev f) x"
proof (cases "f' = f")
  case False
  note ok = table_okD [OF assms(2)]
  define t where "t = push_bit 2 off"
  have 32: "type_32 f" using assms(3) False by (auto simp: get_table_value_def Let_def split: if_splits)
  obtain r a g where g: "read_table_buffer env f t = (r, a, g)" by (cases "read_table_buffer env f t")
  have f': "r = 0" "f' = g" using assms(3,4) g False unfolding t_def
    by (auto simp: get_table_value_def Let_def split: if_splits)
  have nn: "table_buffer f \<noteq> []" using ok(4) [OF 32] by auto
  obtain r1 f1 where w: "write_table env f = (r1, f1)" by (cases "write_table env f")
  have "r1 = 0" "f' = snd (load_window env (t AND 0xFFFE0000) f1)"
    using g f' False nn by (auto simp: read_table_buffer_def Let_def w FAT_BLOCK_WRITE_ERROR_def split: if_splits prod.splits)
  then show ?thesis using write_table_frame [OF assms(1) ok(1-3) _ assms(5)] w load_window_frame [OF assms(1)] by simp
qed simp

text \<open>What the table operations leave alone.\<close>

definition aside :: "'d fat_instance \<Rightarrow> fat_fd list \<times> nat \<times> u8 list \<times> nat \<times> nat" where
  "aside f = (fd f, fd_entries f, cluster_buffer f, cluster_buffer_lba f, fs_clusters f)"

lemma aside_write_dirty: "aside (snd (write_dirty env strict add i f)) = aside f"
proof (induction env strict add i f rule: write_dirty.induct)
  case (1 env strict add i f)
  then show ?case by (subst write_dirty.simps) (auto simp: Let_def aside_def split: prod.splits)
qed

lemma aside_write_table: "aside (snd (write_table env f)) = aside f"
proof -
  obtain r1 f1 where 1: "write_dirty env True 0 0 f = (r1, f1)" by (cases "write_dirty env True 0 0 f")
  obtain r2 f2 where 2: "write_dirty env False (fs_table_sectors f1) 0 f1 = (r2, f2)"
    by (cases "write_dirty env False (fs_table_sectors f1) 0 f1")
  show ?thesis
    using aside_write_dirty [of env True 0 0 f] aside_write_dirty [of env False "fs_table_sectors f1" 0 f1]
    by (simp add: write_table_def 1 2 clear_sectors_def aside_def)
qed

lemma aside_load_window: "aside (snd (load_window env off2 f)) = aside f"
  by (auto simp: load_window_def Let_def aside_def split: prod.splits)

lemma aside_read_table_buffer: "aside (snd (snd (read_table_buffer env f toff))) = aside f"
proof -
  obtain r f1 where 1: "write_table env f = (r, f1)" by (cases "write_table env f")
  have w: "aside f1 = aside f" using aside_write_table [of env f] by (simp add: 1)
  have l: "aside f2 = aside g" if "load_window env off2 g = (r2, f2)" for off2 g r2 f2
    using aside_load_window [of env off2 g] that by simp
  show ?thesis using w unfolding read_table_buffer_def Let_def 1 prod.case
    by (auto dest!: l split: prod.splits) (simp_all add: aside_def)
qed

lemma aside_get_table_value: "aside (snd (get_table_value env f off)) = aside f"
  using aside_read_table_buffer [of env f "push_bit 2 off"] by (auto simp: get_table_value_def Let_def split: prod.splits)

lemma asideD:
  assumes "aside f' = aside f"
  shows "fd f' = fd f" "fd_entries f' = fd_entries f" "cluster_buffer f' = cluster_buffer f" "cluster_buffer_lba f' = cluster_buffer_lba f"
    "fs_clusters f' = fs_clusters f"
  using assms by (simp_all add: aside_def)

text \<open>A device that reports no error.\<close>

definition reliable :: "'d fat_env \<Rightarrow> bool" where
  "reliable env \<longleftrightarrow> (\<forall>fid lba n d. fst (fat_io_read env fid lba n d) = 0) \<and> (\<forall>fid lba data d. fst (fat_io_write env fid lba data d) = 0)"

lemma reliableD:
  assumes "reliable env"
  shows "fat_io_read env fid lba n d = (r, x) \<Longrightarrow> r = 0" "fat_io_write env fid lba data d = (r, d') \<Longrightarrow> r = 0"
  using assms unfolding reliable_def by (metis fst_conv)+

lemma reliable_write_dirty: "reliable env \<Longrightarrow> fst (write_dirty env strict add i f) = 0"
proof (induction env strict add i f rule: write_dirty.induct)
  case (1 env strict add i f)
  then show ?case by (subst write_dirty.simps) (auto simp: Let_def dest: reliableD(2) split: prod.splits)
qed

lemma reliable_write_table: "reliable env \<Longrightarrow> fst (write_table env f) = 0"
  using reliable_write_dirty [of env] by (auto simp: write_table_def split: prod.splits) (metis fst_conv)+

lemma reliable_load_window: "reliable env \<Longrightarrow> off2 < fs_table_size f \<Longrightarrow> ready (snd (load_window env off2 f)) = ready f"
  by (auto simp: load_window_def Let_def dest: reliableD(1) split: prod.splits)

lemma reliable_get_table_value:
  assumes "reliable env" "block_device env bytes bs" "table_ok bytes bs f" "off < fs_clusters f + 2"
  shows "ready (snd (get_table_value env f off)) = ready f"
proof (cases "type_32 f")
  case False
  then show ?thesis by (simp add: get_table_value_def Let_def)
next
  case 32: True
  note ok = table_okD [OF assms(3)]
  define t where "t = push_bit 2 off"
  have t: "t < fs_table_size f" using assms(4) geometryD(11) [OF ok(1) 32] by (simp add: t_def push_bit_eq_mult)
  have lt: "t AND 0xFFFE0000 < fs_table_size f" using t window_split(2) [of t] geometryD(2) [OF ok(1)] by simp
  have nn: "table_buffer f \<noteq> []" using ok(4) [OF 32] by auto
  obtain r1 f1 where w: "write_table env f = (r1, f1)" by (cases "write_table env f")
  then have z: "r1 = 0" using reliable_write_table [OF assms(1), of f] by simp
  have f1: "ready f1 = ready f \<and> fs_table_size f1 = fs_table_size f"
    using assms(2) ok(2) w by (cases rule: write_table_cases) (use z in \<open>auto simp: FAT_BLOCK_WRITE_ERROR_def\<close>)
  then have "ready (snd (load_window env (t AND 0xFFFE0000) f1)) = ready f"
    using reliable_load_window [OF assms(1), of "t AND 0xFFFE0000" f1] lt by simp
  then have "ready (snd (snd (read_table_buffer env f t))) = ready f"
    using nn by (auto simp: read_table_buffer_def Let_def w z split: prod.splits)
  then show ?thesis by (auto simp: get_table_value_def Let_def t_def split: prod.splits)
qed

subsection \<open>Reading\<close>

text \<open>
  The state during a read: the table stands for the map \<open>m\<close>, the buffer is valid, and the data area
  is that of \<open>f0\<close>.
\<close>

definition reading :: "('d \<Rightarrow> nat \<Rightarrow> u8) \<Rightarrow> nat \<Rightarrow> 'd fat_instance \<Rightarrow> (nat \<Rightarrow> nat) \<Rightarrow> 'd fat_instance \<Rightarrow> bool" where
  "reading bytes bs f0 m f \<longleftrightarrow> tracks bytes bs f0 m f \<and> buffered bytes bs f \<and>
    (\<forall>x \<ge> table_end f0. bytes (dev f) x = bytes (dev f0) x)"

lemma layout_more:
  assumes "layout f' = layout f"
  shows "table_end f' = table_end f" "cluster_lba f' = cluster_lba f"
  using layout_simps [OF assms] by (simp_all add: table_end_def cluster_lba_def fun_eq_iff)

lemma readingD:
  assumes "reading bytes bs f0 m f"
  shows "tracks bytes bs f0 m f" "buffered bytes bs f" "table_end f0 \<le> x \<Longrightarrow> bytes (dev f) x = bytes (dev f0) x"
    "table_ok bytes bs f" "layout f = layout f0" "fs_clusters f = fs_clusters f0" "cluster_size f = cluster_size f0"
  using assms tracksD [of bytes bs f0 m f] layout_simps(12) [of f f0] unfolding reading_def by blast+

lemma reading_data:
  assumes "reading bytes bs f0 m f"
  shows "cluster_data bytes bs f c = cluster_data bytes bs f0 c"
proof -
  note r = readingD [OF assms]
  note l = layout_more [OF r(5)]
  have "table_end f0 \<le> cluster_lba f0 c * bs" using table_end_le_lba [OF r(4), of c] unfolding l .
  then show ?thesis unfolding cluster_data_def l using span_frame [OF r(7)] r(3) by blast
qed

lemma reading_get:
  assumes "block_device env bytes bs" "reading bytes bs f0 m f" "off < fs_clusters f0 + 2" "m off \<noteq> 1"
    "get_table_value env f off = (v, f')"
  obtains (failed) "v = 1" "ready f' = 0" "aside f' = aside f" "\<not> reliable env \<or> ready f = 0"
    | (found) "v = m off" "reading bytes bs f0 m f'" "ready f' = ready f" "aside f' = aside f"
proof -
  note r = readingD [OF assms(2)]
  have a: "aside f' = aside f" using aside_get_table_value [of env f off] assms(5) by simp
  have lt: "off < fs_clusters f + 2" using assms(3) r(6) by simp
  from assms(1) r(1) assms(3,5) show thesis
  proof (cases rule: tracks_get)
    case failed
    then show thesis using that(1) a reliable_get_table_value [OF _ assms(1) r(4) lt] assms(5) by fastforce
  next
    case found
    have fr: "bytes (dev f') x = bytes (dev f) x" if "table_end f \<le> x" for x
      by (rule get_table_value_frame [OF assms(1) r(4) assms(5) _ that]) (use found(1) assms(4) in simp)
    note l = layout_more(1) [OF r(5)]
    have l2: "layout f' = layout f0" using tracksD(1) [OF found(2)] .
    have "buffered bytes bs f'"
    proof (cases "cluster_buffer_lba f = 0")
      case True
      then show ?thesis using asideD(4) [OF a] by (simp add: buffered_def)
    next
      case False
      then have b: "table_end f \<le> cluster_buffer_lba f * bs" "cluster_buffer f = device_span bytes f (cluster_buffer_lba f * bs)"
        using r(2) by (auto simp: buffered_def)
      have "cluster_size f' = cluster_size f" using layout_simps(12) [OF l2] r(7) by simp
      then have "device_span bytes f' (cluster_buffer_lba f * bs) = device_span bytes f (cluster_buffer_lba f * bs)"
        using span_frame [of f' f "table_end f" bytes, OF _ _ b(1)] fr by blast
      then show ?thesis using b asideD(3,4) [OF a] layout_more(1) [OF l2] l by (simp add: buffered_def)
    qed
    then show thesis using that(2) found a fr r(3) l unfolding reading_def by simp
  qed
qed

lemma sub32_le: "b \<le> a \<Longrightarrow> a < 2 ^ 32 \<Longrightarrow> sub32 a b = a - b"
proof -
  assume a: "b \<le> a" "a < 2 ^ 32"
  then have "a + 2 ^ 32 - b = a - b + 2 ^ 32" by simp
  then show ?thesis using a(2) unfolding sub32_def by (simp only: mod_add_self2) simp
qed

lemma read_cluster_main:
  assumes "block_device env bytes bs" "reading bytes bs f0 m f" "2 \<le> c" "c < fs_clusters f0 + 2" "fs_clusters f0 + 2 < 2 ^ 32"
    "read_cluster env f c False = (r, f')"
  obtains (failed) "r = FAT_BLOCK_READ_ERROR" "reading bytes bs f0 m f'" "ready f' = ready f" "fd f' = fd f" "fd_entries f' = fd_entries f"
      "\<not> reliable env"
    | (fetched) "r = 0" "reading bytes bs f0 m f'" "ready f' = ready f" "fd f' = fd f" "fd_entries f' = fd_entries f"
      "cluster_buffer f' = cluster_data bytes bs f0 c"
proof -
  note R = readingD [OF assms(2)]
  let ?lba = "cluster_lba f c"
  let ?f = "f\<lparr>cluster_sector := fs_total_sectors f - fs_data_sectors f + (c - 2) * fs_cluster_sectors f\<rparr>"
  have sub: "\<not> sub32 c 2 \<ge> fs_clusters f" using assms(3-5) R(6) by (simp add: sub32_le)
  have len: "length (cluster_buffer f) = cluster_size f" using table_okD(1) [OF R(4)] unfolding fat_geometry_def by blast
  obtain r1 data d where io: "fat_io_read env (fat_id f) ?lba (cluster_size f) (dev f) = (r1, data, d)"
    by (cases "fat_io_read env (fat_id f) ?lba (cluster_size f) (dev f)")
  note B = block_device_read [OF assms(1) io]
  have e: "(r, f') = (if cluster_buffer_lba f = ?lba then (0, ?f)
     else if r1 \<noteq> 0 then
       (FAT_BLOCK_READ_ERROR, ?f\<lparr>dev := d, cluster_buffer_lba := 0,
          cluster_buffer := overlay (overlay (cluster_buffer f) 0 data) 0 (replicate (cluster_size f) 0)\<rparr>)
     else (0, ?f\<lparr>cluster_buffer := overlay (cluster_buffer f) 0 data, dev := d, cluster_buffer_lba := ?lba\<rparr>))"
    using assms(6) sub io by (auto simp: read_cluster_def Let_def cluster_lba_def)
  have keep: "reading bytes bs f0 m g"
    if "data_step bytes f g" "buffered bytes bs g" "bytes (dev g) = bytes (dev f)" for g
    using tracks_data [OF that(1) R(1)] that(2,3) R(3) unfolding reading_def by simp
  have cd: "device_span bytes f (?lba * bs) = cluster_data bytes bs f0 c" using reading_data [OF assms(2), of c] by (simp add: cluster_data_def)
  have pos: "?lba \<noteq> 0"
  proof
    assume "?lba = 0"
    then have "table_end f \<le> 0" using table_end_le_lba [OF R(4), of c] by simp
    moreover have "1 \<le> fs_reserved_sectors f" using table_okD(1) [OF R(4)] unfolding fat_geometry_def by blast
    ultimately show False using geometryD(4) [OF table_okD(1) [OF R(4)]] by (simp add: table_end_def)
  qed
  have ds: "data_step bytes f g" if "layout g = layout f" "ready g = ready f" "table_buffer g = table_buffer f"
    "table_sectors g = table_sectors f" "table_entries g = table_entries f" "table_offset g = table_offset f"
    "length (cluster_buffer g) = cluster_size f" "bytes (dev g) = bytes (dev f)" for g
    using that len by (simp add: data_step_def)
  consider (hit) "cluster_buffer_lba f = ?lba" | (err) "cluster_buffer_lba f \<noteq> ?lba" "r1 \<noteq> 0" | (ok) "cluster_buffer_lba f \<noteq> ?lba" "r1 = 0"
    by blast
  then show thesis
  proof cases
    case hit
    then have f': "r = 0" "f' = ?f" using e by auto
    have b: "cluster_buffer f = cluster_data bytes bs f0 c" using R(2) hit pos cd by (simp add: buffered_def)
    have "buffered bytes bs f'" using R(2) by (simp add: f' buffered_def table_end_def device_span_def)
    moreover have "data_step bytes f f'" by (rule ds) (simp_all add: f' layout_def len)
    ultimately show thesis using fetched f'(1) keep [of f'] b by (simp add: f'(2))
  next
    case err
    then have f': "r = FAT_BLOCK_READ_ERROR" "f' = ?f\<lparr>dev := d, cluster_buffer_lba := 0,
          cluster_buffer := overlay (overlay (cluster_buffer f) 0 data) 0 (replicate (cluster_size f) 0)\<rparr>" using e by auto
    have "length (overlay (overlay (cluster_buffer f) 0 data) 0 (replicate (cluster_size f) 0)) = cluster_size f"
      using B(2) len by (simp add: overlay_def)
    then have "data_step bytes f f'" by (intro ds) (simp_all add: f' layout_def B(1))
    moreover have "buffered bytes bs f'" by (simp add: f' buffered_def)
    ultimately show thesis using failed f'(1) keep [of f'] B(1) reliableD(1) [OF _ io] err(2) by (auto simp: f'(2))
  next
    case ok
    then have f': "r = 0" "f' = ?f\<lparr>cluster_buffer := overlay (cluster_buffer f) 0 data, dev := d, cluster_buffer_lba := ?lba\<rparr>"
      using e by auto
    have "data = device_span bytes f (?lba * bs)" using B(3) ok(2) by (simp add: device_span_def)
    then have o: "overlay (cluster_buffer f) 0 data = device_span bytes f (?lba * bs)" using len by (simp add: overlay_def)
    have "data_step bytes f f'" by (rule ds) (simp_all add: f' o layout_def B(1))
    moreover have "buffered bytes bs f'" using table_end_le_lba [OF R(4), of c] by (simp add: f' o buffered_def table_end_def device_span_def B(1))
    ultimately show thesis using fetched f'(1) keep [of f'] B(1) cd by (simp add: f'(2) o)
  qed
qed

lemma copy_span_eq:
  assumes "offset \<le> sz" "length buf = sz" "k < limit"
  shows "copy_span buf sz limit offset k = (take (limit - k) (drop offset buf), k + min (limit - k) (sz - offset))"
  using assms
proof (induction buf sz limit offset k rule: copy_span.induct)
  case (1 buf sz limit offset n)
  show ?case
  proof (cases "offset < sz")
    case False
    then show ?thesis using 1(2-4) by (subst copy_span.simps) simp
  next
    case True
    then have d: "drop offset buf = buf ! offset # drop (Suc offset) buf" using 1(3) by (simp add: Cons_nth_drop_Suc)
    show ?thesis
    proof (cases "n + 1 < limit")
      case False
      then have "limit - n = 1" using 1(4) by simp
      then show ?thesis using True False d by (subst copy_span.simps) simp
    next
      case t2: True
      have s: "limit - n = Suc (limit - (n + 1))" "sz - offset = Suc (sz - (offset + 1))" using t2 True by simp_all
      have IH: "copy_span buf sz limit (offset + 1) (n + 1) =
          (take (limit - (n + 1)) (drop (offset + 1) buf), n + 1 + min (limit - (n + 1)) (sz - (offset + 1)))"
        by (rule "1.IH") (use True t2 1(3) in simp_all)
      show ?thesis using True t2 by (subst copy_span.simps) (simp only: IH s d, simp)
    qed
  qed
qed

lemma chain_next: "chain N m c (x # xs) \<Longrightarrow> m c \<noteq> 1"
  by (cases xs) auto

lemma seek_loop_main:
  assumes "block_device env bytes bs" "reading bytes bs f0 m f" "chain (fs_clusters f0 + 2) m c ys" "i \<le> q" "q - i < length ys"
    "q < file_clusters" "seek_loop env False q file_clusters i c f = (r, c', f')"
  obtains (failed) "r = FAT_INCONSISTENT_STATE" "ready f' = 0" "aside f' = aside f" "\<not> reliable env \<or> ready f = 0"
    | (found) "r = 0" "c' = ys ! (q - i)" "reading bytes bs f0 m f'" "ready f' = ready f" "aside f' = aside f"
proof -
  have "r = FAT_INCONSISTENT_STATE \<and> ready f' = 0 \<and> aside f' = aside f \<and> (\<not> reliable env \<or> ready f = 0) \<or>
    r = 0 \<and> c' = ys ! (q - i) \<and> reading bytes bs f0 m f' \<and> ready f' = ready f \<and> aside f' = aside f"
    using assms
  proof (induction ys arbitrary: i c f)
    case (Cons y ys)
    have il: "i < file_clusters" using Cons.prems(4,6) by simp
    show ?case
    proof (cases "i = q")
      case True
      then have "r = 0" "c' = c" "f' = f" using Cons.prems(7) il by (auto simp: seek_loop.simps)
      then show ?thesis using True Cons.prems(2,3) by simp
    next
      case False
      then have q: "i + 1 \<le> q" "q - (i + 1) < length ys" using Cons.prems(4,5) by auto
      then obtain z zs where ys: "ys = z # zs" by (cases ys) auto
      have ch: "c = y" "c < fs_clusters f0 + 2" "chain (fs_clusters f0 + 2) m (m c) ys" "2 \<le> m c" "m c < 0x0FFFFFF8"
        using Cons.prems(3) ys by auto
      obtain v g where g: "get_table_value env f c = (v, g)" by (cases "get_table_value env f c")
      have e: "seek_loop env False q file_clusters i c f =
          (if v < 2 \<or> v \<ge> 0x0FFFFFF8 then (FAT_INCONSISTENT_STATE, v, g) else seek_loop env False q file_clusters (i + 1) v g)"
        using il False by (subst seek_loop.simps) (simp add: g)
      from Cons.prems(1,2) ch(2) chain_next [OF Cons.prems(3)] g show ?thesis
      proof (cases rule: reading_get)
        case failed
        then show ?thesis using e Cons.prems(7) by simp
      next
        case found
        then have "seek_loop env False q file_clusters (i + 1) (m c) g = (r, c', f')" using e Cons.prems(7) ch by simp
        from Cons.IH [OF Cons.prems(1) found(2) ch(3) q Cons.prems(6) this] show ?thesis
          using found(3,4) False Cons.prems(4) by auto
      qed
    qed
  qed simp
  then show thesis using that by blast
qed

lemma fat_loop_stop: "\<not> k < limit \<Longrightarrow> read_loop env n limit c offset k out f = Some (0, c, k, out, f)"
  by (subst read_loop.simps) simp

lemma fat_loop_error:
  "k < limit \<Longrightarrow> read_cluster env f c False = (r, f1) \<Longrightarrow> r \<noteq> 0 \<Longrightarrow> read_loop env n limit c offset k out f = Some (r, c, k, out, f1)"
  by (subst read_loop.simps) simp

lemma fat_loop_step:
  assumes "k < limit" "read_cluster env f c False = (0, f1)" "copy_span (cluster_buffer f1) (cluster_size f1) limit offset k = (data, k1)"
    "get_table_value env (upd_fd n (\<lambda>e. e\<lparr>fd_cluster_idx := (fd_offset e + k) div cluster_size f1, fd_cluster_val := c\<rparr>) f1) c = (v, f3)"
  shows "read_loop env n limit c offset k out f =
    (if v \<ge> 0x0FFFFFF8 then Some (0, v, k1, out @ data, f3) else read_loop env n limit v 0 k1 (out @ data) f3)"
  using assms by (subst read_loop.simps) simp

text \<open>A read stores nothing in the descriptors but the cluster it has reached.\<close>

definition valid_cache :: "nat list \<Rightarrow> fat_fd \<Rightarrow> bool" where
  "valid_cache xs e \<longleftrightarrow> fd_cluster_idx e = 0 \<or> fd_cluster_idx e < length xs \<and> xs ! fd_cluster_idx e = fd_cluster_val e"

definition advanced :: "nat \<Rightarrow> nat list \<Rightarrow> 'd fat_instance \<Rightarrow> 'd fat_instance \<Rightarrow> bool" where
  "advanced n xs f g \<longleftrightarrow> fd_entries g = fd_entries f \<and>
    (\<exists>i v. fd g = (fd f)[n := (fd f ! n)\<lparr>fd_cluster_idx := i, fd_cluster_val := v\<rparr>]) \<and>
    (valid_cache xs (fd f ! n) \<longrightarrow> valid_cache xs (fd g ! n))"

lemma advanced_same: "fd g = fd f \<Longrightarrow> fd_entries g = fd_entries f \<Longrightarrow> advanced n xs f g"
proof -
  assume f: "fd g = fd f" "fd_entries g = fd_entries f"
  have "fd g = (fd f)[n := (fd f ! n)\<lparr>fd_cluster_idx := fd_cluster_idx (fd f ! n), fd_cluster_val := fd_cluster_val (fd f ! n)\<rparr>]"
    using f(1) by simp
  then have "\<exists>i v. fd g = (fd f)[n := (fd f ! n)\<lparr>fd_cluster_idx := i, fd_cluster_val := v\<rparr>]" by blast
  then show ?thesis using f by (simp add: advanced_def)
qed

lemma advancedD:
  assumes "advanced n xs f g"
  shows "fd_entries g = fd_entries f" "length (fd g) = length (fd f)" "j \<noteq> n \<Longrightarrow> fd g ! j = fd f ! j"
    "fd_opened (fd g ! n) = fd_opened (fd f ! n)" "fd_mode (fd g ! n) = fd_mode (fd f ! n)" "fd_record (fd g ! n) = fd_record (fd f ! n)"
    "fd_eof (fd g ! n) = fd_eof (fd f ! n)" "fd_offset (fd g ! n) = fd_offset (fd f ! n)"
    "valid_cache xs (fd f ! n) \<Longrightarrow> valid_cache xs (fd g ! n)"
  using assms unfolding advanced_def by (cases "n < length (fd f)"; auto simp: list_update_beyond)+

lemma advanced_trans: "advanced n xs f g \<Longrightarrow> advanced n xs g h \<Longrightarrow> advanced n xs f h"
proof -
  assume a: "advanced n xs f g" "advanced n xs g h"
  obtain i v where g: "fd g = (fd f)[n := (fd f ! n)\<lparr>fd_cluster_idx := i, fd_cluster_val := v\<rparr>]" using a(1) unfolding advanced_def by blast
  obtain i' v' where h: "fd h = (fd g)[n := (fd g ! n)\<lparr>fd_cluster_idx := i', fd_cluster_val := v'\<rparr>]" using a(2) unfolding advanced_def by blast
  have "fd h = (fd f)[n := (fd f ! n)\<lparr>fd_cluster_idx := i', fd_cluster_val := v'\<rparr>]"
    by (cases "n < length (fd f)") (simp_all add: g h list_update_beyond)
  then show ?thesis using a unfolding advanced_def by metis
qed

lemma reading_upd_fd: "reading bytes bs f0 m (upd_fd n h f) = reading bytes bs f0 m f"
proof -
  have t: "table_ok bytes bs (upd_fd n h f) = table_ok bytes bs f"
    by (simp add: upd_fd_def table_ok_def fat_geometry_def window_shape_def dirty_inside_def coherent_def tbyte_def dirty_def)
  have T: "tbyte bytes (upd_fd n h f) = tbyte bytes f" by (simp add: upd_fd_def tbyte_def fun_eq_iff)
  have ty: "type_12 (upd_fd n h f) = type_12 f" "type_16 (upd_fd n h f) = type_16 f" by (simp_all add: upd_fd_def)
  have e: "entry bytes (upd_fd n h f) q = entry bytes f q" for q unfolding entry_def T ty ..
  show ?thesis by (simp add: reading_def tracks_def t e) (simp add: upd_fd_def layout_def buffered_def table_end_def device_span_def)
qed

lemma read_cluster_outside:
  "fs_clusters f + 2 < 2 ^ 32 \<Longrightarrow> read_cluster env f 1 False = (FAT_INCONSISTENT_STATE, f)"
  by (simp add: read_cluster_def sub32_def)

lemma advanced_upd:
  assumes "valid_cache xs ((fd f ! n)\<lparr>fd_cluster_idx := i, fd_cluster_val := v\<rparr>)" "n < length (fd f)"
  shows "advanced n xs f (upd_fd n (\<lambda>e. e\<lparr>fd_cluster_idx := i, fd_cluster_val := v\<rparr>) f)"
  using assms by (auto simp: advanced_def upd_fd_def)

text \<open>What the loop returns: a part of the clusters, and all that was asked for unless there was an error.\<close>

definition read_result :: "'d fat_env \<Rightarrow> ('d \<Rightarrow> nat \<Rightarrow> u8) \<Rightarrow> nat \<Rightarrow> 'd fat_instance \<Rightarrow> (nat \<Rightarrow> nat) \<Rightarrow> nat \<Rightarrow> nat list \<Rightarrow> nat \<Rightarrow>
    u8 list \<Rightarrow> 'd fat_instance \<Rightarrow> nat \<Rightarrow> u8 list \<Rightarrow> (int \<times> nat \<times> nat \<times> u8 list \<times> 'd fat_instance) option \<Rightarrow> bool" where
  "read_result env bytes bs f0 m n xs limit src f k out res \<longleftrightarrow>
    (\<exists>r c' k' f'. res = Some (r, c', k', out @ take (k' - k) src, f') \<and> k \<le> k' \<and> k' \<le> limit \<and> k' - k \<le> length src \<and>
      r \<in> {0, FAT_BLOCK_READ_ERROR, FAT_INCONSISTENT_STATE} \<and> (r = 0 \<longrightarrow> k' = limit) \<and> (r \<noteq> 0 \<longrightarrow> \<not> reliable env) \<and>
      (ready f' = 0 \<or> reading bytes bs f0 m f' \<and> ready f' = ready f) \<and> advanced n xs f f')"

lemma read_result_append:
  assumes "read_result env bytes bs f0 m n xs limit src2 f2 k2 (out @ src1) res" "length src1 = k2 - k" "k \<le> k2"
    "ready f2 = ready f" "advanced n xs f f2"
  shows "read_result env bytes bs f0 m n xs limit (src1 @ src2) f k out res"
proof -
  obtain r c' k' f' where res: "res = Some (r, c', k', (out @ src1) @ take (k' - k2) src2, f')" "k2 \<le> k'" "k' \<le> limit" "k' - k2 \<le> length src2"
    and rest: "r \<in> {0, FAT_BLOCK_READ_ERROR, FAT_INCONSISTENT_STATE}" "r = 0 \<longrightarrow> k' = limit" "r \<noteq> 0 \<longrightarrow> \<not> reliable env"
      "ready f' = 0 \<or> reading bytes bs f0 m f' \<and> ready f' = ready f2" "advanced n xs f2 f'"
    using assms(1) unfolding read_result_def by blast
  have t: "take (k' - k) (src1 @ src2) = src1 @ take (k' - k2) src2" using assms(2,3) res(2) by simp
  have r1: "res = Some (r, c', k', out @ take (k' - k) (src1 @ src2), f')" unfolding t using res(1) by simp
  have r2: "k \<le> k'" "k' - k \<le> length (src1 @ src2)" using assms(2,3) res(2,4) by simp_all
  show ?thesis unfolding read_result_def
    using r1 r2 res(3) rest assms(4) advanced_trans [OF assms(5) rest(5)] by metis
qed

lemma fat_loop_main:
  assumes "block_device env bytes bs" "fs_clusters f0 + 2 < 2 ^ 32" "0 < cluster_size f0"
    "reading bytes bs f0 m f" "chain (fs_clusters f0 + 2) m c ys" "xs = pre @ ys" "n < length (fd f)"
    "fd_offset (fd f ! n) + k = length pre * cluster_size f0 + offset" "offset < cluster_size f0"
    "k \<le> limit" "limit - k \<le> length ys * cluster_size f0 - offset" "ready f \<noteq> 0"
  shows "read_result env bytes bs f0 m n xs limit (drop offset (concat (map (cluster_data bytes bs f0) ys))) f k out
    (read_loop env n limit c offset k out f)"
  using assms
proof (induction ys arbitrary: pre c offset k out f)
  case Nil
  then have "k = limit" by simp
  then show ?case using Nil.prems(4) by (auto simp: read_result_def fat_loop_stop intro: advanced_same)
next
  case (Cons y ys)
  let ?cs = "cluster_size f0" and ?N = "fs_clusters f0 + 2" and ?D = "cluster_data bytes bs f0"
  show ?case
  proof (cases "k < limit")
    case False
    then have "k = limit" using Cons.prems(10) by simp
    then show ?thesis using Cons.prems(4) by (auto simp: read_result_def fat_loop_stop intro: advanced_same)
  next
    case lt: True
    have ch: "y = c" "2 \<le> c" "c < ?N" "chain ?N m (m c) ys" using Cons.prems(5) by auto
    note R = readingD [OF Cons.prems(4)]
    obtain r f1 where rc: "read_cluster env f c False = (r, f1)" by (cases "read_cluster env f c False")
    from Cons.prems(1,4) ch(2,3) Cons.prems(2) rc show ?thesis
    proof (cases rule: read_cluster_main)
      case failed
      then have "read_loop env n limit c offset k out f = Some (r, c, k, out, f1)"
        by (intro fat_loop_error [OF lt rc]) (simp add: FAT_BLOCK_READ_ERROR_def)
      then show ?thesis using failed Cons.prems(10) by (auto simp: read_result_def FAT_BLOCK_READ_ERROR_def intro: advanced_same)
    next
      case fetched
      note R1 = readingD [OF fetched(2)]
      define k1 where "k1 = k + min (limit - k) (?cs - offset)"
      define data where "data = take (limit - k) (drop offset (?D c))"
      have cp: "copy_span (cluster_buffer f1) (cluster_size f1) limit offset k = (data, k1)"
        unfolding data_def k1_def fetched(6) R1(7) by (rule copy_span_eq) (use Cons.prems(9) lt in simp_all)
      have len: "length data = k1 - k" by (simp add: data_def k1_def)
      define f2 where "f2 = upd_fd n (\<lambda>e. e\<lparr>fd_cluster_idx := (fd_offset e + k) div cluster_size f1, fd_cluster_val := c\<rparr>) f1"
      have idx: "(fd_offset (fd f1 ! n) + k) div cluster_size f1 = length pre"
        using Cons.prems(8,9) by (simp add: fetched(4) R1(7))
      have f2: "f2 = upd_fd n (\<lambda>e. e\<lparr>fd_cluster_idx := length pre, fd_cluster_val := c\<rparr>) f1"
        using idx by (simp add: f2_def upd_fd_def)
      have vc: "valid_cache xs ((fd f1 ! n)\<lparr>fd_cluster_idx := length pre, fd_cluster_val := c\<rparr>)"
        by (simp add: valid_cache_def Cons.prems(6) ch(1))
      have ad2: "advanced n xs f f2" unfolding f2
        by (rule advanced_trans [OF advanced_same [OF fetched(4,5)] advanced_upd [OF vc]]) (simp add: fetched(4) Cons.prems(7))
      have r2: "reading bytes bs f0 m f2" unfolding f2 reading_upd_fd by (rule fetched(2))
      have rd2: "ready f2 = ready f" by (simp add: f2 upd_fd_def fetched(3))
      obtain v f3 where g: "get_table_value env f2 c = (v, f3)" by (cases "get_table_value env f2 c")
      have "read_cluster env f c False = (0, f1)" using rc fetched(1) by simp
      from fat_loop_step [OF lt this cp g [unfolded f2_def]]
      have step: "read_loop env n limit c offset k out f =
        (if v \<ge> 0x0FFFFFF8 then Some (0, v, k1, out @ data, f3) else read_loop env n limit v 0 k1 (out @ data) f3)" .
      have src: "drop offset (concat (map ?D (y # ys))) = drop offset (?D c) @ concat (map ?D ys)"
        using Cons.prems(9) by (simp add: ch(1))
      have k1: "k \<le> k1" "k1 \<le> limit" "k1 - k \<le> ?cs - offset" "k1 \<noteq> limit \<Longrightarrow> k1 = k + (?cs - offset)" using lt by (auto simp: k1_def)
      have dat: "data = take (k1 - k) (drop offset (?D c))" by (simp add: data_def k1_def min_def)
      have fin: ?thesis if res: "read_loop env n limit c offset k out f = Some (rr, v', k1, out @ data, f4)"
        and p: "rr \<in> {0, FAT_BLOCK_READ_ERROR, FAT_INCONSISTENT_STATE}" "rr = 0 \<longrightarrow> k1 = limit" "rr \<noteq> 0 \<longrightarrow> \<not> reliable env"
          "ready f4 = 0 \<or> reading bytes bs f0 m f4 \<and> ready f4 = ready f" "advanced n xs f f4" for rr v' f4
      proof -
        have "data = take (k1 - k) (drop offset (concat (map ?D (y # ys))))" "k1 - k \<le> length (drop offset (concat (map ?D (y # ys))))"
          unfolding src dat using k1(3) by simp_all
        then show ?thesis unfolding read_result_def using res p k1(1,2) by blast
      qed
      from Cons.prems(1) r2 ch(3) chain_next [OF Cons.prems(5)] g show ?thesis
      proof (cases rule: reading_get)
        case failed
        have nr: "\<not> reliable env" using failed(4) rd2 Cons.prems(12) by simp
        have ad3: "advanced n xs f f3"
          by (rule advanced_trans [OF ad2 advanced_same]) (simp_all add: asideD [OF failed(3)])
        have e: "read_loop env n limit c offset k out f = read_loop env n limit 1 0 k1 (out @ data) f3" using step failed(1) by simp
        show ?thesis
        proof (cases "k1 < limit")
          case True
          have "fs_clusters f3 + 2 < 2 ^ 32"
            using Cons.prems(2) asideD(5) [OF failed(3)] readingD(6) [OF r2] by simp
          then have "read_loop env n limit 1 0 k1 (out @ data) f3 = Some (FAT_INCONSISTENT_STATE, 1, k1, out @ data, f3)"
            by (intro fat_loop_error [OF True read_cluster_outside]) (simp_all add: FAT_INCONSISTENT_STATE_def)
          then show ?thesis using fin e nr failed(2) ad3 by (simp add: FAT_INCONSISTENT_STATE_def)
        next
          case False
          then show ?thesis using fin e nr failed(2) ad3 k1(2) by (simp add: fat_loop_stop)
        qed
      next
        case found
        have ad3: "advanced n xs f f3"
          by (rule advanced_trans [OF ad2 advanced_same]) (simp_all add: asideD [OF found(4)])
        have rd3: "ready f3 = ready f" using found(3) rd2 by simp
        show ?thesis
        proof (cases "k1 < limit")
          case False
          then have "read_loop env n limit c offset k out f = Some (0, v, k1, out @ data, f3)"
            using step by (simp add: fat_loop_stop)
          then show ?thesis using fin found(2) rd3 ad3 False k1(2) by simp
        next
          case True
          then have k1e: "k1 = k + (?cs - offset)" using k1(4) by simp
          have rest: "limit - k1 \<le> length ys * ?cs" using Cons.prems(9,11) by (simp add: k1e)
          then have "ys \<noteq> []" using True by auto
          then have "m c < 0x0FFFFFF8" using ch(4) by (cases ys) auto
          then have e: "read_loop env n limit c offset k out f = read_loop env n limit (m c) 0 k1 (out @ data) f3"
            using step found(1) by simp
          have fo: "fd_offset (fd f3 ! n) + k1 = length (pre @ [y]) * ?cs + 0"
            using Cons.prems(8,9) advancedD(8) [OF ad3] by (simp add: k1e)
          have IH: "read_result env bytes bs f0 m n xs limit (drop 0 (concat (map ?D ys))) f3 k1 (out @ data)
              (read_loop env n limit (m c) 0 k1 (out @ data) f3)"
            by (rule Cons.IH [OF Cons.prems(1-3) found(2) ch(4) _ _ fo])
              (use Cons.prems(3,6,7,12) advancedD(2) [OF ad3] k1(2) rest rd3 in simp_all)
          have "data = drop offset (?D c)" unfolding dat k1e by simp
          then show ?thesis unfolding e src using read_result_append [OF IH len k1(1) rd3 ad3] by simp
        qed
      qed
    qed
  qed
qed

subsection \<open>Reading an open file\<close>

definition start_cluster :: "u8 list \<Rightarrow> nat" where
  "start_cluster rec = push_bit 16 (LE16 rec 20) OR LE16 rec 26"

text \<open>
  Descriptor \<open>n\<close> is open on a regular file whose clusters are \<open>xs\<close>, in a sound state of the driver.
\<close>

definition open_file :: "('d \<Rightarrow> nat \<Rightarrow> u8) \<Rightarrow> nat \<Rightarrow> nat \<Rightarrow> nat list \<Rightarrow> 'd fat_instance \<Rightarrow> bool" where
  "open_file bytes bs n xs f \<longleftrightarrow> table_ok bytes bs f \<and> buffered bytes bs f \<and> n < fd_entries f \<and> n < 65536 \<and> fd_entries f \<le> length (fd f) \<and>
    (let e = fd f ! n; rec = fd_record e in
     fd_opened e \<noteq> 0 \<and> fd_mode e AND MODE_ROOT_DIR = 0 \<and> rec ! 11 AND 0x10 = 0 \<and>
     (fd_eof e \<noteq> 0 \<longrightarrow> LE32 rec 28 \<le> fd_offset e) \<and> valid_cache xs e \<and>
     (LE32 rec 28 = 0 \<or> chain (fs_clusters f + 2) (entry bytes f) (start_cluster rec) xs \<and> LE32 rec 28 \<le> length xs * cluster_size f))"

text \<open>The contents of the file.\<close>

definition file_data :: "('d \<Rightarrow> nat \<Rightarrow> u8) \<Rightarrow> nat \<Rightarrow> nat \<Rightarrow> nat list \<Rightarrow> 'd fat_instance \<Rightarrow> u8 list" where
  "file_data bytes bs n xs f = take (LE32 (fd_record (fd f ! n)) 28) (concat (map (cluster_data bytes bs f) xs))"

definition after_read :: "nat \<Rightarrow> nat \<Rightarrow> nat \<Rightarrow> 'd fat_instance \<Rightarrow> 'd fat_instance" where
  "after_read n file_size k f =
    (let f = upd_fd n (\<lambda>e. e\<lparr>fd_offset := fd_offset e + k\<rparr>) f
     in if fd_offset (fd f ! n) \<ge> file_size then upd_fd n (\<lambda>e. e\<lparr>fd_eof := 1\<rparr>) f else f)"

lemma open_fileD:
  assumes "open_file bytes bs n xs f"
  shows "table_ok bytes bs f" "buffered bytes bs f" "n < fd_entries f" "n < 65536" "n < length (fd f)" "fd_entries f \<le> length (fd f)"
    "fd_opened (fd f ! n) \<noteq> 0" "fd_mode (fd f ! n) AND MODE_ROOT_DIR = 0" "fd_record (fd f ! n) ! 11 AND 0x10 = 0"
    "fd_eof (fd f ! n) \<noteq> 0 \<Longrightarrow> LE32 (fd_record (fd f ! n)) 28 \<le> fd_offset (fd f ! n)" "valid_cache xs (fd f ! n)"
    "LE32 (fd_record (fd f ! n)) 28 \<noteq> 0 \<Longrightarrow> chain (fs_clusters f + 2) (entry bytes f) (start_cluster (fd_record (fd f ! n))) xs"
    "LE32 (fd_record (fd f ! n)) 28 \<le> length xs * cluster_size f"
  using assms unfolding open_file_def Let_def by auto

lemma check_open: "open_file bytes bs n xs f \<Longrightarrow> check_fd env f (int n) True = (False, f)"
  using open_fileD(3,4,7) [of bytes bs n xs f] by (simp add: check_fd_def)

lemma fat_read_zero:
  assumes "ready f = FAT_READY" "open_file bytes bs n xs f"
  shows "fat_read env f (int n) 0 = Some (0, 0, [], f)"
  using assms(1) check_open [OF assms(2)] by (simp add: fat_read_def)

lemma fat_read_end:
  assumes "ready f = FAT_READY" "open_file bytes bs n xs f" "requested \<noteq> 0" "LE32 (fd_record (fd f ! n)) 28 \<le> fd_offset (fd f ! n)"
  shows "fat_read env f (int n) requested = Some (0, 0, replicate requested 0, upd_fd n (\<lambda>e. e\<lparr>fd_eof := 1\<rparr>) f)"
  unfolding fat_read_def check_open [OF assms(2)] prod.case Let_def get_record_def
  using assms(1,3,4) open_fileD(8,9) [OF assms(2)] by simp

lemma fat_read_inside:
  assumes "ready f = FAT_READY" "open_file bytes bs n xs f" "requested \<noteq> 0" "e = fd f ! n" "fsize = LE32 (fd_record e) 28" "fd_offset e < fsize"
    "cs = cluster_size f" "q = fd_offset e div cs"
    "cached \<longleftrightarrow> fd_cluster_idx e \<noteq> 0 \<and> fd_cluster_idx e \<le> q"
  shows "fat_read env f (int n) requested =
    (case seek_loop env False q (if fsize mod cs \<noteq> 0 then fsize div cs + 1 else fsize div cs) (if cached then fd_cluster_idx e else 0)
        (if cached then fd_cluster_val e else start_cluster (fd_record e)) f of
       (r, cluster, f) \<Rightarrow>
     if r \<noteq> 0 then Some (r, 0, [], f)
     else
       case read_loop env n (min requested (fsize - fd_offset e)) cluster (fd_offset e mod cs) 0 [] f of
         None \<Rightarrow> None
       | Some (r, cluster, k, out, f) \<Rightarrow> Some (r, k, out @ replicate (requested - k) 0, after_read n fsize k f))"
proof -
  have ne: "\<not> (fd_eof e \<noteq> 0 \<or> fsize \<le> fd_offset e)" using open_fileD(10) [OF assms(2)] assms(4-6) by auto
  have lim: "(if fsize - fd_offset e > requested then requested else fsize - fd_offset e) = min requested (fsize - fd_offset e)" by simp
  have cached: "(if cached then x else y) = (if fd_cluster_idx e \<noteq> 0 \<and> fd_cluster_idx e \<le> q then x else y)" for x y :: nat
    using assms(9) by simp
  have o: "(fd_mode e AND MODE_ROOT_DIR \<noteq> 0) = False" "(fd_record e ! 11 AND 0x10 \<noteq> 0) = False" "(requested = 0) = False"
    "(ready f \<noteq> FAT_READY) = False" "(fd_eof e \<noteq> 0 \<or> fsize \<le> fd_offset e) = False"
    using open_fileD(8,9) [OF assms(2)] assms(1,3,4) ne by simp_all
  show ?thesis
    unfolding fat_read_def check_open [OF assms(2)] prod.case Let_def get_record_def nat_int
    unfolding assms(4) [symmetric] assms(5) [symmetric]
      start_cluster_def [symmetric] after_read_def assms(7) [symmetric] assms(8) [symmetric]
      o if_False simp_thms
    unfolding lim cached Let_def ..
qed

lemma after_read_keep:
  "reading bytes bs f0 m (after_read n fsize k f) = reading bytes bs f0 m f" "ready (after_read n fsize k f) = ready f"
  "fd_entries (after_read n fsize k f) = fd_entries f" "length (fd (after_read n fsize k f)) = length (fd f)"
  "j \<noteq> n \<Longrightarrow> fd (after_read n fsize k f) ! j = fd f ! j"
  "n < length (fd f) \<Longrightarrow> fd (after_read n fsize k f) ! n =
    (fd f ! n)\<lparr>fd_offset := fd_offset (fd f ! n) + k, fd_eof := (if fsize \<le> fd_offset (fd f ! n) + k then 1 else fd_eof (fd f ! n))\<rparr>"
proof -
  show "reading bytes bs f0 m (after_read n fsize k f) = reading bytes bs f0 m f"
    by (simp add: after_read_def Let_def reading_upd_fd)
qed (auto simp: after_read_def Let_def upd_fd_def)

lemma concat_drop_block: "\<forall>x \<in> set xs. length (D x) = c \<Longrightarrow> concat (map D (drop q xs)) = drop (q * c) (concat (map D xs))"
proof (induction xs arbitrary: q)
  case (Cons x xs)
  then show ?case by (cases q) auto
qed simp

lemma file_length:
  assumes "open_file bytes bs n xs f"
  shows "length (file_data bytes bs n xs f) = LE32 (fd_record (fd f ! n)) 28"
proof -
  have "length (concat (map (cluster_data bytes bs f) ys)) = length ys * cluster_size f" for ys
    by (induction ys) simp_all
  then show ?thesis using open_fileD(13) [OF assms] by (simp add: file_data_def)
qed

lemma geometry_bound:
  assumes "fat_geometry f"
  shows "fs_clusters f + 2 < 2 ^ 32" "0 < cluster_size f"
proof -
  have "type_12 f \<longleftrightarrow> fs_clusters f < 4085" "type_16 f \<longleftrightarrow> 4085 \<le> fs_clusters f \<and> fs_clusters f < 65525"
    "type_32 f \<longrightarrow> fs_clusters f + 2 \<le> 0x0FFFFFF8" "cluster_size f = fs_bytes_per_sector f * fs_cluster_sectors f" "1 \<le> fs_cluster_sectors f"
    using assms unfolding fat_geometry_def by blast+
  then show "fs_clusters f + 2 < 2 ^ 32" "0 < cluster_size f" using geometryD(4,5) [OF assms] by auto
qed

text \<open>The file is open in a later state of the read, too.\<close>

lemma open_file_step:
  assumes "open_file bytes bs n xs f" "reading bytes bs f (entry bytes f) g" "fd_entries g = fd_entries f" "length (fd g) = length (fd f)"
    "fd_opened (fd g ! n) = fd_opened (fd f ! n)" "fd_mode (fd g ! n) = fd_mode (fd f ! n)" "fd_record (fd g ! n) = fd_record (fd f ! n)"
    "fd_eof (fd g ! n) \<noteq> 0 \<Longrightarrow> LE32 (fd_record (fd f ! n)) 28 \<le> fd_offset (fd g ! n)" "valid_cache xs (fd g ! n)"
  shows "open_file bytes bs n xs g" "file_data bytes bs n xs g = file_data bytes bs n xs f"
proof -
  note o = open_fileD [OF assms(1)] and r = readingD [OF assms(2)]
  have "chain (fs_clusters g + 2) (entry bytes g) s xs = chain (fs_clusters f + 2) (entry bytes f) s xs" for s
    using tracks_chain [OF r(1)] r(6) by simp
  then show "open_file bytes bs n xs g"
    unfolding open_file_def Let_def using r(2,4,7) o assms(3-9) by auto
  show "file_data bytes bs n xs g = file_data bytes bs n xs f"
    unfolding file_data_def assms(7) ext [OF reading_data [OF assms(2)]] ..
qed

lemma after_read_advanced:
  assumes "advanced n xs f g" "n < length (fd f)"
  shows "fd_offset (fd (after_read n fsize k g) ! n) = fd_offset (fd f ! n) + k"
    "j \<noteq> n \<Longrightarrow> fd (after_read n fsize k g) ! j = fd f ! j"
  using advancedD [OF assms(1)] assms(2) by (simp_all add: after_read_keep)

lemma seek_start:
  assumes "open_file bytes bs n xs f" "e = fd f ! n" "LE32 (fd_record e) 28 \<noteq> 0" "q < length xs"
    "cached \<longleftrightarrow> fd_cluster_idx e \<noteq> 0 \<and> fd_cluster_idx e \<le> q" "i = (if cached then fd_cluster_idx e else 0)"
    "c = (if cached then fd_cluster_val e else start_cluster (fd_record e))"
  shows "chain (fs_clusters f + 2) (entry bytes f) c (drop i xs)" "i \<le> q" "chain (fs_clusters f + 2) (entry bytes f) (xs ! q) (drop q xs)"
proof -
  let ?ch = "chain (fs_clusters f + 2) (entry bytes f)"
  have ch: "?ch (start_cluster (fd_record e)) xs" using open_fileD(12) [OF assms(1)] assms(2,3) by simp
  have at: "?ch (xs ! p) (drop p xs)" if "p < length xs" for p
    using chain_suffix [of "fs_clusters f + 2" "entry bytes f" "start_cluster (fd_record e)" "take p xs" "xs ! p" "drop (Suc p) xs"] ch
    by (simp add: id_take_nth_drop [OF that, symmetric] Cons_nth_drop_Suc [OF that])
  show "i \<le> q" using assms(5,6) by simp
  show "?ch (xs ! q) (drop q xs)" by (rule at [OF assms(4)])
  show "?ch c (drop i xs)"
  proof (cases cached)
    case False
    then show ?thesis using ch assms(6,7) by simp
  next
    case True
    then have "fd_cluster_idx e < length xs" "xs ! fd_cluster_idx e = fd_cluster_val e"
      using open_fileD(11) [OF assms(1)] assms(2,5) by (auto simp: valid_cache_def)
    then show ?thesis using at [of "fd_cluster_idx e"] True assms(6,7) by simp
  qed
qed

lemma open_reading: "open_file bytes bs n xs f \<Longrightarrow> reading bytes bs f (entry bytes f) f"
  using open_fileD(1,2) [of bytes bs n xs f] by (simp add: reading_def tracksI)

text \<open>What a read promises: the result, the bytes and the state afterwards.\<close>

definition read_promise :: "'d fat_env \<Rightarrow> ('d \<Rightarrow> nat \<Rightarrow> u8) \<Rightarrow> nat \<Rightarrow> nat \<Rightarrow> nat list \<Rightarrow> nat \<Rightarrow> 'd fat_instance \<Rightarrow>
    int \<Rightarrow> nat \<Rightarrow> u8 list \<Rightarrow> 'd fat_instance \<Rightarrow> bool" where
  "read_promise env bytes bs n xs requested f r k out f' \<longleftrightarrow>
    (let rest = drop (fd_offset (fd f ! n)) (file_data bytes bs n xs f) in
     k \<le> min requested (length rest) \<and> take k out = take k rest \<and>
     (r = 0 \<longrightarrow> k = min requested (length rest) \<and> out = take k rest @ replicate (requested - k) 0) \<and>
     (r \<noteq> 0 \<longrightarrow> r \<in> {FAT_BLOCK_READ_ERROR, FAT_INCONSISTENT_STATE} \<and> \<not> reliable env) \<and>
     fd_offset (fd f' ! n) = fd_offset (fd f ! n) + k \<and> (\<forall>j. j \<noteq> n \<longrightarrow> fd f' ! j = fd f ! j) \<and>
     (ready f' = 0 \<or> ready f' = FAT_READY \<and> open_file bytes bs n xs f' \<and> file_data bytes bs n xs f' = file_data bytes bs n xs f))"

lemma fat_read_loops:
  assumes "block_device env bytes bs" "ready f = FAT_READY" "open_file bytes bs n xs f" "requested \<noteq> 0" "e = fd f ! n"
    "fsize = LE32 (fd_record e) 28" "fd_offset e < fsize"
  shows "\<exists>r k out f'. fat_read env f (int n) requested = Some (r, k, out, f') \<and> read_promise env bytes bs n xs requested f r k out f'"
proof -
  note o = open_fileD [OF assms(3)]
  define cs where "cs = cluster_size f"
  define q where "q = fd_offset e div cs"
  define cached where "cached \<longleftrightarrow> fd_cluster_idx e \<noteq> 0 \<and> fd_cluster_idx e \<le> q"
  define i where "i = (if cached then fd_cluster_idx e else 0)"
  define c where "c = (if cached then fd_cluster_val e else start_cluster (fd_record e))"
  define fc where "fc = (if fsize mod cs \<noteq> 0 then fsize div cs + 1 else fsize div cs)"
  define limit where "limit = min requested (fsize - fd_offset e)"
  let ?m = "entry bytes f" and ?D = "cluster_data bytes bs f" and ?rest = "drop (fd_offset e) (file_data bytes bs n xs f)"
  have R: "reading bytes bs f ?m f" by (rule open_reading [OF assms(3)])
  note g = geometry_bound [OF table_okD(1) [OF o(1)], folded cs_def]
  have pos: "LE32 (fd_record e) 28 \<noteq> 0" "fsize \<le> length xs * cs" using assms(5-7) o(13) by (auto simp: cs_def)
  have offs: "q * cs + fd_offset e mod cs = fd_offset e" "fd_offset e mod cs < cs" using g(2) by (simp_all add: q_def)
  have "q * cs < length xs * cs" using offs(1) pos(2) assms(7) by linarith
  then have q: "q < length xs" by simp
  have qfc: "q < fc"
  proof -
    have "q * cs < fsize" using offs(1) assms(7) by linarith
    moreover have "fsize \<le> fc * cs"
    proof (cases "fsize mod cs = 0")
      case True
      then show ?thesis using div_mult_mod_eq [of fsize cs] by (simp add: fc_def)
    next
      case False
      have "fc * cs = fsize div cs * cs + cs" using False by (simp add: fc_def)
      then show ?thesis using div_mult_mod_eq [of fsize cs] mod_less_divisor [OF g(2), of fsize] by linarith
    qed
    ultimately show ?thesis using mult_less_cancel2 [of q cs fc] by linarith
  qed
  note S = seek_start [OF assms(3,5) pos(1) q cached_def i_def c_def]
  have len: "length ?rest = fsize - fd_offset e" using file_length [OF assms(3)] assms(5,6) by simp
  have eq: "fat_read env f (int n) requested =
    (case seek_loop env False q fc i c f of
       (r, cluster, f) \<Rightarrow>
     if r \<noteq> 0 then Some (r, 0, [], f)
     else
       case read_loop env n limit cluster (fd_offset e mod cs) 0 [] f of
         None \<Rightarrow> None
       | Some (r, cluster, k, out, f) \<Rightarrow> Some (r, k, out @ replicate (requested - k) 0, after_read n fsize k f))"
    unfolding fc_def i_def c_def limit_def by (rule fat_read_inside [OF assms(2-7) cs_def q_def cached_def])
  obtain r1 c1 f1 where sl: "seek_loop env False q fc i c f = (r1, c1, f1)" by (cases "seek_loop env False q fc i c f")
  have iq: "q - i < length (drop i xs)" using q S(2) by simp
  from assms(1) R S(1,2) iq qfc sl show ?thesis
  proof (cases rule: seek_loop_main)
    case failed
    have "\<not> reliable env" using failed(4) assms(2) by (simp add: FAT_READY_def)
    then have "read_promise env bytes bs n xs requested f r1 0 [] f1"
      unfolding read_promise_def Let_def using failed asideD(1) [OF failed(3)] by (simp add: FAT_INCONSISTENT_STATE_def)
    moreover have "fat_read env f (int n) requested = Some (r1, 0, [], f1)"
      unfolding eq sl prod.case using failed(1) by (simp add: FAT_INCONSISTENT_STATE_def)
    ultimately show ?thesis by blast
  next
    case found
    have c1: "c1 = xs ! q" using found(2) S(2) q by simp
    have fd1: "fd f1 = fd f" "fd_entries f1 = fd_entries f" using asideD(1,2) [OF found(5)] by simp_all
    have src: "drop (fd_offset e mod cs) (concat (map ?D (drop q xs))) = drop (fd_offset e) (concat (map ?D xs))"
      using concat_drop_block [of xs ?D cs q] offs(1) by (simp add: cs_def add.commute)
    have tk: "limit - 0 \<le> length (drop q xs) * cs - fd_offset e mod cs"
      using pos(2) offs(1) by (simp add: limit_def diff_mult_distrib)
    have L: "read_result env bytes bs f ?m n xs limit (drop (fd_offset e mod cs) (concat (map ?D (drop q xs)))) f1 0 []
        (read_loop env n limit c1 (fd_offset e mod cs) 0 [] f1)"
      by (rule fat_loop_main [OF assms(1) g(1) _ found(3) S(3) [folded c1], of xs "take q xs"])
        (use g(2) o(5) offs q tk assms(2,5) fd1 found(4) in \<open>simp_all add: cs_def [symmetric] FAT_READY_def\<close>)
    obtain r c' k f2 where res: "read_loop env n limit c1 (fd_offset e mod cs) 0 [] f1 =
        Some (r, c', k, take k (drop (fd_offset e) (concat (map ?D xs))), f2)"
      and k: "k \<le> limit" "r \<in> {0, FAT_BLOCK_READ_ERROR, FAT_INCONSISTENT_STATE}" "r = 0 \<longrightarrow> k = limit" "r \<noteq> 0 \<longrightarrow> \<not> reliable env"
        "ready f2 = 0 \<or> reading bytes bs f ?m f2 \<and> ready f2 = ready f1" "advanced n xs f1 f2"
      using L unfolding read_result_def src by auto
    define f3 where "f3 = after_read n fsize k f2"
    have tr: "take k (drop (fd_offset e) (concat (map ?D xs))) = take k ?rest"
    proof -
      have "min k (fsize - fd_offset e) = k" using k(1) by (simp add: limit_def)
      then show ?thesis by (simp add: file_data_def drop_take take_take assms(5,6))
    qed
    have fr: "fat_read env f (int n) requested = Some (r, k, take k ?rest @ replicate (requested - k) 0, f3)"
      unfolding eq sl prod.case found(1) using res by (simp add: f3_def tr)
    have ad: "advanced n xs f f2" using advanced_trans [OF advanced_same [OF fd1] k(6)] .
    note A = advancedD [OF ad]
    have fin: "ready f3 = 0 \<or> ready f3 = FAT_READY \<and> open_file bytes bs n xs f3 \<and> file_data bytes bs n xs f3 = file_data bytes bs n xs f"
    proof (cases "ready f2 = 0")
      case True
      then show ?thesis by (simp add: f3_def after_read_keep)
    next
      case False
      then have r3: "reading bytes bs f ?m f3" "ready f3 = FAT_READY"
        using k(5) found(4) assms(2) by (auto simp: f3_def after_read_keep)
      have e3: "fd f3 ! n = (fd f2 ! n)\<lparr>fd_offset := fd_offset e + k,
          fd_eof := (if fsize \<le> fd_offset e + k then 1 else fd_eof (fd f ! n))\<rparr>"
        using after_read_keep(6) [of n f2 fsize k] A(2,7,8) o(5) assms(5) by (simp add: f3_def)
      have eof: "LE32 (fd_record (fd f ! n)) 28 \<le> fd_offset (fd f3 ! n)" if "fd_eof (fd f3 ! n) \<noteq> 0"
        using that o(10) assms(5,6,7) by (auto simp: e3 split: if_splits)
      have vc: "valid_cache xs (fd f3 ! n)" using A(9) o(11) by (simp add: e3 valid_cache_def)
      show ?thesis using open_file_step [OF assms(3) r3(1) _ _ _ _ _ eof vc] r3(2) A(1,2,4,5,6)
        by (simp add: e3) (simp add: f3_def after_read_keep)
    qed
    have lim: "limit = min requested (length ?rest)" using len by (simp add: limit_def)
    have lk: "length (take k ?rest) = k" using k(1) len by (simp add: limit_def)
    have off: "fd_offset (fd f3 ! n) = fd_offset e + k" "\<forall>j. j \<noteq> n \<longrightarrow> fd f3 ! j = fd f ! j"
      using after_read_advanced [OF ad o(5)] assms(5) by (simp_all add: f3_def)
    have "read_promise env bytes bs n xs requested f r k (take k ?rest @ replicate (requested - k) 0) f3"
      unfolding read_promise_def Let_def assms(5) [symmetric]
    proof (intro conjI)
      show "k \<le> min requested (length ?rest)" using k(1) lim by simp
      show "take k (take k ?rest @ replicate (requested - k) 0) = take k ?rest" using lk by (simp add: take_append)
      show "r = 0 \<longrightarrow> k = min requested (length ?rest) \<and> take k ?rest @ replicate (requested - k) 0 = take k ?rest @ replicate (requested - k) 0"
        using k(3) lim by blast
      show "r \<noteq> 0 \<longrightarrow> r \<in> {FAT_BLOCK_READ_ERROR, FAT_INCONSISTENT_STATE} \<and> \<not> reliable env" using k(2,4) by blast
    qed (rule off fin)+
    with fr show ?thesis by blast
  qed
qed

text \<open>
  C11. Reading a file. For an open regular file and any offset and size, \<^verbatim>\<open>fat_read\<close> returns. When
  the result is 0 it has delivered exactly the next bytes of the file, the contents of the clusters of its
  chain up to the size in its record, as many as asked for or as are left, followed by zeros, and has moved the
  offset by their number; this holds across cluster boundaries, whatever cluster is buffered or remembered in
  the descriptor, and while a FAT32 window is written back and reloaded. Otherwise the bytes it counts are
  still right, and the device has reported an error. No other descriptor changes, and, unless the instance
  has gone out of service, the file can be read on: it is still open, with the same contents.
\<close>

theorem fat_read_correct:
  assumes "block_device env bytes bs" "ready f = FAT_READY" "open_file bytes bs n xs f"
  shows "\<exists>r k out f'. fat_read env f (int n) requested = Some (r, k, out, f') \<and>
    (let rest = drop (fd_offset (fd f ! n)) (file_data bytes bs n xs f) in
     k \<le> min requested (length rest) \<and> take k out = take k rest \<and>
     (r = 0 \<longrightarrow> k = min requested (length rest) \<and> out = take k rest @ replicate (requested - k) 0) \<and>
     (r \<noteq> 0 \<longrightarrow> r \<in> {FAT_BLOCK_READ_ERROR, FAT_INCONSISTENT_STATE} \<and> \<not> reliable env) \<and>
     fd_offset (fd f' ! n) = fd_offset (fd f ! n) + k \<and> (\<forall>j. j \<noteq> n \<longrightarrow> fd f' ! j = fd f ! j) \<and>
     (ready f' = 0 \<or> ready f' = FAT_READY \<and> open_file bytes bs n xs f' \<and> file_data bytes bs n xs f' = file_data bytes bs n xs f))"
  unfolding read_promise_def [symmetric]
proof (cases "requested = 0")
  case True
  then show "\<exists>r k out f'. fat_read env f (int n) requested = Some (r, k, out, f') \<and> read_promise env bytes bs n xs requested f r k out f'"
    using fat_read_zero [OF assms(2,3)] assms(2,3) by (simp add: read_promise_def)
next
  case False
  let ?e = "fd f ! n"
  show "\<exists>r k out f'. fat_read env f (int n) requested = Some (r, k, out, f') \<and> read_promise env bytes bs n xs requested f r k out f'"
  proof (cases "fd_offset ?e < LE32 (fd_record ?e) 28")
    case True
    show ?thesis by (rule fat_read_loops [OF assms False refl refl True])
  next
    case out: False
    let ?g = "upd_fd n (\<lambda>e. e\<lparr>fd_eof := 1\<rparr>) f"
    note o = open_fileD [OF assms(3)]
    have R: "reading bytes bs f (entry bytes f) ?g" unfolding reading_upd_fd by (rule open_reading [OF assms(3)])
    have g: "fd ?g ! n = ?e\<lparr>fd_eof := 1\<rparr>" "length (fd ?g) = length (fd f)" "fd_entries ?g = fd_entries f" "ready ?g = ready f"
      "\<forall>j. j \<noteq> n \<longrightarrow> fd ?g ! j = fd f ! j" using o(5) by (simp_all add: upd_fd_def)
    have vc: "valid_cache xs (fd ?g ! n)" using o(11) by (simp add: g valid_cache_def)
    have "open_file bytes bs n xs ?g" "file_data bytes bs n xs ?g = file_data bytes bs n xs f"
      using open_file_step [OF assms(3) R g(3,2) _ _ _ _ vc] out by (simp_all add: g)
    then have "read_promise env bytes bs n xs requested f 0 0 (replicate requested 0) ?g"
      using out file_length [OF assms(3)] assms(2) g by (simp add: read_promise_def Let_def)
    then show ?thesis using fat_read_end [OF assms(2,3) False] out by fastforce
  qed
qed

definition counting_file :: "(nat \<Rightarrow> u8) fat_instance" where
  "counting_file = fat12_file\<lparr>dev := (\<lambda>a. word_of_nat (a div 512 + a)), fd_entries := 8, cluster_buffer_lba := 0,
    fd := replicate 9 (empty_fd\<lparr>fd_opened := 1, fd_record := W_LE32 (W_LE16 (replicate 32 0) 26 5) 28 600, fd_offset := 510\<rparr>)\<rparr>"

lemma layout_set_12: "type_12 f \<Longrightarrow> layout (snd (set_table_value env f off v)) = layout f"
  by (auto simp: set_table_value_def Let_def layout_def)

lemma fat12_file_layout: "layout fat12_file = layout fat12_sample"
proof -
  let ?f = "snd (set_table_value ram_env fat12_sample 5 6)"
  have t: "type_12 fat12_sample" by (simp add: fat12_sample_def)
  have l: "layout ?f = layout fat12_sample" by (rule layout_set_12 [OF t])
  have "type_12 ?f" using t layout_simps(14) [OF l] by simp
  then show ?thesis using l layout_set_12 [of ?f ram_env 6 "0x0FFFFFFF"] by (simp add: fat12_file_def)
qed

lemmas fat12_file_fields = layout_simps [OF fat12_file_layout]

lemma counting_file_open: "open_file (\<lambda>d. d) 512 3 [5, 6] counting_file" "ready counting_file = FAT_READY"
proof -
  have T: "tbyte (\<lambda>d. d) counting_file i = tbyte (\<lambda>d. d) fat12_file i" if "i < fs_table_size fat12_file" for i
    using table_okD(5) [OF fat12_file_ok(1,3)] that by (simp add: tbyte_def counting_file_def)
  have "fat_geometry counting_file = fat_geometry fat12_file" "window_shape 512 counting_file = window_shape 512 fat12_file"
    "dirty_inside counting_file = dirty_inside fat12_file"
    by (simp_all add: counting_file_def fat_geometry_def window_shape_def dirty_inside_def)
  then have ok: "table_ok (\<lambda>d. d) 512 counting_file"
    using fat12_file_ok(1,3) by (simp add: counting_file_def table_ok_def)
  have en: "entry (\<lambda>d. d) counting_file q = entry (\<lambda>d. d) fat12_file q" if "q < 1002" for q
    by (rule entry_cong [OF table_okD(1) [OF fat12_file_ok(1)]]) (use that T fat12_file_ok(2) in \<open>simp_all add: counting_file_def\<close>)
  have "chain 1002 (entry (\<lambda>d. d) counting_file) 5 [5, 6]"
    using en [of 5] en [of 6] fat12_file_ok(5) [of 5] fat12_file_ok(5) [of 6] by simp
  then have ch: "chain (fs_clusters counting_file + 2) (entry (\<lambda>d. d) counting_file) 5 [5, 6]"
    using fat12_file_ok(2) by (simp add: counting_file_def del: chain.simps)
  let ?r = "W_LE32 (W_LE16 (replicate 32 0) 26 5) 28 600"
  have r: "LE32 ?r 28 = 600" "start_cluster ?r = 5" "?r ! 11 AND 0x10 = 0"
    by (simp_all add: W_LE32_def W_LE16_def LE32_def LE16_def start_cluster_def)
  have e: "fd counting_file ! 3 = empty_fd\<lparr>fd_opened := 1, fd_record := ?r, fd_offset := 510\<rparr>" "fd_entries counting_file = 8"
    "length (fd counting_file) = 9" "cluster_buffer_lba counting_file = 0" by (simp_all add: counting_file_def)
  have cs: "cluster_size counting_file = 512" by (simp add: counting_file_def fat12_file_fields) (simp add: fat12_sample_def)
  have f: "fd_opened (fd counting_file ! 3) = 1" "fd_mode (fd counting_file ! 3) = 0" "fd_record (fd counting_file ! 3) = ?r"
    "fd_eof (fd counting_file ! 3) = 0" "fd_cluster_idx (fd counting_file ! 3) = 0" by (simp_all add: e(1) empty_fd_def)
  show "open_file (\<lambda>d. d) 512 3 [5, 6] counting_file"
    using ch ok by (simp add: open_file_def Let_def f r e(2-4) cs buffered_def valid_cache_def del: chain.simps)
  show "ready counting_file = FAT_READY" using fat12_file_ok(4) by (simp add: counting_file_def)
qed

theorem fat_read_correct_witness:
  "\<exists>f'. fat_read ram_env counting_file 3 4 = Some (0, 4, [0x06, 0x07, 0x09, 0x0A], f') \<and> fd_offset (fd f' ! 3) = 514"
proof -
  let ?b = "\<lambda>d :: nat \<Rightarrow> u8. d"
  have rel: "reliable ram_env" by (simp add: reliable_def ram_env_def)
  have lba: "cluster_lba counting_file 5 = 8" "cluster_lba counting_file 6 = 9" "cluster_size counting_file = 512"
    by (simp_all add: cluster_lba_def counting_file_def fat12_file_fields) (simp_all add: fat12_sample_def)
  have d: "dev counting_file = (\<lambda>a. word_of_nat (a div 512 + a))" by (simp add: counting_file_def)
  have e: "fd_offset (fd counting_file ! 3) = 510" "LE32 (fd_record (fd counting_file ! 3)) 28 = 600"
    by (simp_all add: counting_file_def W_LE32_def W_LE16_def LE32_def)
  have "take 4 (drop 510 (file_data ?b 512 3 [5, 6] counting_file)) = [0x06, 0x07, 0x09, 0x0A]"
    unfolding file_data_def e cluster_data_def device_span_def lba d
    by (simp add: drop_take take_take drop_map take_map lba del: upt_rec_numeral) simp
  then show ?thesis
    using fat_read_correct [OF ram_device counting_file_open(2,1), of 4] rel e file_length [OF counting_file_open(1)] by (auto simp: Let_def)
qed

end
