(* ===== verification/Crc.thy ===== *)
theory Crc
  imports Prelude
begin

text \<open>
  Cyclic redundancy checks, \<^verbatim>\<open>src/common/crc32.c\<close> and \<^verbatim>\<open>src/common/crc32c.c\<close>. The two
  functions differ only in their constant. The variable \<^verbatim>\<open>crc\<close> is an \<^verbatim>\<open>unsigned long\<close>; it is
  only shifted to the right and combined with 32-bit constants and bytes, so it is a 32-bit word here, and the
  final mask is that width.
\<close>

definition crc_bit :: "u32 \<Rightarrow> u32 \<Rightarrow> u32" where
  "crc_bit poly crc = (if crc AND 1 \<noteq> 0 then drop_bit 1 crc XOR poly else drop_bit 1 crc)"

fun crc_bits :: "u32 \<Rightarrow> nat \<Rightarrow> u32 \<Rightarrow> u32" where
  "crc_bits poly 0 crc = crc"
| "crc_bits poly (Suc n) crc = crc_bits poly n (crc_bit poly crc)"

fun crc_loop :: "u32 \<Rightarrow> u32 \<Rightarrow> u8 list \<Rightarrow> u32" where
  "crc_loop poly crc [] = crc"
| "crc_loop poly crc (b # bs) = crc_loop poly (crc_bits poly 8 (crc XOR ucast b)) bs"

definition crc32 :: "u8 list \<Rightarrow> u32" where
  "crc32 obj = NOT (crc_loop 0xEDB88320 0xFFFFFFFF obj)"

definition crc32c :: "u8 list \<Rightarrow> u32" where
  "crc32c obj = NOT (crc_loop 0x82F63B78 0xFFFFFFFF obj)"

subsection \<open>Linearity\<close>

lemma xor_solve: "(x XOR b = y XOR b) = (x = y)" "(x XOR y = 0) = (x = y)" "(x XOR b = y) = (x = b XOR y)" for x y b :: "'a::len word"
  by (auto simp: bit_eq_iff bit_simps)

lemma low_bit: "crc AND 1 \<noteq> 0 \<longleftrightarrow> bit crc 0" for crc :: u32
  by (simp add: and_one_eq odd_iff_mod_2_eq_one bit_0)

lemma crc_bit_linear: "crc_bit p (x XOR y) = crc_bit p x XOR crc_bit p y"
proof -
  have d: "drop_bit 1 (x XOR y) = drop_bit 1 x XOR drop_bit 1 y" by (rule drop_bit_xor)
  have "p XOR p = 0" by simp
  then show ?thesis unfolding crc_bit_def low_bit d
    by (cases "bit x 0"; cases "bit y 0") (simp_all add: bit_xor_iff xor.assoc xor.left_commute xor.commute)
qed

lemma crc_bits_linear: "crc_bits p n (x XOR y) = crc_bits p n x XOR crc_bits p n y"
  by (induction n arbitrary: x y) (simp_all add: crc_bit_linear)

lemma crc_loop_linear:
  "length xs = length ys \<Longrightarrow> crc_loop p c xs XOR crc_loop p d ys = crc_loop p (c XOR d) (map2 (XOR) xs ys)"
proof (induction xs ys arbitrary: c d rule: list_induct2)
  case (Cons x xs y ys)
  have "ucast (x XOR y) = (ucast x XOR ucast y :: u32)" by (rule bit_word_eqI) (simp add: bit_simps; blast)
  then have "(c XOR d) XOR ucast (x XOR y) = (c XOR ucast x) XOR (d XOR ucast y)"
    by (simp add: xor.assoc xor.left_commute)
  then show ?case using Cons.IH by (simp add: crc_bits_linear)
qed simp

text \<open>The top bit of the result tells which branch was taken, so no information is lost.\<close>

lemma crc_bit_inj:
  assumes "bit p 31" "crc_bit p x = 0"
  shows "x = 0"
proof -
  have t: "\<not> bit (drop_bit 1 x) 31" using bit_imp_le_length [of x 32] by (auto simp: bit_simps)
  then have "bit (crc_bit p x) 31 = bit x 0" using assms(1) by (simp add: crc_bit_def low_bit bit_xor_iff)
  then have z: "\<not> bit x 0" using assms(2) by simp
  then have "drop_bit 1 x = 0" using assms(2) by (simp add: crc_bit_def low_bit)
  then have s: "\<not> bit x (Suc n)" for n using bit_drop_bit_eq [of 1 x] by (metis add.commute bit_0_eq bot_fun_def plus_1_eq_Suc comp_apply bot_bool_def)
  have "\<not> bit x n" for n using z s by (cases n) auto
  then show ?thesis by (intro bit_word_eqI) simp
qed

lemma crc_bits_inj: "bit p 31 \<Longrightarrow> crc_bits p n x = 0 \<Longrightarrow> x = 0"
  by (induction n arbitrary: x) (auto dest: crc_bit_inj)

lemma crc_bits_eqD: "bit p 31 \<Longrightarrow> crc_bits p n x = crc_bits p n y \<Longrightarrow> x = y"
  using crc_bits_inj [of p n "x XOR y"] by (simp add: crc_bits_linear xor_solve)

lemma crc_bits_shift: "(\<forall>k. bit w k \<longrightarrow> k + n < 32) \<Longrightarrow> crc_bits p n (push_bit n w) = w"
proof (induction n)
  case (Suc n)
  have "\<not> bit (push_bit (Suc n) w) 0" unfolding bit_push_bit_iff by simp
  moreover have "drop_bit 1 (push_bit (Suc n) w) = push_bit n w"
  proof (rule bit_word_eqI)
    fix k :: nat assume "k < LENGTH(32)"
    then show "bit (drop_bit 1 (push_bit (Suc n) w)) k = bit (push_bit n w) k"
      using Suc.prems [rule_format, of "k - n"] by (auto simp: bit_drop_bit_eq bit_push_bit_iff simp del: push_bit_Suc)
  qed
  ultimately have "crc_bit p (push_bit (Suc n) w) = push_bit n w" unfolding crc_bit_def low_bit by simp
  moreover have "crc_bits p n (push_bit n w) = w" by (rule Suc.IH) (use Suc.prems in fastforce)
  ultimately show ?case by (simp del: push_bit_Suc)
qed simp

subsection \<open>Up to four bytes\<close>

text \<open>The little-endian number that up to four bytes stand for.\<close>

fun le_word :: "u8 list \<Rightarrow> u32" where
  "le_word [] = 0"
| "le_word (b # bs) = ucast b XOR push_bit 8 (le_word bs)"

lemma bit_le_word: "bit (le_word bs) k \<longleftrightarrow> k < 32 \<and> k < 8 * length bs \<and> bit (bs ! (k div 8)) (k mod 8)"
proof (induction bs arbitrary: k)
  case (Cons b bs)
  show ?case
  proof (cases "k < 8")
    case True
    then show ?thesis by (auto simp: bit_simps)
  next
    case False
    then obtain j where k: "k = 8 + j" by (metis add_diff_inverse_nat)
    have "\<not> bit b (8 + j)" using bit_imp_le_length [of b "8 + j"] by auto
    then show ?thesis using Cons.IH [of j] unfolding k by (auto simp: bit_simps div_add_self1)
  qed
qed simp

lemma crc_loop_zero:
  assumes "bit p 31"
  shows "length bs \<le> 4 \<Longrightarrow> crc_loop p c bs = 0 \<longleftrightarrow> c = le_word bs"
proof (induction bs arbitrary: c)
  case (Cons b bs)
  have w: "\<forall>k. bit (le_word bs) k \<longrightarrow> k + 8 < 32" using Cons.prems by (auto simp: bit_le_word)
  have "crc_loop p c (b # bs) = 0 \<longleftrightarrow> crc_bits p 8 (c XOR ucast b) = le_word bs" using Cons by simp
  also have "\<dots> \<longleftrightarrow> c XOR ucast b = push_bit 8 (le_word bs)"
    using crc_bits_shift [OF w, of p] crc_bits_eqD [OF assms] by metis
  also have "\<dots> \<longleftrightarrow> c = le_word (b # bs)" by (simp only: le_word.simps xor_solve)
  finally show ?case .
qed simp

lemma le_word_inj: "length as = length bs \<Longrightarrow> length bs \<le> 4 \<Longrightarrow> le_word as = le_word bs \<Longrightarrow> as = bs"
proof (rule nth_equalityI)
  fix i assume a: "length as = length bs" "length bs \<le> 4" "le_word as = le_word bs" "i < length as"
  show "as ! i = bs ! i"
  proof (rule bit_word_eqI)
    fix k :: nat assume "k < LENGTH(8)"
    then have "(8 * i + k) div 8 = i" "(8 * i + k) mod 8 = k" "8 * i + k < 32" "8 * i + k < 8 * length bs" using a by auto
    then show "bit (as ! i) k = bit (bs ! i) k"
      using a(1,3) bit_le_word [of as "8 * i + k"] bit_le_word [of bs "8 * i + k"] by simp
  qed
qed

lemma crc_loop_append: "crc_loop p c (xs @ ys) = crc_loop p (crc_loop p c xs) ys"
  by (induction xs arbitrary: c) simp_all

text \<open>The state after equal bytes determines the state before them.\<close>

lemma crc_loop_stateD: "bit p 31 \<Longrightarrow> crc_loop p c bs = crc_loop p d bs \<Longrightarrow> c = d"
proof (induction bs arbitrary: c d)
  case (Cons b bs)
  then have "crc_bits p 8 (c XOR ucast b) = crc_bits p 8 (d XOR ucast b)" by simp
  then have "c XOR ucast b = d XOR ucast b" by (rule crc_bits_eqD [OF Cons.prems(1)])
  then show ?case by (simp only: xor_solve(1))
qed simp

lemma crc_loop_short:
  assumes "bit p 31" "length as = length bs" "length bs \<le> 4" "crc_loop p c as = crc_loop p c bs"
  shows "as = bs"
proof -
  have l: "length (map2 (XOR) as bs) \<le> 4" using assms(2,3) by simp
  have "crc_loop p 0 (map2 (XOR) as bs) = 0" using crc_loop_linear [OF assms(2), of p c c] assms(4) by simp
  then have "0 = le_word (map2 (XOR) as bs)" using crc_loop_zero [OF assms(1) l] by blast
  moreover have "le_word (replicate k 0) = 0" for k by (induction k) simp_all
  ultimately have z: "map2 (XOR) as bs = replicate (length bs) 0"
    using assms(2,3) by (intro le_word_inj) simp_all
  have "as ! i = bs ! i" if "i < length bs" for i
  proof -
    have "as ! i XOR bs ! i = 0" using arg_cong [OF z, of "\<lambda>xs. xs ! i"] that assms(2) by simp
    then show ?thesis by (simp only: xor_solve(2))
  qed
  then show ?thesis using assms(2) by (simp add: nth_equalityI)
qed

subsection \<open>Error detection\<close>

text \<open>
  C32. Both checks detect every error burst of up to four bytes: messages of the same length that differ, and
  only within four consecutive bytes, have different CRCs.
\<close>

theorem crc32_detects_bursts:
  assumes "length as = length bs" "length bs \<le> 4" "as \<noteq> bs"
  shows "crc32 (pre @ as @ post) \<noteq> crc32 (pre @ bs @ post) \<and> crc32c (pre @ as @ post) \<noteq> crc32c (pre @ bs @ post)"
proof -
  have p: "bit (0xEDB88320 :: u32) 31" "bit (0x82F63B78 :: u32) 31" by (simp_all add: bit_numeral_rec)
  have "crc_loop p c (pre @ as @ post) \<noteq> crc_loop p c (pre @ bs @ post)" if "bit p 31" for p c
    using crc_loop_stateD [OF that] crc_loop_short [OF that assms(1,2)] assms(3) unfolding crc_loop_append by blast
  with p show ?thesis by (simp add: crc32_def crc32c_def)
qed

theorem crc32_detects_bursts_witness:
  "crc32 ([1, 2] @ [3, 4, 5] @ [6]) \<noteq> crc32 ([1, 2] @ [3, 0, 0xFF] @ [6]) \<and>
   crc32c ([1, 2] @ [3, 4, 5] @ [6]) \<noteq> crc32c ([1, 2] @ [3, 0, 0xFF] @ [6])"
  by (rule crc32_detects_bursts) simp_all

text \<open>The bytes of a word in the order of memory.\<close>

definition le_bytes :: "u32 \<Rightarrow> u8 list" where
  "le_bytes w = [ucast w, ucast (drop_bit 8 w), ucast (drop_bit 16 w), ucast (drop_bit 24 w)]"

lemma le_word_bytes: "le_word (le_bytes w) = w"
proof (rule bit_word_eqI)
  fix k :: nat assume k: "k < LENGTH(32)"
  have n: "le_bytes w ! j = ucast (drop_bit (8 * j) w)" if "j < 4" for j
    using that unfolding le_bytes_def by (auto simp: less_Suc_eq numeral_eq_Suc)
  have "k div 8 < 4" "8 * (k div 8) + k mod 8 = k" "k mod 8 < 8" using k by auto
  then show "bit (le_word (le_bytes w)) k = bit w k"
    using k by (simp add: bit_le_word n) (simp add: bit_simps le_bytes_def)
qed

text \<open>
  The check of a receiver. For every message, the CRC of the message followed by its own CRC in
  little-endian order is the constant of the polynomial: a file that carries its CRC at the end can be checked
  without knowing where it ends.
\<close>

theorem crc32_residue:
  "crc32 (data @ le_bytes (crc32 data)) = 0x2144DF1C \<and> crc32c (data @ le_bytes (crc32c data)) = 0x48674BC7"
proof -
  have z: "crc_loop p w (le_bytes w) = 0" if "bit p 31" for p w
    using crc_loop_zero [OF that, of "le_bytes w" w] le_word_bytes [of w] by (simp add: le_bytes_def)
  have n: "le_bytes (NOT w) = map2 (XOR) (le_bytes w) [0xFF, 0xFF, 0xFF, 0xFF]" for w
  proof -
    have "(0xFF :: u8) = - 1" by simp
    then show ?thesis unfolding le_bytes_def by (simp add: bit_eq_iff bit_simps)
  qed
  have k: "crc_loop p w (le_bytes (NOT w)) = crc_loop p 0 [0xFF, 0xFF, 0xFF, 0xFF]" if "bit p 31" for p w
    using crc_loop_linear [of "le_bytes w" "[0xFF, 0xFF, 0xFF, 0xFF]" p w 0] z [OF that, of w] n [of w] by (simp add: le_bytes_def)
  have p: "bit (0xEDB88320 :: u32) 31" "bit (0x82F63B78 :: u32) 31" by (simp_all add: bit_numeral_rec)
  have e: "NOT (crc_loop 0xEDB88320 0 [0xFF, 0xFF, 0xFF, 0xFF]) = 0x2144DF1C" "NOT (crc_loop 0x82F63B78 0 [0xFF, 0xFF, 0xFF, 0xFF]) = 0x48674BC7"
    by code_simp+
  show ?thesis unfolding crc32_def crc32c_def crc_loop_append k [OF p(1)] k [OF p(2)] using e by simp
qed

lemma crc32_example: "crc32 [0x31, 0x32, 0x33, 0x34, 0x35, 0x36, 0x37, 0x38, 0x39] = 0xCBF43926" "crc32c [0x31, 0x32, 0x33, 0x34, 0x35, 0x36, 0x37, 0x38, 0x39] = 0xE3069283"
  by code_simp+

end
