(* ===== verification/Strtol.thy ===== *)
theory Strtol
  imports Prelude
begin

text \<open>
  The conversion of strings to integers in the C library, \<^verbatim>\<open>src/arctic/libc/stdlib\<close>:
  \<^verbatim>\<open>_ull.c\<close> reads the digits, and \<^verbatim>\<open>strtol\<close>, \<^verbatim>\<open>strtoll\<close>, \<^verbatim>\<open>strtoul\<close>,
  \<^verbatim>\<open>strtoull\<close>, \<^verbatim>\<open>atoi\<close>, \<^verbatim>\<open>atol\<close> and \<^verbatim>\<open>atoll\<close> bring the number into the range of
  their type. A string is the list of its characters before the null character; a pointer into it is the suffix
  that begins there. A function returns its value, the error it stores in \<^verbatim>\<open>errno\<close>, and what it
  stores through \<^verbatim>\<open>endptr\<close>. The number of bits of \<^verbatim>\<open>long\<close> depends on the machine and is an
  argument.
\<close>

datatype errno = E_none | EINVAL | ERANGE | EOVERFLOW

text \<open>The character a pointer points to.\<close>

definition deref :: "u8 list \<Rightarrow> u8" where
  "deref str = (if str = [] then 0 else hd str)"

definition isspace :: "u8 \<Rightarrow> bool" where
  "isspace c \<longleftrightarrow> c = 32 \<or> c = 12 \<or> c = 10 \<or> c = 13 \<or> c = 9 \<or> c = 11"

text \<open>The value of a character as a digit, for the bases up to 36.\<close>

definition digit_value :: "u8 \<Rightarrow> nat option" where
  "digit_value c =
    (if 48 \<le> c \<and> c \<le> 57 then Some (unat (c - 48))
     else if 65 \<le> c \<and> c \<le> 90 then Some (unat (c - 65) + 10)
     else if 97 \<le> c \<and> c \<le> 122 then Some (unat (c - 97) + 10)
     else None)"

fun ull_loop :: "nat \<Rightarrow> u64 \<Rightarrow> errno \<Rightarrow> u8 list \<Rightarrow> errno \<times> u64 \<times> u8 list" where
  "ull_loop base val err [] = (err, val, [])"
| "ull_loop base val err (c # str) =
    (case digit_value c of
       None \<Rightarrow> (err, val, c # str)
     | Some d \<Rightarrow>
         if d \<ge> base then (err, val, c # str)
         else if err = ERANGE then ull_loop base val err str
         else
           let u = val * word_of_nat base in
           if val \<noteq> u div word_of_nat base then ull_loop base (- 1) ERANGE str
           else if u > - 1 - word_of_nat d then ull_loop base (- 1) ERANGE str
           else ull_loop base (u + word_of_nat d) E_none str)"

definition hex_prefix :: "u8 list \<Rightarrow> bool" where
  "hex_prefix str \<longleftrightarrow> deref str = 48 \<and> (deref (drop 1 str) = 120 \<or> deref (drop 1 str) = 88)"

definition dancy_ull :: "u8 list \<Rightarrow> int \<Rightarrow> errno \<times> u64 \<times> u8 list" where
  "dancy_ull str base =
    (let hex = hex_prefix str;
         base = (if base = 0 then (if hex then 16 else if deref str \<noteq> 48 then 10 else 8) else base);
         digits = (if base = 16 \<and> hex then drop 2 str else str)
     in
     case (if base \<ge> 2 \<and> base \<le> 36 then ull_loop (nat base) 0 EINVAL digits else (EINVAL, 0, digits)) of
       (err, val, rest) \<Rightarrow>
     if err = EINVAL \<and> hex then (E_none, val, if base = 16 then drop 1 str else rest)
     else (err, val, rest))"

fun skip_spaces :: "u8 list \<Rightarrow> u8 list" where
  "skip_spaces [] = []"
| "skip_spaces (c # str) = (if isspace c then skip_spaces str else c # str)"

text \<open>The beginning that the conversions share: spaces, a sign, and the number.\<close>

definition scan_number :: "u8 list \<Rightarrow> int \<Rightarrow> u8 \<times> errno \<times> u64 \<times> u8 list" where
  "scan_number str base =
    (let str = skip_spaces str;
         (sign, str) = (if deref str = 43 \<or> deref str = 45 then (deref str, drop 1 str) else (0, str))
     in (sign, dancy_ull str base))"

text \<open>The end of the conversions to a signed type of \<open>w\<close> bits.\<close>

definition to_signed :: "nat \<Rightarrow> u8 \<Rightarrow> errno \<Rightarrow> u64 \<Rightarrow> int \<times> errno" where
  "to_signed w sign r_errno r =
    (let type_min = - (2 ^ (w - 1)); type_max = 2 ^ (w - 1) - 1 in
     if r_errno = ERANGE then (if sign = 45 then type_min else type_max, r_errno)
     else if sign = 45 then
       let m = type_min in
       if r > word_of_int (- (m + 1)) + 1 then (m, ERANGE)
       else if r = word_of_int (- (m + 1)) + 1 then (m, E_none)
       else (- uint r, E_none)
     else if r > word_of_int type_max then (type_max, ERANGE)
     else (uint r, E_none))"

definition strtol :: "nat \<Rightarrow> u8 list \<Rightarrow> int \<Rightarrow> int \<times> errno \<times> u8 list" where
  "strtol w str base =
    (case scan_number str base of
       (sign, r_errno, r, eos) \<Rightarrow>
     if r_errno = EINVAL then (0, EINVAL, str)
     else case to_signed w sign r_errno r of (v, e) \<Rightarrow> (v, e, eos))"

definition strtoll :: "u8 list \<Rightarrow> int \<Rightarrow> int \<times> errno \<times> u8 list" where
  "strtoll str base =
    (case scan_number str base of
       (sign, r_errno, r, eos) \<Rightarrow>
     if r_errno = EINVAL then (0, EINVAL, str)
     else case to_signed 64 sign r_errno r of (v, e) \<Rightarrow> (v, e, eos))"

definition strtoul :: "nat \<Rightarrow> u8 list \<Rightarrow> int \<Rightarrow> int \<times> errno \<times> u8 list" where
  "strtoul w str base =
    (let m = word_of_int (2 ^ w - 1) in
     case scan_number str base of
       (sign, r_errno, r, eos) \<Rightarrow>
     if r_errno = EINVAL then (0, EINVAL, str)
     else if r_errno = ERANGE \<or> r > m then (uint m, ERANGE, eos)
     else
       let r = (if sign = 45 then (m - r) + 1 else r) in (uint (take_bit w r), E_none, eos))"

definition strtoull :: "u8 list \<Rightarrow> int \<Rightarrow> int \<times> errno \<times> u8 list" where
  "strtoull str base =
    (let m = (- 1 :: u64) in
     case scan_number str base of
       (sign, r_errno, r, eos) \<Rightarrow>
     if r_errno = EINVAL then (0, EINVAL, str)
     else if r_errno = ERANGE then (uint m, ERANGE, eos)
     else
       let r = (if sign = 45 then (m - r) + 1 else r) in (uint r, E_none, eos))"

definition atoi :: "u8 list \<Rightarrow> int \<times> errno" where
  "atoi str =
    (case scan_number str 10 of
       (sign, r_errno, r, eos) \<Rightarrow>
     if r_errno = EINVAL then (0, EINVAL) else to_signed 32 sign r_errno r)"

definition atol :: "nat \<Rightarrow> u8 list \<Rightarrow> int" where
  "atol w str = fst (strtol w str 10)"

definition atoll :: "u8 list \<Rightarrow> int" where
  "atoll str = fst (strtoll str 10)"

subsection \<open>Digits\<close>

text \<open>A digit of a base, and the number that digits stand for.\<close>

definition is_digit :: "nat \<Rightarrow> u8 \<Rightarrow> bool" where
  "is_digit b c \<longleftrightarrow> (case digit_value c of None \<Rightarrow> False | Some d \<Rightarrow> d < b)"

definition number_of :: "nat \<Rightarrow> nat \<Rightarrow> u8 list \<Rightarrow> nat" where
  "number_of b v ds = foldl (\<lambda>v c. v * b + the (digit_value c)) v ds"

lemma number_of_simps [simp]:
  "number_of b v [] = v" "number_of b v (c # ds) = number_of b (v * b + the (digit_value c)) ds"
  by (simp_all add: number_of_def)

lemma number_of_mono: "1 \<le> b \<Longrightarrow> v \<le> number_of b v ds"
proof (induction ds arbitrary: v)
  case (Cons c ds)
  have "v \<le> v * b + the (digit_value c)" using Cons.prems by (simp add: trans_le_add1)
  then show ?case using Cons.IH [OF Cons.prems, of "v * b + the (digit_value c)"] by simp
qed simp

lemma overflow_check:
  fixes v b :: nat
  assumes "v < m" "0 < b"
  shows "v = (v * b mod m) div b \<longleftrightarrow> v * b < m"
proof
  assume e: "v = (v * b mod m) div b"
  then have "v * b \<le> v * b mod m" by (metis div_times_less_eq_dividend)
  then show "v * b < m" using assms(1) mod_less_divisor [of m "v * b"] by linarith
qed (use assms in simp)

lemma ull_loop_range:
  "\<forall>c \<in> set ds. is_digit b c \<Longrightarrow> rest = [] \<or> \<not> is_digit b (hd rest) \<Longrightarrow>
    ull_loop b v ERANGE (ds @ rest) = (ERANGE, v, rest)"
  by (induction ds) (cases rest; auto simp: is_digit_def split: option.splits)+

lemma ull_loop_main:
  assumes "2 \<le> b" "b \<le> 36" "rest = [] \<or> \<not> is_digit b (hd rest)"
  shows "\<forall>c \<in> set ds. is_digit b c \<Longrightarrow> v < 2 ^ 64 \<Longrightarrow> err \<noteq> ERANGE \<Longrightarrow> ull_loop b (word_of_nat v) err (ds @ rest) =
    (if ds = [] then (err, word_of_nat v, rest)
     else if number_of b v ds < 2 ^ 64 then (E_none, word_of_nat (number_of b v ds), rest) else (ERANGE, - 1, rest))"
proof (induction ds arbitrary: v err)
  case Nil
  then show ?case using assms(3) by (cases rest) (auto simp: is_digit_def split: option.splits)
next
  case (Cons c ds)
  obtain d where d: "digit_value c = Some d" "d < b" using Cons.prems(1) by (auto simp: is_digit_def split: option.splits)
  let ?v = "word_of_nat v :: u64" and ?b = "word_of_nat b :: u64" and ?d = "word_of_nat d :: u64"
  have un: "unat ?v = v" "unat ?b = b" "unat ?d = d" using Cons.prems(2) assms(2) d(2) by (simp_all add: unat_of_nat)
  have u: "unat (?v * ?b) = v * b mod 2 ^ 64" by (simp add: unat_word_ariths un)
  have ov: "?v \<noteq> ?v * ?b div ?b \<longleftrightarrow> \<not> v * b < 2 ^ 64"
  proof -
    have "?v = ?v * ?b div ?b \<longleftrightarrow> v = (v * b mod 2 ^ 64) div b" unfolding word_unat_eq_iff unat_div un u ..
    then show ?thesis using overflow_check [OF Cons.prems(2), of b] assms(1) by simp
  qed
  have top: "unat (- 1 - ?d) = 2 ^ 64 - 1 - d"
  proof -
    have "- 1 - ?d = word_of_nat (2 ^ 64 - 1 - d)" using d(2) assms(2) by (simp add: of_nat_diff)
    moreover have "(2 ^ 64 - 1 - d) mod 2 ^ 64 = (2 ^ 64 - 1 - d :: nat)" by (rule mod_less) simp
    ultimately show ?thesis by (simp only: unat_of_nat) simp
  qed
  have step: "ull_loop b ?v err ((c # ds) @ rest) =
    (if \<not> v * b < 2 ^ 64 then ull_loop b (- 1) ERANGE (ds @ rest)
     else if ?v * ?b > - 1 - ?d then ull_loop b (- 1) ERANGE (ds @ rest)
     else ull_loop b (?v * ?b + ?d) E_none (ds @ rest))"
    using d Cons.prems(3) ov by (simp add: Let_def)
  have num: "number_of b v (c # ds) = number_of b (v * b + d) ds" "v * b + d \<le> number_of b (v * b + d) ds"
    using d(1) number_of_mono [of b "v * b + d" ds] assms(1) by simp_all
  have dg: "\<forall>c \<in> set ds. is_digit b c" using Cons.prems(1) by simp
  note range = ull_loop_range [OF dg assms(3)]
  show ?case
  proof (cases "v * b + d < 2 ^ 64")
    case False
    have "?v * ?b > - 1 - ?d" if "v * b < 2 ^ 64"
    proof -
      have "unat (?v * ?b) = v * b" using u that by simp
      then show ?thesis using False d(2) assms(2) by (simp add: word_less_nat_alt top)
    qed
    then have "ull_loop b ?v err ((c # ds) @ rest) = (ERANGE, - 1, rest)" unfolding step range by simp
    moreover have "\<not> number_of b v (c # ds) < 2 ^ 64" using num False by simp
    ultimately show ?thesis by simp
  next
    case True
    then have vb: "v * b < 2 ^ 64" by simp
    have "\<not> ?v * ?b > - 1 - ?d"
    proof -
      have "unat (?v * ?b) = v * b" using u vb by simp
      then show ?thesis using True by (simp add: word_less_nat_alt top)
    qed
    moreover have "?v * ?b + ?d = word_of_nat (v * b + d)" by simp
    ultimately have "ull_loop b ?v err ((c # ds) @ rest) = ull_loop b (word_of_nat (v * b + d)) E_none (ds @ rest)"
      unfolding step using vb by simp
    also have "\<dots> = (if ds = [] then (E_none, word_of_nat (v * b + d), rest)
       else if number_of b (v * b + d) ds < 2 ^ 64 then (E_none, word_of_nat (number_of b (v * b + d) ds), rest) else (ERANGE, - 1, rest))"
      by (rule Cons.IH [OF dg True]) simp
    finally show ?thesis unfolding num(1) using True by (simp del: ull_loop.simps number_of_simps(2))
  qed
qed

subsection \<open>The conversions\<close>

text \<open>
  The shape of a numeral: the base the caller gives, the prefix, the base \<open>b\<close> of the digits \<open>ds\<close>.
\<close>

definition numeral_shape :: "int \<Rightarrow> u8 list \<Rightarrow> nat \<Rightarrow> u8 list \<Rightarrow> u8 list \<Rightarrow> bool" where
  "numeral_shape base pre b ds rest \<longleftrightarrow> 2 \<le> b \<and> b \<le> 36 \<and> ds \<noteq> [] \<and> (\<forall>c \<in> set ds. is_digit b c) \<and> (rest = [] \<or> \<not> is_digit b (hd rest)) \<and>
    (if pre = [] then (base = int b \<or> base = 0 \<and> b = (if hd ds = 48 then 8 else 10)) \<and> (base = 0 \<or> b = 16 \<longrightarrow> \<not> hex_prefix (ds @ rest))
     else (pre = [48, 120] \<or> pre = [48, 88]) \<and> b = 16 \<and> (base = 0 \<or> base = 16))"

lemma dancy_ull_main:
  assumes "numeral_shape base pre b ds rest"
  shows "dancy_ull (pre @ ds @ rest) base =
    (if number_of b 0 ds < 2 ^ 64 then (E_none, word_of_nat (number_of b 0 ds), rest) else (ERANGE, - 1, rest))"
proof -
  let ?str = "pre @ ds @ rest"
  note A = assms[unfolded numeral_shape_def]
  have b: "2 \<le> b" "b \<le> 36" "ds \<noteq> []" "\<forall>c \<in> set ds. is_digit b c" "rest = [] \<or> \<not> is_digit b (hd rest)" using A by blast+
  have hx: "hex_prefix ?str" if "pre \<noteq> []" using A that by (auto simp: hex_prefix_def deref_def)
  have nb: "(if base = 0 then (if hex_prefix ?str then 16 else if deref ?str \<noteq> 48 then 10 else 8) else base) = int b"
    using A hx b(3) by (cases "pre = []") (auto simp: deref_def)
  have dg: "(if int b = 16 \<and> hex_prefix ?str then drop 2 ?str else ?str) = ds @ rest"
    using A hx by (cases "pre = []") auto
  have "ull_loop b 0 EINVAL (ds @ rest) =
      (if number_of b 0 ds < 2 ^ 64 then (E_none, word_of_nat (number_of b 0 ds), rest) else (ERANGE, - 1, rest))"
    using ull_loop_main [OF b(1,2,5,4), of 0 EINVAL] b(3) by simp
  then show ?thesis unfolding dancy_ull_def Let_def nb dg using b(1,2) by simp
qed

lemma skip_spaces_append: "\<forall>c \<in> set ws. isspace c \<Longrightarrow> skip_spaces (ws @ str) = skip_spaces str"
  by (induction ws) simp_all

text \<open>A sign: none, plus or minus.\<close>

definition sign_text :: "u8 \<Rightarrow> u8 list \<Rightarrow> bool" where
  "sign_text sign sg \<longleftrightarrow> sign = 0 \<and> sg = [] \<or> (sign = 43 \<or> sign = 45) \<and> sg = [sign]"

lemma digit_range: "is_digit b c \<Longrightarrow> 48 \<le> c \<and> c \<le> 122"
  by (auto simp: is_digit_def digit_value_def word_le_nat_alt split: if_splits option.splits)

lemma scan_number_main:
  assumes "\<forall>c \<in> set ws. isspace c" "sign_text sign sg" "numeral_shape base pre b ds rest"
  shows "scan_number (ws @ sg @ pre @ ds @ rest) base =
    (if number_of b 0 ds < 2 ^ 64 then (sign, E_none, word_of_nat (number_of b 0 ds), rest) else (sign, ERANGE, - 1, rest))"
proof -
  let ?num = "pre @ ds @ rest"
  obtain c str where c: "?num = c # str" "48 \<le> c"
  proof -
    have A: "ds \<noteq> []" "\<forall>c \<in> set ds. is_digit b c" "pre = [] \<or> pre = [48, 120] \<or> pre = [48, 88]"
      using assms(3) by (auto simp: numeral_shape_def split: if_splits)
    obtain d ds' where d: "ds = d # ds'" using A(1) by (cases ds) auto
    then have "48 \<le> d" using A(2) digit_range by auto
    then show thesis using that A(3) d by auto
  qed
  have nc: "\<not> isspace c" "c \<noteq> 43" "c \<noteq> 45" using c(2) by (auto simp: isspace_def)
  have ns: "\<not> isspace 43" "\<not> isspace 45" by (simp_all add: isspace_def)
  have "skip_spaces (ws @ sg @ ?num) = sg @ ?num"
    using skip_spaces_append [OF assms(1), of "sg @ ?num"] assms(2) nc ns by (auto simp: sign_text_def c(1))
  then have "scan_number (ws @ sg @ ?num) base = (sign, dancy_ull ?num base)"
    using assms(2) nc by (auto simp: scan_number_def sign_text_def c(1) deref_def)
  then show ?thesis using dancy_ull_main [OF assms(3)] by simp
qed

definition signed_value :: "u8 \<Rightarrow> nat \<Rightarrow> int" where
  "signed_value sign n = (if sign = 45 then - int n else int n)"

text \<open>The nearest value of a signed type of \<open>w\<close> bits, and the error when it is not the number itself.\<close>

definition clamped :: "nat \<Rightarrow> int \<Rightarrow> int \<times> errno" where
  "clamped w n =
    (if n < - (2 ^ (w - 1)) then (- (2 ^ (w - 1)), ERANGE)
     else if 2 ^ (w - 1) \<le> n then (2 ^ (w - 1) - 1, ERANGE)
     else (n, E_none))"

lemma uint_u64: "0 \<le> x \<Longrightarrow> x < 2 ^ 64 \<Longrightarrow> uint (word_of_int x :: u64) = x"
  unfolding uint_word_of_int by simp

lemma to_signed_number:
  assumes "1 \<le> w" "w \<le> 64" "n < 2 ^ 64"
  shows "to_signed w sign E_none (word_of_nat n) = clamped w (signed_value sign n)"
proof -
  define h where "h = (2 :: int) ^ (w - 1)"
  have "h \<le> 2 ^ 63" unfolding h_def by (rule power_increasing) (use assms(2) in simp_all)
  then have h: "1 \<le> h" "h < 2 ^ 64" by (simp_all add: h_def)
  have r: "uint (word_of_nat n :: u64) = int n" using assms(3) by (simp add: uint_nat unat_of_nat)
  have a: "uint (word_of_int h :: u64) = h" "uint (word_of_int (h - 1) :: u64) = h - 1"
    by (rule uint_u64; use h in linarith)+
  have m: "word_of_int (- (- h + 1)) + 1 = (word_of_int h :: u64)" by simp
  have c: "(word_of_nat n > (word_of_int h :: u64)) = (h < int n)" "(word_of_nat n = (word_of_int h :: u64)) = (int n = h)"
    "(word_of_nat n > (word_of_int (h - 1) :: u64)) = (h \<le> int n)"
    unfolding word_less_def word_uint_eq_iff a r by (rule refl, rule refl, linarith)
  show ?thesis unfolding to_signed_def Let_def clamped_def signed_value_def h_def [symmetric] m c r using h by auto
qed

lemma to_signed_range:
  assumes "1 \<le> w" "w \<le> 64" "2 ^ 64 \<le> n"
  shows "to_signed w sign ERANGE r = clamped w (signed_value sign n)"
proof -
  define h where "h = (2 :: int) ^ (w - 1)"
  have "h \<le> 2 ^ 63" unfolding h_def by (rule power_increasing) (use assms(2) in simp_all)
  moreover have "int (2 ^ 64) \<le> int n" using assms(3) by (simp only: of_nat_le_iff)
  moreover have "(2 ^ 63 :: int) < int (2 ^ 64)" by simp
  ultimately have "h < int n" by linarith
  moreover have "0 < h" by (simp add: h_def)
  ultimately show ?thesis unfolding to_signed_def Let_def clamped_def signed_value_def h_def [symmetric] by auto
qed

text \<open>
  C33. Strings to signed integers. For a string of spaces, an optional sign, an optional prefix of the base,
  digits of the base and anything that does not continue them, \<^verbatim>\<open>strtol\<close> (of any width of
  \<^verbatim>\<open>long\<close> up to 64), \<^verbatim>\<open>strtoll\<close> and \<^verbatim>\<open>atoi\<close> return the number
  that the digits stand for, however many there are, clamped to the range of the type, report \<^verbatim>\<open>ERANGE\<close> exactly when it does not
  fit, and \<^verbatim>\<open>endptr\<close> is the first character behind the digits. The check for overflow in
  \<^verbatim>\<open>__dancy_ull\<close> misses no case.
\<close>

theorem strtol_correct:
  assumes "1 \<le> w" "w \<le> 64" "\<forall>c \<in> set ws. isspace c" "sign_text sign sg" "numeral_shape base pre b ds rest"
  shows "strtol w (ws @ sg @ pre @ ds @ rest) base =
      (case clamped w (signed_value sign (number_of b 0 ds)) of (v, e) \<Rightarrow> (v, e, rest)) \<and>
    strtoll (ws @ sg @ pre @ ds @ rest) base =
      (case clamped 64 (signed_value sign (number_of b 0 ds)) of (v, e) \<Rightarrow> (v, e, rest)) \<and>
    (base = 10 \<longrightarrow> atoi (ws @ sg @ pre @ ds @ rest) = clamped 32 (signed_value sign (number_of b 0 ds)))"
proof -
  note scan = scan_number_main [OF assms(3-5)]
  show ?thesis
  proof (cases "number_of b 0 ds < 2 ^ 64")
    case True
    note t = to_signed_number [OF _ _ True]
    show ?thesis unfolding strtol_def strtoll_def using assms(1,2) True scan t by (auto simp: atoi_def)
  next
    case False
    then have "2 ^ 64 \<le> number_of b 0 ds" by simp
    note t = to_signed_range [OF _ _ this]
    show ?thesis unfolding strtol_def strtoll_def using assms(1,2) False scan t by (auto simp: atoi_def)
  qed
qed

theorem strtol_correct_witness:
  "strtol 32 ([32] @ [45] @ [48, 120] @ [56, 48, 48, 48, 48, 48, 48, 49] @ [33]) 0 = (- (2 ^ 31), ERANGE, [33])"
proof -
  have "numeral_shape 0 [48, 120] 16 [56, 48, 48, 48, 48, 48, 48, 49] [33]"
    by (simp add: numeral_shape_def is_digit_def digit_value_def)
  moreover have "sign_text 45 [45]" "\<forall>c \<in> set [32]. isspace c" by (simp_all add: sign_text_def isspace_def)
  moreover have "number_of 16 0 [56, 48, 48, 48, 48, 48, 48, 49] = 0x80000001" by (simp add: digit_value_def)
  ultimately show ?thesis using strtol_correct [of 32 "[32]" 45 "[45]" 0 "[48, 120]" 16 "[56, 48, 48, 48, 48, 48, 48, 49]" "[33]"]
    by (simp add: clamped_def signed_value_def)
qed

text \<open>
  C34. Strings to unsigned integers. On the same strings \<^verbatim>\<open>strtoul\<close> and \<^verbatim>\<open>strtoull\<close>
  return the number, or its negation modulo the range of the type after a minus sign, or the largest value with
  \<^verbatim>\<open>ERANGE\<close> exactly when the digits stand for more than that.
\<close>

theorem strtoul_correct:
  assumes "w \<le> 64" "\<forall>c \<in> set ws. isspace c" "sign_text sign sg" "numeral_shape base pre b ds rest"
  shows "strtoul w (ws @ sg @ pre @ ds @ rest) base =
      (if number_of b 0 ds < 2 ^ w then (signed_value sign (number_of b 0 ds) mod 2 ^ w, E_none, rest) else (2 ^ w - 1, ERANGE, rest)) \<and>
    strtoull (ws @ sg @ pre @ ds @ rest) base =
      (if number_of b 0 ds < 2 ^ 64 then (signed_value sign (number_of b 0 ds) mod 2 ^ 64, E_none, rest) else (2 ^ 64 - 1, ERANGE, rest))"
proof -
  let ?n = "number_of b 0 ds"
  note scan = scan_number_main [OF assms(2-4)]
  have ul: "strtoul w (ws @ sg @ pre @ ds @ rest) base =
      (if ?n < 2 ^ w then (signed_value sign ?n mod 2 ^ w, E_none, rest) else (2 ^ w - 1, ERANGE, rest))"
    if w: "w \<le> 64" for w
  proof -
    let ?m = "word_of_int (2 ^ w - 1) :: u64"
    have "(2 ^ w :: int) \<le> 2 ^ 64" by (rule power_increasing) (use w in simp_all)
    then have m: "uint ?m = 2 ^ w - 1" by (intro uint_u64) simp_all
    have le: "(2 ^ w :: nat) \<le> 2 ^ 64" by (rule power_increasing) (use w in simp_all)
    show ?thesis
    proof (cases "?n < 2 ^ 64")
      case False
      then show ?thesis using scan le m by (simp add: strtoul_def)
    next
      case True
      have r: "uint (word_of_nat ?n :: u64) = int ?n" using True by (simp add: uint_nat unat_of_nat)
      have gt: "(word_of_nat ?n > ?m) = (\<not> ?n < 2 ^ w)"
      proof -
        have "(?n < 2 ^ w) = (int ?n < 2 ^ w)" using of_nat_less_iff [of ?n "2 ^ w", where 'a = int] by (simp only: of_nat_power of_nat_numeral)
        then show ?thesis unfolding word_less_def m r by linarith
      qed
      have tb: "uint (take_bit w x) = uint x mod 2 ^ w" for x :: u64 unfolding unsigned_take_bit_eq by (rule take_bit_eq_mod)
      have neg: "uint ((?m - word_of_nat ?n) + 1) mod 2 ^ w = (- int ?n) mod 2 ^ w" 
      proof -
        have "(?m - word_of_nat ?n) + 1 = word_of_int (2 ^ w - int ?n)" by simp
        then have "uint ((?m - word_of_nat ?n) + 1) = (2 ^ w - int ?n) mod 2 ^ 64" by (simp only: uint_word_of_int) simp
        moreover have "(2 ^ w :: int) dvd 2 ^ 64" by (rule le_imp_power_dvd [OF w])
        ultimately show ?thesis by (simp add: mod_mod_cancel)
      qed
      show ?thesis unfolding strtoul_def Let_def tb using scan True gt m r neg by (simp add: signed_value_def)
    qed
  qed
  have "strtoull str base = strtoul 64 str base" for str
  proof -
    have m: "word_of_int (2 ^ 64 - 1) = (- 1 :: u64)" by simp
    have t: "take_bit 64 x = x" for x :: u64 by (rule bit_word_eqI) (simp add: bit_take_bit_iff)
    have n: "(x > (- 1 :: u64)) = False" for x by (simp add: word_order.extremum_strict)
    show ?thesis unfolding strtoull_def strtoul_def Let_def m t n simp_thms ..
  qed
  then show ?thesis using ul [OF assms(1)] ul [of 64] by simp
qed

theorem strtoul_correct_witness: "strtoul 32 ([45] @ [49] @ [32]) 10 = (2 ^ 32 - 1, E_none, [32])"
proof -
  have "numeral_shape 10 [] 10 [49] [32]" by (simp add: numeral_shape_def is_digit_def digit_value_def hex_prefix_def deref_def)
  moreover have "sign_text 45 [45]" by (simp add: sign_text_def)
  ultimately show ?thesis using strtoul_correct [of 32 "[]" 45 "[45]" 10 "[]" 10 "[49]" "[32]"]
    by (simp add: signed_value_def digit_value_def)
qed

text \<open>An invalid base is not reported when the string begins like a hexadecimal number.\<close>

lemma strtol_bad_base: "strtol 32 [48, 120, 49] 1 = (0, E_none, [48, 120, 49])" "strtol 32 [49] 1 = (0, EINVAL, [49])"
  by code_simp+

end
