(* ===== verification/Sort_Search.thy ===== *)
theory Sort_Search
  imports Prelude "HOL-Library.Multiset"
begin

text \<open>
  Sorting and searching in the C library, \<^verbatim>\<open>src/arctic/libc/stdlib/qsort.c\<close> and
  \<^verbatim>\<open>bsearch.c\<close>. The array is the list of its bytes, as in the code; a pointer into it is an
  offset. The comparison function is an argument that depends on the contents of the two elements.
\<close>

text \<open>The element of \<open>sz\<close> bytes a pointer points to.\<close>

definition member_at :: "nat \<Rightarrow> u8 list \<Rightarrow> nat \<Rightarrow> u8 list" where
  "member_at sz arr p = take sz (drop p arr)"

text \<open>The innermost loop of \<^verbatim>\<open>qsort\<close>, with \<open>k\<close> rounds left.\<close>

fun swap_loop :: "nat \<Rightarrow> nat \<Rightarrow> nat \<Rightarrow> u8 list \<Rightarrow> u8 list" where
  "swap_loop 0 t1 t2 arr = arr"
| "swap_loop (Suc k) t1 t2 arr = swap_loop k (t1 + 1) (t2 + 1) (arr[t1 := arr ! t2, t2 := arr ! t1])"

text \<open>The loop over \<open>j\<close>.\<close>

fun sink_loop :: "nat \<Rightarrow> (u8 list \<Rightarrow> u8 list \<Rightarrow> int) \<Rightarrow> nat \<Rightarrow> u8 list \<Rightarrow> u8 list" where
  "sink_loop sz compar 0 arr = arr"
| "sink_loop sz compar (Suc j) arr =
    (let t1 = j * sz; t2 = (j + 1) * sz in
     if compar (member_at sz arr t1) (member_at sz arr t2) \<le> 0 then arr
     else sink_loop sz compar j (swap_loop sz t1 t2 arr))"

text \<open>The loop over \<open>i\<close>, with \<open>n\<close> rounds left.\<close>

fun sort_loop :: "nat \<Rightarrow> (u8 list \<Rightarrow> u8 list \<Rightarrow> int) \<Rightarrow> nat \<Rightarrow> nat \<Rightarrow> u8 list \<Rightarrow> u8 list" where
  "sort_loop sz compar i 0 arr = arr"
| "sort_loop sz compar i (Suc n) arr = sort_loop sz compar (i + 1) n (sink_loop sz compar i arr)"

definition qsort :: "u8 list \<Rightarrow> nat \<Rightarrow> nat \<Rightarrow> (u8 list \<Rightarrow> u8 list \<Rightarrow> int) \<Rightarrow> u8 list" where
  "qsort arr nmemb sz compar = (if sz = 0 then arr else sort_loop sz compar 1 (nmemb - 1) arr)"

text \<open>The loop of \<^verbatim>\<open>bsearch\<close>, whose result is the offset of a match.\<close>

function bsearch_loop :: "u8 list \<Rightarrow> u8 list \<Rightarrow> nat \<Rightarrow> (u8 list \<Rightarrow> u8 list \<Rightarrow> int) \<Rightarrow> nat \<Rightarrow> nat \<Rightarrow> nat option" where
  "bsearch_loop key arr sz compar array_base nmemb =
    (if nmemb > 0 then
       let i = drop_bit 1 nmemb;
           p = array_base + i * sz;
           r = compar key (member_at sz arr p)
       in
       if r = 0 then Some p
       else if r < 0 then bsearch_loop key arr sz compar array_base i
       else bsearch_loop key arr sz compar (p + sz) (nmemb - (i + 1))
     else None)"
  by pat_completeness auto
termination
  by (relation "measure (\<lambda>(key, arr, sz, compar, array_base, nmemb). nmemb)") (auto simp: drop_bit_Suc)

declare bsearch_loop.simps [simp del]

definition bsearch :: "u8 list \<Rightarrow> u8 list \<Rightarrow> nat \<Rightarrow> nat \<Rightarrow> (u8 list \<Rightarrow> u8 list \<Rightarrow> int) \<Rightarrow> nat option" where
  "bsearch key arr nmemb sz compar = bsearch_loop key arr sz compar 0 nmemb"

subsection \<open>Arrays of elements\<close>

text \<open>The elements of an array of \<open>n\<close>.\<close>

definition members :: "nat \<Rightarrow> nat \<Rightarrow> u8 list \<Rightarrow> u8 list list" where
  "members sz n arr = map (\<lambda>i. member_at sz arr (i * sz)) [0..<n]"

lemma length_members [simp]: "length (members sz n arr) = n"
  by (simp add: members_def)

lemma nth_members: "i < n \<Longrightarrow> members sz n arr ! i = member_at sz arr (i * sz)"
  by (simp add: members_def)

lemma swap_loop_nth:
  "t1 + k \<le> t2 \<Longrightarrow> t2 + k \<le> length arr \<Longrightarrow> length (swap_loop k t1 t2 arr) = length arr \<and>
    (\<forall>q < length arr. swap_loop k t1 t2 arr ! q =
      (if t1 \<le> q \<and> q < t1 + k then arr ! (q - t1 + t2) else if t2 \<le> q \<and> q < t2 + k then arr ! (q - t2 + t1) else arr ! q))"
proof (induction k arbitrary: t1 t2 arr)
  case (Suc k)
  let ?a = "arr[t1 := arr ! t2, t2 := arr ! t1]"
  have IH: "length (swap_loop k (t1 + 1) (t2 + 1) ?a) = length ?a \<and> (\<forall>q < length ?a. swap_loop k (t1 + 1) (t2 + 1) ?a ! q =
      (if t1 + 1 \<le> q \<and> q < t1 + 1 + k then ?a ! (q - (t1 + 1) + (t2 + 1))
       else if t2 + 1 \<le> q \<and> q < t2 + 1 + k then ?a ! (q - (t2 + 1) + (t1 + 1)) else ?a ! q))"
    by (rule Suc.IH) (use Suc.prems in simp_all)
  show ?case
  proof (intro conjI allI impI)
    show "length (swap_loop (Suc k) t1 t2 arr) = length arr" using IH by simp
    fix q assume q: "q < length arr"
    define X where "X = swap_loop k (t1 + 1) (t2 + 1) ?a ! q"
    have X: "X = (if t1 + 1 \<le> q \<and> q < t1 + 1 + k then ?a ! (q - (t1 + 1) + (t2 + 1))
       else if t2 + 1 \<le> q \<and> q < t2 + 1 + k then ?a ! (q - (t2 + 1) + (t1 + 1)) else ?a ! q)" using IH q by (simp add: X_def)
    consider "q = t1" | "t1 < q" "q < t1 + Suc k" | "q = t2" | "t2 < q" "q < t2 + Suc k"
      | "\<not> (t1 \<le> q \<and> q < t1 + Suc k)" "\<not> (t2 \<le> q \<and> q < t2 + Suc k)" by linarith
    then have "X = (if t1 \<le> q \<and> q < t1 + Suc k then arr ! (q - t1 + t2)
       else if t2 \<le> q \<and> q < t2 + Suc k then arr ! (q - t2 + t1) else arr ! q)"
    proof cases
      case 1
      then show ?thesis unfolding X using Suc.prems by simp
    next
      case 2
      then have "q - (t1 + 1) + (t2 + 1) = q - t1 + t2" "q - t1 + t2 \<noteq> t1" "q - t1 + t2 \<noteq> t2" using Suc.prems by linarith+
      then show ?thesis unfolding X using 2 by simp
    next
      case 3
      then show ?thesis unfolding X using Suc.prems by simp
    next
      case 4
      then have "q - (t2 + 1) + (t1 + 1) = q - t2 + t1" "q - t2 + t1 \<noteq> t1" "q - t2 + t1 \<noteq> t2" "\<not> q < t1 + Suc k" using Suc.prems by linarith+
      then show ?thesis unfolding X using 4 by simp
    next
      case 5
      then have "q \<noteq> t1" "q \<noteq> t2" "\<not> (t1 + 1 \<le> q \<and> q < t1 + 1 + k)" "\<not> (t2 + 1 \<le> q \<and> q < t2 + 1 + k)" by linarith+
      then show ?thesis unfolding X using 5 by (simp only: if_False nth_list_update_neq)
    qed
    then show "swap_loop (Suc k) t1 t2 arr ! q =
      (if t1 \<le> q \<and> q < t1 + Suc k then arr ! (q - t1 + t2) else if t2 \<le> q \<and> q < t2 + Suc k then arr ! (q - t2 + t1) else arr ! q)"
      by (simp add: X_def)
  qed
qed auto

lemma slot_le: "i < j \<Longrightarrow> i * sz + sz \<le> j * sz" for i j sz :: nat
proof -
  assume "i < j"
  then have "Suc i * sz \<le> j * sz" by (intro mult_le_mono1) simp
  then show ?thesis by simp
qed

lemma member_swap:
  assumes "j + 1 < n" "n * sz \<le> length arr"
  defines "arr' \<equiv> swap_loop sz (j * sz) ((j + 1) * sz) arr"
  shows "i < n \<Longrightarrow> member_at sz arr' (i * sz) = member_at sz arr ((if i = j then j + 1 else if i = j + 1 then j else i) * sz)"
    "length arr' = length arr" "n * sz \<le> q \<Longrightarrow> q < length arr \<Longrightarrow> arr' ! q = arr ! q"
proof -
  let ?t1 = "j * sz" and ?t2 = "(j + 1) * sz"
  have b: "?t1 + sz \<le> ?t2" "?t2 + sz \<le> length arr" using slot_le [OF assms(1), of sz] assms(2) by (simp_all add: algebra_simps)
  note S = swap_loop_nth [OF b, folded arr'_def]
  show len: "length arr' = length arr" using S by blast
  have t2: "?t2 + sz \<le> n * sz" using slot_le [OF assms(1), of sz] .
  show "arr' ! q = arr ! q" if "n * sz \<le> q" "q < length arr" using S that t2 b by auto
  show "member_at sz arr' (i * sz) = member_at sz arr ((if i = j then j + 1 else if i = j + 1 then j else i) * sz)" if i: "i < n"
  proof (rule nth_equalityI)
    have le: "p * sz + sz \<le> length arr" if "p < n" for p using slot_le [OF that, of sz] assms(2) by linarith
    let ?k = "if i = j then j + 1 else if i = j + 1 then j else i"
    have k: "?k < n" using i assms(1) by simp
    show "length (member_at sz arr' (i * sz)) = length (member_at sz arr (?k * sz))"
      using le [OF i] le [OF k] by (simp add: member_at_def len)
    fix r assume "r < length (member_at sz arr' (i * sz))"
    then have r: "r < sz" by (simp add: member_at_def)
    have q: "i * sz + r < length arr" using le [OF i] r by linarith
    have L: "member_at sz arr' (i * sz) ! r = arr' ! (i * sz + r)" "member_at sz arr (?k * sz) ! r = arr ! (?k * sz + r)"
      using r le [OF i] le [OF k] len by (simp_all add: member_at_def)
    consider "i = j" | "i = j + 1" | "i < j" | "j + 1 < i" by linarith
    then have "arr' ! (i * sz + r) = arr ! (?k * sz + r)"
    proof cases
      case 3
      then show ?thesis using S q r slot_le [OF 3, of sz] by simp
    next
      case 4
      then show ?thesis using S q r slot_le [OF 4, of sz] b by simp
    qed (use S q r b in \<open>simp_all add: add.commute add.left_commute\<close>)
    then show "member_at sz arr' (i * sz) ! r = member_at sz arr (?k * sz) ! r" unfolding L .
  qed
qed

text \<open>The insertion of an element into a list that is sorted in descending order.\<close>

fun sink :: "(u8 list \<Rightarrow> u8 list \<Rightarrow> int) \<Rightarrow> u8 list \<Rightarrow> u8 list list \<Rightarrow> u8 list list" where
  "sink compar y [] = [y]"
| "sink compar y (x # xs) = (if compar x y \<le> 0 then y # x # xs else x # sink compar y xs)"

lemma sink_loop_main:
  assumes "n * sz \<le> length arr" "j < n"
  shows "members sz n (sink_loop sz compar j arr) =
      rev (sink compar (members sz n arr ! j) (rev (take j (members sz n arr)))) @ drop (Suc j) (members sz n arr) \<and>
    length (sink_loop sz compar j arr) = length arr \<and>
    (\<forall>q. n * sz \<le> q \<longrightarrow> q < length arr \<longrightarrow> sink_loop sz compar j arr ! q = arr ! q)"
  using assms
proof (induction j arbitrary: arr)
  case 0
  then show ?case by (simp add: Cons_nth_drop_Suc)
next
  case (Suc j)
  let ?xs = "members sz n arr"
  have j: "j < n" "j + 1 < n" using Suc.prems(2) by simp_all
  have at: "member_at sz arr (j * sz) = ?xs ! j" "member_at sz arr ((j + 1) * sz) = ?xs ! Suc j" 
    using nth_members [OF j(1), of sz arr] nth_members [OF j(2), of sz arr] by simp_all
  have t: "rev (take (Suc j) ?xs) = ?xs ! j # rev (take j ?xs)" using j(1) by (simp add: take_Suc_conv_app_nth)
  show ?case
  proof (cases "compar (?xs ! j) (?xs ! Suc j) \<le> 0")
    case True
    have "?xs = take j ?xs @ ?xs ! j # ?xs ! Suc j # drop (Suc (Suc j)) ?xs"
      using j by (simp add: Cons_nth_drop_Suc)
    then show ?thesis using True by (simp add: Let_def at [simplified] t)
  next
    case False
    define arr' where "arr' = swap_loop sz (j * sz) ((j + 1) * sz) arr"
    note W = member_swap [OF j(2) Suc.prems(1), folded arr'_def]
    have xs': "members sz n arr' = ?xs[j := ?xs ! Suc j, Suc j := ?xs ! j]"
      by (rule nth_equalityI) (use W(1) j in \<open>auto simp: nth_members nth_list_update\<close>)
    have e: "sink_loop sz compar (Suc j) arr = sink_loop sz compar j arr'" using False at by (simp add: Let_def arr'_def)
    have IH: "members sz n (sink_loop sz compar j arr') =
        rev (sink compar (members sz n arr' ! j) (rev (take j (members sz n arr')))) @ drop (Suc j) (members sz n arr') \<and>
      length (sink_loop sz compar j arr') = length arr' \<and>
      (\<forall>q. n * sz \<le> q \<longrightarrow> q < length arr' \<longrightarrow> sink_loop sz compar j arr' ! q = arr' ! q)"
      by (rule Suc.IH) (use Suc.prems W(2) in simp_all)
    have "members sz n arr' ! j = ?xs ! Suc j" "take j (members sz n arr') = take j ?xs"
      "drop (Suc j) (members sz n arr') = ?xs ! j # drop (Suc (Suc j)) ?xs"
      using j by (simp_all add: xs' drop_update_swap Cons_nth_drop_Suc [symmetric])
    then show ?thesis using IH False W(2,3) by (auto simp: e t simp del: sink_loop.simps)
  qed
qed

subsection \<open>Sorting\<close>

text \<open>
  What \<^verbatim>\<open>compar\<close> has to satisfy on the elements: its negative and zero results form a total preorder.
\<close>

definition consistent :: "(u8 list \<Rightarrow> u8 list \<Rightarrow> int) \<Rightarrow> u8 list set \<Rightarrow> bool" where
  "consistent compar A \<longleftrightarrow> (\<forall>x \<in> A. \<forall>y \<in> A. compar x y \<le> 0 \<or> compar y x \<le> 0) \<and>
    (\<forall>x \<in> A. \<forall>y \<in> A. \<forall>z \<in> A. compar x y \<le> 0 \<longrightarrow> compar y z \<le> 0 \<longrightarrow> compar x z \<le> 0)"

lemma consistentD:
  assumes "consistent compar A"
  shows "x \<in> A \<Longrightarrow> y \<in> A \<Longrightarrow> \<not> compar x y \<le> 0 \<Longrightarrow> compar y x \<le> 0"
    "x \<in> A \<Longrightarrow> y \<in> A \<Longrightarrow> z \<in> A \<Longrightarrow> compar x y \<le> 0 \<Longrightarrow> compar y z \<le> 0 \<Longrightarrow> compar x z \<le> 0"
  using assms unfolding consistent_def by blast+

definition same_key :: "(u8 list \<Rightarrow> u8 list \<Rightarrow> int) \<Rightarrow> u8 list \<Rightarrow> u8 list \<Rightarrow> bool" where
  "same_key compar z x \<longleftrightarrow> compar x z \<le> 0 \<and> compar z x \<le> 0"

lemma sink_simps: "length (sink compar y xs) = Suc (length xs)" "mset (sink compar y xs) = add_mset y (mset xs)"
  by (induction xs) auto

lemma sink_sorted:
  assumes "consistent compar A"
  shows "set xs \<subseteq> A \<Longrightarrow> y \<in> A \<Longrightarrow> sorted_wrt (\<lambda>a b. compar b a \<le> 0) xs \<Longrightarrow> sorted_wrt (\<lambda>a b. compar b a \<le> 0) (sink compar y xs)"
proof (induction xs)
  case (Cons x xs)
  have s: "set (sink compar y xs) = insert y (set xs)" by (metis set_mset_mset set_mset_add_mset_insert sink_simps(2))
  show ?case
  proof (cases "compar x y \<le> 0")
    case True
    have "compar x' y \<le> 0" if "x' \<in> set xs" for x'
      using that Cons.prems True consistentD(2) [OF assms, of x' x y] by auto
    then show ?thesis using True Cons.prems(3) by simp
  next
    case False
    then have "compar y x \<le> 0" using consistentD(1) [OF assms, of x y] Cons.prems by simp
    then show ?thesis using False Cons s by auto
  qed
qed simp

lemma sink_stable:
  assumes "consistent compar A" "z \<in> A"
  shows "set xs \<subseteq> A \<Longrightarrow> y \<in> A \<Longrightarrow> filter (same_key compar z) (sink compar y xs) = filter (same_key compar z) (y # xs)"
proof (induction xs)
  case (Cons x xs)
  have "compar x y \<le> 0" if "same_key compar z x" "same_key compar z y"
    using consistentD(2) [OF assms(1), of x z y] that Cons.prems assms(2) by (simp add: same_key_def)
  then show ?case using Cons by auto
qed simp

lemma sort_loop_main:
  assumes "consistent compar A" "N * sz \<le> length arr" "i + n = N" "set (members sz N arr) \<subseteq> A"
    "sorted_wrt (\<lambda>a b. compar a b \<le> 0) (take i (members sz N arr))"
  defines "arr' \<equiv> sort_loop sz compar i n arr"
  shows "sorted_wrt (\<lambda>a b. compar a b \<le> 0) (members sz N arr') \<and> mset (members sz N arr') = mset (members sz N arr) \<and>
    (\<forall>z \<in> A. filter (same_key compar z) (members sz N arr') = filter (same_key compar z) (members sz N arr)) \<and>
    length arr' = length arr \<and> (\<forall>q. N * sz \<le> q \<longrightarrow> q < length arr \<longrightarrow> arr' ! q = arr ! q)"
  using assms(2-5) unfolding arr'_def
proof (induction n arbitrary: i arr)
  case (Suc n)
  let ?xs = "members sz N arr" and ?arr = "sink_loop sz compar i arr"
  have i: "i < N" using Suc.prems(2) by simp
  define p where "p = sink compar (?xs ! i) (rev (take i ?xs))"
  have W: "members sz N ?arr = rev p @ drop (Suc i) ?xs" "length ?arr = length arr"
    "\<forall>q. N * sz \<le> q \<longrightarrow> q < length arr \<longrightarrow> ?arr ! q = arr ! q"
    using sink_loop_main [OF Suc.prems(1) i, of compar] by (simp_all add: p_def)
  have lp: "length p = Suc i" using i by (simp add: p_def sink_simps)
  have sub: "?xs ! i \<in> A" "set (rev (take i ?xs)) \<subseteq> A" using Suc.prems(3) i set_take_subset [of i ?xs] nth_mem [of i ?xs] by auto
  have split: "take i ?xs @ ?xs ! i # drop (Suc i) ?xs = ?xs" using i by (simp add: id_take_nth_drop [symmetric])
  have m: "mset (members sz N ?arr) = mset ?xs" 
  proof -
    have "mset (members sz N ?arr) = mset (take i ?xs @ ?xs ! i # drop (Suc i) ?xs)" unfolding W(1) by (simp add: p_def sink_simps)
    then show ?thesis unfolding split .
  qed
  have f: "filter (same_key compar z) (members sz N ?arr) = filter (same_key compar z) ?xs" if z: "z \<in> A" for z
  proof -
    have "filter (same_key compar z) (members sz N ?arr) = filter (same_key compar z) (take i ?xs @ ?xs ! i # drop (Suc i) ?xs)"
      unfolding W(1) using sink_stable [OF assms(1) z sub(2,1)] by (simp add: p_def rev_filter [symmetric])
    then show ?thesis unfolding split .
  qed
  have s: "sorted_wrt (\<lambda>a b. compar a b \<le> 0) (rev p)"
    using sink_sorted [OF assms(1) sub(2,1)] Suc.prems(4) by (simp add: p_def sorted_wrt_rev)
  have "set (members sz N ?arr) \<subseteq> A" using Suc.prems(3) m by (metis set_mset_mset)
  then show ?case using Suc.IH [of ?arr "i + 1"] Suc.prems(1,2) W lp s m f by simp
qed simp

lemma qsort_main:
  assumes "0 < sz" "nmemb * sz \<le> length arr" "consistent compar (set (members sz nmemb arr))"
  shows "sorted_wrt (\<lambda>a b. compar a b \<le> 0) (members sz nmemb (qsort arr nmemb sz compar)) \<and>
    mset (members sz nmemb (qsort arr nmemb sz compar)) = mset (members sz nmemb arr) \<and>
    (\<forall>z \<in> set (members sz nmemb arr). filter (same_key compar z) (members sz nmemb (qsort arr nmemb sz compar)) =
      filter (same_key compar z) (members sz nmemb arr)) \<and>
    length (qsort arr nmemb sz compar) = length arr \<and> drop (nmemb * sz) (qsort arr nmemb sz compar) = drop (nmemb * sz) arr"
proof (cases nmemb)
  case 0
  then show ?thesis using assms(1) by (simp add: qsort_def members_def)
next
  case (Suc n)
  let ?r = "qsort arr nmemb sz compar"
  have r: "?r = sort_loop sz compar 1 n arr" using assms(1) Suc by (simp add: qsort_def)
  have s: "sorted_wrt (\<lambda>a b. compar a b \<le> 0) (take 1 (members sz nmemb arr))" by (cases "members sz nmemb arr") simp_all
  have N: "1 + n = nmemb" using Suc by simp
  note M = sort_loop_main [OF assms(3,2) N order_refl s, folded r]
  have "drop (nmemb * sz) ?r = drop (nmemb * sz) arr"
    by (rule nth_equalityI) (use M in simp_all)
  then show ?thesis using M by blast
qed

text \<open>
  C35. Sorting. For a comparison function that is consistent on the elements, \<^verbatim>\<open>qsort\<close> leaves
  the elements of the array in ascending order, each as often as before, with equal elements in their old order (the
  sort is stable, which the standard does not ask for), and changes no byte behind the array.
\<close>

theorem qsort_correct:
  assumes "0 < sz" "nmemb * sz \<le> length arr" "consistent compar (set (members sz nmemb arr))"
  shows "sorted_wrt (\<lambda>a b. compar a b \<le> 0) (members sz nmemb (qsort arr nmemb sz compar)) \<and>
    mset (members sz nmemb (qsort arr nmemb sz compar)) = mset (members sz nmemb arr) \<and>
    (\<forall>z \<in> set (members sz nmemb arr). filter (same_key compar z) (members sz nmemb (qsort arr nmemb sz compar)) =
      filter (same_key compar z) (members sz nmemb arr)) \<and>
    length (qsort arr nmemb sz compar) = length arr \<and> drop (nmemb * sz) (qsort arr nmemb sz compar) = drop (nmemb * sz) arr"
  by (rule qsort_main [OF assms])

definition byte_compare :: "u8 list \<Rightarrow> u8 list \<Rightarrow> int" where
  "byte_compare x y = uint (hd x) - uint (hd y)"

lemma byte_compare_consistent: "consistent byte_compare A"
  unfolding consistent_def byte_compare_def by auto

theorem qsort_correct_witness:
  "members 2 3 (qsort [7, 0, 3, 1, 5, 2, 9] 3 2 byte_compare) = [[3, 1], [5, 2], [7, 0]] \<and>
   sorted_wrt (\<lambda>a b. byte_compare a b \<le> 0) (members 2 3 (qsort [7, 0, 3, 1, 5, 2, 9] 3 2 byte_compare))"
proof -
  have "members 2 3 (qsort [7, 0, 3, 1, 5, 2, 9] 3 2 byte_compare) = [[3, 1], [5, 2], [7, 0]]" by code_simp
  moreover have "sorted_wrt (\<lambda>a b. byte_compare a b \<le> 0) (members 2 3 (qsort [7, 0, 3, 1, 5, 2, 9] 3 2 byte_compare))"
    using qsort_correct [of 2 3 "[7, 0, 3, 1, 5, 2, 9]" byte_compare] byte_compare_consistent by simp
  ultimately show ?thesis by blast
qed

subsection \<open>Searching\<close>

text \<open>How the key has to lie to the elements: those it exceeds come first, those that exceed it last.\<close>

definition partitioned :: "u8 list \<Rightarrow> u8 list list \<Rightarrow> (u8 list \<Rightarrow> u8 list \<Rightarrow> int) \<Rightarrow> bool" where
  "partitioned key xs compar \<longleftrightarrow> (\<forall>i j. i < j \<longrightarrow> j < length xs \<longrightarrow>
    (compar key (xs ! j) > 0 \<longrightarrow> compar key (xs ! i) > 0) \<and> (compar key (xs ! i) < 0 \<longrightarrow> compar key (xs ! j) < 0))"

lemma bsearch_loop_main:
  assumes "partitioned key (members sz N arr) compar"
  shows "array_base = lo * sz \<Longrightarrow> lo + nmemb \<le> N \<Longrightarrow>
    (case bsearch_loop key arr sz compar array_base nmemb of
       None \<Rightarrow> \<forall>i. lo \<le> i \<longrightarrow> i < lo + nmemb \<longrightarrow> compar key (members sz N arr ! i) \<noteq> 0
     | Some p \<Rightarrow> \<exists>i < N. p = i * sz \<and> compar key (members sz N arr ! i) = 0)"
proof (induction nmemb arbitrary: lo array_base rule: less_induct)
  case (less nmemb)
  let ?xs = "members sz N arr"
  show ?case
  proof (cases "nmemb = 0")
    case True
    then show ?thesis by (subst bsearch_loop.simps) simp
  next
    case False
    define i where "i = nmemb div 2"
    have i: "i < nmemb" "drop_bit 1 nmemb = i" using False by (simp_all add: i_def drop_bit_Suc)
    define p where "p = array_base + i * sz"
    have p: "p = (lo + i) * sz" using less.prems(1) by (simp add: p_def algebra_simps)
    have e: "member_at sz arr p = ?xs ! (lo + i)" using nth_members [of "lo + i" N sz arr] i less.prems(2) by (simp add: p)
    define r where "r = compar key (?xs ! (lo + i))"
    have step: "bsearch_loop key arr sz compar array_base nmemb =
      (if r = 0 then Some p else if r < 0 then bsearch_loop key arr sz compar array_base i
       else bsearch_loop key arr sz compar (p + sz) (nmemb - (i + 1)))"
      using False by (subst bsearch_loop.simps, simp only: Let_def i(2) p_def [symmetric] e r_def [symmetric]) simp
    note part = assms[unfolded partitioned_def, rule_format]
    consider "r = 0" | "r < 0" | "r > 0" by linarith
    then show ?thesis
    proof cases
      case 1
      then show ?thesis using step p i less.prems(2) by (auto simp: r_def intro!: exI [of _ "lo + i"])
    next
      case 2
      have "compar key (?xs ! j) \<noteq> 0" if "lo + i \<le> j" "j < lo + nmemb" for j
        using part [of "lo + i" j] that less.prems(2) 2 by (cases "j = lo + i") (auto simp: r_def)
      moreover have "case bsearch_loop key arr sz compar array_base i of
          None \<Rightarrow> \<forall>k. lo \<le> k \<longrightarrow> k < lo + i \<longrightarrow> compar key (?xs ! k) \<noteq> 0
        | Some p \<Rightarrow> \<exists>i < N. p = i * sz \<and> compar key (?xs ! i) = 0"
        by (rule less.IH [OF i(1) less.prems(1)]) (use i less.prems(2) in simp)
      ultimately show ?thesis using step 2 by (auto split: option.splits)
    next
      case 3
      have "compar key (?xs ! j) \<noteq> 0" if "lo \<le> j" "j \<le> lo + i" for j
        using part [of j "lo + i"] that i less.prems(2) 3 by (cases "j = lo + i") (auto simp: r_def)
      moreover have "case bsearch_loop key arr sz compar (p + sz) (nmemb - (i + 1)) of
          None \<Rightarrow> \<forall>k. lo + i + 1 \<le> k \<longrightarrow> k < lo + i + 1 + (nmemb - (i + 1)) \<longrightarrow> compar key (?xs ! k) \<noteq> 0
        | Some p \<Rightarrow> \<exists>i < N. p = i * sz \<and> compar key (?xs ! i) = 0"
        by (rule less.IH) (use i less.prems(2) p in \<open>simp_all add: algebra_simps\<close>)
      ultimately show ?thesis using step 3 i by (auto split: option.splits) (metis Suc_leI add_Suc_right not_less)
    qed
  qed
qed

text \<open>A comparison function whose sign turns with its arguments.\<close>

definition opposite :: "(u8 list \<Rightarrow> u8 list \<Rightarrow> int) \<Rightarrow> u8 list set \<Rightarrow> bool" where
  "opposite compar A \<longleftrightarrow> (\<forall>x \<in> A. \<forall>y \<in> A. compar x y < 0 \<longleftrightarrow> compar y x > 0)"

lemma sorted_partitioned:
  assumes "consistent compar A" "opposite compar A" "set xs \<subseteq> A" "key \<in> A" "sorted_wrt (\<lambda>a b. compar a b \<le> 0) xs"
  shows "partitioned key xs compar"
  unfolding partitioned_def
proof (intro allI impI conjI)
  fix i j assume ij: "i < j" "j < length xs"
  have A: "xs ! i \<in> A" "xs ! j \<in> A" using assms(3) ij nth_mem by auto
  have le: "compar (xs ! i) (xs ! j) \<le> 0" using sorted_wrt_nth_less [OF assms(5)] ij by blast
  have op: "compar x y < 0 \<longleftrightarrow> compar y x > 0" if "x \<in> A" "y \<in> A" for x y using assms(2) that unfolding opposite_def by blast
  note tr = consistentD(2) [OF assms(1)]
  { assume g: "compar key (xs ! j) > 0"
    show "compar key (xs ! i) > 0"
      using tr [OF assms(4) A(1,2) _ le] g by linarith }
  { assume l: "compar key (xs ! i) < 0"
    show "compar key (xs ! j) < 0"
    proof (rule ccontr)
      assume "\<not> compar key (xs ! j) < 0"
      then have "compar (xs ! j) key \<le> 0" using op [OF assms(4) A(2)] by linarith
      then have "compar (xs ! i) key \<le> 0" using tr [OF A assms(4) le] by blast
      then show False using op [OF assms(4) A(1)] l by linarith
    qed }
qed

text \<open>
  C36. Searching. In every array that the key partitions, sorted or not, with a key that may be of another
  kind than the elements, \<^verbatim>\<open>bsearch\<close> returns a pointer to an element that compares equal to the
  key, and a null pointer only when there is none. An array in ascending order is partitioned when the
  comparison function is consistent and its sign turns with its arguments; so on what \<^verbatim>\<open>qsort\<close> has
  sorted with such a function the key is found exactly when the array held it before.
\<close>

theorem bsearch_correct:
  assumes "0 < sz" "nmemb * sz \<le> length arr"
  shows "(partitioned key (members sz nmemb arr) compar \<longrightarrow>
      (case bsearch key arr nmemb sz compar of
         None \<Rightarrow> \<forall>x \<in> set (members sz nmemb arr). compar key x \<noteq> 0
       | Some p \<Rightarrow> \<exists>i < nmemb. p = i * sz \<and> compar key (members sz nmemb arr ! i) = 0)) \<and>
    (consistent compar (insert key (set (members sz nmemb arr))) \<and> opposite compar (insert key (set (members sz nmemb arr))) \<longrightarrow>
      (sorted_wrt (\<lambda>a b. compar a b \<le> 0) (members sz nmemb arr) \<longrightarrow> partitioned key (members sz nmemb arr) compar) \<and>
      (bsearch key (qsort arr nmemb sz compar) nmemb sz compar \<noteq> None \<longleftrightarrow> (\<exists>x \<in> set (members sz nmemb arr). compar key x = 0)))"
proof -
  have find: "case bsearch key a nmemb sz compar of
      None \<Rightarrow> \<forall>x \<in> set (members sz nmemb a). compar key x \<noteq> 0
    | Some p \<Rightarrow> \<exists>i < nmemb. p = i * sz \<and> compar key (members sz nmemb a ! i) = 0"
    if a: "partitioned key (members sz nmemb a) compar" for a
  proof -
    have "\<forall>x \<in> set (members sz nmemb a). compar key x \<noteq> 0" if "\<forall>i. i < nmemb \<longrightarrow> compar key (members sz nmemb a ! i) \<noteq> 0"
      using that by (auto simp: in_set_conv_nth)
    then show ?thesis using bsearch_loop_main [OF a, of 0 0 nmemb] by (auto simp: bsearch_def split: option.splits)
  qed
  let ?A = "insert key (set (members sz nmemb arr))"
  define s where "s = qsort arr nmemb sz compar"
  have "bsearch key s nmemb sz compar \<noteq> None \<longleftrightarrow> (\<exists>x \<in> set (members sz nmemb arr). compar key x = 0)"
    if c: "consistent compar ?A" "opposite compar ?A"
  proof -
    have "consistent compar (set (members sz nmemb arr))" using c(1) unfolding consistent_def by blast
    then have Q: "sorted_wrt (\<lambda>a b. compar a b \<le> 0) (members sz nmemb s)" "mset (members sz nmemb s) = mset (members sz nmemb arr)"
      using qsort_main [OF assms] by (simp_all add: s_def)
    then have set: "set (members sz nmemb s) = set (members sz nmemb arr)" by (metis set_mset_mset)
    have "partitioned key (members sz nmemb s) compar"
      by (rule sorted_partitioned [OF c _ _ Q(1)]) (simp_all add: set subset_insertI)
    from find [OF this] show ?thesis
      by (auto split: option.splits simp flip: set intro!: nth_mem bexI)
  qed
  moreover have "partitioned key (members sz nmemb arr) compar"
    if "consistent compar ?A" "opposite compar ?A" "sorted_wrt (\<lambda>a b. compar a b \<le> 0) (members sz nmemb arr)"
    by (rule sorted_partitioned [OF that(1,2) _ _ that(3)]) auto
  ultimately show ?thesis using find [of arr] unfolding s_def by blast
qed

theorem bsearch_correct_witness:
  "bsearch [5] [1, 3, 5, 7] 4 1 byte_compare = Some 2 \<and> bsearch [4] (qsort [7, 1, 5, 3] 4 1 byte_compare) 4 1 byte_compare = None"
proof -
  have m: "members 1 4 [7, 1, 5, 3] = [[7], [1], [5], [3]]" by code_simp
  have "bsearch [4] (qsort [7, 1, 5, 3] 4 1 byte_compare) 4 1 byte_compare = None"
  proof -
    have o: "opposite byte_compare A" for A by (auto simp: opposite_def byte_compare_def)
    have p: "0 < (1 :: nat)" "4 * 1 \<le> length [7, 1, 5, 3 :: u8]" by simp_all
    have "bsearch [4] (qsort [7, 1, 5, 3] 4 1 byte_compare) 4 1 byte_compare \<noteq> None \<longleftrightarrow>
        (\<exists>x \<in> set (members 1 4 [7, 1, 5, 3]). byte_compare [4] x = 0)"
      by (rule bsearch_correct [OF p, THEN conjunct2, THEN mp, OF conjI, OF byte_compare_consistent o, THEN conjunct2])
    then show ?thesis unfolding m by (simp add: byte_compare_def)
  qed
  moreover have "bsearch [5] [1, 3, 5, 7] 4 1 byte_compare = Some 2" by code_simp
  ultimately show ?thesis by blast
qed

end
