(* ===== verification/Boot_Memory.thy ===== *)
theory Boot_Memory
  imports Allocator
begin

text \<open>
  The memory manager of the environment before the kernel, \<^verbatim>\<open>src/boot/init/memory.c\<close>. Its state is the
  memory map that the boot loader hands over: an array of entries in ascending order, each of which holds from
  its base up to the base of the next. Allocations are entries of the same map. The 64-bit build is modelled.

  The list holds the entries with index below \<^verbatim>\<open>memory_entries\<close>; the array is filled with zeros behind
  them (\<open>entry_at\<close>), and an entry of zeros ends the loops that look at the flags. A null pointer is the
  address 0.
\<close>

record mem_entry =
  m_type :: u32
  m_flags :: u32
  m_base :: u64
  m_other :: "u8 list"

record boot_state =
  memory :: "mem_entry list"
  map_addr :: u64
  manager_disabled :: bool
  memory_lock :: bool

subsection \<open>Types and flags of entries\<close>

definition B_MEM_NORMAL :: u32 where "B_MEM_NORMAL = 0x00000007"
definition B_MEM_BOOT_LOADER :: u32 where "B_MEM_BOOT_LOADER = 0x80000004"
definition B_MEM_UEFI_SYSCALLS :: u32 where "B_MEM_UEFI_SYSCALLS = 0x80000005"
definition B_MEM_INIT_EXECUTABLE :: u32 where "B_MEM_INIT_EXECUTABLE = 0x80860000"
definition B_MEM_INIT_ALLOC_MIN :: u32 where "B_MEM_INIT_ALLOC_MIN = 0x80860001"
definition B_MEM_INIT_ALLOC_MAX :: u32 where "B_MEM_INIT_ALLOC_MAX = 0x8086FFFF"
definition B_MEM_DATABASE_MIN :: u32 where "B_MEM_DATABASE_MIN = 0xDB000000"
definition B_MEM_DATABASE_MAX :: u32 where "B_MEM_DATABASE_MAX = 0xDB00FFFF"
definition B_MEM_KERNEL :: u32 where "B_MEM_KERNEL = 0xE0000000"
definition B_MEM_KERNEL_RESERVED :: u32 where "B_MEM_KERNEL_RESERVED = 0xE000FFFF"

lemmas b_mem_types = B_MEM_NORMAL_def B_MEM_BOOT_LOADER_def B_MEM_UEFI_SYSCALLS_def B_MEM_INIT_EXECUTABLE_def
  B_MEM_INIT_ALLOC_MIN_def B_MEM_INIT_ALLOC_MAX_def B_MEM_DATABASE_MIN_def B_MEM_DATABASE_MAX_def
  B_MEM_KERNEL_def B_MEM_KERNEL_RESERVED_def

definition is_init_alloc :: "u32 \<Rightarrow> bool" where
  "is_init_alloc t \<longleftrightarrow> t \<ge> B_MEM_INIT_ALLOC_MIN \<and> t \<le> B_MEM_INIT_ALLOC_MAX"

definition valid_entry :: "mem_entry \<Rightarrow> bool" where
  "valid_entry x \<longleftrightarrow> m_flags x AND 1 \<noteq> 0"

definition no_init_alloc :: "mem_entry \<Rightarrow> bool" where
  "no_init_alloc x \<longleftrightarrow> m_flags x AND 0x10000 \<noteq> 0"

definition base_low :: "mem_entry \<Rightarrow> u64" where
  "base_low x = take_bit 32 (m_base x)"

definition base_high :: "mem_entry \<Rightarrow> u64" where
  "base_high x = drop_bit 32 (m_base x)"

definition zero_entry :: mem_entry where
  "zero_entry = \<lparr>m_type = 0, m_flags = 0, m_base = 0, m_other = replicate 16 0\<rparr>"

definition entry_at :: "mem_entry list \<Rightarrow> nat \<Rightarrow> mem_entry" where
  "entry_at m i = (if i < length m then m ! i else zero_entry)"

subsection \<open>Taking over the map\<close>

text \<open>
  The first loop of \<^verbatim>\<open>memory_init\<close>; the flags are \<open>TYPE_BOOT\<close>, \<open>TYPE_INIT\<close> and
  \<open>TYPE_LOW_END\<close> of \<^verbatim>\<open>memory_types\<close>. \<^const>\<open>None\<close> is the error.
\<close>

function init_scan :: "u64 \<Rightarrow> mem_entry list \<Rightarrow> bool \<times> bool \<times> bool \<Rightarrow> nat \<Rightarrow> ((bool \<times> bool \<times> bool) \<times> nat) option" where
  "init_scan addr arr types i =
    (if i = 0 \<or> m_base (entry_at arr i) \<noteq> 0 then
       let b = m_base (entry_at arr i); e = m_base (entry_at arr (i + 1)); t = m_type (entry_at arr i);
           (has_boot, has_init, low_end) = types in
       if b > e - 1 \<or> i \<ge> 1536 then None
       else
         let low_end' = (low_end \<or> e - 1 = 0xFFFFFFFF) in
         if t = B_MEM_BOOT_LOADER \<or> t = B_MEM_UEFI_SYSCALLS then
           init_scan addr arr (True, has_init, low_end') (i + 1)
         else if t = B_MEM_INIT_EXECUTABLE then
           (if addr - 0x10000 \<noteq> b \<or> b AND 0xFFFF \<noteq> 0 \<or> e - b \<noteq> 0x20000 then None
            else init_scan addr arr (has_boot, True, low_end') (i + 1))
         else init_scan addr arr (has_boot, has_init, low_end') (i + 1)
     else Some (types, i))"
  by pat_completeness auto
termination
  by (relation "measure (\<lambda>(addr, arr, types, i). 1536 - i)") auto

declare init_scan.simps [simp del]

text \<open>The second loop, over further entries with flags.\<close>

function init_skip :: "mem_entry list \<Rightarrow> nat \<Rightarrow> nat option" where
  "init_skip arr i =
    (if m_flags (entry_at arr i) \<noteq> 0 then (if i \<ge> 1536 then None else init_skip arr (i + 1)) else Some i)"
  by pat_completeness auto
termination
  by (relation "measure (\<lambda>(arr, i). 1536 - i)") auto

declare init_skip.simps [simp del]

definition memory_init :: "u64 \<Rightarrow> mem_entry list \<Rightarrow> boot_state option" where
  "memory_init addr arr =
    (if m_base (entry_at arr 0) \<noteq> 0 then None
     else case init_scan addr arr (False, False, False) 0 of
       None \<Rightarrow> None
     | Some (types, i) \<Rightarrow>
         if types \<noteq> (True, True, True) then None
         else case init_skip arr i of
           None \<Rightarrow> None
         | Some i \<Rightarrow>
             if m_base (entry_at arr i) \<noteq> 0 then None
             else Some \<lparr>memory = take i arr, map_addr = addr, manager_disabled = False, memory_lock = False\<rparr>)"

subsection \<open>Keeping the map in order\<close>

text \<open>The first loop of \<^verbatim>\<open>fix_memory_map\<close>: the allocations are numbered, so that no two are alike.\<close>

fun number_allocs :: "u32 \<Rightarrow> mem_entry list \<Rightarrow> mem_entry list" where
  "number_allocs a [] = []"
| "number_allocs a (x # m) =
    (if is_init_alloc (m_type x) then x\<lparr>m_type := B_MEM_INIT_ALLOC_MIN + a\<rparr> # number_allocs (a + 1) m
     else x # number_allocs a m)"

definition renumber :: "mem_entry list \<Rightarrow> mem_entry list" where
  "renumber m = take 1 m @ number_allocs 0 (drop 1 m)"

text \<open>The second loop; the first two entries of the list are \<^verbatim>\<open>m1\<close> and \<^verbatim>\<open>m2\<close>.\<close>

fun merge_entries :: "mem_entry list \<Rightarrow> mem_entry list" where
  "merge_entries (m1 # m2 # m) =
    (if m_base m2 = 0x100000000 then m1 # merge_entries (m2 # m)
     else
       let m1 = (if m_base m1 = m_base m2 then m2 else m1) in
       if m_type m1 = m_type m2 \<and> m_flags m1 = m_flags m2 \<and> m_other m1 = m_other m2
       then merge_entries (m1 # m)
       else m1 # merge_entries (m2 # m))"
| "merge_entries m = m"

definition fix_memory_map :: "mem_entry list \<Rightarrow> mem_entry list" where
  "fix_memory_map m = merge_entries (renumber m)"

subsection \<open>Allocation\<close>

text \<open>The search from the top of the map; the last argument is the loop variable.\<close>

fun find_slot :: "mem_entry list \<Rightarrow> u64 \<Rightarrow> u64 \<Rightarrow> u64 \<Rightarrow> nat \<Rightarrow> u64 \<times> nat" where
  "find_slot m addr alignment sz 0 = (0, 0)"
| "find_slot m addr alignment sz (Suc j) =
    (if Suc j > 1 then
       let x = m ! j; y = m ! Suc j in
       if base_high y \<noteq> 0 then find_slot m addr alignment sz j
       else if base_low y > addr then find_slot m addr alignment sz j
       else
         let b = base_low x; e = base_low y in
         if m_type x \<noteq> B_MEM_NORMAL \<or> sz > e - b then find_slot m addr alignment sz j
         else if no_init_alloc x then find_slot m addr alignment sz j
         else
           let remainder = (if alignment \<noteq> 0 then (e - sz) mod alignment else 0) in
           if sz + remainder \<le> e - b then (e - sz - remainder, Suc j)
           else find_slot m addr alignment sz j
     else (0, Suc j))"

definition memory_aligned_alloc :: "u64 \<Rightarrow> u64 \<Rightarrow> boot_state \<Rightarrow> u64 \<times> boot_state" where
  "memory_aligned_alloc alignment sz s =
    (if alignment > 0x00400000 \<or> sz = 0 \<or> sz \<ge> 0x7FFFFFFF then (0, s)
     else
       let m = memory s; (addr, i) = find_slot m (map_addr s) alignment sz (length m - 1) in
       if addr = 0 \<or> length m \<le> i \<or> length m \<ge> 2040 then (0, s)
       else if \<not> manager_disabled s \<and> \<not> addr < map_addr s then (0, s)
       else if \<not> manager_disabled s \<and> map_addr s - addr > 0x7F000000 then (0, s)
       else
         let t = (if \<not> manager_disabled s then B_MEM_INIT_ALLOC_MIN
                  else if addr < 0x10000000 \<and> base_low (m ! i) AND 0x3FFFFF = 0 then B_MEM_KERNEL
                  else B_MEM_KERNEL_RESERVED)
         in (addr, s\<lparr>memory := fix_memory_map (take i m @ (m ! (i - 1))\<lparr>m_type := t, m_base := addr\<rparr> # drop i m)\<rparr>))"

definition boot_aligned_alloc :: "u64 \<Rightarrow> u64 \<Rightarrow> boot_state \<Rightarrow> u64 \<times> boot_state" where
  "boot_aligned_alloc alignment sz s = (if memory_lock s then (0, s) else memory_aligned_alloc alignment sz s)"

text \<open>The byte contents that \<^verbatim>\<open>calloc\<close> clears are not part of the state.\<close>

definition boot_calloc :: "u64 \<Rightarrow> u64 \<Rightarrow> boot_state \<Rightarrow> u64 \<times> boot_state" where
  "boot_calloc nmemb sz s =
    (let total = nmemb * sz in
     if total = 0 \<or> total div nmemb \<noteq> sz then (0, s)
     else if memory_lock s then (0, s)
     else memory_aligned_alloc 16 total s)"

definition boot_malloc :: "u64 \<Rightarrow> boot_state \<Rightarrow> u64 \<times> boot_state" where
  "boot_malloc sz s = (if memory_lock s then (0, s) else memory_aligned_alloc 16 sz s)"

subsection \<open>Release\<close>

fun free_entry :: "u64 \<Rightarrow> mem_entry list \<Rightarrow> mem_entry list" where
  "free_entry addr [] = []"
| "free_entry addr (x # m) =
    (if valid_entry x then
       if m_base x = addr \<and> is_init_alloc (m_type x) then x\<lparr>m_type := B_MEM_NORMAL\<rparr> # m
       else x # free_entry addr m
     else x # m)"

text \<open>
  While another processor holds the lock the function waits: \<^const>\<open>None\<close>. After the manager has been
  disabled the lock is never released, and the function returns at once.
\<close>

definition boot_free :: "u64 \<Rightarrow> boot_state \<Rightarrow> boot_state option" where
  "boot_free ptr s =
    (if ptr = 0 then Some s
     else if memory_lock s then (if manager_disabled s then Some s else None)
     else Some (s\<lparr>memory := fix_memory_map (take 1 (memory s) @ free_entry ptr (drop 1 (memory s)))\<rparr>))"

subsection \<open>Handing the memory over to the kernel\<close>

text \<open>The loops over the valid entries that change their types.\<close>

fun retype :: "(mem_entry \<Rightarrow> u32) \<Rightarrow> mem_entry list \<Rightarrow> mem_entry list" where
  "retype f [] = []"
| "retype f (x # m) = (if valid_entry x then x\<lparr>m_type := f x\<rparr> # retype f m else x # m)"

definition reserved_type :: "u32 \<Rightarrow> u32" where
  "reserved_type t =
    (if is_init_alloc t then B_MEM_KERNEL_RESERVED
     else if t \<ge> B_MEM_DATABASE_MIN \<and> t \<le> B_MEM_DATABASE_MAX then B_MEM_KERNEL_RESERVED
     else if t = 1 \<or> t = 2 \<or> t = 3 \<or> t = 4 \<or> t = B_MEM_BOOT_LOADER \<or> t = B_MEM_UEFI_SYSCALLS \<or> t = B_MEM_INIT_EXECUTABLE
     then B_MEM_KERNEL_RESERVED
     else t)"

partial_function (option) alloc_all :: "boot_state \<Rightarrow> boot_state option" where
  "alloc_all s =
    (case memory_aligned_alloc 0x00400000 0x00400000 s of
       (addr, s') \<Rightarrow> if addr = 0 then Some s' else alloc_all s')"

text \<open>The largest block of the kernel: its base, its size and the number of blocks.\<close>

fun largest_kernel :: "mem_entry list \<Rightarrow> u32 \<times> u32 \<times> u32 \<Rightarrow> u32 \<times> u32 \<times> u32" where
  "largest_kernel (x # y # m) (kbase, ksize, kcount) =
    (if valid_entry y then
       largest_kernel (y # m)
         (if m_type x = B_MEM_KERNEL then
            let base = ucast (base_low x); sz = ucast (base_low y) - base in
            if ksize < sz then (base, sz, kcount + 1) else (kbase, ksize, kcount + 1)
          else (kbase, ksize, kcount))
     else (kbase, ksize, kcount))"
| "largest_kernel m acc = acc"

definition memory_disable_manager :: "boot_state \<Rightarrow> boot_state option" where
  "memory_disable_manager s =
    (if memory_lock s then None
     else
       let s = s\<lparr>memory_lock := True, manager_disabled := True\<rparr>;
           s = s\<lparr>memory := fix_memory_map (retype (\<lambda>x. reserved_type (m_type x)) (memory s))\<rparr>
       in case alloc_all s of
         None \<Rightarrow> None
       | Some s \<Rightarrow>
         let m = memory s;
             (kbase, ksize, kcount) = largest_kernel m (0, 0, 0);
             m = (if kcount > 1
                  then retype (\<lambda>x. if m_type x = B_MEM_KERNEL \<and> ucast (base_low x) \<noteq> kbase then B_MEM_KERNEL_RESERVED else m_type x) m
                  else m);
             m = retype (\<lambda>x. if m_type x = B_MEM_NORMAL then B_MEM_KERNEL_RESERVED else m_type x) m
         in Some (s\<lparr>memory := fix_memory_map m\<rparr>))"

subsection \<open>What the map says of an address\<close>

text \<open>
  The attributes of the region that holds an address. The numbers of the allocations do not count.
\<close>

definition kind :: "u32 \<Rightarrow> u32" where
  "kind t = (if is_init_alloc t then B_MEM_INIT_ALLOC_MIN else t)"

definition attributes :: "mem_entry \<Rightarrow> u32 \<times> u32 \<times> u8 list" where
  "attributes x = (kind (m_type x), m_flags x, m_other x)"

fun region_at :: "mem_entry list \<Rightarrow> u64 \<Rightarrow> (u32 \<times> u32 \<times> u8 list) option" where
  "region_at [] a = None"
| "region_at (x # m) a =
    (if m_base x \<le> a then (case region_at m a of None \<Rightarrow> Some (attributes x) | Some r \<Rightarrow> Some r) else None)"

text \<open>The allocations: base and end of each.\<close>

fun alloc_blocks :: "mem_entry list \<Rightarrow> (nat \<times> nat) set" where
  "alloc_blocks (x # y # m) =
    (if is_init_alloc (m_type x) \<and> m_base x < m_base y then {(unat (m_base x), unat (m_base y))} else {}) \<union>
    alloc_blocks (y # m)"
| "alloc_blocks m = {}"

abbreviation bases :: "mem_entry list \<Rightarrow> u64 list" where
  "bases m \<equiv> map m_base m"

text \<open>
  A map is in order when the bases ascend from 0, the border of 4 GiB is an entry, every entry is valid,
  and neither the first nor the last is an allocation.
\<close>

definition boot_map_ok :: "mem_entry list \<Rightarrow> bool" where
  "boot_map_ok m \<longleftrightarrow> m \<noteq> [] \<and> sorted_wrt (<) (bases m) \<and> m_base (hd m) = 0 \<and> 0x100000000 \<in> set (bases m) \<and>
    (\<forall>x \<in> set m. valid_entry x) \<and> \<not> is_init_alloc (m_type (hd m)) \<and> \<not> is_init_alloc (m_type (last m)) \<and>
    length m \<le> 2040"

text \<open>A map that is in order but for an entry that the next one replaces.\<close>

definition almost_sorted :: "u64 list \<Rightarrow> bool" where
  "almost_sorted = sorted_wrt (\<lambda>a b. a < b \<or> a = b \<and> b \<noteq> 0x100000000)"

lemma sorted_almost: "sorted_wrt (<) bs \<Longrightarrow> almost_sorted bs"
  unfolding almost_sorted_def by (erule sorted_wrt_mono_rel [rotated]) simp

lemma almost_sorted_Cons: "almost_sorted (a # b # bs) \<longleftrightarrow> (a < b \<or> a = b \<and> b \<noteq> 0x100000000) \<and> almost_sorted (b # bs)"
  unfolding almost_sorted_def by (subst sorted_wrt2) (auto simp: transp_on_def)

lemma almost_sorted_drop: "almost_sorted (a # b # bs) \<Longrightarrow> almost_sorted (a # bs)"
  unfolding almost_sorted_def by simp

subsection \<open>Numbering and merging\<close>

lemma kind_alloc: "is_init_alloc (B_MEM_INIT_ALLOC_MIN + a)" if "unat a < 0xFFFF"
proof -
  have "unat (B_MEM_INIT_ALLOC_MIN + a) = unat B_MEM_INIT_ALLOC_MIN + unat a"
    using that by (subst unat_add_lem [THEN iffD1]) (simp_all add: B_MEM_INIT_ALLOC_MIN_def)
  then show ?thesis using that by (simp add: is_init_alloc_def word_le_nat_alt b_mem_types)
qed

lemma bases_number: "bases (number_allocs a m) = bases m"
  by (induction a m rule: number_allocs.induct) simp_all

lemma bases_renumber [simp]: "bases (renumber m) = bases m"
  using bases_number [of 0 "drop 1 m"] by (cases m) (simp_all add: renumber_def)

lemma length_number [simp]: "length (number_allocs a m) = length m"
  by (induction a m rule: number_allocs.induct) simp_all

lemma unat_Suc: "unat (a + 1) = unat a + 1" if "unat a < 0xFFFF" for a :: u32
  using that by (subst unat_add_lem [THEN iffD1]) simp_all

lemma region_number: "unat a + length m < 0x10000 \<Longrightarrow> region_at (number_allocs a m) q = region_at m q"
  by (induction a m rule: number_allocs.induct)
    (auto simp: attributes_def kind_def kind_alloc unat_Suc split: option.splits)

lemma alloc_blocks_Cons:
  "m \<noteq> [] \<Longrightarrow> alloc_blocks (x # m) =
    (if is_init_alloc (m_type x) \<and> m_base x < m_base (hd m) then {(unat (m_base x), unat (m_base (hd m)))} else {}) \<union> alloc_blocks m"
  by (cases m) simp_all

lemma number_hd: "m \<noteq> [] \<Longrightarrow> number_allocs a m \<noteq> [] \<and> m_base (hd (number_allocs a m)) = m_base (hd m)"
  by (cases m) simp_all

lemma blocks_number: "unat a + length m < 0x10000 \<Longrightarrow> alloc_blocks (number_allocs a m) = alloc_blocks m"
proof (induction a m rule: number_allocs.induct)
  case (2 a x m)
  then show ?case using number_hd [of m] kind_alloc [of a] by (cases "m = []") (auto simp: alloc_blocks_Cons unat_Suc)
qed simp

lemma number_types:
  "unat a + length m < 0x10000 \<Longrightarrow>
    distinct (filter is_init_alloc (map m_type (number_allocs a m))) \<and>
    (\<forall>t \<in> set (filter is_init_alloc (map m_type (number_allocs a m))). unat t \<ge> unat B_MEM_INIT_ALLOC_MIN + unat a)"
proof (induction a m rule: number_allocs.induct)
  case (2 a x m)
  have a: "unat (B_MEM_INIT_ALLOC_MIN + a) = unat B_MEM_INIT_ALLOC_MIN + unat a"
    using 2(3) by (subst unat_add_lem [THEN iffD1]) (simp_all add: B_MEM_INIT_ALLOC_MIN_def)
  show ?case using 2 a kind_alloc [of a] unat_Suc [of a] by (cases "is_init_alloc (m_type x)") fastforce+
qed simp

definition alike :: "mem_entry \<Rightarrow> mem_entry \<Rightarrow> bool" where
  "alike x y \<longleftrightarrow> m_type x = m_type y \<and> m_flags x = m_flags y \<and> m_other x = m_other y"

lemma merge_step:
  "merge_entries (m1 # m2 # m) =
    (if m_base m2 = 0x100000000 then m1 # merge_entries (m2 # m)
     else if m_base m1 = m_base m2 then merge_entries (m2 # m)
     else if alike m1 m2 then merge_entries (m1 # m)
     else m1 # merge_entries (m2 # m))"
  by (simp add: alike_def)

declare merge_entries.simps(1) [simp del]

lemma merge_induct [case_names none one more]:
  assumes "P []" "\<And>x. P [x]" "\<And>m1 m2 m. P (m2 # m) \<Longrightarrow> P (m1 # m) \<Longrightarrow> P (m1 # m2 # m)"
  shows "P m"
proof (induction m rule: length_induct)
  case (1 m)
  then show ?case using assms by (cases m rule: remdups_adj.cases) auto
qed

lemma merge_set: "set (merge_entries m) \<subseteq> set m"
  by (induction m rule: merge_induct) (auto simp: merge_step)

lemma merge_length: "length (merge_entries m) \<le> length m"
  by (induction m rule: merge_induct) (auto simp: merge_step)

lemma merge_hd: "m \<noteq> [] \<Longrightarrow> merge_entries m \<noteq> [] \<and> m_base (hd (merge_entries m)) = m_base (hd m)"
  by (induction m rule: merge_induct) (auto simp: merge_step)

lemma merge_border: "0x100000000 \<in> set (bases m) \<Longrightarrow> 0x100000000 \<in> set (bases (merge_entries m))"
  by (induction m rule: merge_induct) (auto simp: merge_step)

lemma sorted_Cons_hd: "m \<noteq> [] \<Longrightarrow> sorted_wrt (<) (b # bases m) \<longleftrightarrow> b < m_base (hd m) \<and> sorted_wrt (<) (bases m)" for b :: u64
  by (cases m) auto

lemmas merge_cons = almost_sorted_Cons merge_step

lemma merge_sorted: "almost_sorted (bases m) \<Longrightarrow> sorted_wrt (<) (bases (merge_entries m))"
proof (induction m rule: merge_induct)
  case (more m1 m2 m)
  have "merge_entries (m2 # m) \<noteq> [] \<and> m_base (hd (merge_entries (m2 # m))) = m_base m2"
    using merge_hd [of "m2 # m"] by simp
  moreover have "almost_sorted (m_base m1 # bases m)" using more.prems almost_sorted_drop by simp
  ultimately show ?case
    using more sorted_Cons_hd [of "merge_entries (m2 # m)" "m_base m1"] by (auto simp: merge_cons)
qed simp_all

lemma region_above: "almost_sorted (b # bases m) \<Longrightarrow> a < b \<Longrightarrow> region_at m a = None"
  by (cases m) (auto simp: almost_sorted_Cons)

lemma merge_region: "almost_sorted (bases m) \<Longrightarrow> region_at (merge_entries m) a = region_at m a"
proof (induction m rule: merge_induct)
  case (more m1 m2 m)
  have "almost_sorted (m_base m1 # bases m)" using more.prems almost_sorted_drop by simp
  then show ?case using more region_above [of "m_base m2" m a]
    by (auto simp: merge_cons alike_def attributes_def split: option.splits)
qed simp_all

abbreviation unlike :: "mem_entry list \<Rightarrow> bool" where
  "unlike m \<equiv> distinct (filter is_init_alloc (map m_type m))"

lemma merge_blocks: "almost_sorted (bases m) \<Longrightarrow> unlike m \<Longrightarrow> alloc_blocks (merge_entries m) = alloc_blocks m"
proof (induction m rule: merge_induct)
  case (more m1 m2 m)
  have hd: "merge_entries (m2 # m) \<noteq> [] \<and> m_base (hd (merge_entries (m2 # m))) = m_base m2"
    using merge_hd [of "m2 # m"] by simp
  have s: "almost_sorted (m_base m2 # bases m)" "m_base m1 \<le> m_base m2" "almost_sorted (m_base m1 # bases m)"
    "unlike (m2 # m)" "unlike (m1 # m)"
    using more.prems almost_sorted_drop by (auto simp: almost_sorted_Cons split: if_splits)
  show ?case
  proof (cases "m_base m2 \<noteq> 0x100000000 \<and> alike m1 m2")
    case True
    then have "\<not> is_init_alloc (m_type m1)" "\<not> is_init_alloc (m_type m2)"
      using more.prems by (auto simp: alike_def split: if_splits)
    then show ?thesis using True more.IH s by (cases m) (auto simp: merge_step)
  next
    case False
    then show ?thesis using more.IH s hd by (auto simp: merge_step alloc_blocks_Cons)
  qed
qed simp_all

lemma kind_min: "kind t = B_MEM_INIT_ALLOC_MIN \<longleftrightarrow> is_init_alloc t"
  by (auto simp: kind_def is_init_alloc_def b_mem_types word_le_nat_alt)

lemma attributes_min: "fst (attributes x) = B_MEM_INIT_ALLOC_MIN \<longleftrightarrow> is_init_alloc (m_type x)"
  by (simp add: attributes_def kind_min)

lemma region_top: "m \<noteq> [] \<Longrightarrow> region_at m (- 1) = Some (attributes (last m))"
  by (induction m) (auto split: option.splits)

lemma region_bottom: "m \<noteq> [] \<Longrightarrow> sorted_wrt (<) (bases m) \<Longrightarrow> m_base (hd m) = 0 \<Longrightarrow> region_at m 0 = Some (attributes (hd m))"
proof (cases m)
  case (Cons x l)
  moreover assume "sorted_wrt (<) (bases m)" "m_base (hd m) = 0"
  ultimately show ?thesis by (cases l) auto
qed simp

lemma renumber_set: "x \<in> set (renumber m) \<Longrightarrow> \<exists>y \<in> set m. m_flags x = m_flags y"
proof -
  have "x \<in> set (number_allocs a l) \<Longrightarrow> \<exists>y \<in> set l. m_flags x = m_flags y" for a l
    by (induction a l rule: number_allocs.induct) (auto split: if_splits)
  then show "x \<in> set (renumber m) \<Longrightarrow> ?thesis" unfolding renumber_def by (cases m) auto
qed

lemma renumber_facts:
  assumes "length m < 0x10000" "m \<noteq> []" "\<not> is_init_alloc (m_type (hd m))"
  shows "region_at (renumber m) a = region_at m a" "alloc_blocks (renumber m) = alloc_blocks m" "unlike (renumber m)"
proof -
  obtain x l where m: "m = x # l" using assms(2) by (cases m) auto
  then have r: "renumber m = x # number_allocs 0 l" by (simp add: renumber_def)
  have l: "unat (0 :: u32) + length l < 0x10000" using assms(1) m by simp
  show "region_at (renumber m) a = region_at m a" using region_number [OF l, of a] unfolding r by (simp add: m)
  show "alloc_blocks (renumber m) = alloc_blocks m"
  proof (cases "l = []")
    case False
    have "\<not> is_init_alloc (m_type x)" using assms(3) m by simp
    then show ?thesis using blocks_number [OF l] number_hd [OF False, of 0] False unfolding r unfolding m
      by (simp add: alloc_blocks_Cons)
  qed (simp only: r, simp add: m)
  show "unlike (renumber m)" using number_types [OF l] assms(3) unfolding r unfolding m by simp
qed

lemma fix_memory_map_correct:
  assumes "m \<noteq> []" "almost_sorted (bases m)" "m_base (hd m) = 0" "0x100000000 \<in> set (bases m)" "\<forall>x \<in> set m. valid_entry x"
    and "\<not> is_init_alloc (m_type (hd m))" "\<not> is_init_alloc (m_type (last m))" "length m \<le> 2040"
    and "region_at m 0 = Some r" "fst r \<noteq> B_MEM_INIT_ALLOC_MIN"
  shows "boot_map_ok (fix_memory_map m) \<and> region_at (fix_memory_map m) = region_at m \<and> alloc_blocks (fix_memory_map m) = alloc_blocks m"
proof -
  let ?n = "renumber m" and ?f = "fix_memory_map m"
  have len: "length m < 0x10000" using assms(8) by simp
  note rn = renumber_facts [OF len assms(1,6)]
  have s: "almost_sorted (bases ?n)" using assms(2) by simp
  have n: "?n \<noteq> []" using assms(1) bases_renumber [of m] by (metis map_is_Nil_conv)
  have f: "?f \<noteq> []" "m_base (hd ?f) = 0"
    using merge_hd [OF n] assms(1,3) n by (simp_all add: fix_memory_map_def) (metis bases_renumber hd_map)
  have sorted: "sorted_wrt (<) (bases ?f)" using merge_sorted [OF s] by (simp add: fix_memory_map_def)
  have reg: "region_at ?f a = region_at m a" for a using merge_region [OF s] rn(1) by (simp add: fix_memory_map_def)
  have "valid_entry x" if "x \<in> set ?f" for x
  proof -
    have "x \<in> set ?n" using that merge_set [of ?n] by (auto simp: fix_memory_map_def)
    from renumber_set [OF this] obtain y where "y \<in> set m" "m_flags x = m_flags y" by blast
    then show ?thesis using assms(5) by (simp add: valid_entry_def)
  qed
  moreover have "length ?f \<le> 2040"
    using merge_length [of ?n] assms(8) by (simp add: fix_memory_map_def) (metis bases_renumber length_map le_trans)
  moreover have "\<not> is_init_alloc (m_type (hd ?f))"
    using region_bottom [OF f(1) sorted f(2)] reg assms(9,10) attributes_min by auto
  moreover have "\<not> is_init_alloc (m_type (last ?f))"
    using region_top [OF f(1)] region_top [OF assms(1)] reg assms(7) attributes_min by (metis option.inject)
  moreover have "0x100000000 \<in> set (bases ?f)" using merge_border [of ?n] assms(4) by (simp add: fix_memory_map_def)
  moreover have "alloc_blocks ?f = alloc_blocks m" using merge_blocks [OF s rn(3)] rn(2) by (simp add: fix_memory_map_def)
  ultimately show ?thesis using f sorted reg by (auto simp: boot_map_ok_def)
qed

subsection \<open>The search\<close>

text \<open>A region that can hold a block: it ends below 4 GiB and below the map, may be used, and has room.\<close>

definition slot_fits :: "mem_entry \<Rightarrow> mem_entry \<Rightarrow> u64 \<Rightarrow> u64 \<Rightarrow> u64 \<Rightarrow> u64 \<Rightarrow> bool" where
  "slot_fits x y addr alignment sz p \<longleftrightarrow>
    unat (m_base y) < 2 ^ 32 \<and> m_base y \<le> addr \<and> m_type x = B_MEM_NORMAL \<and> \<not> no_init_alloc x \<and>
    m_base x \<le> p \<and> unat p + unat sz \<le> unat (m_base y) \<and> unat p mod unat alignment = (if alignment = 0 then unat p else 0)"

lemma base_low_high:
  "base_high x = 0 \<longleftrightarrow> unat (m_base x) < 2 ^ 32"
  "unat (m_base x) < 2 ^ 32 \<Longrightarrow> base_low x = m_base x"
proof -
  have u: "unat (base_high x) = unat (m_base x) div 2 ^ 32"
    unfolding base_high_def by (rule unat_drop_bit_div)
  have "base_high x = 0 \<longleftrightarrow> unat (base_high x) = 0" by (simp add: unat_eq_zero)
  then show "base_high x = 0 \<longleftrightarrow> unat (m_base x) < 2 ^ 32" by (simp add: u div_eq_0_iff)
  assume "unat (m_base x) < 2 ^ 32"
  then have "unat (base_low x) = unat (m_base x)"
    unfolding base_low_def by (subst unsigned_take_bit_eq) (simp add: take_bit_nat_eq_self)
  then show "base_low x = m_base x" by (simp add: word_unat_eq_iff)
qed

lemma slot_arith:
  fixes b e sz al :: u64
  assumes "unat b \<le> unat e" "unat e < 2 ^ 32" "sz \<le> e - b"
  defines "r \<equiv> (if al \<noteq> 0 then (e - sz) mod al else 0)"
  shows "unat r = (if al \<noteq> 0 then (unat e - unat sz) mod unat al else 0)"
    "sz + r \<le> e - b \<longleftrightarrow> unat sz + unat r \<le> unat e - unat b"
    "sz + r \<le> e - b \<Longrightarrow> unat (e - sz - r) = unat e - unat sz - unat r"
    "unat sz \<le> unat e - unat b"
proof -
  have eb: "unat (e - b) = unat e - unat b" using assms(1) by (intro unat_sub) (simp add: word_le_nat_alt)
  show s: "unat sz \<le> unat e - unat b" using assms(3) eb by (simp add: word_le_nat_alt)
  have es: "unat (e - sz) = unat e - unat sz" using s by (intro unat_sub) (simp add: word_le_nat_alt)
  show r: "unat r = (if al \<noteq> 0 then (unat e - unat sz) mod unat al else 0)"
    unfolding r_def by (simp add: unat_mod es)
  have "unat r \<le> unat e" unfolding r by (auto intro: order_trans [OF mod_less_eq_dividend])
  then have a: "unat (sz + r) = unat sz + unat r" using s assms(2) by (subst unat_add_lem [THEN iffD1]) auto
  show i: "sz + r \<le> e - b \<longleftrightarrow> unat sz + unat r \<le> unat e - unat b" by (simp add: word_le_nat_alt a eb)
  assume "sz + r \<le> e - b"
  then have "unat r \<le> unat (e - sz)" using i es by linarith
  then show "unat (e - sz - r) = unat e - unat sz - unat r"
    using es by (subst unat_sub) (simp_all add: word_le_nat_alt)
qed

lemma slot_result:
  fixes b e sz al :: u64
  assumes "unat b \<le> unat e" "unat e < 2 ^ 32" "sz \<le> e - b"
    and c: "sz + (if al \<noteq> 0 then (e - sz) mod al else 0) \<le> e - b"
  defines "p \<equiv> e - sz - (if al \<noteq> 0 then (e - sz) mod al else 0)"
  shows "unat b \<le> unat p" "unat p + unat sz \<le> unat e" "unat p mod unat al = (if al = 0 then unat p else 0)"
proof -
  note ar = slot_arith(1-3) [OF assms(1-3), of al] slot_arith(4) [OF assms(1-3)]
  have p: "unat p = unat e - unat sz - unat (if al \<noteq> 0 then (e - sz) mod al else 0)" unfolding p_def using ar(3) [OF c] .
  have r: "unat sz + unat (if al \<noteq> 0 then (e - sz) mod al else 0) \<le> unat e - unat b" using ar(2) c by blast
  show "unat b \<le> unat p" "unat p + unat sz \<le> unat e" using p r assms(1) by linarith+
  show "unat p mod unat al = (if al = 0 then unat p else 0)"
  proof (cases "al = 0")
    case False
    then have "unat p = unat al * ((unat e - unat sz) div unat al)" using p ar(1) minus_mod_eq_mult_div [of "unat e - unat sz" "unat al"] by simp
    then show ?thesis using False by simp
  qed simp
qed

lemma mod_below: "q + s \<le> e \<Longrightarrow> q mod a = 0 \<Longrightarrow> q + s + (e - s) mod a \<le> e" for q s e a :: nat
proof -
  assume "q + s \<le> e" "q mod a = 0"
  then have "q = a * (q div a)" "q div a \<le> (e - s) div a" by (auto simp: div_le_mono)
  then have "q \<le> a * ((e - s) div a)" by (metis mult_le_mono2)
  then have "q \<le> e - s - (e - s) mod a" by (simp add: minus_mod_eq_mult_div)
  then show ?thesis using \<open>q + s \<le> e\<close> by (smt (verit) le_diff_conv2 add.commute add.left_commute diff_le_self le_trans mod_less_eq_dividend)
qed

lemma sorted_bases: "sorted_wrt (<) (bases m) \<Longrightarrow> i < j \<Longrightarrow> j < length m \<Longrightarrow> m_base (m ! i) < m_base (m ! j)"
  using sorted_wrt_nth_less [of "(<)" "bases m" i j] by simp

lemma find_slot_correct:
  assumes "sorted_wrt (<) (bases m)" "i < length m" "find_slot m addr al sz i = (p, k)" "0 < sz"
  shows "(p \<noteq> 0 \<longrightarrow> 2 \<le> k \<and> k \<le> i \<and> slot_fits (m ! (k - 1)) (m ! k) addr al sz p) \<and>
    (p = 0 \<longrightarrow> (\<forall>j q. 2 \<le> j \<longrightarrow> j \<le> i \<longrightarrow> \<not> slot_fits (m ! (j - 1)) (m ! j) addr al sz q)) \<and>
    (\<forall>j q. k < j \<longrightarrow> j \<le> i \<longrightarrow> \<not> slot_fits (m ! (j - 1)) (m ! j) addr al sz q)"
  using assms(2,3)
proof (induction i)
  case (Suc j)
  show ?case
  proof (cases "Suc j > 1")
    case True
    let ?x = "m ! j" and ?y = "m ! Suc j"
    let ?r = "if al \<noteq> 0 then (m_base ?y - sz) mod al else 0"
    let ?r' = "if al \<noteq> 0 then (base_low ?y - sz) mod al else 0"
    have lt: "m_base ?x < m_base ?y" using sorted_bases [OF assms(1), of j "Suc j"] Suc.prems by simp
    have pos: "0 < unat (m_base ?x)" using sorted_bases [OF assms(1), of 0 j] True Suc.prems
      by (simp add: word_less_nat_alt)
    show ?thesis
    proof (cases "\<exists>q. slot_fits ?x ?y addr al sz q")
      case fit: True
      then obtain q where q: "slot_fits ?x ?y addr al sz q" ..
      then have h: "unat (m_base ?y) < 2 ^ 32" by (simp add: slot_fits_def)
      then have lx: "unat (m_base ?x) < 2 ^ 32" using lt by (simp add: word_less_nat_alt)
      note low = base_low_high(2) [OF h] base_low_high(2) [OF lx]
      have ge: "unat (m_base ?x) \<le> unat (m_base ?y)" using lt by (simp add: word_less_nat_alt)
      have qb: "unat (m_base ?x) \<le> unat q" "unat q + unat sz \<le> unat (m_base ?y)" using q by (simp_all add: slot_fits_def word_le_nat_alt)
      have sz: "sz \<le> m_base ?y - m_base ?x"
        using qb ge by (simp add: word_le_nat_alt unat_sub)
      note ar = slot_arith(1-3) [OF ge h sz, of al] slot_arith(4) [OF ge h sz]
      have "unat sz + unat ?r \<le> unat (m_base ?y) - unat (m_base ?x)"
        using q qb mod_below [of "unat q" "unat sz" "unat (m_base ?y)" "unat al"] ar(1)
        by (auto simp: slot_fits_def low split: if_splits)
      then have c: "sz + ?r \<le> m_base ?y - m_base ?x" using ar(2) by blast
      have eq: "find_slot m addr al sz (Suc j) = (m_base ?y - sz - ?r, Suc j)"
        using True q c sz base_low_high(1) [of ?y] h by (auto simp: slot_fits_def low Let_def)
      have u: "unat (m_base ?y - sz - ?r) = unat (m_base ?y) - unat sz - unat ?r" using ar(3) c by blast
      have "slot_fits ?x ?y addr al sz (m_base ?y - sz - ?r)"
        using q slot_result [OF ge h sz c] by (simp add: slot_fits_def word_le_nat_alt)
      moreover have "m_base ?y - sz - ?r \<noteq> 0"
        using u ar(2) c pos ge by (auto simp: low word_unat_eq_iff)
      ultimately show ?thesis using Suc.prems(2) eq True by auto
    next
      case False
      have "find_slot m addr al sz (Suc j) = find_slot m addr al sz j"
      proof (rule ccontr)
        assume ne: "find_slot m addr al sz (Suc j) \<noteq> find_slot m addr al sz j"
        then have h: "unat (m_base ?y) < 2 ^ 32" "m_base ?y \<le> addr" "m_type ?x = B_MEM_NORMAL" "\<not> no_init_alloc ?x"
          and sz: "sz \<le> base_low ?y - base_low ?x" and c': "sz + ?r' \<le> base_low ?y - base_low ?x"
          using True base_low_high [of ?y] by (auto simp: Let_def split: if_splits)
        have lx: "unat (m_base ?x) < 2 ^ 32" using lt h(1) by (simp add: word_less_nat_alt)
        note low = base_low_high(2) [OF h(1)] base_low_high(2) [OF lx]
        have ge: "unat (m_base ?x) \<le> unat (m_base ?y)" using lt by (simp add: word_less_nat_alt)
        note c = c' [unfolded low]
        have "slot_fits ?x ?y addr al sz (m_base ?y - sz - ?r)"
          using h slot_result [OF ge h(1) sz [unfolded low] c] by (simp add: slot_fits_def word_le_nat_alt)
        then show False using False by blast
      qed
      then have f: "find_slot m addr al sz j = (p, k)" using Suc.prems(2) by simp
      have "j < length m" using Suc.prems by simp
      from Suc.IH [OF this f] False show ?thesis by (auto simp: le_Suc_eq)
    qed
  next
    case False
    then show ?thesis using Suc.prems(2) by auto
  qed
qed auto

subsection \<open>Splitting a region\<close>

lemma region_append:
  "almost_sorted (bases (pre @ l)) \<Longrightarrow> l \<noteq> [] \<Longrightarrow>
    region_at (pre @ l) a = (if m_base (hd l) \<le> a then region_at l a else region_at pre a)"
proof (induction pre)
  case Nil
  then show ?case by (cases l) auto
next
  case (Cons x pre)
  have s: "almost_sorted (bases (pre @ l))" "m_base x \<le> m_base (hd l)"
    using Cons.prems by (cases l; auto simp: almost_sorted_def)+
  have "region_at l a \<noteq> None" if "m_base (hd l) \<le> a" using that Cons.prems(2) by (cases l) (auto simp: attributes_def split: option.splits)
  then show ?case using Cons.IH [OF s(1) Cons.prems(2)] s(2) by (auto split: option.splits)
qed

lemma alloc_blocks_append: "alloc_blocks (pre @ x # l) = alloc_blocks (pre @ [x]) \<union> alloc_blocks (x # l)"
proof (induction pre)
  case (Cons z pre)
  then show ?case by (cases pre) (simp_all add: alloc_blocks_Cons Un_assoc)
qed simp

lemma almost_sorted_insert:
  assumes "sorted_wrt (<) (bases (pre @ x # y # post))" "m_base x \<le> p" "p < m_base y" "p \<noteq> 0x100000000"
  shows "almost_sorted (bases pre @ m_base x # p # m_base y # bases post)"
proof -
  have s: "sorted_wrt (<) (bases pre)" "sorted_wrt (<) (bases post)" "m_base x < m_base y"
    "\<forall>a \<in> set (bases pre). a < m_base x" "\<forall>b \<in> set (bases post). m_base y < b"
    "\<forall>a \<in> set (bases pre). \<forall>b \<in> set (bases post). a < b" "\<forall>a \<in> set (bases pre). a < m_base y"
    using assms(1) by (simp_all add: sorted_wrt_append)
  have "\<forall>a \<in> set (bases pre). a < p" "\<forall>b \<in> set (bases post). p < b" "\<forall>b \<in> set (bases post). m_base x < b"
    using s assms(2,3) by force+
  then show ?thesis
    using s assms(2-4) sorted_almost [OF s(1)] sorted_almost [OF s(2)]
    by (auto simp: almost_sorted_def sorted_wrt_append order_less_le)
qed

text \<open>The new entry of an allocation or of the kernel, and its effect.\<close>

lemma insert_entry:
  fixes t :: u32
  assumes ok: "boot_map_ok (pre @ x # y # post)" and "pre \<noteq> []"
    and p: "m_base x \<le> p" "p < m_base y" "p \<noteq> 0" "p \<noteq> 0x100000000" and "\<not> is_init_alloc (m_type x)"
    and len: "length (pre @ x # y # post) < 2040"
  defines "n \<equiv> fix_memory_map (pre @ x # x\<lparr>m_type := t, m_base := p\<rparr> # y # post)"
  shows "boot_map_ok n"
    "region_at n a = (if p \<le> a \<and> a < m_base y then Some (kind t, m_flags x, m_other x) else region_at (pre @ x # y # post) a)"
    "alloc_blocks n = (if is_init_alloc t then {(unat p, unat (m_base y))} else {}) \<union> alloc_blocks (pre @ x # y # post)"
proof -
  let ?x = "x\<lparr>m_type := t, m_base := p\<rparr>"
  let ?m = "pre @ x # y # post" and ?i = "pre @ x # ?x # y # post"
  have s: "sorted_wrt (<) (bases ?m)" "almost_sorted (bases ?m)" using ok sorted_almost by (auto simp: boot_map_ok_def)
  have si: "almost_sorted (bases ?i)" using almost_sorted_insert [OF s(1) p(1,2,4)] by simp
  have xl: "almost_sorted (m_base y # bases post)" using s(2) by (auto simp: almost_sorted_def sorted_wrt_append)
  have reg: "region_at ?i a = (if p \<le> a \<and> a < m_base y then Some (kind t, m_flags x, m_other x) else region_at ?m a)" for a
    using region_append [OF si, of a] region_append [OF s(2), of a] region_above [OF xl, of a] p
    by (auto simp: attributes_def split: option.splits)
  have hd: "hd ?i = hd ?m" "last ?i = last ?m" using assms(2) by simp_all
  have b0: "m_base (hd ?m) = 0" using ok by (simp add: boot_map_ok_def)
  have "region_at ?i 0 = region_at ?m 0" using p(3) by (simp add: reg)
  also have "\<dots> = Some (attributes (hd ?m))" by (rule region_bottom) (use ok in \<open>auto simp: boot_map_ok_def\<close>)
  finally have r0: "region_at ?i 0 = Some (attributes (hd ?m))" .
  have "fst (attributes (hd ?m)) \<noteq> B_MEM_INIT_ALLOC_MIN" using ok attributes_min by (auto simp: boot_map_ok_def)
  moreover have "\<forall>z \<in> set ?i. valid_entry z" using ok by (auto simp: boot_map_ok_def valid_entry_def)
  moreover have "\<not> is_init_alloc (m_type (hd ?i))" "\<not> is_init_alloc (m_type (last ?i))" "0x100000000 \<in> set (bases ?i)"
    using ok unfolding hd by (auto simp: boot_map_ok_def)
  ultimately have f: "boot_map_ok n \<and> region_at n = region_at ?i \<and> alloc_blocks n = alloc_blocks ?i"
    unfolding n_def using b0 hd len by (intro fix_memory_map_correct [OF _ si _ _ _ _ _ _ r0]) auto
  show "boot_map_ok n" using f by simp
  show "region_at n a = (if p \<le> a \<and> a < m_base y then Some (kind t, m_flags x, m_other x) else region_at ?m a)"
    using f reg by simp
  have "alloc_blocks ?i = alloc_blocks (pre @ [x]) \<union> alloc_blocks (x # ?x # y # post)" by (rule alloc_blocks_append)
  moreover have "alloc_blocks ?m = alloc_blocks (pre @ [x]) \<union> alloc_blocks (x # y # post)" by (rule alloc_blocks_append)
  ultimately show "alloc_blocks n = (if is_init_alloc t then {(unat p, unat (m_base y))} else {}) \<union> alloc_blocks ?m"
    using f assms(7) p(2) by auto
qed

subsection \<open>Allocation\<close>

lemma blocks_region:
  "sorted_wrt (<) (bases m) \<Longrightarrow> (b, e) \<in> alloc_blocks m \<Longrightarrow>
    b < e \<and> (\<forall>a. b \<le> unat a \<and> unat a < e \<longrightarrow> (\<exists>f r. region_at m a = Some (B_MEM_INIT_ALLOC_MIN, f, r)))"
proof (induction m rule: merge_induct)
  case (more x y m)
  have lt: "m_base x < m_base y" "\<forall>c \<in> set (bases m). m_base y < c" using more.prems(1) by simp_all
  show ?case
  proof (cases "(b, e) \<in> alloc_blocks (y # m)")
    case True
    then have IH: "b < e" "\<And>a. b \<le> unat a \<Longrightarrow> unat a < e \<Longrightarrow> \<exists>f r. region_at (y # m) a = Some (B_MEM_INIT_ALLOC_MIN, f, r)"
      using more by auto
    have "\<exists>f r. region_at (x # y # m) a = Some (B_MEM_INIT_ALLOC_MIN, f, r)" if "b \<le> unat a" "unat a < e" for a
    proof -
      from IH(2) [OF that] obtain f r where r: "region_at (y # m) a = Some (B_MEM_INIT_ALLOC_MIN, f, r)" by blast
      then have "m_base y \<le> a" by (auto split: if_splits)
      then have "m_base x \<le> a" using lt(1) by simp
      then show ?thesis using r by (subst region_at.simps(2)) simp
    qed
    then show ?thesis using IH(1) by blast
  next
    case False
    then have x: "is_init_alloc (m_type x)" "b = unat (m_base x)" "e = unat (m_base y)"
      using more.prems(2) by (auto split: if_splits)
    have "region_at (y # m) a = None" if "unat a < e" for a using that x(3) by (simp add: word_le_nat_alt)
    then have "region_at (x # y # m) a = Some (attributes x)" if "b \<le> unat a" "unat a < e" for a
      using that x(2) by (subst region_at.simps(2)) (simp add: word_le_nat_alt)
    moreover have "attributes x = (B_MEM_INIT_ALLOC_MIN, m_flags x, m_other x)" using x(1) by (simp add: attributes_def kind_def)
    ultimately show ?thesis using x lt(1) by (auto simp: word_less_nat_alt)
  qed
qed simp_all

lemma boot_alloc_cases:
  assumes ok: "boot_map_ok (memory s)" and alloc: "memory_aligned_alloc al sz s = (p, s')" "p \<noteq> 0"
  obtains pre x y post t where "memory s = pre @ x # y # post" "pre \<noteq> []" "slot_fits x y (map_addr s) al sz p" "0 < sz"
    "s' = s\<lparr>memory := fix_memory_map (pre @ x # x\<lparr>m_type := t, m_base := p\<rparr> # y # post)\<rparr>" "length (memory s) < 2040"
    "\<not> manager_disabled s \<Longrightarrow> t = B_MEM_INIT_ALLOC_MIN \<and> p < map_addr s \<and> unat (map_addr s) - unat p \<le> 0x7F000000"
    "manager_disabled s \<Longrightarrow> t = B_MEM_KERNEL \<or> t = B_MEM_KERNEL_RESERVED"
proof -
  let ?m = "memory s"
  have len: "0 < length ?m" and sorted: "sorted_wrt (<) (bases ?m)" using ok by (auto simp: boot_map_ok_def)
  obtain addr i where f: "find_slot ?m (map_addr s) al sz (length ?m - 1) = (addr, i)" by fastforce
  have c: "sz \<noteq> 0" "length ?m < 2040" "addr = p" "\<not> manager_disabled s \<longrightarrow> p < map_addr s \<and> \<not> map_addr s - p > 0x7F000000"
    using alloc f by (auto simp: memory_aligned_alloc_def Let_def split: if_splits)
  define t where "t = (if \<not> manager_disabled s then B_MEM_INIT_ALLOC_MIN
                  else if p < 0x10000000 \<and> base_low (?m ! i) AND 0x3FFFFF = 0 then B_MEM_KERNEL
                  else B_MEM_KERNEL_RESERVED)"
  have s': "s' = s\<lparr>memory := fix_memory_map (take i ?m @ (?m ! (i - 1))\<lparr>m_type := t, m_base := p\<rparr> # drop i ?m)\<rparr>"
    using alloc f by (auto simp: memory_aligned_alloc_def Let_def t_def split: if_splits)
  have "0 < sz" using c(1) by (simp add: word_neq_0_conv)
  from find_slot_correct [OF sorted _ f this] have i: "2 \<le> i" "i < length ?m" "slot_fits (?m ! (i - 1)) (?m ! i) (map_addr s) al sz p"
    using c(3) alloc(2) len by auto
  define pre where "pre = take (i - 1) ?m"
  define post where "post = drop (i + 1) ?m"
  have d: "drop i ?m = ?m ! i # post" "take i ?m = pre @ [?m ! (i - 1)]" "pre \<noteq> []"
    using i Cons_nth_drop_Suc [of i ?m] take_Suc_conv_app_nth [of "i - 1" ?m] by (auto simp: post_def pre_def)
  have m: "?m = pre @ ?m ! (i - 1) # ?m ! i # post" using append_take_drop_id [of i ?m] d by (metis append.assoc append_Cons append_Nil)
  have "unat (map_addr s) - unat p \<le> 0x7F000000" if "p < map_addr s" "\<not> map_addr s - p > 0x7F000000"
    using that unat_sub [of p "map_addr s"] by (simp add: word_le_nat_alt word_less_nat_alt)
  then show ?thesis
    using i \<open>0 < sz\<close> c s' d m by (intro that [of pre "?m ! (i - 1)" "?m ! i" post t]) (auto simp: t_def)
qed

text \<open>
  The effect of an allocation of \<open>sz\<close> bytes at \<open>p\<close>: the addresses from \<open>p\<close> to \<open>e\<close>, which were free
  and usable, get the type \<open>t\<close> and keep their flags and attributes; no other address changes.
\<close>

definition alloc_effect :: "boot_state \<Rightarrow> boot_state \<Rightarrow> u64 \<Rightarrow> u64 \<Rightarrow> u64 \<Rightarrow> u64 \<Rightarrow> u32 \<Rightarrow> bool" where
  "alloc_effect s s' al sz p e t \<longleftrightarrow>
    unat p + unat sz \<le> unat e \<and> p < e \<and> unat e < 2 ^ 32 \<and> e \<le> map_addr s \<and> (al \<noteq> 0 \<longrightarrow> unat p mod unat al = 0) \<and>
    (\<exists>f r. f AND 0x10000 = 0 \<and> (\<forall>a. p \<le> a \<and> a < e \<longrightarrow>
      region_at (memory s) a = Some (B_MEM_NORMAL, f, r) \<and> region_at (memory s') a = Some (t, f, r))) \<and>
    (\<forall>a. \<not> (p \<le> a \<and> a < e) \<longrightarrow> region_at (memory s') a = region_at (memory s) a) \<and>
    alloc_blocks (memory s') =
      (if manager_disabled s then alloc_blocks (memory s) else insert (unat p, unat e) (alloc_blocks (memory s))) \<and>
    s' = s\<lparr>memory := memory s'\<rparr>"

lemma memory_alloc_main:
  assumes ok: "boot_map_ok (memory s)" and alloc: "memory_aligned_alloc al sz s = (p, s')" "p \<noteq> 0"
  shows "boot_map_ok (memory s')"
    "\<exists>e t. alloc_effect s s' al sz p e t \<and>
      (if manager_disabled s then t = B_MEM_KERNEL \<or> t = B_MEM_KERNEL_RESERVED
       else t = B_MEM_INIT_ALLOC_MIN \<and> unat (map_addr s) - unat p \<le> 0x7F000000)"
proof -
  obtain pre x y post t where m: "memory s = pre @ x # y # post" "pre \<noteq> []" and fit: "slot_fits x y (map_addr s) al sz p" "0 < sz"
    and s': "s' = s\<lparr>memory := fix_memory_map (pre @ x # x\<lparr>m_type := t, m_base := p\<rparr> # y # post)\<rparr>" "length (memory s) < 2040"
    and t: "\<not> manager_disabled s \<Longrightarrow> t = B_MEM_INIT_ALLOC_MIN \<and> p < map_addr s \<and> unat (map_addr s) - unat p \<le> 0x7F000000"
      "manager_disabled s \<Longrightarrow> t = B_MEM_KERNEL \<or> t = B_MEM_KERNEL_RESERVED"
    using boot_alloc_cases [OF assms] by metis
  have szp: "0 < unat sz" using fit(2) by (simp add: word_less_nat_alt)
  have p: "m_base x \<le> p" "p < m_base y" "p \<noteq> 0x100000000" "\<not> is_init_alloc (m_type x)" "m_type x = B_MEM_NORMAL"
    using fit(1) szp by (auto simp: slot_fits_def word_less_nat_alt is_init_alloc_def b_mem_types)
  note ins = insert_entry [OF ok [unfolded m(1)] m(2) p(1,2) alloc(2) p(3,4) s'(2) [unfolded m(1)], of t, folded m(1)]
  have srt: "almost_sorted (bases (pre @ x # y # post))" using ok m(1) sorted_almost by (auto simp: boot_map_ok_def)
  have old: "region_at (memory s) a = Some (B_MEM_NORMAL, m_flags x, m_other x)" if "p \<le> a \<and> a < m_base y" for a
    using that p region_append [OF srt, of a] by (auto simp: m(1) attributes_def kind_def)
  have k: "kind t = t" using t by (cases "manager_disabled s") (auto simp: kind_def is_init_alloc_def b_mem_types)
  have al: "is_init_alloc t \<longleftrightarrow> \<not> manager_disabled s" using t by (cases "manager_disabled s") (auto simp: is_init_alloc_def b_mem_types)
  show "boot_map_ok (memory s')" using ins(1) s'(1) by simp
  have "alloc_effect s s' al sz p (m_base y) t"
    unfolding alloc_effect_def
  proof (intro conjI)
    show "\<exists>f r. f AND 0x10000 = 0 \<and> (\<forall>a. p \<le> a \<and> a < m_base y \<longrightarrow>
        region_at (memory s) a = Some (B_MEM_NORMAL, f, r) \<and> region_at (memory s') a = Some (t, f, r))"
      using old ins(2) fit(1) s'(1) k by (intro exI [of _ "m_flags x"] exI [of _ "m_other x"]) (auto simp: slot_fits_def no_init_alloc_def)
  qed (use p fit(1) ins(2,3) s'(1) al in \<open>auto simp: slot_fits_def\<close>)
  then show "\<exists>e t. alloc_effect s s' al sz p e t \<and>
      (if manager_disabled s then t = B_MEM_KERNEL \<or> t = B_MEM_KERNEL_RESERVED
       else t = B_MEM_INIT_ALLOC_MIN \<and> unat (map_addr s) - unat p \<le> 0x7F000000)"
    using t by (intro exI [of _ "m_base y"] exI [of _ t]) auto
qed

lemma alloc_null_main:
  "memory_aligned_alloc al sz s = (0, s') \<Longrightarrow> s' = s"
  by (auto simp: memory_aligned_alloc_def Let_def split: if_splits prod.splits)


subsection \<open>Release\<close>

lemma free_entry_split:
  assumes "\<forall>x \<in> set l. valid_entry x"
  shows "free_entry a l = l \<and> (\<forall>x \<in> set l. \<not> (m_base x = a \<and> is_init_alloc (m_type x))) \<or>
    (\<exists>pre x post. l = pre @ x # post \<and> m_base x = a \<and> is_init_alloc (m_type x) \<and> free_entry a l = pre @ x\<lparr>m_type := B_MEM_NORMAL\<rparr> # post)"
  using assms
proof (induction l)
  case (Cons z l)
  show ?case
  proof (cases "m_base z = a \<and> is_init_alloc (m_type z)")
    case True
    then have "free_entry a (z # l) = [] @ z\<lparr>m_type := B_MEM_NORMAL\<rparr> # l" using Cons.prems by simp
    then show ?thesis using True by (metis append_Nil)
  next
    case False
    then have e: "free_entry a (z # l) = z # free_entry a l" using Cons.prems by auto
    have "\<forall>x \<in> set l. valid_entry x" using Cons.prems by simp
    from Cons.IH [OF this] show ?thesis
    proof (elim disjE exE conjE)
      fix pre x post assume "l = pre @ x # post" "m_base x = a" "is_init_alloc (m_type x)" "free_entry a l = pre @ x\<lparr>m_type := B_MEM_NORMAL\<rparr> # post"
      then show ?thesis using e by (metis append_Cons)
    qed (use False e in auto)
  qed
qed simp

text \<open>Giving an allocation another type; the map is put in order afterwards.\<close>

lemma retype_entry:
  fixes t :: u32
  assumes ok: "boot_map_ok (pre @ x # y # post)" and "pre \<noteq> []" "\<not> is_init_alloc t" "is_init_alloc (m_type x)"
  defines "n \<equiv> fix_memory_map (pre @ x\<lparr>m_type := t\<rparr> # y # post)"
  shows "boot_map_ok n"
    "region_at n a = (if m_base x \<le> a \<and> a < m_base y then Some (t, m_flags x, m_other x) else region_at (pre @ x # y # post) a)"
    "alloc_blocks n = alloc_blocks (pre @ x # y # post) - {(unat (m_base x), unat (m_base y))}"
proof -
  let ?x = "x\<lparr>m_type := t\<rparr>"
  let ?m = "pre @ x # y # post" and ?i = "pre @ ?x # y # post"
  have s: "sorted_wrt (<) (bases ?m)" "almost_sorted (bases ?m)" using ok sorted_almost by (auto simp: boot_map_ok_def)
  have bi: "bases ?i = bases ?m" by simp
  have xl: "almost_sorted (m_base y # bases post)" using s(2) by (auto simp: almost_sorted_def sorted_wrt_append)
  have lt: "m_base x < m_base y" using s(1) by (simp add: sorted_wrt_append)
  have k: "kind t = t" using assms(3) by (simp add: kind_def)
  have reg: "region_at ?i a = (if m_base x \<le> a \<and> a < m_base y then Some (t, m_flags x, m_other x) else region_at ?m a)" for a
    using region_append [of pre "?x # y # post" a] region_append [OF s(2), of a] region_above [OF xl, of a] s(2) lt
    by (auto simp: attributes_def k split: option.splits)
  have hd: "hd ?i = hd ?m" "last ?i = last ?m" using assms(2) by simp_all
  have b0: "m_base (hd ?m) = 0" using ok by (simp add: boot_map_ok_def)
  have "0 < m_base x" using s(1) b0 assms(2) by (cases pre) (auto simp: sorted_wrt_append)
  then have "m_base x \<noteq> 0" by auto
  then have "region_at ?i 0 = region_at ?m 0" unfolding reg by simp
  also have "\<dots> = Some (attributes (hd ?m))" by (rule region_bottom) (use ok in \<open>auto simp: boot_map_ok_def\<close>)
  finally have r0: "region_at ?i 0 = Some (attributes (hd ?m))" .
  have "fst (attributes (hd ?m)) \<noteq> B_MEM_INIT_ALLOC_MIN" using ok attributes_min by (auto simp: boot_map_ok_def)
  moreover have "\<forall>z \<in> set ?i. valid_entry z" using ok by (auto simp: boot_map_ok_def valid_entry_def)
  moreover have "\<not> is_init_alloc (m_type (hd ?i))" "\<not> is_init_alloc (m_type (last ?i))" "0x100000000 \<in> set (bases ?i)"
    using ok unfolding hd bi by (auto simp: boot_map_ok_def)
  ultimately have f: "boot_map_ok n \<and> region_at n = region_at ?i \<and> alloc_blocks n = alloc_blocks ?i"
    unfolding n_def using b0 hd s(2) ok by (intro fix_memory_map_correct [OF _ _ _ _ _ _ _ _ r0]) (auto simp: boot_map_ok_def)
  show "boot_map_ok n" using f by simp
  show "region_at n a = (if m_base x \<le> a \<and> a < m_base y then Some (t, m_flags x, m_other x) else region_at ?m a)"
    using f reg by simp
  have i: "alloc_blocks ?i = alloc_blocks (pre @ [?x]) \<union> alloc_blocks (?x # y # post)" by (rule alloc_blocks_append)
  have m: "alloc_blocks ?m = alloc_blocks (pre @ [x]) \<union> alloc_blocks (x # y # post)" by (rule alloc_blocks_append)
  have e: "alloc_blocks (pre @ [?x]) = alloc_blocks (pre @ [x])"
    by (induction pre) (auto simp: alloc_blocks_Cons hd_append)
  have "(unat (m_base x), unat (m_base y)) \<notin> alloc_blocks ?i"
  proof
    assume *: "(unat (m_base x), unat (m_base y)) \<in> alloc_blocks ?i"
    have "sorted_wrt (<) (bases ?i)" using s(1) by simp
    from blocks_region [OF this *] have "\<exists>f r. region_at ?i (m_base x) = Some (B_MEM_INIT_ALLOC_MIN, f, r)"
      using lt by (simp add: word_less_nat_alt)
    then show False using reg [of "m_base x"] lt assms(3) by (auto simp: is_init_alloc_def b_mem_types)
  qed
  then show "alloc_blocks n = alloc_blocks ?m - {(unat (m_base x), unat (m_base y))}"
    using f i m e assms(3,4) lt by auto
qed

lemma blocks_split:
  "(b, e) \<in> alloc_blocks m \<Longrightarrow>
    \<exists>pre x y post. m = pre @ x # y # post \<and> is_init_alloc (m_type x) \<and> b = unat (m_base x) \<and> e = unat (m_base y)"
proof (induction m rule: merge_induct)
  case (more x y m)
  show ?case
  proof (cases "(b, e) \<in> alloc_blocks (y # m)")
    case True
    with more(1) show ?thesis by (metis append_Cons)
  next
    case False
    with more(3) have "is_init_alloc (m_type x) \<and> b = unat (m_base x) \<and> e = unat (m_base y)" by (auto split: if_splits)
    then show ?thesis by (metis append_Nil)
  qed
qed simp_all

lemma blocks_unique: "sorted_wrt (<) (bases m) \<Longrightarrow> (b, e) \<in> alloc_blocks m \<Longrightarrow> (b, e') \<in> alloc_blocks m \<Longrightarrow> e = e'"
proof (induction m rule: merge_induct)
  case (more x y m)
  have "unat (m_base x) < b" if blk: "(b, e) \<in> alloc_blocks (y # m)" for b e
  proof -
    from blocks_split [OF blk] obtain pre x' l where "y # m = pre @ x' # l" "b = unat (m_base x')" by blast
    then have "m_base x' \<in> set (bases (y # m))" "b = unat (m_base x')" by simp_all
    then show ?thesis using more.prems(1) by (auto simp: word_less_nat_alt)
  qed
  then show ?case using more.prems more.IH(1) by (auto split: if_splits)
qed simp_all

lemma fix_ok_map:
  assumes ok: "boot_map_ok m"
  shows "boot_map_ok (fix_memory_map m) \<and> region_at (fix_memory_map m) = region_at m \<and> alloc_blocks (fix_memory_map m) = alloc_blocks m"
proof (rule fix_memory_map_correct)
  show "region_at m 0 = Some (attributes (hd m))" by (rule region_bottom) (use ok in \<open>auto simp: boot_map_ok_def\<close>)
  show "fst (attributes (hd m)) \<noteq> B_MEM_INIT_ALLOC_MIN" using ok attributes_min by (auto simp: boot_map_ok_def)
qed (use ok sorted_almost in \<open>auto simp: boot_map_ok_def\<close>)

lemma boot_free_main:
  assumes ok: "boot_map_ok (memory s)" and f: "boot_free p s = Some s'" "\<not> memory_lock s"
  shows "boot_map_ok (memory s')" "s' = s\<lparr>memory := memory s'\<rparr>"
    "\<forall>e. (unat p, e) \<notin> alloc_blocks (memory s) \<Longrightarrow>
      region_at (memory s') = region_at (memory s) \<and> alloc_blocks (memory s') = alloc_blocks (memory s)"
    "(unat p, e) \<in> alloc_blocks (memory s) \<Longrightarrow>
      alloc_blocks (memory s') = alloc_blocks (memory s) - {(unat p, e)} \<and>
      (\<forall>a. region_at (memory s') a =
        (if unat p \<le> unat a \<and> unat a < e then map_option (\<lambda>(t, f, r). (B_MEM_NORMAL, f, r)) (region_at (memory s) a)
         else region_at (memory s) a))"
proof -
  let ?m = "memory s"
  obtain h l where m: "?m = h # l" using ok by (cases ?m) (auto simp: boot_map_ok_def)
  have h: "m_base h = 0" "\<not> is_init_alloc (m_type h)" "sorted_wrt (<) (bases (h # l))" "\<forall>x \<in> set l. valid_entry x"
    using ok m by (auto simp: boot_map_ok_def)
  have s': "memory s' = (if p = 0 then ?m else fix_memory_map (h # free_entry p l))" "s' = s\<lparr>memory := memory s'\<rparr>"
    using f m by (auto simp: boot_free_def split: if_splits)
  show "s' = s\<lparr>memory := memory s'\<rparr>" by (rule s'(2))
  consider (same) "memory s' = ?m \<or> memory s' = fix_memory_map ?m" "\<forall>e. (unat p, e) \<notin> alloc_blocks ?m"
    | (freed) pre x y post where "?m = (h # pre) @ x # y # post" "m_base x = p" "is_init_alloc (m_type x)"
      "memory s' = fix_memory_map ((h # pre) @ x\<lparr>m_type := B_MEM_NORMAL\<rparr> # y # post)"
  proof -
    have no: "\<forall>e. (unat p, e) \<notin> alloc_blocks ?m" if "\<forall>x \<in> set l. \<not> (m_base x = p \<and> is_init_alloc (m_type x))"
    proof (intro allI notI)
      fix e assume "(unat p, e) \<in> alloc_blocks ?m"
      from blocks_split [OF this] obtain pre x y post where "h # l = pre @ x # y # post" "is_init_alloc (m_type x)" "p = m_base x"
        unfolding m by (auto simp: word_unat_eq_iff)
      then show False using that h(2) by (cases pre) auto
    qed
    show ?thesis
    proof (cases "p = 0")
      case True
      have "\<forall>x \<in> set l. m_base x \<noteq> 0" using h(1,3) by force
      then show ?thesis using same no True s'(1) by auto
    next
      case False
      from free_entry_split [OF h(4), of p] show ?thesis
      proof (elim disjE exE conjE)
        assume "free_entry p l = l" "\<forall>x \<in> set l. \<not> (m_base x = p \<and> is_init_alloc (m_type x))"
        then show ?thesis using same no False s'(1) m by auto
      next
        fix pre x post assume l: "l = pre @ x # post" "m_base x = p" "is_init_alloc (m_type x)"
          "free_entry p l = pre @ x\<lparr>m_type := B_MEM_NORMAL\<rparr> # post"
        have "post \<noteq> []" using l(1,3) ok m by (auto simp: boot_map_ok_def)
        then obtain y post' where "post = y # post'" by (cases post) auto
        then show ?thesis using freed [of pre x y post'] l s'(1) False m by simp
      qed
    qed
  qed
  note cases = this
  show "boot_map_ok (memory s')"
  proof (cases rule: cases)
    case freed
    then show ?thesis using retype_entry(1) [of "h # pre" x y post B_MEM_NORMAL] ok
      by (simp add: is_init_alloc_def b_mem_types)
  qed (use ok fix_ok_map in auto)
  show "region_at (memory s') = region_at ?m \<and> alloc_blocks (memory s') = alloc_blocks ?m" if "\<forall>e. (unat p, e) \<notin> alloc_blocks ?m"
  proof (cases rule: cases)
    case freed
    have "m_base x < m_base y" using h(3) freed(1) m by (simp add: sorted_wrt_append)
    then have "(unat p, unat (m_base y)) \<in> alloc_blocks (x # y # post)" using freed(2,3) by simp
    then have "(unat p, unat (m_base y)) \<in> alloc_blocks ?m" unfolding freed(1) by (subst alloc_blocks_append) simp
    then show ?thesis using that by blast
  qed (use fix_ok_map [OF ok] in auto)
  show "alloc_blocks (memory s') = alloc_blocks ?m - {(unat p, e)} \<and>
      (\<forall>a. region_at (memory s') a =
        (if unat p \<le> unat a \<and> unat a < e then map_option (\<lambda>(t, f, r). (B_MEM_NORMAL, f, r)) (region_at ?m a)
         else region_at ?m a))" if e: "(unat p, e) \<in> alloc_blocks ?m"
  proof (cases rule: cases)
    case freed
    have n: "h # pre \<noteq> []" "\<not> is_init_alloc B_MEM_NORMAL" by (simp_all add: is_init_alloc_def b_mem_types)
    note rt = retype_entry [OF ok [unfolded freed(1)] n freed(3), folded freed(1) freed(4)]
    have srt: "almost_sorted (bases ((h # pre) @ x # y # post))" using ok freed(1) sorted_almost by (auto simp: boot_map_ok_def)
    have lt: "m_base x < m_base y" using h(3) freed(1) m by (simp add: sorted_wrt_append)
    have xy: "(unat p, unat (m_base y)) \<in> alloc_blocks ?m" unfolding freed(1) using lt freed(2,3) by (subst alloc_blocks_append) simp
    have "e = unat (m_base y)" using blocks_unique [OF _ e xy] ok by (simp add: boot_map_ok_def)
    moreover have "region_at ?m a = Some (B_MEM_INIT_ALLOC_MIN, m_flags x, m_other x)" if "m_base x \<le> a" "a < m_base y" for a
    proof -
      have "region_at ?m a = region_at (x # y # post) a"
        using region_append [OF srt, of a] that(1) unfolding freed(1) by (simp only: list.sel list.distinct not_False_eq_True if_True simp_thms)
      moreover have "\<not> m_base y \<le> a" using that(2) by simp
      ultimately show ?thesis using that(1) freed(3) by (simp add: attributes_def kind_def)
    qed
    ultimately show ?thesis using rt freed(2) by (auto simp: word_le_nat_alt word_less_nat_alt)
  qed (use e in auto)
qed

subsection \<open>The contract of an allocator\<close>

text \<open>While the manager is in use and its lock is free, it is an allocator in the sense of \<open>block_allocator\<close>.\<close>

definition boot_inv :: "boot_state \<Rightarrow> bool" where
  "boot_inv s \<longleftrightarrow> boot_map_ok (memory s) \<and> \<not> memory_lock s \<and> \<not> manager_disabled s"

definition boot_alloc_nat :: "nat \<Rightarrow> boot_state \<Rightarrow> nat \<times> boot_state" where
  "boot_alloc_nat n s = (if n < 2 ^ 64 then map_prod unat id (boot_malloc (word_of_nat n) s) else (0, s))"

definition boot_release_nat :: "nat \<Rightarrow> boot_state \<Rightarrow> boot_state" where
  "boot_release_nat p s = (if p < 2 ^ 64 then the (boot_free (word_of_nat p) s) else s)"

lemma u64_bound: "unat (x :: u64) < 2 ^ 64"
  using unsigned_less [of x] by simp

lemma unat_word: "n < 2 ^ 64 \<Longrightarrow> unat (word_of_nat n :: u64) = n"
  by (simp add: unat_of_nat take_bit_nat_eq_self)

lemma boot_alloc_natE:
  assumes "boot_inv s" "boot_alloc_nat n s = (p, s')" "p \<noteq> 0"
  obtains a where "p = unat a" "a \<noteq> 0" "n < 2 ^ 64" "memory_aligned_alloc 16 (word_of_nat n) s = (a, s')"
  using assms by (cases "boot_malloc (word_of_nat n) s")
    (auto simp: boot_alloc_nat_def boot_malloc_def boot_inv_def unat_eq_zero unat_gt_0 split: if_splits)

lemma boot_releaseE:
  assumes "boot_inv s" "p < 2 ^ 64"
  shows "boot_free (word_of_nat p) s = Some (boot_release_nat p s)"
  using assms by (auto simp: boot_free_def boot_release_nat_def boot_inv_def)

interpretation boot: block_allocator boot_inv "\<lambda>s. alloc_blocks (memory s)" boot_alloc_nat boot_release_nat "\<lambda>_ _. True"
proof
  fix s s' :: boot_state and n p :: nat
  assume inv: "boot_inv s"
  have ok: "boot_map_ok (memory s)" and en: "\<not> manager_disabled s" "\<not> memory_lock s" using inv by (simp_all add: boot_inv_def)
  have sorted: "sorted_wrt (<) (bases (memory s))" using ok by (simp add: boot_map_ok_def)
  {
    assume a: "boot_alloc_nat n s = (p, s')"
    {
      assume "p \<noteq> 0"
      from boot_alloc_natE [OF inv a this] obtain q where q: "p = unat q" "q \<noteq> 0" "n < 2 ^ 64" "memory_aligned_alloc 16 (word_of_nat n) s = (q, s')" .
      from memory_alloc_main(2) [OF ok q(4,2)] obtain e t where eff: "alloc_effect s s' 16 (word_of_nat n) q e t"
        and t: "t = B_MEM_INIT_ALLOC_MIN" using en by auto
      then have m: "unat q + unat (word_of_nat n :: u64) \<le> unat e" "q < e" "s' = s\<lparr>memory := memory s'\<rparr>"
          "\<And>a. q \<le> a \<Longrightarrow> a < e \<Longrightarrow> \<exists>f r. region_at (memory s) a = Some (B_MEM_NORMAL, f, r)"
          "alloc_blocks (memory s') = insert (unat q, unat e) (alloc_blocks (memory s))"
        using en by (auto simp: alloc_effect_def)
      have "manager_disabled s' = manager_disabled s" "memory_lock s' = memory_lock s"
        by (subst m(3), simp)+
      then show "boot_inv s'" using memory_alloc_main(1) [OF ok q(4,2)] en by (simp add: boot_inv_def)
      have "unat e \<le> b \<or> c \<le> unat q" if bc: "(b, c) \<in> alloc_blocks (memory s)" for b c
      proof (rule ccontr)
        assume over: "\<not> (unat e \<le> b \<or> c \<le> unat q)"
        let ?M = "max b (unat q)"
        have "b < c" using blocks_region [OF sorted bc] by simp
        moreover have "unat q < unat e" using m(2) by (simp add: word_less_nat_alt)
        ultimately have M: "b \<le> ?M" "unat q \<le> ?M" "?M < c" "?M < unat e" using over by simp_all
        then have "?M < 2 ^ 64" using u64_bound [of e] by simp
        moreover define a where "a = (word_of_nat ?M :: u64)"
        ultimately have "unat a = ?M" using unat_word [of ?M] by simp
        then have "b \<le> unat a" "unat a < c" "q \<le> a" "a < e" using M by (simp_all only: word_le_nat_alt word_less_nat_alt)
        then show False using blocks_region [OF sorted bc] m(4) [of a] by (auto simp: b_mem_types)
      qed
      then show "\<exists>e. p + n \<le> e \<and> p < e \<and> alloc_blocks (memory s') = insert (p, e) (alloc_blocks (memory s)) \<and>
          (\<forall>(b, c) \<in> alloc_blocks (memory s). e \<le> b \<or> c \<le> p)"
        using m(1,2,5) q(1) unat_word [OF q(3)] by (intro exI [of _ "unat e"]) (auto simp: word_less_nat_alt)
    }
  next
    assume "boot_alloc_nat n s = (0, s')"
    then have "s' = s" using en alloc_null_main [of 16 "word_of_nat n" s s']
      by (cases "memory_aligned_alloc 16 (word_of_nat n) s")
        (auto simp: boot_alloc_nat_def boot_malloc_def unat_eq_zero split: if_splits)
    then show "boot_inv s' \<and> alloc_blocks (memory s') = alloc_blocks (memory s)" using inv by simp
  next
    show "boot_inv (boot_release_nat p s)"
    proof (cases "p < 2 ^ 64")
      case True
      note f = boot_free_main(1,2) [OF ok boot_releaseE [OF inv True] en(2)]
      have "manager_disabled (boot_release_nat p s) = manager_disabled s" "memory_lock (boot_release_nat p s) = memory_lock s"
        by (subst f(2), simp)+
      then show ?thesis using f en by (simp add: boot_inv_def)
    qed (use inv in \<open>simp add: boot_release_nat_def\<close>)
  next
    fix e assume b: "(p, e) \<in> alloc_blocks (memory s)"
    from blocks_split [OF b] obtain pre x y post where "memory s = pre @ x # y # post" "p = unat (m_base x)" by blast
    then have p: "p < 2 ^ 64" using u64_bound [of "m_base x"] by simp
    have "(unat (word_of_nat p :: u64), e) \<in> alloc_blocks (memory s)" using b unat_word [OF p] by simp
    from boot_free_main(4) [OF ok boot_releaseE [OF inv p] en(2) this]
    have "alloc_blocks (memory (boot_release_nat p s)) = alloc_blocks (memory s) - {(p, e)}" using unat_word [OF p] by simp
    moreover have "q \<in> alloc_blocks (memory s) - {(p, e)} \<longleftrightarrow> q \<in> alloc_blocks (memory s) \<and> fst q \<noteq> p" for q
      using blocks_unique [OF sorted b, of "snd q"] by (cases q) (metis Diff_iff fst_conv snd_conv singleton_iff)
    ultimately show "alloc_blocks (memory (boot_release_nat p s)) = {q \<in> alloc_blocks (memory s). fst q \<noteq> p}"
      by blast
  next
    fix b e assume "(b, e) \<in> alloc_blocks (memory s)"
    from blocks_region [OF sorted this] show "b < e" by simp
  }
qed

subsection \<open>Handing the memory over\<close>

lemma retype_map: "\<forall>x \<in> set m. valid_entry x \<Longrightarrow> retype f m = map (\<lambda>x. x\<lparr>m_type := f x\<rparr>) m"
  by (induction m) auto

lemma region_map:
  "region_at m a = None \<and> region_at (map (\<lambda>x. x\<lparr>m_type := f x\<rparr>) m) a = None \<or>
    (\<exists>x \<in> set m. region_at m a = Some (attributes x) \<and> region_at (map (\<lambda>x. x\<lparr>m_type := f x\<rparr>) m) a = Some (attributes (x\<lparr>m_type := f x\<rparr>)))"
  by (induction m) (auto split: option.splits)

lemma region_entry: "sorted_wrt (<) (bases m) \<Longrightarrow> x \<in> set m \<Longrightarrow> region_at m (m_base x) = Some (attributes x)"
proof (induction m)
  case (Cons z m)
  show ?case
  proof (cases "x = z")
    case True
    then have "region_at m (m_base x) = None" using Cons.prems(1) by (cases m) auto
    then show ?thesis using True by simp
  next
    case False
    then show ?thesis using Cons by (auto simp: less_imp_le)
  qed
qed simp

text \<open>Changing the types of all entries, none of them to an allocation.\<close>

lemma fix_retype:
  assumes ok: "boot_map_ok m" and f: "\<And>x. x \<in> set m \<Longrightarrow> \<not> is_init_alloc (f x)"
  defines "n \<equiv> fix_memory_map (retype f m)"
  shows "boot_map_ok n" "alloc_blocks n = {}" "set n \<subseteq> (\<lambda>x. x\<lparr>m_type := f x\<rparr>) ` set m"
    "region_at n a = region_at (map (\<lambda>x. x\<lparr>m_type := f x\<rparr>) m) a"
proof -
  let ?g = "\<lambda>x. x\<lparr>m_type := f x\<rparr>"
  have v: "\<forall>x \<in> set m. valid_entry x" and ne: "m \<noteq> []" using ok by (auto simp: boot_map_ok_def)
  have r: "retype f m = map ?g m" by (rule retype_map [OF v])
  have b: "bases (map ?g m) = bases m" by simp
  have sorted: "sorted_wrt (<) (bases m)" using ok by (simp add: boot_map_ok_def)
  have na: "\<not> is_init_alloc (m_type x)" if "x \<in> set (map ?g m)" for x using that f by auto
  have hl: "hd (map ?g m) \<in> set (map ?g m)" "last (map ?g m) \<in> set (map ?g m)"
    using ne hd_in_set [of "map ?g m"] last_in_set [of "map ?g m"] by auto
  have r0: "region_at (map ?g m) 0 = Some (attributes (hd (map ?g m)))"
    using ok ne sorted by (intro region_bottom) (auto simp: boot_map_ok_def hd_map comp_def)
  have fx: "boot_map_ok n \<and> region_at n = region_at (map ?g m) \<and> alloc_blocks n = alloc_blocks (map ?g m)"
    unfolding n_def r
  proof (rule fix_memory_map_correct [OF _ _ _ _ _ _ _ _ r0])
    show "fst (attributes (hd (map ?g m))) \<noteq> B_MEM_INIT_ALLOC_MIN" using attributes_min na hl by blast
    show "\<not> is_init_alloc (m_type (hd (map ?g m)))" "\<not> is_init_alloc (m_type (last (map ?g m)))" using na hl by blast+
    show "almost_sorted (bases (map ?g m))" unfolding b by (rule sorted_almost [OF sorted])
    show "0x100000000 \<in> set (bases (map ?g m))" unfolding b using ok by (simp add: boot_map_ok_def)
  qed (use ok ne hl na in \<open>auto simp: boot_map_ok_def valid_entry_def hd_map\<close>)
  have nb: "alloc_blocks (map ?g m) = {}"
  proof -
    have "alloc_blocks l = {}" if "\<forall>x \<in> set l. \<not> is_init_alloc (m_type x)" for l
      using that by (induction l rule: alloc_blocks.induct) auto
    then show ?thesis using na by blast
  qed
  have "renumber l = l" if "\<forall>x \<in> set l. \<not> is_init_alloc (m_type x)" for l
  proof -
    have "number_allocs c l = l" if "\<forall>x \<in> set l. \<not> is_init_alloc (m_type x)" for c l
      using that by (induction c l rule: number_allocs.induct) auto
    moreover have "\<forall>x \<in> set (drop 1 l). \<not> is_init_alloc (m_type x)" using that by (meson in_set_dropD)
    ultimately show ?thesis unfolding renumber_def by (metis append_take_drop_id)
  qed
  then have "renumber (map ?g m) = map ?g m" using na by blast
  then have "set n \<subseteq> set (map ?g m)"
    unfolding n_def r fix_memory_map_def using merge_set [of "map ?g m"] by simp
  then show "set n \<subseteq> ?g ` set m" by simp
  show "boot_map_ok n" "alloc_blocks n = {}" using fx nb by simp_all
  show "region_at n a = region_at (map ?g m) a" using fx by simp
qed

text \<open>The loop that allocates as long as it can ends: each round takes addresses from the free memory.\<close>

definition free_memory :: "mem_entry list \<Rightarrow> u64 set" where
  "free_memory m = {a. \<exists>f r. region_at m a = Some (B_MEM_NORMAL, f, r)}"

definition taken_over :: "boot_state \<Rightarrow> boot_state \<Rightarrow> u64 \<Rightarrow> bool" where
  "taken_over s s' a \<longleftrightarrow> (\<exists>t f r. region_at (memory s) a = Some (B_MEM_NORMAL, f, r) \<and> f AND 0x10000 = 0 \<and> unat a < 2 ^ 32 \<and>
    region_at (memory s') a = Some (t, f, r) \<and> (t = B_MEM_KERNEL \<or> t = B_MEM_KERNEL_RESERVED))"

lemma alloc_all_main:
  assumes "boot_map_ok (memory s)" "manager_disabled s"
  shows "\<exists>s'. alloc_all s = Some s' \<and> boot_map_ok (memory s') \<and> s' = s\<lparr>memory := memory s'\<rparr> \<and>
    alloc_blocks (memory s') = alloc_blocks (memory s) \<and>
    (\<forall>a. region_at (memory s') a = region_at (memory s) a \<or> taken_over s s' a)"
  using assms
proof (induction "card (free_memory (memory s))" arbitrary: s rule: less_induct)
  case less
  obtain p s1 where al: "memory_aligned_alloc 0x00400000 0x00400000 s = (p, s1)" by fastforce
  show ?case
  proof (cases "p = 0")
    case True
    then have "alloc_all s = Some s" using al alloc_null_main [of "0x00400000" "0x00400000" s s1] by (simp add: alloc_all.simps)
    then show ?thesis using less.prems by simp
  next
    case False
    have rec: "alloc_all s = alloc_all s1" using al False by (subst alloc_all.simps) simp
    note ok1 = memory_alloc_main(1) [OF less.prems(1) al False]
    from memory_alloc_main(2) [OF less.prems(1) al False] less.prems(2) obtain e t where
      eff: "alloc_effect s s1 0x00400000 0x00400000 p e t" and t: "t = B_MEM_KERNEL \<or> t = B_MEM_KERNEL_RESERVED" by auto
    from eff obtain f r where p: "p < e" "unat e < 2 ^ 32" "f AND 0x10000 = 0"
      and new: "\<And>a. p \<le> a \<Longrightarrow> a < e \<Longrightarrow> region_at (memory s) a = Some (B_MEM_NORMAL, f, r) \<and> region_at (memory s1) a = Some (t, f, r)"
      and old: "\<And>a. \<not> (p \<le> a \<and> a < e) \<Longrightarrow> region_at (memory s1) a = region_at (memory s) a"
      and st: "s1 = s\<lparr>memory := memory s1\<rparr>" "alloc_blocks (memory s1) = alloc_blocks (memory s)"
      using less.prems(2) unfolding alloc_effect_def by auto
    have tn: "t \<noteq> B_MEM_NORMAL" using t by (auto simp: b_mem_types)
    have sub: "free_memory (memory s1) \<subseteq> free_memory (memory s)"
    proof
      fix a assume "a \<in> free_memory (memory s1)"
      then show "a \<in> free_memory (memory s)" using new [of a] old [of a] tn by (cases "p \<le> a \<and> a < e") (auto simp: free_memory_def)
    qed
    have "p \<in> free_memory (memory s)" "p \<notin> free_memory (memory s1)" using new [of p] p(1) tn by (auto simp: free_memory_def)
    then have "card (free_memory (memory s1)) < card (free_memory (memory s))" using sub by (intro psubset_card_mono) auto
    moreover have d1: "manager_disabled s1" by (subst st(1)) (simp add: less.prems(2))
    ultimately obtain s' where IH: "alloc_all s1 = Some s'" "boot_map_ok (memory s')" "s' = s1\<lparr>memory := memory s'\<rparr>"
      "alloc_blocks (memory s') = alloc_blocks (memory s1)"
      "\<And>a. region_at (memory s') a = region_at (memory s1) a \<or> taken_over s1 s' a"
      using less.hyps [OF _ ok1] by blast
    have "region_at (memory s') a = region_at (memory s) a \<or> taken_over s s' a" for a
    proof (cases "p \<le> a \<and> a < e")
      case True
      then have a: "unat a < 2 ^ 32" using p(2) by (simp add: word_less_nat_alt)
      have "\<not> taken_over s1 s' a" using new [of a] True tn by (auto simp: taken_over_def)
      then have "region_at (memory s') a = Some (t, f, r)" using IH(5) [of a] new [of a] True by simp
      then show ?thesis using new [of a] True t a p(3) by (auto simp: taken_over_def)
    next
      case False
      then show ?thesis using IH(5) [of a] old [of a] by (auto simp: taken_over_def)
    qed
    moreover have "s' = s\<lparr>memory := memory s'\<rparr>" using IH(3) st(1) by (metis boot_state.surjective boot_state.update_convs(1))
    ultimately show ?thesis using rec IH(1,2,4) st(2) by auto
  qed
qed

lemma largest_count:
  "\<forall>x \<in> set m. valid_entry x \<Longrightarrow>
    snd (snd (largest_kernel m (b, z, c))) = c + word_of_nat (length (filter (\<lambda>x. m_type x = B_MEM_KERNEL) (butlast m)))"
  by (induction m "(b, z, c)" arbitrary: b z c rule: largest_kernel.induct) (auto simp: Let_def)

lemma at_most_one:
  assumes "distinct l" "\<And>x y. x \<in> set l \<Longrightarrow> y \<in> set l \<Longrightarrow> P x \<Longrightarrow> P y \<Longrightarrow> x = y"
  shows "length (filter P l) \<le> 1"
proof -
  have "length (filter P l) = card (set (filter P l))" using distinct_card [of "filter P l"] assms(1) by simp
  also have "\<dots> \<le> 1" using assms(2) by (intro card_le_Suc0_iff_eq [THEN iffD2, unfolded One_nat_def [symmetric]]) auto
  finally show ?thesis .
qed

lemma disable_main:
  assumes ok: "boot_map_ok (memory s)" and free: "\<not> memory_lock s"
    and no: "\<forall>x \<in> set (memory s). m_type x \<noteq> B_MEM_KERNEL"
  shows "\<exists>s'. memory_disable_manager s = Some s' \<and> boot_map_ok (memory s') \<and> manager_disabled s' \<and> memory_lock s' \<and>
    alloc_blocks (memory s') = {} \<and>
    length (filter (\<lambda>x. m_type x = B_MEM_KERNEL) (memory s')) \<le> 1 \<and>
    (\<forall>a t f r. region_at (memory s) a = Some (t, f, r) \<longrightarrow>
      (if t = B_MEM_NORMAL then
         (\<exists>t'. region_at (memory s') a = Some (t', f, r) \<and>
           (t' = B_MEM_KERNEL_RESERVED \<or> t' = B_MEM_KERNEL \<and> f AND 0x10000 = 0 \<and> unat a < 2 ^ 32))
       else region_at (memory s') a = Some (reserved_type t, f, r)))"
proof -
  define s1 where "s1 = s\<lparr>memory_lock := True, manager_disabled := True,
    memory := fix_memory_map (retype (\<lambda>x. reserved_type (m_type x)) (memory s))\<rparr>"
  have nr: "\<not> is_init_alloc (reserved_type t)" for t by (auto simp: reserved_type_def is_init_alloc_def b_mem_types)
  note r1 = fix_retype [OF ok, of "\<lambda>x. reserved_type (m_type x)", OF nr]
  have ok1: "boot_map_ok (memory s1)" "manager_disabled s1" using r1(1) by (simp_all add: s1_def)
  from alloc_all_main [OF ok1] obtain s2 where s2: "alloc_all s1 = Some s2" "boot_map_ok (memory s2)" "s2 = s1\<lparr>memory := memory s2\<rparr>"
    "alloc_blocks (memory s2) = alloc_blocks (memory s1)"
    and reg2: "\<And>a. region_at (memory s2) a = region_at (memory s1) a \<or> taken_over s1 s2 a" by blast
  obtain kbase ksize kcount where k: "largest_kernel (memory s2) (0, 0, 0) = (kbase, ksize, kcount)" by (metis prod_cases3)
  define g where "g = (\<lambda>x. if m_type x = B_MEM_KERNEL \<and> ucast (base_low x) \<noteq> kbase \<and> kcount > 1 then B_MEM_KERNEL_RESERVED
    else if m_type x = B_MEM_NORMAL then B_MEM_KERNEL_RESERVED else m_type x)"
  define s' where "s' = s2\<lparr>memory := fix_memory_map (retype g (memory s2))\<rparr>"
  have v2: "\<forall>x \<in> set (memory s2). valid_entry x" and sorted2: "sorted_wrt (<) (bases (memory s2))" and ne2: "memory s2 \<noteq> []"
    and len2: "length (memory s2) \<le> 2040" using s2(2) by (auto simp: boot_map_ok_def)
  have rt: "retype g (memory s2) = retype (\<lambda>x. if m_type x = B_MEM_NORMAL then B_MEM_KERNEL_RESERVED else m_type x)
     (if kcount > 1
      then retype (\<lambda>x. if m_type x = B_MEM_KERNEL \<and> ucast (base_low x) \<noteq> kbase then B_MEM_KERNEL_RESERVED else m_type x) (memory s2)
      else memory s2)"
    using v2 by (auto simp: retype_map valid_entry_def g_def b_mem_types)
  have run: "memory_disable_manager s = Some s'"
    using free s2(1) k unfolding memory_disable_manager_def s'_def rt s1_def by (simp add: Let_def)
  text \<open>There are no allocations, neither before nor after the loop, and the kernel has its memory below 4 GiB.\<close>
  have reg1: "region_at (memory s1) a = map_option (\<lambda>(t, f, r). (reserved_type t, f, r)) (region_at (memory s) a)" for a
  proof -
    have "reserved_type (kind t) = reserved_type t" "kind (reserved_type t) = reserved_type t" for t
      using nr [of t] by (auto simp: kind_def reserved_type_def is_init_alloc_def b_mem_types)
    then show ?thesis
      using region_map [of "memory s" a "\<lambda>x. reserved_type (m_type x)"] by (auto simp: s1_def r1(4) attributes_def)
  qed
  have entry2: "region_at (memory s2) (m_base x) = Some (attributes x)" if "x \<in> set (memory s2)" for x
    by (rule region_entry [OF sorted2 that])
  have nk: "reserved_type t \<noteq> B_MEM_KERNEL" if "t \<noteq> B_MEM_KERNEL" for t using that by (auto simp: reserved_type_def b_mem_types)
  have no1: "region_at (memory s1) a \<noteq> Some (B_MEM_KERNEL, f, r)" for a f r
  proof
    assume "region_at (memory s1) a = Some (B_MEM_KERNEL, f, r)"
    then obtain t where "region_at (memory s) a = Some (t, f, r)" "reserved_type t = B_MEM_KERNEL" by (auto simp: reg1)
    then have "t = B_MEM_KERNEL" using nk by blast
    then have "region_at (memory s) a = Some (B_MEM_KERNEL, f, r)" using \<open>region_at (memory s) a = Some (t, f, r)\<close> by simp
    then obtain x where "x \<in> set (memory s)" "attributes x = (B_MEM_KERNEL, f, r)"
      using region_map [of "memory s" a m_type] by auto
    then show False using no by (auto simp: attributes_def kind_def b_mem_types split: if_splits)
  qed
  have na2: "\<not> is_init_alloc (m_type x)" if x: "x \<in> set (memory s2)" for x
  proof
    assume "is_init_alloc (m_type x)"
    then have two: "region_at (memory s2) (m_base x) = Some (B_MEM_INIT_ALLOC_MIN, m_flags x, m_other x)"
      using entry2 [OF x] by (simp add: attributes_def kind_def)
    then have "\<not> taken_over s1 s2 (m_base x)" by (auto simp: taken_over_def b_mem_types)
    then have "region_at (memory s1) (m_base x) = Some (B_MEM_INIT_ALLOC_MIN, m_flags x, m_other x)" using two reg2 by metis
    then obtain t where "reserved_type t = B_MEM_INIT_ALLOC_MIN" by (auto simp: reg1)
    then show False using nr [of t] by (simp add: is_init_alloc_def b_mem_types)
  qed
  have low2: "unat (m_base x) < 2 ^ 32" if "x \<in> set (memory s2)" "m_type x = B_MEM_KERNEL" for x
  proof -
    have "region_at (memory s2) (m_base x) = Some (B_MEM_KERNEL, m_flags x, m_other x)"
      using entry2 [OF that(1)] that(2) by (simp add: attributes_def kind_def is_init_alloc_def b_mem_types)
    then have "region_at (memory s2) (m_base x) \<noteq> region_at (memory s1) (m_base x)" using no1 by metis
    then show ?thesis using reg2 [of "m_base x"] by (auto simp: taken_over_def)
  qed
  have ng: "\<not> is_init_alloc (g x)" if "x \<in> set (memory s2)" for x
    using na2 [OF that] by (auto simp: g_def is_init_alloc_def b_mem_types)
  note r3 = fix_retype [OF s2(2), of g, OF ng]
  have ms': "memory s' = fix_memory_map (retype g (memory s2))" by (simp add: s'_def)
  have top: "m_type (last (memory s2)) \<noteq> B_MEM_KERNEL"
  proof
    assume "m_type (last (memory s2)) = B_MEM_KERNEL"
    then have lo: "unat (m_base (last (memory s2))) < 2 ^ 32" using low2 ne2 by simp
    obtain z where z: "z \<in> set (memory s2)" "m_base z = 0x100000000" using s2(2) by (auto simp: boot_map_ok_def)
    have "m_base z \<le> m_base (last (memory s2))"
      using z(1) sorted2 ne2 by (cases "memory s2" rule: rev_cases) (auto simp: sorted_wrt_append less_imp_le)
    then show False using z(2) lo by (simp add: word_le_nat_alt)
  qed
  let ?K = "\<lambda>x. m_type x = B_MEM_KERNEL"
  have same: "m_base y = m_base z" if "y \<in> set (memory s2)" "z \<in> set (memory s2)" "g y = B_MEM_KERNEL" "g z = B_MEM_KERNEL" for y z
  proof -
    have K: "?K y" "?K z" using that(3,4) by (auto simp: g_def b_mem_types split: if_splits)
    show ?thesis
    proof (cases "kcount > 1")
      case True
      have "ucast (base_low y) = kbase" "ucast (base_low z) = kbase"
        using that(3,4) True K by (auto simp: g_def b_mem_types split: if_splits)
      then have "(ucast (m_base y) :: u32) = ucast (m_base z)"
        using base_low_high(2) [OF low2] that(1,2) K by metis
      then have "unat (ucast (m_base y) :: u32) = unat (ucast (m_base z) :: u32)" by simp
      then show ?thesis using low2 that(1,2) K by (simp add: unsigned_ucast_eq take_bit_nat_eq_self word_unat_eq_iff)
    next
      case False
      have "filter ?K (memory s2) = filter ?K (butlast (memory s2) @ [last (memory s2)])" using ne2 by simp
      also have "\<dots> = filter ?K (butlast (memory s2))" using top by simp
      finally have f: "filter ?K (memory s2) = filter ?K (butlast (memory s2))" .
      let ?n = "length (filter ?K (butlast (memory s2)))"
      have "kcount = word_of_nat ?n" using largest_count [OF v2, of 0 0 0] k by simp
      moreover have "?n < 2 ^ 32" using length_filter_le [of ?K "butlast (memory s2)"] len2 by simp
      ultimately have "?n \<le> 1" using False by (simp add: word_less_nat_alt unat_of_nat take_bit_nat_eq_self)
      moreover have "y \<in> set (filter ?K (memory s2))" "z \<in> set (filter ?K (memory s2))" using that(1,2) K by simp_all
      ultimately show ?thesis unfolding f by (cases "filter ?K (butlast (memory s2))") auto
    qed
  qed
  have sub: "set (memory s') \<subseteq> (\<lambda>x. x\<lparr>m_type := g x\<rparr>) ` set (memory s2)"
    unfolding ms' by (rule r3(3))
  have one: "length (filter ?K (memory s')) \<le> 1"
  proof (rule at_most_one)
    have "distinct (bases (memory s'))" using r3(1) ms' by (simp add: boot_map_ok_def strict_sorted_iff)
    then show "distinct (memory s')" by (simp add: distinct_map)
    fix x y assume xy: "x \<in> set (memory s')" "y \<in> set (memory s')" "?K x" "?K y"
    have "x \<in> (\<lambda>x. x\<lparr>m_type := g x\<rparr>) ` set (memory s2)" "y \<in> (\<lambda>x. x\<lparr>m_type := g x\<rparr>) ` set (memory s2)"
      by (rule subsetD [OF sub xy(1)], rule subsetD [OF sub xy(2)])
    then obtain x' y' where "x' \<in> set (memory s2)" "y' \<in> set (memory s2)"
      "x = x'\<lparr>m_type := g x'\<rparr>" "y = y'\<lparr>m_type := g y'\<rparr>" by blast
    then have "m_base x = m_base y" using same [of x' y'] xy(3,4) by simp
    then show "x = y" using \<open>distinct (bases (memory s'))\<close> xy(1,2) by (auto simp: distinct_map inj_on_def)
  qed
  have reg3: "if t = B_MEM_NORMAL then
         (\<exists>t'. region_at (memory s') a = Some (t', f, r) \<and>
           (t' = B_MEM_KERNEL_RESERVED \<or> t' = B_MEM_KERNEL \<and> f AND 0x10000 = 0 \<and> unat a < 2 ^ 32))
       else region_at (memory s') a = Some (reserved_type t, f, r)"
    if a: "region_at (memory s) a = Some (t, f, r)" for a t f r
  proof -
    have a1: "region_at (memory s1) a = Some (reserved_type t, f, r)" using a by (simp add: reg1)
    have nt: "reserved_type t \<noteq> B_MEM_KERNEL" using a1 no1 by auto
    have tn: "reserved_type t = B_MEM_NORMAL \<longleftrightarrow> t = B_MEM_NORMAL" by (auto simp: reserved_type_def is_init_alloc_def b_mem_types)
    obtain x where x: "x \<in> set (memory s2)" "region_at (memory s2) a = Some (attributes x)"
      "region_at (memory s') a = Some (attributes (x\<lparr>m_type := g x\<rparr>))"
      using region_map [of "memory s2" a g] reg2 [of a] a1 r3(4) [of a] ms' by (auto simp: taken_over_def)
    have kx: "attributes x = (m_type x, m_flags x, m_other x)" "attributes (x\<lparr>m_type := g x\<rparr>) = (g x, m_flags x, m_other x)"
      using na2 [OF x(1)] ng [OF x(1)] by (simp_all add: attributes_def kind_def)
    from reg2 [of a] show ?thesis
    proof
      assume "region_at (memory s2) a = region_at (memory s1) a"
      then have "m_type x = reserved_type t" "m_flags x = f" "m_other x = r" using x(2) a1 kx(1) by simp_all
      then show ?thesis using x(3) kx(2) nt tn by (auto simp: g_def)
    next
      assume "taken_over s1 s2 a"
      then obtain t2 where t2: "t = B_MEM_NORMAL" "f AND 0x10000 = 0" "unat a < 2 ^ 32" "region_at (memory s2) a = Some (t2, f, r)"
        "t2 = B_MEM_KERNEL \<or> t2 = B_MEM_KERNEL_RESERVED" using a1 tn by (auto simp: taken_over_def)
      then have "m_type x = t2" "m_flags x = f" "m_other x = r" using x(2) kx(1) by simp_all
      then show ?thesis using x(3) kx(2) t2 by (auto simp: g_def b_mem_types)
    qed
  qed
  have flags: "manager_disabled s'" "memory_lock s'" by (subst s'_def, subst s2(3), simp add: s1_def)+
  show ?thesis
  proof (intro exI [of _ s'] conjI)
    show "boot_map_ok (memory s')" unfolding ms' by (rule r3(1))
    show "alloc_blocks (memory s') = {}" unfolding ms' by (rule r3(2))
    show "\<forall>a t f r. region_at (memory s) a = Some (t, f, r) \<longrightarrow>
      (if t = B_MEM_NORMAL then
         (\<exists>t'. region_at (memory s') a = Some (t', f, r) \<and>
           (t' = B_MEM_KERNEL_RESERVED \<or> t' = B_MEM_KERNEL \<and> f AND 0x10000 = 0 \<and> unat a < 2 ^ 32))
       else region_at (memory s') a = Some (reserved_type t, f, r))"
      using reg3 by blast
  qed (rule run flags one)+
qed

subsection \<open>Taking over the map, proofs\<close>

abbreviation base_at :: "mem_entry list \<Rightarrow> nat \<Rightarrow> u64" where
  "base_at arr i \<equiv> m_base (entry_at arr i)"

lemma init_scan_correct:
  "init_scan addr arr (x, y, z) i = Some ((x', y', z'), k) \<Longrightarrow>
    i \<le> k \<and> 0 < k \<and> (i \<le> 1536 \<longrightarrow> k \<le> 1536) \<and> base_at arr k = 0 \<and>
    (\<forall>j. i \<le> j \<longrightarrow> j < k \<longrightarrow> (j = 0 \<or> base_at arr j \<noteq> 0) \<and> base_at arr j \<le> base_at arr (j + 1) - 1) \<and>
    (x' \<longrightarrow> x \<or> (\<exists>j. i \<le> j \<and> j < k \<and> m_type (entry_at arr j) \<in> {B_MEM_BOOT_LOADER, B_MEM_UEFI_SYSCALLS})) \<and>
    (y' \<longrightarrow> y \<or> (\<exists>j. i \<le> j \<and> j < k \<and> m_type (entry_at arr j) = B_MEM_INIT_EXECUTABLE \<and>
      base_at arr j = addr - 0x10000 \<and> base_at arr (j + 1) = base_at arr j + 0x20000)) \<and>
    (z' \<longrightarrow> z \<or> (\<exists>j. i \<le> j \<and> j < k \<and> base_at arr (j + 1) = 0x100000000))"
proof (induction "1536 - i" arbitrary: i x y z rule: less_induct)
  case less
  let ?b = "base_at arr i" and ?e = "base_at arr (i + 1)" and ?t = "m_type (entry_at arr i)"
  show ?case
  proof (cases "i = 0 \<or> ?b \<noteq> 0")
    case False
    then show ?thesis using less.prems by (subst (asm) init_scan.simps) (auto split: if_splits)
  next
    case True
    have g: "\<not> (?b > ?e - 1 \<or> i \<ge> 1536)"
      using less.prems True by (subst (asm) init_scan.simps) (auto simp: Let_def split: if_splits)
    let ?z = "z \<or> ?e - 1 = 0xFFFFFFFF"
    let ?x = "x \<or> ?t = B_MEM_BOOT_LOADER \<or> ?t = B_MEM_UEFI_SYSCALLS"
    let ?y = "y \<or> ?t = B_MEM_INIT_EXECUTABLE"
    have rec: "init_scan addr arr (?x, ?y, ?z) (i + 1) = Some ((x', y', z'), k)"
      and ex: "?t = B_MEM_INIT_EXECUTABLE \<longrightarrow> ?b = addr - 0x10000 \<and> ?e - ?b = 0x20000"
      using less.prems True g
      by (subst (asm) init_scan.simps, auto simp: Let_def b_mem_types split: if_splits)+
    have "1536 - (i + 1) < 1536 - i" using g by auto
    note IH = less.hyps [OF this rec]
    have zz: "?e - 1 = 0xFFFFFFFF \<longleftrightarrow> ?e = 0x100000000" by (simp add: diff_eq_eq)
    have yy: "?t = B_MEM_INIT_EXECUTABLE \<longrightarrow> ?b = addr - 0x10000 \<and> ?e = ?b + 0x20000" using ex by (auto simp: diff_eq_eq)
    have st: "(j = 0 \<or> base_at arr j \<noteq> 0) \<and> base_at arr j \<le> base_at arr (j + 1) - 1" if "i \<le> j" "j < k" for j
      using IH that True g by (cases "j = i") auto
    have IHx: "?x \<or> (\<exists>j. i + 1 \<le> j \<and> j < k \<and> m_type (entry_at arr j) \<in> {B_MEM_BOOT_LOADER, B_MEM_UEFI_SYSCALLS})" if x' using IH that by blast
    have IHy: "?y \<or> (\<exists>j. i + 1 \<le> j \<and> j < k \<and> m_type (entry_at arr j) = B_MEM_INIT_EXECUTABLE \<and> base_at arr j = addr - 0x10000 \<and> base_at arr (j + 1) = base_at arr j + 0x20000)" if y' using IH that by blast
    have IHz: "?z \<or> (\<exists>j. i + 1 \<le> j \<and> j < k \<and> base_at arr (j + 1) = 0x100000000)" if z' using IH that by blast
    have ik: "i < k" "i \<le> i" using IH by simp_all
    have later: "\<exists>j. i \<le> j \<and> j < k \<and> P j" if "\<exists>j. i + 1 \<le> j \<and> j < k \<and> P j" for P
      using that by (meson add_leD1)
    show ?thesis
    proof (intro conjI impI)
      show "\<forall>j. i \<le> j \<longrightarrow> j < k \<longrightarrow> (j = 0 \<or> base_at arr j \<noteq> 0) \<and> base_at arr j \<le> base_at arr (j + 1) - 1"
        using st by blast
      assume x'
      then show "x \<or> (\<exists>j. i \<le> j \<and> j < k \<and> m_type (entry_at arr j) \<in> {B_MEM_BOOT_LOADER, B_MEM_UEFI_SYSCALLS})"
        using IHx [OF \<open>x'\<close>] later [of "\<lambda>j. m_type (entry_at arr j) \<in> {B_MEM_BOOT_LOADER, B_MEM_UEFI_SYSCALLS}"] ik by blast
    next
      assume y'
      then show "y \<or> (\<exists>j. i \<le> j \<and> j < k \<and> m_type (entry_at arr j) = B_MEM_INIT_EXECUTABLE \<and>
          base_at arr j = addr - 0x10000 \<and> base_at arr (j + 1) = base_at arr j + 0x20000)"
        using IHy [OF \<open>y'\<close>] later [of "\<lambda>j. m_type (entry_at arr j) = B_MEM_INIT_EXECUTABLE \<and> base_at arr j = addr - 0x10000 \<and> base_at arr (j + 1) = base_at arr j + 0x20000"] yy ik by blast
    next
      assume z'
      then show "z \<or> (\<exists>j. i \<le> j \<and> j < k \<and> base_at arr (j + 1) = 0x100000000)"
        using IHz [OF \<open>z'\<close>] later [of "\<lambda>j. base_at arr (j + 1) = 0x100000000"] zz ik by blast
    next
      assume "i \<le> 1536"
      then show "k \<le> 1536" using IH g by simp
    qed (use IH in simp_all)
  qed
qed

lemma init_skip_le: "init_skip arr i = Some k \<Longrightarrow> i \<le> k \<and> m_flags (entry_at arr k) = 0"
proof (induction arr i rule: init_skip.induct)
  case (1 arr i)
  then show ?case by (subst (asm) (2) init_skip.simps) (fastforce split: if_splits)
qed

lemma memory_init_main:
  assumes "memory_init addr arr = Some s"
  obtains k n where "0 < k" "k \<le> n" "k \<le> 1536" "base_at arr 0 = 0" "base_at arr k = 0"
    "\<forall>j<k. (j = 0 \<or> base_at arr j \<noteq> 0) \<and> base_at arr j \<le> base_at arr (j + 1) - 1"
    "\<exists>j<k. m_type (entry_at arr j) \<in> {B_MEM_BOOT_LOADER, B_MEM_UEFI_SYSCALLS}"
    "\<exists>j<k. m_type (entry_at arr j) = B_MEM_INIT_EXECUTABLE \<and> base_at arr j = addr - 0x10000 \<and> base_at arr (j + 1) = base_at arr j + 0x20000"
    "\<exists>j<k. base_at arr (j + 1) = 0x100000000"
    "s = \<lparr>memory = take n arr, map_addr = addr, manager_disabled = False, memory_lock = False\<rparr>"
proof -
  obtain k n where b0: "base_at arr 0 = 0" and k: "init_scan addr arr (False, False, False) 0 = Some ((True, True, True), k)"
    and n: "init_skip arr k = Some n" "base_at arr n = 0"
    and s: "s = \<lparr>memory = take n arr, map_addr = addr, manager_disabled = False, memory_lock = False\<rparr>"
    using assms by (auto simp: memory_init_def split: if_splits option.splits prod.splits)
  show ?thesis using init_scan_correct [OF k] init_skip_le [OF n(1)] b0 n(2) s by (intro that [of k n]) auto
qed

subsection \<open>Properties\<close>

lemma alloc_effect_apart:
  assumes ok: "boot_map_ok (memory s)" and eff: "alloc_effect s s' al sz p e t" and bc: "(b, c) \<in> alloc_blocks (memory s)"
  shows "unat e \<le> b \<or> c \<le> unat p"
proof (rule ccontr)
  assume over: "\<not> (unat e \<le> b \<or> c \<le> unat p)"
  have sorted: "sorted_wrt (<) (bases (memory s))" using ok by (simp add: boot_map_ok_def)
  let ?M = "max b (unat p)"
  have "b < c" using blocks_region [OF sorted bc] by simp
  moreover have "unat p < unat e" using eff by (simp add: alloc_effect_def word_less_nat_alt)
  ultimately have M: "b \<le> ?M" "unat p \<le> ?M" "?M < c" "?M < unat e" using over by simp_all
  then have "?M < 2 ^ 64" using u64_bound [of e] by simp
  moreover define a where "a = (word_of_nat ?M :: u64)"
  ultimately have "unat a = ?M" using unat_word [of ?M] by simp
  then have a: "b \<le> unat a" "unat a < c" "p \<le> a" "a < e" using M by (simp_all only: word_le_nat_alt word_less_nat_alt)
  then obtain f r where "region_at (memory s) a = Some (B_MEM_NORMAL, f, r)" using eff unfolding alloc_effect_def by blast
  then show False using blocks_region [OF sorted bc] a(1,2) by (auto simp: b_mem_types)
qed

text \<open>
  C37. Taking over the map. When \<^verbatim>\<open>memory_init\<close> accepts a map, the entries in front of the next base 0
  ascend strictly from 0, the border of 4 GiB is one of them, the map lies in the middle of the region of the
  init executable, and the loader has its region. Behind them the function only counts entries with flags. When there
  are none, all entries are marked as valid, and neither the first nor the last is an allocation, the state
  satisfies the invariant of the manager.
\<close>

theorem boot_init_correct:
  assumes init: "memory_init addr arr = Some s"
  shows "map_addr s = addr \<and> \<not> manager_disabled s \<and> \<not> memory_lock s \<and> memory s = take (length (memory s)) arr \<and>
    (\<exists>k. 2 \<le> k \<and> k \<le> length (memory s) \<and> k \<le> 1536 \<and> m_base (entry_at (memory s) k) = 0 \<and>
      sorted_wrt (<) (bases (take k (memory s))) \<and> m_base (memory s ! 0) = 0 \<and> 0x100000000 \<in> set (bases (take k (memory s))) \<and>
      (\<exists>i < k. m_type (memory s ! i) = B_MEM_INIT_EXECUTABLE \<and> m_base (memory s ! i) = addr - 0x10000 \<and>
        m_base (entry_at (memory s) (i + 1)) = addr + 0x10000) \<and>
      (\<exists>i < k. m_type (memory s ! i) \<in> {B_MEM_BOOT_LOADER, B_MEM_UEFI_SYSCALLS}) \<and>
      (k = length (memory s) \<and> (\<forall>x \<in> set (memory s). valid_entry x) \<and> \<not> is_init_alloc (m_type (hd (memory s))) \<and>
        \<not> is_init_alloc (m_type (last (memory s))) \<longrightarrow> boot_map_ok (memory s)))"
proof -
  obtain k n where k: "0 < k" "k \<le> n" "k \<le> 1536" "base_at arr 0 = 0" "base_at arr k = 0"
    and step': "\<forall>j<k. (j = 0 \<or> base_at arr j \<noteq> 0) \<and> base_at arr j \<le> base_at arr (j + 1) - 1"
    and boot: "\<exists>j<k. m_type (entry_at arr j) \<in> {B_MEM_BOOT_LOADER, B_MEM_UEFI_SYSCALLS}"
    and exe: "\<exists>j<k. m_type (entry_at arr j) = B_MEM_INIT_EXECUTABLE \<and> base_at arr j = addr - 0x10000 \<and> base_at arr (j + 1) = base_at arr j + 0x20000"
    and border: "\<exists>j<k. base_at arr (j + 1) = 0x100000000"
    and s: "s = \<lparr>memory = take n arr, map_addr = addr, manager_disabled = False, memory_lock = False\<rparr>"
    by (rule memory_init_main [OF init])
  let ?m = "memory s"
  have step: "(j = 0 \<or> base_at arr j \<noteq> 0) \<and> base_at arr j \<le> base_at arr (j + 1) - 1" if "j < k" for j
    using step' that by blast
  obtain b where b: "b < k" "base_at arr (b + 1) = 0x100000000" using border by blast
  then have b1: "b + 1 < k" using k(5) by (cases "b + 1 = k") auto
  have "base_at arr (k - 1) \<noteq> 0" using step [of "k - 1"] b1 by auto
  then have "k - 1 < length arr" by (auto simp: entry_at_def zero_entry_def split: if_splits)
  then have kl: "k \<le> length ?m" using k(1,2) by (simp add: s)
  have at: "?m ! j = entry_at arr j" if "j < length ?m" for j using that by (auto simp: s entry_at_def)
  have atk: "?m ! j = entry_at arr j" if "j < k" for j using at that kl by simp
  have lt: "m_base (?m ! j) < m_base (?m ! Suc j)" if "Suc j < k" for j
  proof -
    have "base_at arr (Suc j) \<noteq> 0" "base_at arr j \<le> base_at arr (Suc j) - 1" using step [of j] step [of "Suc j"] that by auto
    then have "base_at arr j < base_at arr (Suc j)"
      by (simp add: word_le_nat_alt word_less_nat_alt unat_minus_one unat_eq_zero) (metis Suc_pred le_imp_less_Suc unat_gt_0)
    then show ?thesis using atk that by simp
  qed
  have sorted: "sorted_wrt (<) (bases (take k ?m))" using lt kl by (subst sorted_wrt_iff_nth_Suc_transp) auto
  have base0: "m_base (?m ! 0) = 0" using atk [of 0] k(1,4) by simp
  have four: "0x100000000 \<in> set (bases (take k ?m))"
    using atk [OF b1] b(2) b1 kl nth_mem [of "b + 1" "bases (take k ?m)"] by simp
  have zero: "base_at ?m k = 0" using at [of k] k(5) by (cases "k < length ?m") (auto simp: entry_at_def zero_entry_def)
  obtain i where i: "i < k" "m_type (entry_at arr i) = B_MEM_INIT_EXECUTABLE" "base_at arr i = addr - 0x10000"
    "base_at arr (i + 1) = base_at arr i + 0x20000" using exe by blast
  have "base_at ?m (i + 1) = base_at arr (i + 1)"
  proof (cases "i + 1 < k")
    case True
    then show ?thesis using atk kl by (simp add: entry_at_def [of ?m])
  next
    case False
    then have "i + 1 = k" using i(1) by simp
    then show ?thesis using zero k(5) by simp
  qed
  then have exe': "\<exists>i < k. m_type (?m ! i) = B_MEM_INIT_EXECUTABLE \<and> m_base (?m ! i) = addr - 0x10000 \<and> base_at ?m (i + 1) = addr + 0x10000"
    using i atk [OF i(1)] by (intro exI [of _ i]) simp
  have boot': "\<exists>i < k. m_type (?m ! i) \<in> {B_MEM_BOOT_LOADER, B_MEM_UEFI_SYSCALLS}" using boot atk by auto
  have "boot_map_ok ?m" if "k = length ?m" "\<forall>x \<in> set ?m. valid_entry x" "\<not> is_init_alloc (m_type (hd ?m))" "\<not> is_init_alloc (m_type (last ?m))"
  proof -
    have "take k ?m = ?m" using that(1) by simp
    then show ?thesis using sorted four base0 that k(1,3) by (auto simp: boot_map_ok_def hd_conv_nth)
  qed
  moreover have "2 \<le> k" using b1 by simp
  moreover have "?m = take (length ?m) arr" "map_addr s = addr" "\<not> manager_disabled s" "\<not> memory_lock s" by (simp_all add: s min_def)
  ultimately show ?thesis using kl k(3) zero sorted base0 four exe' boot' by blast
qed

definition boot_example :: "mem_entry list" where
  "boot_example = map (\<lambda>(t, f, b). \<lparr>m_type = t, m_flags = f, m_base = b, m_other = replicate 16 0\<rparr>)
    [(B_MEM_NORMAL, 1, 0), (B_MEM_NORMAL, 1, 0x8000000), (8, 1, 0x1FFF8000), (B_MEM_INIT_EXECUTABLE, 1, 0x20000000),
     (B_MEM_BOOT_LOADER, 1, 0x20020000), (8, 1, 0x20030000), (8, 1, 0x100000000)]"

abbreviation boot_example_state :: boot_state where
  "boot_example_state \<equiv> \<lparr>memory = boot_example, map_addr = 0x20010000, manager_disabled = False, memory_lock = False\<rparr>"

lemma boot_example_ok: "boot_map_ok boot_example"
  by (simp add: boot_map_ok_def boot_example_def valid_entry_def is_init_alloc_def b_mem_types)

lemma boot_example_init: "memory_init 0x20010000 boot_example = Some boot_example_state"
  by code_simp

lemma boot_example_alloc: "fst (memory_aligned_alloc 16 0x100 boot_example_state) = 0x1FFF7F00"
  by code_simp

lemma boot_example_pair:
  "memory_aligned_alloc 16 0x100 boot_example_state = (0x1FFF7F00, snd (memory_aligned_alloc 16 0x100 boot_example_state))"
  using boot_example_alloc by (metis prod.collapse)

theorem boot_init_correct_witness:
  "map_addr boot_example_state = 0x20010000 \<and>
    (\<exists>k. 2 \<le> k \<and> k \<le> 7 \<and> sorted_wrt (<) (bases (take k boot_example)) \<and> 0x100000000 \<in> set (bases (take k boot_example)))"
proof -
  have l: "length (memory boot_example_state) = 7" by (simp add: boot_example_def)
  from boot_init_correct [OF boot_example_init, unfolded l] show ?thesis by auto
qed



text \<open>
  C39. Release. While the lock is free, \<^verbatim>\<open>free\<close> returns and keeps the map in order. Of a block it makes
  free memory again, with its flags and attributes, and every other block and every other address stays as it is; a
  pointer that no allocation returned changes nothing. Releasing what was just allocated restores the map at
  every address.
\<close>

theorem boot_free_correct:
  assumes ok: "boot_map_ok (memory s)" and free: "\<not> memory_lock s"
  shows "\<exists>s'. boot_free p s = Some s' \<and> boot_map_ok (memory s') \<and> s' = s\<lparr>memory := memory s'\<rparr> \<and>
    (\<forall>e. (unat p, e) \<in> alloc_blocks (memory s) \<longrightarrow>
      alloc_blocks (memory s') = alloc_blocks (memory s) - {(unat p, e)} \<and>
      (\<forall>a. region_at (memory s') a =
        (if unat p \<le> unat a \<and> unat a < e then map_option (\<lambda>(t, f, r). (B_MEM_NORMAL, f, r)) (region_at (memory s) a)
         else region_at (memory s) a))) \<and>
    ((\<forall>e. (unat p, e) \<notin> alloc_blocks (memory s)) \<longrightarrow>
      region_at (memory s') = region_at (memory s) \<and> alloc_blocks (memory s') = alloc_blocks (memory s)) \<and>
    (\<forall>al sz s0. boot_map_ok (memory s0) \<and> \<not> manager_disabled s0 \<and> p \<noteq> 0 \<and> memory_aligned_alloc al sz s0 = (p, s) \<longrightarrow>
      region_at (memory s') = region_at (memory s0) \<and> alloc_blocks (memory s') = alloc_blocks (memory s0))"
proof -
  obtain s' where f: "boot_free p s = Some s'" using free by (cases "p = 0") (auto simp: boot_free_def)
  note fm = boot_free_main [OF ok f free]
  have "region_at (memory s') = region_at (memory s0) \<and> alloc_blocks (memory s') = alloc_blocks (memory s0)"
    if a: "boot_map_ok (memory s0)" "\<not> manager_disabled s0" "p \<noteq> 0" "memory_aligned_alloc al sz s0 = (p, s)" for al sz s0
  proof -
    from memory_alloc_main(2) [OF a(1,4,3)] a(2) obtain e where eff: "alloc_effect s0 s al sz p e B_MEM_INIT_ALLOC_MIN" by auto
    then obtain fl r where e: "p < e" and new: "\<And>x. p \<le> x \<Longrightarrow> x < e \<Longrightarrow> region_at (memory s0) x = Some (B_MEM_NORMAL, fl, r) \<and>
        region_at (memory s) x = Some (B_MEM_INIT_ALLOC_MIN, fl, r)"
      and old: "\<And>x. \<not> (p \<le> x \<and> x < e) \<Longrightarrow> region_at (memory s) x = region_at (memory s0) x"
      and bl: "alloc_blocks (memory s) = insert (unat p, unat e) (alloc_blocks (memory s0))"
      using a(2) unfolding alloc_effect_def by auto
    have "(unat p, unat e) \<notin> alloc_blocks (memory s0)"
      using alloc_effect_apart [OF a(1) eff] e by (fastforce simp: word_less_nat_alt)
    moreover note fm(4) [of "unat e"] bl
    moreover have "region_at (memory s') x = region_at (memory s0) x" for x
      using fm(4) [of "unat e"] bl new [of x] old [of x] by (cases "p \<le> x \<and> x < e") (auto simp: word_le_nat_alt word_less_nat_alt)
    ultimately show ?thesis by auto
  qed
  then show ?thesis using f fm by (intro exI [of _ s']) blast
qed

theorem boot_free_correct_witness:
  "\<exists>s'. boot_free 0x1FFF7F00 (snd (memory_aligned_alloc 16 0x100 boot_example_state)) = Some s' \<and> alloc_blocks (memory s') = {}"
proof -
  let ?s = "snd (memory_aligned_alloc 16 0x100 boot_example_state)"
  have ok: "boot_map_ok (memory boot_example_state)" using boot_example_ok by simp
  have p: "(0x1FFF7F00 :: u64) \<noteq> 0" by simp
  note al = boot_example_pair
  obtain e t where "alloc_effect boot_example_state ?s 16 0x100 0x1FFF7F00 e t" using memory_alloc_main(2) [OF ok al p] by blast
  then have "?s = boot_example_state\<lparr>memory := memory ?s\<rparr>" by (simp add: alloc_effect_def)
  then obtain w where w: "?s = boot_example_state\<lparr>memory := w\<rparr>" by blast
  have nl: "\<not> memory_lock ?s" unfolding w by simp
  from boot_free_correct [OF memory_alloc_main(1) [OF ok al p] nl, of "0x1FFF7F00"] obtain s' where
    s': "boot_free 0x1FFF7F00 ?s = Some s'" and undo: "\<forall>al sz s0. boot_map_ok (memory s0) \<and> \<not> manager_disabled s0 \<and> (0x1FFF7F00 :: u64) \<noteq> 0 \<and>
      memory_aligned_alloc al sz s0 = (0x1FFF7F00, ?s) \<longrightarrow>
      region_at (memory s') = region_at (memory s0) \<and> alloc_blocks (memory s') = alloc_blocks (memory s0)" by (elim exE conjE) (rule that, assumption+)
  have "\<not> manager_disabled boot_example_state" by simp
  then have "alloc_blocks (memory s') = alloc_blocks (memory boot_example_state)" using undo [rule_format, OF conjI, OF ok conjI, OF _ conjI, OF _ p al] by simp
  moreover have "alloc_blocks boot_example = {}" by (simp add: boot_example_def is_init_alloc_def b_mem_types)
  ultimately show ?thesis using s' by simp
qed

text \<open>The types of memory that the kernel takes over as reserved: the loader's, the init executable's, its allocations, the databases.\<close>

definition loader_memory :: "u32 \<Rightarrow> bool" where
  "loader_memory t \<longleftrightarrow> t \<in> {0x00000001, 0x00000002, 0x00000003, 0x00000004, 0x80000004, 0x80000005, 0x80860000} \<or>
    0x80860001 \<le> t \<and> t \<le> 0x8086FFFF \<or> 0xDB000000 \<le> t \<and> t \<le> 0xDB00FFFF"

lemma reserved_loader: "reserved_type t = (if loader_memory t then B_MEM_KERNEL_RESERVED else t)"
  by (auto simp: reserved_type_def loader_memory_def is_init_alloc_def b_mem_types)

text \<open>
  C40. Handing the memory over. For a map in order that holds no memory of the kernel yet,
  \<^verbatim>\<open>memory_disable_manager\<close> returns: its loop of allocations ends. The memory that was free becomes memory of
  the kernel; the memory of the types of the UEFI loader and boot services (1 to 4), of the loader, its system calls, the init
  executable with its allocations, and the databases becomes reserved by the kernel; every other address
  keeps its type; flags and attributes stay everywhere. At most one block is left for the kernel itself, of usable
  memory below 4 GiB. The map stays in order, and the lock is never free again.
\<close>

theorem boot_disable_correct:
  assumes "boot_map_ok (memory s)" "\<not> memory_lock s" "\<forall>x \<in> set (memory s). m_type x \<noteq> 0xE0000000"
  shows "\<exists>s'. memory_disable_manager s = Some s' \<and> boot_map_ok (memory s') \<and> manager_disabled s' \<and> memory_lock s' \<and>
    alloc_blocks (memory s') = {} \<and>
    length (filter (\<lambda>x. m_type x = 0xE0000000) (memory s')) \<le> 1 \<and>
    (\<forall>a t f r. region_at (memory s) a = Some (t, f, r) \<longrightarrow>
      (if t = 7 then
         (\<exists>t'. region_at (memory s') a = Some (t', f, r) \<and>
           (t' = 0xE000FFFF \<or> t' = 0xE0000000 \<and> f AND 0x10000 = 0 \<and> unat a < 2 ^ 32))
       else region_at (memory s') a = Some (if loader_memory t then 0xE000FFFF else t, f, r)))"
  using disable_main [OF assms(1,2)] assms(3) unfolding reserved_loader unfolding b_mem_types by blast

theorem boot_disable_correct_witness:
  "\<exists>s'. memory_disable_manager boot_example_state = Some s' \<and> length (filter (\<lambda>x. m_type x = 0xE0000000) (memory s')) \<le> 1 \<and>
    region_at (memory s') 0x20020000 = Some (0xE000FFFF, 1, replicate 16 0) \<and>
    region_at (memory s') 0x1FFF8000 = Some (8, 1, replicate 16 0)"
proof -
  have "\<forall>x \<in> set (memory boot_example_state). m_type x \<noteq> 0xE0000000" by (simp add: boot_example_def b_mem_types)
  from boot_disable_correct [OF _ _ this] boot_example_ok obtain s' where
    s': "memory_disable_manager boot_example_state = Some s'" "length (filter (\<lambda>x. m_type x = 0xE0000000) (memory s')) \<le> 1"
    and reg: "\<forall>a t f r. region_at boot_example a = Some (t, f, r) \<longrightarrow>
      (if t = 7 then
         (\<exists>t'. region_at (memory s') a = Some (t', f, r) \<and>
           (t' = 0xE000FFFF \<or> t' = 0xE0000000 \<and> f AND 0x10000 = 0 \<and> unat a < 2 ^ 32))
       else region_at (memory s') a = Some (if loader_memory t then 0xE000FFFF else t, f, r))" by auto
  have "region_at boot_example 0x20020000 = Some (0x80000004, 1, replicate 16 0)"
    "region_at boot_example 0x1FFF8000 = Some (8, 1, replicate 16 0)"
    by (simp_all add: boot_example_def attributes_def kind_def is_init_alloc_def b_mem_types)
  then have "region_at (memory s') 0x20020000 = Some (0xE000FFFF, 1, replicate 16 0)"
    "region_at (memory s') 0x1FFF8000 = Some (8, 1, replicate 16 0)"
    using reg by (force simp: loader_memory_def)+
  then show ?thesis using s' by blast
qed

end
