(* ===== verification/Spec2Isabelle.thy ===== *)
theory Spec2Isabelle
  imports Prelude Utf8 Heap Mm Epoch Alloc Pipe Deflate Fat_Write Fat_Read Crc Strtol Sort_Search Boot_Memory
begin

text \<open>
  Verification of core components of the Dancy operating system.

  Dancy is a kernel, its boot loader, a C library (``Arctic''), user programs and host tools, written in C.
  The development models those parts that carry the system's own logic and do not depend on the
  hardware or on assembly: memory management from the memory map at boot over physical frames up to the allocator of the C
  library, the byte channels between processes, the time format, checksums, parts of the C library, the character coder, the compression
  that packs the boot image, and the FAT file system driver that the boot loader and the kernel share.

  \<^bold>\<open>Theories and code.\<close>

  \<^item> \<open>Prelude\<close>: C integer types as words, the collections of rewrite rules, masks and byte packing.

  \<^item> \<open>Region_Map\<close>: the sorted address map of both allocators, the loops of \<^verbatim>\<open>heap_aligned_alloc\<close>
    and \<^verbatim>\<open>heap_free\<close> of \<^verbatim>\<open>src/kernel/base/heap.c\<close>, which \<^verbatim>\<open>src/arctic/libc/stdlib/alloc.c\<close>
    has again.

  \<^item> \<open>Allocator\<close> is the contract \<open>block_allocator\<close>. \<open>Heap\<close> (\<^verbatim>\<open>src/kernel/base/heap.c\<close> with the
    kernel's \<^verbatim>\<open>malloc\<close>, \<^verbatim>\<open>calloc\<close>, \<^verbatim>\<open>strdup\<close>) and \<open>Alloc\<close> (the C library) model the two allocators
    and interpret it. The state is the region map with the bounds of the managed range; in \<open>Alloc\<close> also
    the memory, for \<^verbatim>\<open>realloc\<close>, and the initialisation state. Shown are
    the invariant of every operation, the functional behaviour of allocation and release, completeness
    of failure, round trips, and termination up to the spin on the one-time initialisation.

  \<^item> \<open>Frame_Allocator\<close> is the contract of page frame allocators with its client; \<open>Mm\<close>
    (\<^verbatim>\<open>src/kernel/base/mm.c\<close>) models the bitmap of frames, all six memory types, the placement of the
    bitmap and its filling from the firmware's memory map, on top of the heap model. Shown are which block is
    returned, that failure means that none exists, that frames are never handed out twice in any
    sequence of calls, and the correctness of \<^verbatim>\<open>mm_init\<close>.

  \<^item> \<open>Epoch\<close> (\<^verbatim>\<open>src/common/epoch.c\<close>): both directions of the conversion, with all rejected strings.

  \<^item> \<open>Utf8\<close> (\<^verbatim>\<open>src/common/utf8.c\<close>): the incremental decoder as a state machine and the encoder; the
    state of the decoder is the packed integer of the code.

  \<^item> \<open>Fifo\<close> is the contract of a byte queue under interleaving; \<open>Pipe\<close> (\<^verbatim>\<open>src/kernel/vfs/pipe.c\<close>)
    models the ring buffer with its rounds of reading and writing, atomic writes and closing, and
    refines the queue.

  \<^item> \<open>Symbol_Code\<close> is the contract of a prefix code; \<open>Bitarray\<close>, \<open>Huffman\<close> and \<open>Inflate\<close>
    (\<^verbatim>\<open>src/kernel/lib\<close>) and \<open>Deflate\<close> (\<^verbatim>\<open>src/tools/dy-zip/deflate.c\<close>) model the compression
    code down to the bit, up to the theorem that what the tool compresses the kernel restores.

  \<^item> \<open>Fat_Base\<close>, \<open>Fat_Bpb\<close>, \<open>Fat_Table\<close>, \<open>Fat_Cluster\<close>, \<open>Fat_Chain\<close>, \<open>Fat\<close> and \<open>Fat_Reach\<close> model
    the lower half of \<^verbatim>\<open>src/common/fat.c\<close>: the instance as a record with the fields of
    \<^verbatim>\<open>struct fat_instance\<close> and the device; mounting; the table with its window and its marks of
    modified sectors; sectors, clusters and records; the chains of clusters; unmounting. The abstract state
    is a map from cluster numbers to entries (\<open>tracks\<close>), which each operation updates as stated for all
    three formats, unless a device error has set \<^verbatim>\<open>ready\<close> to 0. Files are chains in that map.

  \<^item> \<open>Fat_Name\<close> (time stamps, paths, 8.3 names and modes), \<open>Fat_File\<close> (descriptors, seeking and
    reading), \<open>Fat_Dir\<close> (directories, opening, removing, renaming) and \<open>Fat_Write\<close> (writing and
    \<^verbatim>\<open>fat_control\<close>) model its upper half. \<open>Fat_Read\<close> proves reading correct: the contents of a file
    are the clusters of its chain (\<open>file_data\<close>), and a read returns a part of them. The names a path goes through
    are given by \<open>path_names\<close> and \<open>short_name\<close>, and the code's splitter computes exactly them; an access outside of its
    buffer would be the value \<open>Path_overrun\<close>. Paths, time stamps and
    seeking have their theorems in \<open>Fat_Name\<close> and \<open>Fat_File\<close>; about directories and writing no theorem
    is stated, their definitions are there to be read and evaluated.

  \<^item> \<open>Boot_Memory\<close> (\<^verbatim>\<open>src/boot/init/memory.c\<close>): the memory manager before the kernel, the third instance of
    \<open>block_allocator\<close>. The state is the memory map of the boot loader, seen through \<open>region_at\<close>, the type of
    each address, and \<open>alloc_blocks\<close>. Shown are which maps are accepted, allocation with the
    completeness of failure, release, and that the memory handed to the kernel is exactly what was free or
    the loader's.

  \<^item> \<open>Crc\<close> (\<^verbatim>\<open>src/common/crc32.c\<close>, \<^verbatim>\<open>crc32c.c\<close>): the two checksums; every error burst of
    up to four bytes is detected, and a message that carries its checksum has a constant one.

  \<^item> \<open>Strtol\<close> (\<^verbatim>\<open>src/arctic/libc/stdlib\<close>: \<^verbatim>\<open>_ull.c\<close>, \<^verbatim>\<open>strtol\<close> and its relatives,
    \<^verbatim>\<open>atoi\<close>): strings to integers of each width, clamped to the type with the error \<^verbatim>\<open>ERANGE\<close>.

  \<^item> \<open>Sort_Search\<close> (\<^verbatim>\<open>qsort.c\<close>, \<^verbatim>\<open>bsearch.c\<close> of the C library): sorting on the bytes of an
    array, swaps included, and binary search; sorting is a stable permutation into ascending order, and the
    search finds the key in every array that the key partitions.

  \<^bold>\<open>Conventions.\<close> Integers that can wrap are words or are reduced modulo the power of two where the code
  can reach the limit; others are naturals with the bound in the invariant. Buffers are lists, a null
  buffer the empty list. Errors are the code's numbers, or \<^const>\<open>None\<close> for an early return inside a
  loop. Loops are recursive functions with a measure. Loops that may not end are partial functions whose
  result \<^const>\<open>None\<close> is not returning; that they return is proved (\<^verbatim>\<open>delete_clusters\<close>, the last allocations at boot, the loop of
  \<^verbatim>\<open>epoch_convert\<close>, the initialisation of the allocators). No fuel is used where the code has none:
  the recursion of a loop is on its own counter. The critical sections of the code are single steps.

  \<^bold>\<open>Parameters.\<close> What lies outside of the modelled files is an argument: \<^verbatim>\<open>mmap\<close> and the mutex of the
  C library, the mutex of \<^verbatim>\<open>mm.c\<close>, node and event creation of the pipes, the success of \<^verbatim>\<open>malloc\<close>
  in \<open>Deflate\<close> and \<open>Fat\<close>, and the block device of the FAT driver. For the device the theorems
  assume \<open>block_device\<close>: a read does not change the contents and, when it succeeds, returns them; a write
  changes only its range and, when it succeeds, stores the data; a failed write may leave anything there.
  An in-memory device (\<open>ram_env\<close>) shows that this can hold.

  \<^bold>\<open>Defects found.\<close> A growing region map can overlap the block being allocated
  (\<open>heap_map_growth_overlap\<close>). An entry of a FAT12 table that straddles a sector boundary other than the
  first is written back by half (\<open>fat12_lost_update\<close>). An invalid base is not reported by
  \<^verbatim>\<open>strtol\<close> when the string begins with \<^verbatim>\<open>0x\<close> (\<open>strtol_bad_base\<close>).

  \<^bold>\<open>Not modelled.\<close> Boot stages apart from their memory manager, paging, interrupts, task switching, drivers, console and system call glue:
  they consist of hardware access, assembly and dispatch. The glue that joins the FAT driver to
  the virtual file system. The C library apart from its allocator, the conversions to integers,
  sorting and searching, the user programs, the font rasteriser and the remaining host tools are left for later.
\<close>

end
